(* ===== verification/Prelude.thy ===== *)
theory Prelude
  imports Main "HOL-Library.Word"
begin

text \<open>
  Shared vocabulary of the development: the machine integer types of the C code, the
  result type that carries every way a kernel routine can fail to return, the page
  arithmetic of \<^verbatim>\<open>kernel/include/mem.h\<close>, and the generic facts on words, lists and
  results that the component theories use.
\<close>

unbundle bit_operations_syntax

section \<open>Types\<close>

type_synonym u8 = "8 word"
type_synonym u16 = "16 word"
type_synonym u32 = "32 word"
type_synonym u64 = "64 word"
type_synonym addr = "64 word"  \<comment> \<open>\<^verbatim>\<open>uintptr_t\<close> and every pointer; 0 is the null pointer\<close>
type_synonym mem = "addr \<Rightarrow> u8"  \<comment> \<open>the kernel's address space, byte by byte\<close>

text \<open>
  How a routine can fail to return a value: the explicit \<^verbatim>\<open>for(;;);\<close> after an error
  message, a dereference of the null pointer, an access past the end of an array, an access to
  an object that is not allocated, a division by zero, and a loop that never ends.
\<close>

datatype kerr = Panic string | NullDeref | OutOfBounds | UseAfterFree | DivideError | Diverges

type_synonym 'a res = "kerr + 'a"

named_theorems addr_simps \<open>page arithmetic\<close>
named_theorems res_simps \<open>inversion of results\<close>

section \<open>Results\<close>

fun bindR :: "'a res \<Rightarrow> ('a \<Rightarrow> 'b res) \<Rightarrow> 'b res" where
  "bindR (Inl e) f = Inl e"
| "bindR (Inr x) f = f x"

definition of_option :: "kerr \<Rightarrow> 'a option \<Rightarrow> 'a res" where
  "of_option e r = (case r of None \<Rightarrow> Inl e | Some x \<Rightarrow> Inr x)"

definition deref :: "addr \<Rightarrow> 'a \<Rightarrow> 'a res" where
  "deref p x = (if p = 0 then Inl NullDeref else Inr x)"

text \<open>A loop over the elements of a list, in order, stopping at the first failure.\<close>

fun foldR :: "('a \<Rightarrow> 's \<Rightarrow> 's res) \<Rightarrow> 'a list \<Rightarrow> 's \<Rightarrow> 's res" where
  "foldR f [] s = Inr s"
| "foldR f (x # xs) s = bindR (f x s) (foldR f xs)"

lemma bindR_cong [fundef_cong]:
  "r = r' \<Longrightarrow> (\<And>x. r' = Inr x \<Longrightarrow> f x = g x) \<Longrightarrow> bindR r f = bindR r' g"
  by (cases r') auto

lemma bindR_Inr_iff [res_simps]: "bindR r f = Inr y \<longleftrightarrow> (\<exists>x. r = Inr x \<and> f x = Inr y)"
  by (cases r) auto

lemma bindR_Inl_iff: "bindR r f = Inl e \<longleftrightarrow> r = Inl e \<or> (\<exists>x. r = Inr x \<and> f x = Inl e)"
  by (cases r) auto

lemma of_option_Inr_iff [res_simps]: "of_option e r = Inr x \<longleftrightarrow> r = Some x"
  by (auto simp: of_option_def split: option.splits)

lemma of_option_Some [simp]: "of_option e (Some x) = Inr x"
  by (simp add: of_option_def)

lemma of_option_None [simp]: "of_option e None = Inl e"
  by (simp add: of_option_def)

lemma deref_Inr_iff [res_simps]: "deref p x = Inr y \<longleftrightarrow> p \<noteq> 0 \<and> y = x"
  by (auto simp: deref_def)

lemma deref_simps [simp]: "deref 0 x = Inl NullDeref" "p \<noteq> 0 \<Longrightarrow> deref p x = Inr x"
  by (auto simp: deref_def)

lemma bindR_split: "P (bindR r f) \<longleftrightarrow> (\<forall>e. r = Inl e \<longrightarrow> P (Inl e)) \<and> (\<forall>x. r = Inr x \<longrightarrow> P (f x))"
  by (cases r) auto

lemma bindR_assoc: "bindR (bindR r f) g = bindR r (\<lambda>x. bindR (f x) g)"
  by (cases r) auto

lemma foldR_append: "foldR f (xs @ ys) s = bindR (foldR f xs s) (foldR f ys)"
  by (induction xs arbitrary: s) (auto simp: bindR_assoc intro: bindR_cong)

lemma foldR_inv:
  assumes "foldR f xs s = Inr s'" and "P s"
    and "\<And>x s s'. x \<in> set xs \<Longrightarrow> P s \<Longrightarrow> f x s = Inr s' \<Longrightarrow> P s'"
  shows "P s'"
  using assms
proof (induction xs arbitrary: s)
  case Nil
  then show ?case by simp
next
  case (Cons x xs)
  from Cons.prems(1) obtain s1 where s1: "f x s = Inr s1" "foldR f xs s1 = Inr s'"
    by (auto simp: bindR_Inr_iff)
  with Cons.prems(2,3) have "P s1" by (meson list.set_intros(1))
  with s1 Cons.prems(3) show ?case by (auto intro: Cons.IH)
qed

section \<open>Page arithmetic (mem.h)\<close>

definition USERSPACE_TOP :: addr where "USERSPACE_TOP = 0x0000800000000000"
definition KERNEL_OFFSET :: addr where "KERNEL_OFFSET = 0xFFFFFF8000000000"
definition KERNEL_HEAP_S :: addr where "KERNEL_HEAP_S = 0xFFFFFFC000000000"

definition V2P :: "addr \<Rightarrow> addr" where "V2P a = a - KERNEL_OFFSET"
definition P2V :: "addr \<Rightarrow> addr" where "P2V a = a + KERNEL_OFFSET"

abbreviation (input) PAGE_SIZE :: addr where "PAGE_SIZE \<equiv> 0x1000"
abbreviation (input) PAGE_FLAGS_MASK :: addr where "PAGE_FLAGS_MASK \<equiv> 0xFFF"

abbreviation (input) PAGE_PRESENT :: addr where "PAGE_PRESENT \<equiv> 0x001"
abbreviation (input) PAGE_WRITE :: addr where "PAGE_WRITE \<equiv> 0x002"
abbreviation (input) PAGE_USER :: addr where "PAGE_USER \<equiv> 0x004"
abbreviation (input) PAGE_HUGE :: addr where "PAGE_HUGE \<equiv> 0x080"

definition PAGE_OFFSET :: "addr \<Rightarrow> addr" where "PAGE_OFFSET p = p AND 0xFFF"
definition P1_OFFSET :: "addr \<Rightarrow> addr" where "P1_OFFSET p = drop_bit 12 p AND 0x1FF"
definition P2_OFFSET :: "addr \<Rightarrow> addr" where "P2_OFFSET p = drop_bit 21 p AND 0x1FF"
definition P3_OFFSET :: "addr \<Rightarrow> addr" where "P3_OFFSET p = drop_bit 30 p AND 0x1FF"
definition P4_OFFSET :: "addr \<Rightarrow> addr" where "P4_OFFSET p = drop_bit 39 p AND 0x1FF"

definition STRIP_FLAGS :: "addr \<Rightarrow> addr" where "STRIP_FLAGS a = a AND NOT PAGE_FLAGS_MASK"
definition ADD_FLAGS :: "addr \<Rightarrow> addr \<Rightarrow> addr" where
  "ADD_FLAGS a flags = a OR (flags AND PAGE_FLAGS_MASK)"

definition page_aligned :: "addr \<Rightarrow> bool" where "page_aligned a \<longleftrightarrow> a AND 0xFFF = 0"

subsection \<open>Words as natural numbers\<close>

lemma unat_less64: "unat (a::addr) < 18446744073709551616"
proof -
  have "(2::nat) ^ LENGTH(64) = 18446744073709551616" by simp
  then show ?thesis by (metis unsigned_less)
qed

lemma unat_and_mask: "unat (a AND mask n) = unat (a::addr) mod 2 ^ n"
proof -
  have "unat (take_bit n a) = take_bit n (unat a)"
    by (rule unsigned_take_bit_eq)
  then show ?thesis by (simp only: take_bit_eq_mask [symmetric] take_bit_eq_mod)
qed

lemma unat_drop_bit: "unat (drop_bit n (a::addr)) = unat a div 2 ^ n"
  using unat_drop_bit_eq [of n a] by (simp only: drop_bit_eq_div)

lemma mask12: "(0xFFF::addr) = mask 12"
  by (simp add: mask_eq_exp_minus_1)

lemma mask9: "(0x1FF::addr) = mask 9"
  by (simp add: mask_eq_exp_minus_1)

lemma unat_inject64: "unat (a::addr) = unat b \<Longrightarrow> a = b"
  by (simp add: word_unat_eq_iff)

lemma unat_add_eq: "unat (a::addr) + unat b < 18446744073709551616 \<Longrightarrow> unat (a + b) = unat a + unat b"
  by (simp add: unat_plus_if')

lemma unat_of_nat_eq: "n < 18446744073709551616 \<Longrightarrow> unat (of_nat n :: addr) = n"
  by (simp add: unat_of_nat)

subsection \<open>Kernel window and page offsets\<close>

lemma V2P_P2V [simp]: "V2P (P2V a) = a"
  by (simp add: V2P_def P2V_def)

lemma P2V_V2P [simp]: "P2V (V2P a) = a"
  by (simp add: V2P_def P2V_def)

lemma P2V_inject [simp]: "P2V a = P2V b \<longleftrightarrow> a = b"
  by (simp add: P2V_def)

lemma V2P_inject [simp]: "V2P a = V2P b \<longleftrightarrow> a = b"
  by (simp add: V2P_def)

lemma page_aligned_unat: "page_aligned a \<longleftrightarrow> 4096 dvd unat a"
proof -
  have "page_aligned a \<longleftrightarrow> unat (a AND mask 12) = 0"
    by (simp add: page_aligned_def mask12 unat_eq_0)
  then show ?thesis by (simp add: unat_and_mask mod_eq_0_iff_dvd)
qed

lemma unat_PAGE_OFFSET: "unat (PAGE_OFFSET a) = unat a mod 4096"
  using unat_and_mask [of a 12] by (simp add: PAGE_OFFSET_def mask12)

lemma STRIP_plus_OFFSET: "STRIP_FLAGS a + PAGE_OFFSET a = a"
proof -
  have "STRIP_FLAGS a AND PAGE_OFFSET a = 0"
    by (simp add: STRIP_FLAGS_def PAGE_OFFSET_def mask12 bit_eq_iff bit_simps)
  then have "STRIP_FLAGS a + PAGE_OFFSET a = STRIP_FLAGS a OR PAGE_OFFSET a"
    by (rule disjunctive_add_eq_or)
  also have "\<dots> = a"
    by (simp add: STRIP_FLAGS_def PAGE_OFFSET_def mask12 bit_eq_iff bit_simps) auto
  finally show ?thesis .
qed

lemma unat_STRIP_FLAGS: "unat (STRIP_FLAGS a) = unat a div 4096 * 4096"
proof -
  have "unat a mod 4096 \<le> unat a" by simp
  moreover have "STRIP_FLAGS a = a - PAGE_OFFSET a"
    using STRIP_plus_OFFSET [of a] by (simp add: eq_diff_eq)
  ultimately show ?thesis
    by (simp add: unat_sub_if' unat_PAGE_OFFSET minus_mod_eq_div_mult)
qed

lemma page_aligned_STRIP [simp]: "page_aligned (STRIP_FLAGS a)"
  by (simp add: page_aligned_unat unat_STRIP_FLAGS)

lemma STRIP_STRIP [simp]: "STRIP_FLAGS (STRIP_FLAGS a) = STRIP_FLAGS a"
  by (simp add: STRIP_FLAGS_def ac_simps)

lemma STRIP_ADD_FLAGS [simp]: "STRIP_FLAGS (ADD_FLAGS a f) = STRIP_FLAGS a"
  by (simp add: STRIP_FLAGS_def ADD_FLAGS_def mask12 bit_eq_iff bit_simps) auto

lemma STRIP_aligned [simp]: "page_aligned a \<Longrightarrow> STRIP_FLAGS a = a"
  by (simp add: page_aligned_def STRIP_FLAGS_def mask12 bit_eq_iff bit_simps) auto

lemma unat_add_offset: "page_aligned a \<Longrightarrow> unat k < 4096 \<Longrightarrow> unat (a + k) = unat a + unat k"
proof -
  assume *: "page_aligned a" "unat k < 4096"
  from * obtain c where "unat a = 4096 * c" by (auto simp: page_aligned_unat)
  with * unat_less64 [of a] show ?thesis by (simp add: unat_plus_if')
qed

lemma STRIP_FLAGS_add_offset [addr_simps]:
  "page_aligned a \<Longrightarrow> unat k < 4096 \<Longrightarrow> STRIP_FLAGS (a + k) = a"
  by (simp add: word_unat_eq_iff)
    (auto simp: page_aligned_unat unat_STRIP_FLAGS unat_add_offset elim!: dvdE)

lemma PAGE_OFFSET_add_offset [addr_simps]:
  "page_aligned a \<Longrightarrow> unat k < 4096 \<Longrightarrow> PAGE_OFFSET (a + k) = k"
  by (simp add: word_unat_eq_iff)
    (auto simp: page_aligned_unat unat_PAGE_OFFSET unat_add_offset elim!: dvdE)

lemma page_aligned_add: "page_aligned a \<Longrightarrow> page_aligned (a + b) \<longleftrightarrow> page_aligned b"
  by (auto simp: page_aligned_unat unat_word_ariths dvd_mod_iff dvd_add_right_iff)

lemma page_aligned_KERNEL_OFFSET [simp]: "page_aligned KERNEL_OFFSET"
  by (simp add: page_aligned_def KERNEL_OFFSET_def)

lemma page_aligned_P2V [simp]: "page_aligned (P2V a) \<longleftrightarrow> page_aligned a"
  by (metis P2V_def add.commute page_aligned_KERNEL_OFFSET page_aligned_add)

lemma page_aligned_V2P [simp]: "page_aligned (V2P a) \<longleftrightarrow> page_aligned a"
  by (metis P2V_V2P page_aligned_P2V)

text \<open>Two slots of two pages coincide only if the pages and the offsets do.\<close>

lemma page_slot_inject:
  assumes "page_aligned a" "page_aligned b" "unat i < 4096" "unat j < 4096"
  shows "a + i = b + j \<longleftrightarrow> a = b \<and> i = j"
  using assms by (metis STRIP_FLAGS_add_offset PAGE_OFFSET_add_offset)

lemma unat_P_OFFSET:
  "unat (P1_OFFSET a) < 512" "unat (P2_OFFSET a) < 512"
  "unat (P3_OFFSET a) < 512" "unat (P4_OFFSET a) < 512"
  by (simp_all add: P1_OFFSET_def P2_OFFSET_def P3_OFFSET_def P4_OFFSET_def mask9 unat_and_mask)

lemma mod_PAGE_SIZE: "(a::addr) mod 0x1000 = PAGE_OFFSET a"
  by (rule unat_inject64) (simp add: unat_PAGE_OFFSET unat_mod)

lemma unat_page_rest: "unat (0x1000 - PAGE_OFFSET a) = 4096 - unat a mod 4096"
  by (simp add: unat_sub_if' unat_PAGE_OFFSET)

lemma page_rest_pos: "0 < 0x1000 - (a::addr) mod 0x1000"
  by (simp add: word_less_nat_alt mod_PAGE_SIZE unat_page_rest)

lemma unat_diff_less: "0 < b \<Longrightarrow> b \<le> n \<Longrightarrow> unat (n - b) < unat (n::addr)"
  by (simp add: unat_sub word_le_nat_alt word_less_nat_alt)

lemma page_diff:
  assumes "page_aligned a"
  shows "b - a < 0x1000 \<longleftrightarrow> STRIP_FLAGS b = a"
proof
  assume "b - a < 0x1000"
  then have "unat (b - a) < 4096" by (simp add: word_less_nat_alt)
  from STRIP_FLAGS_add_offset [OF assms this] show "STRIP_FLAGS b = a" by simp
next
  assume "STRIP_FLAGS b = a"
  then have "b - a = PAGE_OFFSET b" using STRIP_plus_OFFSET [of b] by (metis add_diff_cancel_left')
  then show "b - a < 0x1000" by (simp add: word_less_nat_alt unat_PAGE_OFFSET)
qed

end
