(* ===== verification/KString.thy ===== *)
theory KString
  imports Prelude
begin

text \<open>
  Byte memory and \<^verbatim>\<open>kernel/mem/string.c\<close>. A pointer access is a load or store on
  the byte map \<^typ>\<open>mem\<close>; addresses wrap modulo \<open>2 ^ 64\<close>. The loops of
  \<^verbatim>\<open>memcpy\<close>, \<^verbatim>\<open>memset\<close>, \<^verbatim>\<open>memcmp\<close> and \<^verbatim>\<open>strncmp\<close>
  are recursive functions on the byte count; those of \<^verbatim>\<open>strlen\<close> and
  \<^verbatim>\<open>strcmp\<close>, which run until a zero byte, return an \<open>option\<close>.
\<close>

section \<open>64-bit accesses, little endian\<close>

definition byte_of :: "u64 \<Rightarrow> nat \<Rightarrow> u8" where
  "byte_of v k = ucast (drop_bit (8 * k) v)"

definition load64 :: "mem \<Rightarrow> addr \<Rightarrow> u64" where
  "load64 m a = horner_sum of_bool 2 (map (\<lambda>n. bit (m (a + of_nat (n div 8))) (n mod 8)) [0..<64])"

definition store64 :: "mem \<Rightarrow> addr \<Rightarrow> u64 \<Rightarrow> mem" where
  "store64 m a v = (\<lambda>b. if b - a < 8 then byte_of v (unat (b - a)) else m b)"

section \<open>string.c\<close>

primrec memcpy_loop :: "nat \<Rightarrow> addr \<Rightarrow> addr \<Rightarrow> mem \<Rightarrow> mem" where
  "memcpy_loop 0 dp sp m = m"
| "memcpy_loop (Suc n) dp sp m = memcpy_loop n (dp + 1) (sp + 1) (m(dp := m sp))"

definition memcpy :: "addr \<Rightarrow> addr \<Rightarrow> u64 \<Rightarrow> mem \<Rightarrow> mem" where
  "memcpy dest src n m = memcpy_loop (unat n) dest src m"

primrec memset_loop :: "nat \<Rightarrow> addr \<Rightarrow> u8 \<Rightarrow> mem \<Rightarrow> mem" where
  "memset_loop 0 p c m = m"
| "memset_loop (Suc n) p c m = memset_loop n (p + 1) c (m(p := c))"

definition memset :: "addr \<Rightarrow> u32 \<Rightarrow> u64 \<Rightarrow> mem \<Rightarrow> mem" where
  "memset s c n m = memset_loop (unat n) s (ucast c) m"

definition memmove :: "addr \<Rightarrow> addr \<Rightarrow> u64 \<Rightarrow> mem \<Rightarrow> mem" where
  "memmove dest src n m = memcpy dest src n m"

primrec memcmp_loop :: "nat \<Rightarrow> mem \<Rightarrow> addr \<Rightarrow> addr \<Rightarrow> int" where
  "memcmp_loop 0 m p1 p2 = 0"
| "memcmp_loop (Suc n) m p1 p2 =
     (if m p1 \<noteq> m p2 then uint (m p1) - uint (m p2) else memcmp_loop n m (p1 + 1) (p2 + 1))"

definition memcmp :: "mem \<Rightarrow> addr \<Rightarrow> addr \<Rightarrow> u64 \<Rightarrow> int" where
  "memcmp m s1 s2 n = memcmp_loop (unat n) m s1 s2"

partial_function (option) strlen_loop :: "mem \<Rightarrow> addr \<Rightarrow> u64 \<Rightarrow> u64 option" where
  "strlen_loop m s len = (if m s \<noteq> 0 then strlen_loop m (s + 1) (len + 1) else Some len)"

definition strlen :: "mem \<Rightarrow> addr \<Rightarrow> u64 option" where
  "strlen m s = strlen_loop m s 0"

primrec strncmp_loop :: "nat \<Rightarrow> mem \<Rightarrow> addr \<Rightarrow> addr \<Rightarrow> int" where
  "strncmp_loop 0 m s1 s2 = uint (m s1) - uint (m s2)"
| "strncmp_loop (Suc n) m s1 s2 =
     (if m s1 \<noteq> 0 \<and> m s1 = m s2 then strncmp_loop n m (s1 + 1) (s2 + 1)
      else uint (m s1) - uint (m s2))"

definition strncmp :: "mem \<Rightarrow> addr \<Rightarrow> addr \<Rightarrow> u64 \<Rightarrow> int" where
  "strncmp m s1 s2 n = strncmp_loop (unat n) m s1 s2"

partial_function (option) strcmp :: "mem \<Rightarrow> addr \<Rightarrow> addr \<Rightarrow> int option" where
  "strcmp m s1 s2 =
     (if m s1 \<noteq> 0 \<and> m s1 = m s2 then strcmp m (s1 + 1) (s2 + 1)
      else Some (uint (m s1) - uint (m s2)))"

section \<open>Facts on 64-bit accesses\<close>

lemma bit_load64: "bit (load64 m a) n \<longleftrightarrow> n < 64 \<and> bit (m (a + of_nat (n div 8))) (n mod 8)"
  by (auto simp: load64_def bit_horner_sum_bit_word_iff)

lemma load64_cong: "(\<And>k. k < 8 \<Longrightarrow> m (a + of_nat k) = m' (a + of_nat k)) \<Longrightarrow> load64 m a = load64 m' a"
  by (rule bit_word_eqI) (simp add: bit_load64)

lemma load64_zero: "(\<And>k. k < 8 \<Longrightarrow> m (a + of_nat k) = 0) \<Longrightarrow> load64 m a = 0"
  by (rule bit_word_eqI) (simp add: bit_load64)

lemma load64_store64_same [simp]: "load64 (store64 m a v) a = v"
proof (rule bit_word_eqI)
  fix n
  assume n: "n < LENGTH(64)"
  then have "n div 8 < 8" by simp
  then have k: "unat (of_nat (n div 8) :: addr) = n div 8" by (simp add: unat_of_nat_eq)
  then have "(of_nat (n div 8) :: addr) < 8" using \<open>n div 8 < 8\<close> by (simp add: word_less_nat_alt)
  then have "bit (load64 (store64 m a v) a) n \<longleftrightarrow> bit (byte_of v (n div 8)) (n mod 8)"
    using n k by (simp add: bit_load64 store64_def)
  also have "\<dots> \<longleftrightarrow> bit v n"
    using n by (simp add: byte_of_def bit_simps)
  finally show "bit (load64 (store64 m a v) a) n = bit v n" .
qed

definition aligned8 :: "addr \<Rightarrow> bool" where
  "aligned8 a \<longleftrightarrow> 8 dvd unat a"

lemma aligned8_apart:
  assumes "aligned8 a" "aligned8 b" "a \<noteq> b" "k < 8"
  shows "\<not> b + of_nat k - a < 8"
proof -
  obtain c d where cd: "unat a = 8 * c" "unat b = 8 * d"
    using assms(1,2) by (auto simp: aligned8_def dvd_def)
  have ne: "c \<noteq> d" using assms(3) cd by (auto simp: word_unat_eq_iff)
  have bk: "unat (b + of_nat k) = 8 * d + k"
    using unat_less64 [of b] cd assms(4) by (subst unat_add_eq) (auto simp: unat_of_nat_eq)
  have "unat (b + of_nat k - a) \<ge> 8"
    using ne bk cd assms(4) unat_less64 [of a] unat_less64 [of b]
    by (simp add: unat_sub_if') arith
  then show ?thesis by (simp add: word_less_nat_alt)
qed

lemma load64_store64_other:
  assumes "aligned8 a" "aligned8 b" "a \<noteq> b"
  shows "load64 (store64 m a v) b = load64 m b"
  using aligned8_apart [OF assms] by (intro load64_cong) (simp add: store64_def)

section \<open>Closed forms of the memory loops\<close>

lemma diff_succ_less:
  fixes b p :: addr
  assumes "n < 2 ^ 64" "b \<noteq> p"
  shows "unat (b - (p + 1)) < n \<longleftrightarrow> unat (b - p) < Suc n"
proof -
  have "b - p \<noteq> 0" using assms(2) by simp
  then have "unat (b - p - 1) = unat (b - p) - 1" "unat (b - p) > 0"
    by (auto simp: unat_minus_one unat_gt_0)
  then show ?thesis by (auto simp: diff_diff_eq)
qed

lemma memset_loop_apply:
  "n < 2 ^ 64 \<Longrightarrow> memset_loop n p c m b = (if unat (b - p) < n then c else m b)"
proof (induction n arbitrary: p m)
  case 0
  then show ?case by simp
next
  case (Suc n)
  then have IH: "memset_loop n (p + 1) c (m(p := c)) b
      = (if unat (b - (p + 1)) < n then c else (m(p := c)) b)"
    by simp
  show ?case
  proof (cases "b = p")
    case True
    then show ?thesis using IH by simp
  next
    case False
    then show ?thesis using IH diff_succ_less [of n b p] Suc.prems by simp
  qed
qed

lemma memset_apply: "memset s c n m b = (if b - s < n then ucast c else m b)"
  using unat_less64 [of n] by (simp add: memset_def memset_loop_apply word_less_nat_alt)

text \<open>
  The ascending byte copy equals the simultaneous copy when no destination byte is a source
  byte that is still to be read: the distance from \<open>sp\<close> up to \<open>dp\<close> is 0 or at least
  the number of bytes.
\<close>

lemma memcpy_loop_apply:
  "n < 2 ^ 64 \<Longrightarrow> dp = sp \<or> n \<le> unat (dp - sp) \<Longrightarrow>
   memcpy_loop n dp sp m b = (if unat (b - dp) < n then m (sp + (b - dp)) else m b)"
proof (induction n arbitrary: dp sp m)
  case 0
  then show ?case by simp
next
  case (Suc n)
  let ?m = "m(dp := m sp)"
  have d1: "dp + 1 = sp + 1 \<or> n \<le> unat (dp + 1 - (sp + 1))" using Suc.prems by auto
  have IH: "memcpy_loop n (dp + 1) (sp + 1) ?m b
      = (if unat (b - (dp + 1)) < n then ?m (sp + 1 + (b - (dp + 1))) else ?m b)"
    by (rule Suc.IH [OF _ d1]) (use Suc.prems in simp)
  show ?case
  proof (cases "b = dp")
    case True
    have "unat (- (1::addr)) = 2 ^ 64 - 1"
      by (simp add: unsigned_minus_1_eq_mask mask_eq_exp_minus_1)
    then have "\<not> unat (dp - (dp + 1)) < n" using Suc.prems(1) by simp
    with True IH show ?thesis by simp
  next
    case False
    have eq: "sp + 1 + (b - (dp + 1)) = sp + (b - dp)" by simp
    have ne: "sp + (b - dp) \<noteq> dp" if "unat (b - dp) < Suc n" "dp \<noteq> sp"
    proof
      assume "sp + (b - dp) = dp"
      then have "b - dp = dp - sp" by (simp add: algebra_simps)
      with that Suc.prems(2) show False by simp
    qed
    show ?thesis
      using IH False eq ne diff_succ_less [of n b dp] Suc.prems(1)
      by (cases "dp = sp") auto
  qed
qed

lemma memcpy_apply:
  assumes "dest = src \<or> n \<le> dest - src"
  shows "memcpy dest src n m b = (if b - dest < n then m (src + (b - dest)) else m b)"
  using memcpy_loop_apply [of "unat n" dest src m b] assms unat_less64 [of n]
  by (simp add: memcpy_def word_less_nat_alt word_le_nat_alt)

lemma memcpy_loop_outside:
  "n < 2 ^ 64 \<Longrightarrow> n \<le> unat (b - dp) \<Longrightarrow> memcpy_loop n dp sp m b = m b"
proof (induction n arbitrary: dp sp m)
  case 0
  then show ?case by simp
next
  case (Suc n)
  then have "b \<noteq> dp" by auto
  then have "n \<le> unat (b - (dp + 1))"
    using Suc.prems diff_succ_less [of n b dp] by auto
  with Suc \<open>b \<noteq> dp\<close> show ?case by simp
qed

lemma memcpy_outside: "n \<le> b - dest \<Longrightarrow> memcpy dest src n m b = m b"
  using unat_less64 [of n] by (simp add: memcpy_def memcpy_loop_outside word_le_nat_alt)

section \<open>C strings\<close>

fun cstr :: "mem \<Rightarrow> addr \<Rightarrow> u8 list \<Rightarrow> bool" where
  "cstr m p [] \<longleftrightarrow> m p = 0"
| "cstr m p (x # xs) \<longleftrightarrow> x \<noteq> 0 \<and> m p = x \<and> cstr m (p + 1) xs"

text \<open>The difference of the first bytes that differ; the terminator counts as 0.\<close>

fun str_diff :: "u8 list \<Rightarrow> u8 list \<Rightarrow> int" where
  "str_diff [] [] = 0"
| "str_diff [] (y # ys) = - uint y"
| "str_diff (x # xs) [] = uint x"
| "str_diff (x # xs) (y # ys) = (if x = y then str_diff xs ys else uint x - uint y)"

lemma cstr_unique: "cstr m p xs \<Longrightarrow> cstr m p ys \<Longrightarrow> xs = ys"
proof (induction xs arbitrary: p ys)
  case Nil
  then show ?case by (cases ys) auto
next
  case (Cons x xs)
  then show ?case by (cases ys) auto
qed

lemma cstr_cong:
  "cstr m p xs \<Longrightarrow> (\<And>k. k \<le> length xs \<Longrightarrow> m' (p + of_nat k) = m (p + of_nat k)) \<Longrightarrow> cstr m' p xs"
proof (induction xs arbitrary: p)
  case Nil
  then show ?case using Nil.prems(2) [of 0] by simp
next
  case (Cons x xs)
  have "cstr m' (p + 1) xs"
    using Cons.prems(1) Cons.prems(2) [of "Suc _"] by (intro Cons.IH) (auto simp: algebra_simps)
  then show ?case using Cons.prems(1) Cons.prems(2) [of 0] by simp
qed

lemma cstr_nonzero: "cstr m p xs \<Longrightarrow> 0 \<notin> set xs"
  by (induction xs arbitrary: p) auto

lemma cstr_nth: "cstr m p xs \<Longrightarrow> k \<le> length xs \<Longrightarrow>
   m (p + of_nat k) = (if k < length xs then xs ! k else 0)"
proof (induction xs arbitrary: p k)
  case Nil
  then show ?case by simp
next
  case (Cons x xs)
  then show ?case
  proof (cases k)
    case 0
    then show ?thesis using Cons.prems by simp
  next
    case (Suc j)
    then have "m (p + 1 + of_nat j) = (if j < length xs then xs ! j else 0)"
      using Cons by auto
    then show ?thesis using Suc by (simp add: algebra_simps)
  qed
qed

lemma strlen_loop_cstr: "cstr m p xs \<Longrightarrow> strlen_loop m p l = Some (l + of_nat (length xs))"
proof (induction xs arbitrary: p l)
  case Nil
  then show ?case by (subst strlen_loop.simps) simp
next
  case (Cons x xs)
  then show ?case by (subst strlen_loop.simps) (simp add: algebra_simps)
qed

lemma strlen_cstr: "cstr m p xs \<Longrightarrow> strlen m p = Some (of_nat (length xs))"
  by (simp add: strlen_def strlen_loop_cstr)

lemma strcmp_str_diff: "cstr m p xs \<Longrightarrow> cstr m q ys \<Longrightarrow> strcmp m p q = Some (str_diff xs ys)"
proof (induction xs ys arbitrary: p q rule: str_diff.induct)
  case 1
  then show ?case by (subst strcmp.simps) simp
next
  case (2 y ys)
  then show ?case by (subst strcmp.simps) simp
next
  case (3 x xs)
  then show ?case by (subst strcmp.simps) simp
next
  case (4 x xs y ys)
  then show ?case by (subst strcmp.simps) auto
qed

lemma strncmp_str_diff:
  "cstr m p xs \<Longrightarrow> cstr m q ys \<Longrightarrow>
   strncmp_loop n m p q = str_diff (take (Suc n) xs) (take (Suc n) ys)"
proof (induction n arbitrary: p q xs ys)
  case 0
  then show ?case by (cases xs; cases ys) auto
next
  case (Suc n)
  then show ?case by (cases xs; cases ys) auto
qed

lemma uint_diff_zero_iff: "uint (x::u8) - uint y = 0 \<longleftrightarrow> x = y"
  by (simp add: word_uint_eq_iff)

lemma uint_diff_neg_iff: "uint (x::u8) - uint y < 0 \<longleftrightarrow> x < y"
  by (simp add: word_less_def)

lemma uint_nonzero_pos: "x \<noteq> 0 \<Longrightarrow> 0 < uint (x::u8)"
  using uint_diff_zero_iff [of x 0] by (simp add: order_less_le)

lemma str_diff_zero_iff: "0 \<notin> set xs \<Longrightarrow> 0 \<notin> set ys \<Longrightarrow> str_diff xs ys = 0 \<longleftrightarrow> xs = ys"
proof (induction xs ys rule: str_diff.induct)
  case (2 y ys)
  then show ?case using uint_nonzero_pos [of y] by auto
next
  case (3 x xs)
  then show ?case using uint_nonzero_pos [of x] by auto
next
  case (4 x xs y ys)
  then show ?case by (simp only: str_diff.simps uint_diff_zero_iff split: if_splits) auto
qed simp

lemma str_diff_neg_iff: "0 \<notin> set xs \<Longrightarrow> 0 \<notin> set ys \<Longrightarrow> str_diff xs ys < 0 \<longleftrightarrow> ord_class.lexordp xs ys"
proof (induction xs ys rule: str_diff.induct)
  case (2 y ys)
  then show ?case using uint_nonzero_pos [of y] by auto
next
  case (4 x xs y ys)
  show ?case
  proof (cases "x = y")
    case True
    with 4 show ?thesis by auto
  next
    case False
    then show ?thesis using uint_diff_neg_iff [of x y] by auto
  qed
qed auto

lemma memcmp_loop_zero_iff:
  "memcmp_loop n m p q = 0 \<longleftrightarrow> (\<forall>k < n. m (p + of_nat k) = m (q + of_nat k))"
proof (induction n arbitrary: p q)
  case 0
  then show ?case by simp
next
  case (Suc n)
  have "(\<forall>k < Suc n. m (p + of_nat k) = m (q + of_nat k)) \<longleftrightarrow>
     m p = m q \<and> (\<forall>k < n. m (p + 1 + of_nat k) = m (q + 1 + of_nat k))"
    by (auto simp: less_Suc_eq_0_disj algebra_simps)
  with Suc.IH [of "p + 1" "q + 1"] show ?case by (auto simp: word_uint_eq_iff)
qed

lemma memcpy_loop_zeros:
  assumes "n < 2 ^ 64" "\<And>j. j < d \<Longrightarrow> m (sp + of_nat j) = 0" "0 < d" "k < n"
  shows "memcpy_loop n (sp + of_nat d) sp m (sp + of_nat d + of_nat k) = 0"
  using assms
proof (induction n arbitrary: sp m k)
  case 0
  then show ?case by simp
next
  case (Suc n)
  let ?dp = "sp + of_nat d" and ?m = "m(sp + of_nat d := m sp)"
  have z: "m sp = 0" using Suc.prems(2) [of 0] Suc.prems(3) by simp
  show ?case
  proof (cases k)
    case 0
    have "n \<le> unat (?dp - (?dp + 1))"
      using Suc.prems(1) by (simp add: unsigned_minus_1_eq_mask mask_eq_exp_minus_1)
    then have "memcpy_loop n (?dp + 1) (sp + 1) ?m ?dp = ?m ?dp"
      using Suc.prems(1) by (intro memcpy_loop_outside) auto
    with 0 z show ?thesis by simp
  next
    case (Suc k')
    have "?m (sp + 1 + of_nat j) = 0" if "j < d" for j
    proof (cases "Suc j < d")
      case True
      with z Suc.prems(2) [of "Suc j"] show ?thesis by (auto simp: algebra_simps)
    next
      case False
      with that have "Suc j = d" by simp
      with z show ?thesis by (auto simp: algebra_simps)
    qed
    then have "memcpy_loop n (sp + 1 + of_nat d) (sp + 1) ?m (sp + 1 + of_nat d + of_nat k') = 0"
      using Suc Suc.prems by (intro Suc.IH) auto
    with Suc show ?thesis by (simp add: add.commute add.left_commute)
  qed
qed

section \<open>Properties\<close>

text \<open>
  \<^verbatim>\<open>strcmp\<close> returns on every pair of C strings; the result is 0 exactly for equal
  strings and negative exactly when the first precedes the second in the lexicographic order
  of unsigned bytes.
\<close>

theorem strcmp_orders:
  assumes "cstr m p xs" and "cstr m q ys"
  shows "\<exists>r. strcmp m p q = Some r \<and> (r = 0 \<longleftrightarrow> xs = ys) \<and> (r < 0 \<longleftrightarrow> ord_class.lexordp xs ys)"
  using strcmp_str_diff [OF assms] cstr_nonzero [OF assms(1)] cstr_nonzero [OF assms(2)]
  by (simp add: str_diff_zero_iff str_diff_neg_iff)

theorem strcmp_orders_witness:
  "\<exists>r. strcmp ((\<lambda>_. 0)(0x10 := 97, 0x20 := 98)) 0x10 0x20 = Some r \<and> r < 0"
  using strcmp_orders [of "(\<lambda>_. 0)(0x10 := 97, 0x20 := 98)" "0x10" "[97]" "0x20" "[98]"] by auto

text \<open>
  C14. When \<^verbatim>\<open>memmove\<close> moves a block, exactly: it does so for every memory if and only
  if the destination does not start inside the source block above its first byte. The comment
  in the code calls the ascending copy safe; for an overlapping destination above the source it
  reads bytes it has already overwritten.
\<close>

theorem memmove_correct_iff:
  "(\<forall>m. \<forall>k < unat n. memmove dest src n m (dest + of_nat k) = m (src + of_nat k))
    \<longleftrightarrow> dest = src \<or> n \<le> dest - src"
proof
  assume all: "\<forall>m. \<forall>k < unat n. memmove dest src n m (dest + of_nat k) = m (src + of_nat k)"
  show "dest = src \<or> n \<le> dest - src"
  proof (rule ccontr)
    assume "\<not> (dest = src \<or> n \<le> dest - src)"
    then have d: "dest \<noteq> src" "unat (dest - src) < unat n" by (auto simp: word_le_nat_alt)
    let ?d = "unat (dest - src)" and ?m = "(\<lambda>_. 0)(dest := 1) :: mem"
    have dp: "src + of_nat ?d = dest" "0 < ?d" using d(1) by (auto simp: unat_gt_0)
    have "?m (src + of_nat j) = 0" if "j < ?d" for j
    proof -
      have "unat (of_nat j :: addr) = j"
        using that unat_less64 [of "dest - src"] by (intro unat_of_nat_eq) linarith
      then have "src + of_nat j \<noteq> dest" using that by auto
      then show ?thesis by simp
    qed
    from memcpy_loop_zeros [where sp = src and m = ?m, OF _ this dp(2) d(2)] have "memmove dest src n ?m (dest + of_nat ?d) = 0"
      using dp(1) unat_less64 [of n] by (simp add: memmove_def memcpy_def)
    moreover have "memmove dest src n ?m (dest + of_nat ?d) = ?m (src + of_nat ?d)"
      using all d(2) by blast
    ultimately show False using dp(1) by simp
  qed
next
  assume d: "dest = src \<or> n \<le> dest - src"
  have "memmove dest src n m (dest + of_nat k) = m (src + of_nat k)" if "k < unat n" for m k
  proof -
    have "(of_nat k :: addr) < n"
      using that unat_less64 [of n] by (simp add: word_less_nat_alt unat_of_nat_eq)
    then show ?thesis by (simp add: memmove_def memcpy_apply [OF d])
  qed
  then show "\<forall>m. \<forall>k < unat n. memmove dest src n m (dest + of_nat k) = m (src + of_nat k)" by blast
qed

theorem memmove_correct_iff_witness:
  "memmove 0x10 0x20 4 ((\<lambda>_. 0)(0x22 := 7)) 0x12 = 7
   \<and> (\<exists>m k. k < unat (4::u64) \<and> memmove 0x22 0x20 4 m (0x22 + of_nat k) \<noteq> m (0x20 + of_nat k))"
proof -
  have "\<forall>m. \<forall>k < unat (4::u64). memmove 0x10 0x20 4 m (0x10 + of_nat k) = m (0x20 + of_nat k)"
    unfolding memmove_correct_iff by simp
  from spec [OF this, of "(\<lambda>_. 0)(0x22 := 7)"]
  have "memmove 0x10 0x20 4 ((\<lambda>_. 0)(0x22 := 7)) (0x10 + of_nat 2) = ((\<lambda>_. 0)(0x22 := 7)) (0x20 + of_nat 2 :: addr)"
    by (elim allE [where x = 2]) simp
  moreover have "\<not> (\<forall>m. \<forall>k < unat (4::u64). memmove 0x22 0x20 4 m (0x22 + of_nat k) = m (0x20 + of_nat k))"
    unfolding memmove_correct_iff by simp
  ultimately show ?thesis by auto
qed

end
