(* ===== verification/KList.thy ===== *)
theory KList
  imports Prelude
begin

text \<open>
  The intrusive doubly linked lists of \<^verbatim>\<open>kernel/include/list.h\<close>. The head is a pair
  of pointers; the link fields that the macros write inside the listed objects are two maps
  from object address to pointer, one pair of maps for each \<^verbatim>\<open>LIST\<close> member of a struct.
  Each macro is one function on a head and its link maps. \<open>dlist q xs\<close> says that the
  pointers of \<open>q\<close> represent the sequence \<open>xs\<close>; the macros refine list operations.
\<close>

section \<open>The macros\<close>

record list_head =
  hprev :: addr
  hnext :: addr

record links =
  lprev :: "addr \<Rightarrow> addr"
  lnext :: "addr \<Rightarrow> addr"

type_synonym klist = "list_head \<times> links"

definition LIST_HEAD_INIT :: "list_head" where
  "LIST_HEAD_INIT = \<lparr>hprev = 0, hnext = 0\<rparr>"

definition LIST_INIT :: "addr \<Rightarrow> links \<Rightarrow> links" where
  "LIST_INIT self l = l\<lparr>lprev := (lprev l)(self := 0), lnext := (lnext l)(self := 0)\<rparr>"

definition LIST_APPEND :: "klist \<Rightarrow> addr \<Rightarrow> klist" where
  "LIST_APPEND q self =
     (let h = fst q; l = snd q;
          l = l\<lparr>lprev := (lprev l)(self := hprev h)\<rparr>;
          l = l\<lparr>lnext := (lnext l)(self := 0)\<rparr>;
          l = (if lprev l self \<noteq> 0 then l\<lparr>lnext := (lnext l)(lprev l self := self)\<rparr> else l);
          h = h\<lparr>hprev := self\<rparr>;
          h = (if hnext h = 0 then h\<lparr>hnext := hprev h\<rparr> else h)
      in (h, l))"

definition LIST_REMOVE :: "klist \<Rightarrow> addr \<Rightarrow> klist" where
  "LIST_REMOVE q self =
     (let h = fst q; l = snd q;
          h = (if hnext h = self then h\<lparr>hnext := lnext l self\<rparr> else h);
          h = (if hprev h = self then h\<lparr>hprev := lprev l self\<rparr> else h);
          l = (if lnext l self \<noteq> 0 then l\<lparr>lprev := (lprev l)(lnext l self := lprev l self)\<rparr> else l);
          l = (if lprev l self \<noteq> 0 then l\<lparr>lnext := (lnext l)(lprev l self := lnext l self)\<rparr> else l);
          l = l\<lparr>lprev := (lprev l)(self := 0), lnext := (lnext l)(self := 0)\<rparr>
      in (h, l))"

definition LIST_EMPTY :: "list_head \<Rightarrow> bool" where
  "LIST_EMPTY h \<longleftrightarrow> hnext h = 0"

definition LIST_FIRST :: "list_head \<Rightarrow> addr" where
  "LIST_FIRST h = hnext h"

text \<open>
  The macro assigns \<^verbatim>\<open>self->list.next\<close> twice and never \<^verbatim>\<open>self->list.prev\<close>;
  the model keeps both assignments.
\<close>

definition LIST_INSERT_BEFORE :: "klist \<Rightarrow> addr \<Rightarrow> addr \<Rightarrow> klist" where
  "LIST_INSERT_BEFORE q self after =
     (let h = fst q; l = snd q;
          l = l\<lparr>lnext := (lnext l)(self := after)\<rparr>;
          l = l\<lparr>lnext := (lnext l)(self := lprev l after)\<rparr>;
          l = l\<lparr>lprev := (lprev l)(after := self)\<rparr>;
          l = (if lprev l self \<noteq> 0 then l\<lparr>lnext := (lnext l)(lprev l self := self)\<rparr> else l);
          h = (if hnext h = after then h\<lparr>hnext := self\<rparr> else h)
      in (h, l))"

text \<open>
  \<^verbatim>\<open>LIST_FOREACH\<close> with a body that leaves the links alone: the objects visited, in
  order; \<open>None\<close> when the chain of \<^verbatim>\<open>next\<close> pointers never reaches the null pointer.
\<close>

partial_function (option) LIST_FOREACH :: "links \<Rightarrow> addr \<Rightarrow> addr list option" where
  "LIST_FOREACH l name =
     (if name = 0 then Some []
      else Option.bind (LIST_FOREACH l (lnext l name)) (\<lambda>rest. Some (name # rest)))"

section \<open>Representation\<close>

fun first0 :: "addr list \<Rightarrow> addr \<Rightarrow> addr" where
  "first0 [] n = n"
| "first0 (x # xs) n = x"

fun last0 :: "addr \<Rightarrow> addr list \<Rightarrow> addr" where
  "last0 p [] = p"
| "last0 p (x # xs) = last0 x xs"

text \<open>
  \<open>seg l p xs n\<close>: the objects \<open>xs\<close> are linked in this order, the first one's
  \<^verbatim>\<open>prev\<close> is \<open>p\<close> and the last one's \<^verbatim>\<open>next\<close> is \<open>n\<close>.
\<close>

fun seg :: "links \<Rightarrow> addr \<Rightarrow> addr list \<Rightarrow> addr \<Rightarrow> bool" where
  "seg l p [] n \<longleftrightarrow> True"
| "seg l p (x # xs) n \<longleftrightarrow> x \<noteq> 0 \<and> lprev l x = p \<and> lnext l x = first0 xs n \<and> seg l x xs n"

definition dlist :: "klist \<Rightarrow> addr list \<Rightarrow> bool" where
  "dlist q xs \<longleftrightarrow> distinct xs \<and> hnext (fst q) = first0 xs 0 \<and> hprev (fst q) = last0 0 xs
     \<and> seg (snd q) 0 xs 0"

lemma first0_append [simp]: "first0 (xs @ ys) n = first0 xs (first0 ys n)"
  by (cases xs) auto

lemma last0_append [simp]: "last0 p (xs @ ys) = last0 (last0 p xs) ys"
  by (induction xs arbitrary: p) auto

lemma last0_in: "last0 p xs \<in> insert p (set xs)"
  by (induction xs arbitrary: p) auto

lemma last0_eq: "xs \<noteq> [] \<Longrightarrow> last0 p xs = last xs"
  by (induction xs arbitrary: p) auto

lemma first0_in: "first0 xs n \<in> insert n (set xs)"
  by (cases xs) auto

lemma seg_append [simp]:
  "seg l p (xs @ ys) n \<longleftrightarrow> seg l p xs (first0 ys n) \<and> seg l (last0 p xs) ys n"
  by (induction xs arbitrary: p) auto

lemma seg_nonzero: "seg l p xs n \<Longrightarrow> 0 \<notin> set xs"
  by (induction xs arbitrary: p) auto

lemma seg_frame:
  "(\<And>x. x \<in> set xs \<Longrightarrow> lprev l' x = lprev l x \<and> lnext l' x = lnext l x) \<Longrightarrow>
   seg l' p xs n = seg l p xs n"
  by (induction xs arbitrary: p) auto

text \<open>Re-pointing the last \<^verbatim>\<open>next\<close> or the first \<^verbatim>\<open>prev\<close> of a segment.\<close>

lemma seg_set_next:
  assumes "seg l p xs n" "distinct xs" "xs \<noteq> []"
  shows "seg (l\<lparr>lnext := (lnext l)(last0 p xs := n')\<rparr>) p xs n'"
  using assms
proof (induction xs arbitrary: p)
  case Nil
  then show ?case by simp
next
  case (Cons x xs)
  show ?case
  proof (cases xs)
    case Nil
    with Cons.prems show ?thesis by simp
  next
    case (Cons y ys)
    have "x \<noteq> last0 x xs"
      using Cons.prems last0_eq [of xs x] Cons by (metis distinct.simps(2) last_in_set list.distinct(1))
    moreover have "seg (l\<lparr>lnext := (lnext l)(last0 x xs := n')\<rparr>) x xs n'"
      using Cons.prems Cons by (intro Cons.IH) auto
    ultimately show ?thesis using Cons.prems Cons by (auto simp: fun_upd_def)
  qed
qed

lemma seg_set_prev:
  assumes "seg l p xs n" "distinct xs" "xs \<noteq> []"
  shows "seg (l\<lparr>lprev := (lprev l)(first0 xs n := p')\<rparr>) p' xs n"
proof (cases xs)
  case Nil
  with assms show ?thesis by simp
next
  case (Cons x ys)
  with assms(1) have "seg l x ys n" by simp
  with Cons assms(2) have "seg (l\<lparr>lprev := (lprev l)(x := p')\<rparr>) x ys n"
    by (subst seg_frame [where l = l]) auto
  with Cons assms(1) show ?thesis by simp
qed

section \<open>The macros refine list operations\<close>

lemma dlist_empty: "dlist (LIST_HEAD_INIT, l) []"
  by (simp add: dlist_def LIST_HEAD_INIT_def)

lemma dlist_nonzero: "dlist q xs \<Longrightarrow> 0 \<notin> set xs"
  by (auto simp: dlist_def dest: seg_nonzero)

lemma dlist_distinct: "dlist q xs \<Longrightarrow> distinct xs"
  by (simp add: dlist_def)

lemma LIST_EMPTY_iff: "dlist q xs \<Longrightarrow> LIST_EMPTY (fst q) \<longleftrightarrow> xs = []"
  by (cases xs) (auto simp: dlist_def LIST_EMPTY_def)

lemma LIST_FIRST_eq: "dlist q (x # xs) \<Longrightarrow> LIST_FIRST (fst q) = x"
  by (simp add: dlist_def LIST_FIRST_def)

lemma dlist_append:
  assumes "dlist q xs" "self \<noteq> 0" "self \<notin> set xs"
  shows "dlist (LIST_APPEND q self) (xs @ [self])"
proof (cases xs rule: rev_cases)
  case Nil
  with assms show ?thesis by (simp add: dlist_def LIST_APPEND_def Let_def)
next
  case (snoc ys y)
  obtain h l where q: "q = (h, l)" by (cases q)
  from assms(1) have S: "seg l 0 xs 0" "distinct xs" "hnext h = first0 xs 0" "hprev h = y"
    by (auto simp: dlist_def q snoc)
  have y: "y \<noteq> 0" "y \<noteq> self" using seg_nonzero [OF S(1)] assms(3) snoc by auto
  let ?l = "l\<lparr>lprev := (lprev l)(self := y), lnext := (lnext l)(self := 0)\<rparr>"
  let ?l' = "?l\<lparr>lnext := (lnext ?l)(y := self)\<rparr>"
  have "seg ?l 0 xs 0" using S(1) assms(3) by (subst seg_frame [where l = l]) auto
  then have "seg ?l' 0 xs self"
    using seg_set_next [of ?l 0 xs 0 self] S(2) snoc by simp
  moreover have "first0 xs 0 \<noteq> 0"
    using first0_in [of ys y] seg_nonzero [OF S(1)] snoc by auto
  moreover have "LIST_APPEND q self = (h\<lparr>hprev := self\<rparr>, ?l')"
    using S y \<open>first0 xs 0 \<noteq> 0\<close> by (simp add: LIST_APPEND_def q Let_def)
  ultimately show ?thesis
    using S y assms(2,3) snoc by (cases ys) (auto simp: dlist_def)
qed

lemma LIST_REMOVE_eq:
  assumes "seg l 0 (as @ x # bs) 0" "distinct (as @ x # bs)"
  defines "p \<equiv> last0 0 as" and "n \<equiv> first0 bs 0"
  shows "LIST_REMOVE (h, l) x =
    (\<lparr>hprev = (if hprev h = x then p else hprev h), hnext = (if hnext h = x then n else hnext h)\<rparr>,
     \<lparr>lprev = (if n \<noteq> 0 then (lprev l)(n := p) else lprev l)(x := 0),
      lnext = (if p \<noteq> 0 then (lnext l)(p := n) else lnext l)(x := 0)\<rparr>)"
proof -
  have "lprev l x = p" "lnext l x = n" using assms(1) by (auto simp: p_def n_def)
  moreover have "p \<noteq> x" "n \<noteq> x"
    using last0_in [of 0 as] first0_in [of bs 0] assms(1,2)
    by (auto simp: p_def n_def)
  ultimately show ?thesis
    by (cases h; cases l) (simp add: LIST_REMOVE_def Let_def)
qed

lemma dlist_remove:
  assumes "dlist q (as @ x # bs)"
  shows "dlist (LIST_REMOVE q x) (as @ bs)"
proof -
  obtain h l where q: "q = (h, l)" by (cases q)
  let ?p = "last0 0 as" and ?n = "first0 bs 0"
  from assms have D: "distinct (as @ x # bs)" "hnext h = first0 as x" "hprev h = last0 x bs"
    and S: "seg l 0 as x" "x \<noteq> 0" "seg l x bs 0" "seg l 0 (as @ x # bs) 0"
    by (auto simp: dlist_def q)
  note nz = seg_nonzero [OF S(4)]
  let ?l = "\<lparr>lprev = (if ?n \<noteq> 0 then (lprev l)(?n := ?p) else lprev l)(x := 0),
      lnext = (if ?p \<noteq> 0 then (lnext l)(?p := ?n) else lnext l)(x := 0)\<rparr>"
  have pa: "as \<noteq> [] \<Longrightarrow> ?p \<in> set as" by (simp add: last0_eq)
  have nb: "bs \<noteq> [] \<Longrightarrow> ?n \<in> set bs" by (cases bs) auto
  have A: "seg ?l 0 as ?n"
  proof (cases "as = []")
    case False
    then have "seg (l\<lparr>lnext := (lnext l)(?p := ?n)\<rparr>) 0 as ?n"
      using seg_set_next S(1) D(1) by simp
    then show ?thesis
      by (rule iffD1 [OF seg_frame, rotated]) (use False pa nz D(1) nb in \<open>cases bs; auto\<close>)
  qed simp
  have B: "seg ?l ?p bs 0"
  proof (cases "bs = []")
    case False
    then have "seg (l\<lparr>lprev := (lprev l)(?n := ?p)\<rparr>) ?p bs 0"
      using seg_set_prev [OF S(3), of ?p] D(1) by simp
    then show ?thesis
      by (rule iffD1 [OF seg_frame, rotated]) (use False pa nz D(1) nb in \<open>cases as; auto\<close>)
  qed simp
  have H1: "first0 as x = x \<longleftrightarrow> as = []"
    using D(1) by (cases as) auto
  have H2: "last0 x bs = x \<longleftrightarrow> bs = []"
    using D(1) last0_eq [of bs x] last_in_set [of bs] by (cases "bs = []") auto
  have "hnext (fst (LIST_REMOVE q x)) = first0 (as @ bs) 0"
    using D H1 by (cases as) (auto simp: q LIST_REMOVE_eq [OF S(4) D(1)])
  moreover have "hprev (fst (LIST_REMOVE q x)) = last0 0 (as @ bs)"
    using D H2 last0_eq [of bs] by (auto simp: q LIST_REMOVE_eq [OF S(4) D(1)])
  ultimately show ?thesis
    using A B D(1) by (simp add: dlist_def q LIST_REMOVE_eq [OF S(4) D(1)])
qed

lemma LIST_FOREACH_seg: "seg l p xs 0 \<Longrightarrow> LIST_FOREACH l (first0 xs 0) = Some xs"
proof (induction xs arbitrary: p)
  case Nil
  then show ?case by (subst LIST_FOREACH.simps) simp
next
  case (Cons x xs)
  then show ?case by (subst LIST_FOREACH.simps) auto
qed

lemma LIST_FOREACH_dlist: "dlist q xs \<Longrightarrow> LIST_FOREACH (snd q) (LIST_FIRST (fst q)) = Some xs"
  by (auto simp: dlist_def LIST_FIRST_def LIST_FOREACH_seg)

section \<open>The queue interface\<close>

text \<open>
  What the scheduler, the process tree and the mount table rely on: appending, removing and
  taking the first element act on the represented sequence. The lemmas of the locale are the
  ones the clients use.
\<close>

locale intrusive_queue =
  fixes append :: "'q \<Rightarrow> 'a \<Rightarrow> 'q"
    and remove :: "'q \<Rightarrow> 'a \<Rightarrow> 'q"
    and first :: "'q \<Rightarrow> 'a"
    and abs :: "'q \<Rightarrow> 'a list \<Rightarrow> bool"
    and valid :: "'a \<Rightarrow> bool"
  assumes abs_append: "abs q xs \<Longrightarrow> valid x \<Longrightarrow> x \<notin> set xs \<Longrightarrow> abs (append q x) (xs @ [x])"
    and abs_remove: "abs q (as @ x # bs) \<Longrightarrow> abs (remove q x) (as @ bs)"
    and abs_first: "abs q (x # xs) \<Longrightarrow> first q = x"
    and abs_distinct: "abs q xs \<Longrightarrow> distinct xs"
    and abs_valid: "abs q xs \<Longrightarrow> x \<in> set xs \<Longrightarrow> valid x"
begin

lemma remove_member:
  assumes "abs q xs" "x \<in> set xs"
  shows "abs (remove q x) (remove1 x xs)"
proof -
  obtain as bs where xs: "xs = as @ x # bs" "x \<notin> set as"
    using split_list_first [OF assms(2)] by blast
  with assms(1) have "abs (remove q x) (as @ bs)" by (simp add: abs_remove)
  with xs show ?thesis by (simp add: remove1_append)
qed

lemma pop:
  assumes "abs q (x # xs)"
  shows "first q = x" and "abs (remove q (first q)) xs"
  using assms abs_first [OF assms] abs_remove [of q "[]" x xs] by auto

lemma rotate:
  assumes "abs q (x # xs)"
  shows "abs (append (remove q (first q)) (first q)) (xs @ [x])"
proof -
  have "valid x" "x \<notin> set xs"
    using abs_valid [OF assms] abs_distinct [OF assms] by auto
  with pop [OF assms] show ?thesis by (simp add: abs_append)
qed

lemma rotate_iter:
  "abs q xs \<Longrightarrow> xs \<noteq> [] \<Longrightarrow>
   abs (((\<lambda>q. append (remove q (first q)) (first q)) ^^ n) q) (List.rotate n xs)"
proof (induction n arbitrary: q xs)
  case 0
  then show ?case by simp
next
  case (Suc n)
  obtain y ys where ys: "xs = y # ys" using Suc.prems(2) by (cases xs) auto
  have "abs (append (remove q (first q)) (first q)) (ys @ [y])"
    using rotate Suc.prems(1) ys by simp
  then have "abs (((\<lambda>q. append (remove q (first q)) (first q)) ^^ n)
      (append (remove q (first q)) (first q))) (List.rotate n (ys @ [y]))"
    by (rule Suc.IH) simp
  moreover have "List.rotate (Suc n) xs = List.rotate n (ys @ [y])"
    by (simp add: ys rotate1_rotate_swap)
  ultimately show ?case
    by (simp only: funpow_Suc_right comp_apply)
qed

end

interpretation klist: intrusive_queue LIST_APPEND LIST_REMOVE "\<lambda>q. LIST_FIRST (fst q)" dlist "\<lambda>x. x \<noteq> 0"
  by unfold_locales
    (auto simp: dlist_append dlist_remove LIST_FIRST_eq dlist_distinct dest: dlist_nonzero)

section \<open>Properties\<close>

text \<open>Programs over one list, and their effect on the represented sequence.\<close>

datatype list_op = Append addr | Remove addr

fun list_step :: "list_op \<Rightarrow> klist \<Rightarrow> klist" where
  "list_step (Append x) q = LIST_APPEND q x"
| "list_step (Remove x) q = LIST_REMOVE q x"

fun seq_step :: "list_op \<Rightarrow> addr list \<Rightarrow> addr list" where
  "seq_step (Append x) xs = xs @ [x]"
| "seq_step (Remove x) xs = remove1 x xs"

fun list_ops_ok :: "list_op list \<Rightarrow> addr list \<Rightarrow> bool" where
  "list_ops_ok [] xs \<longleftrightarrow> True"
| "list_ops_ok (Append x # ops) xs \<longleftrightarrow> x \<noteq> 0 \<and> x \<notin> set xs \<and> list_ops_ok ops (seq_step (Append x) xs)"
| "list_ops_ok (Remove x # ops) xs \<longleftrightarrow> x \<in> set xs \<and> list_ops_ok ops (seq_step (Remove x) xs)"

lemma list_run_dlist:
  "dlist q xs \<Longrightarrow> list_ops_ok ops xs \<Longrightarrow> dlist (fold list_step ops q) (fold seq_step ops xs)"
  by (induction ops xs arbitrary: q rule: list_ops_ok.induct)
    (auto simp: klist.abs_append klist.remove_member)

text \<open>
  C13. Any sequence of \<^verbatim>\<open>LIST_APPEND\<close> and \<^verbatim>\<open>LIST_REMOVE\<close> on an initialised
  list, in which objects are appended when they are not in the list and removed when they are,
  leaves pointers that represent exactly the sequence those operations build, and
  \<^verbatim>\<open>LIST_FOREACH\<close> visits exactly that sequence and ends.
\<close>

theorem list_program_refines:
  assumes "list_ops_ok ops []"
  shows "dlist (fold list_step ops (LIST_HEAD_INIT, l)) (fold seq_step ops [])
    \<and> LIST_FOREACH (snd (fold list_step ops (LIST_HEAD_INIT, l)))
           (LIST_FIRST (fst (fold list_step ops (LIST_HEAD_INIT, l)))) = Some (fold seq_step ops [])"
  using list_run_dlist [OF dlist_empty assms, of l] by (auto simp: LIST_FOREACH_dlist)

theorem list_program_refines_witness:
  "dlist (fold list_step [Append 8, Append 16, Append 24, Remove 16]
     (LIST_HEAD_INIT, \<lparr>lprev = (\<lambda>_. 0), lnext = (\<lambda>_. 0)\<rparr>)) [8, 24]"
  using list_program_refines [of "[Append 8, Append 16, Append 24, Remove 16]"
      "\<lparr>lprev = (\<lambda>_. 0), lnext = (\<lambda>_. 0)\<rparr>"]
  by simp

text \<open>
  \<^verbatim>\<open>LIST_INSERT_BEFORE\<close> loses the list when it inserts before the first object:
  because the macro writes \<^verbatim>\<open>self->list.next\<close> twice, a traversal afterwards visits
  the new object only, whatever the list held before.
\<close>

theorem LIST_INSERT_BEFORE_first_loses_list:
  assumes "dlist q (x # xs)" and "self \<noteq> 0" and "self \<notin> set (x # xs)"
    and "lprev (snd q) self = 0"
  shows "LIST_FOREACH (snd (LIST_INSERT_BEFORE q self x)) (LIST_FIRST (fst (LIST_INSERT_BEFORE q self x)))
    = Some [self]"
proof -
  have "lprev (snd q) x = 0" "hnext (fst q) = x" "x \<noteq> self"
    using assms by (auto simp: dlist_def)
  with assms(2,4) show ?thesis
    by (simp add: LIST_INSERT_BEFORE_def Let_def LIST_FIRST_def LIST_FOREACH.simps)
qed

theorem LIST_INSERT_BEFORE_first_loses_list_witness:
  "LIST_FOREACH (snd (LIST_INSERT_BEFORE (LIST_APPEND (LIST_HEAD_INIT, \<lparr>lprev = (\<lambda>_. 0), lnext = (\<lambda>_. 0)\<rparr>) 8) 16 8))
     (LIST_FIRST (fst (LIST_INSERT_BEFORE (LIST_APPEND (LIST_HEAD_INIT, \<lparr>lprev = (\<lambda>_. 0), lnext = (\<lambda>_. 0)\<rparr>) 8) 16 8)))
    = Some [16]"
proof -
  let ?q = "LIST_APPEND (LIST_HEAD_INIT, \<lparr>lprev = (\<lambda>_. 0), lnext = (\<lambda>_. 0)\<rparr>) 8"
  have "dlist ?q [8]" using klist.abs_append [OF dlist_empty] by simp
  moreover have "lprev (snd ?q) 16 = 0" by (simp add: LIST_APPEND_def LIST_HEAD_INIT_def Let_def)
  ultimately show ?thesis using LIST_INSERT_BEFORE_first_loses_list [of ?q 8 "[]" 16] by simp
qed

end
