(* ===== verification/Pmm.thy ===== *)
theory Pmm
  imports KString
begin

text \<open>
  The physical page allocator of \<^verbatim>\<open>kernel/mem/pmm.c\<close>: before the first
  \<^verbatim>\<open>pmm_free\<close> it hands out the pages after the kernel image in order; afterwards it is
  a stack of free pages threaded through the pages themselves. The state is the kernel's byte
  memory and the three globals of the file. \<open>pmm_inv s fs\<close> says that the stack holds the
  pages \<open>fs\<close> (as kernel addresses). \<^verbatim>\<open>pmm_init\<close> is in theory \<open>Boot\<close>.
\<close>

record pmm =
  kmem :: mem
  pmm_running :: bool
  pmm_pos :: addr
  pmm_stack :: addr

definition pmm_alloc :: "'z pmm_scheme \<Rightarrow> (addr \<times> 'z pmm_scheme) res" where
  "pmm_alloc s =
     (if \<not> pmm_running s then
        (let p = pmm_pos s in Inr (V2P p, s\<lparr>pmm_pos := p + PAGE_SIZE\<rparr>))
      else
        (let p = pmm_stack s in
         bindR (deref p (load64 (kmem s) p)) (\<lambda>next. Inr (V2P p, s\<lparr>pmm_stack := next\<rparr>))))"

definition pmm_free :: "addr \<Rightarrow> 'z pmm_scheme \<Rightarrow> 'z pmm_scheme" where
  "pmm_free page s =
     (let p = P2V (page AND NOT PAGE_FLAGS_MASK) in
      s\<lparr>kmem := store64 (kmem s) p (pmm_stack s), pmm_stack := p, pmm_running := True\<rparr>)"

section \<open>The stack of free pages\<close>

fun flist :: "mem \<Rightarrow> addr \<Rightarrow> addr list \<Rightarrow> bool" where
  "flist m p [] \<longleftrightarrow> p = 0"
| "flist m p (f # fs) \<longleftrightarrow> p = f \<and> f \<noteq> 0 \<and> page_aligned f \<and> flist m (load64 m f) fs"

definition pmm_inv :: "'z pmm_scheme \<Rightarrow> addr list \<Rightarrow> bool" where
  "pmm_inv s fs \<longleftrightarrow> distinct fs \<and> flist (kmem s) (pmm_stack s) fs \<and> (pmm_running s \<or> fs = [])"

lemma page_aligned_aligned8: "page_aligned a \<Longrightarrow> aligned8 a"
  by (auto simp: page_aligned_unat aligned8_def elim!: dvd_trans [rotated])

lemma flist_cong:
  "(\<And>f. f \<in> set fs \<Longrightarrow> load64 m' f = load64 m f) \<Longrightarrow> flist m' p fs = flist m p fs"
  by (induction fs arbitrary: p) auto

lemma flist_aligned: "flist m p fs \<Longrightarrow> f \<in> set fs \<Longrightarrow> page_aligned f \<and> f \<noteq> 0"
  by (induction fs arbitrary: p) auto

lemma pmm_inv_aligned: "pmm_inv s fs \<Longrightarrow> f \<in> set fs \<Longrightarrow> page_aligned f \<and> f \<noteq> 0"
  by (auto simp: pmm_inv_def dest: flist_aligned)

lemma pmm_inv_distinct: "pmm_inv s fs \<Longrightarrow> distinct fs"
  by (simp add: pmm_inv_def)

text \<open>Writes that keep the first eight bytes of every free page keep the stack.\<close>

lemma pmm_inv_frame:
  assumes "pmm_inv s fs"
    and "pmm_stack s' = pmm_stack s" "pmm_running s' = pmm_running s"
    and "\<And>f. f \<in> set fs \<Longrightarrow> load64 (kmem s') f = load64 (kmem s) f"
  shows "pmm_inv s' fs"
  using assms flist_cong [of fs "kmem s'" "kmem s"] by (simp add: pmm_inv_def)

lemma pmm_alloc_pop:
  assumes "pmm_inv s (f # fs)"
  obtains s' where "pmm_alloc s = Inr (V2P f, s')" "s' = s\<lparr>pmm_stack := load64 (kmem s) f\<rparr>" "pmm_inv s' fs"
  using assms by (auto simp: pmm_alloc_def pmm_inv_def)

lemma pmm_alloc_empty: "pmm_inv s [] \<Longrightarrow> pmm_running s \<Longrightarrow> pmm_alloc s = Inl NullDeref"
  by (simp add: pmm_alloc_def pmm_inv_def)

lemma pmm_free_alt:
  "pmm_free page s = s\<lparr>kmem := store64 (kmem s) (P2V (STRIP_FLAGS page)) (pmm_stack s),
     pmm_stack := P2V (STRIP_FLAGS page), pmm_running := True\<rparr>"
  by (simp only: pmm_free_def STRIP_FLAGS_def Let_def)

lemma pmm_free_push:
  assumes "pmm_inv s fs" "P2V (STRIP_FLAGS page) \<noteq> 0" "P2V (STRIP_FLAGS page) \<notin> set fs"
  shows "pmm_inv (pmm_free page s) (P2V (STRIP_FLAGS page) # fs)"
proof -
  let ?p = "P2V (STRIP_FLAGS page)"
  have "load64 (store64 (kmem s) ?p (pmm_stack s)) f = load64 (kmem s) f" if "f \<in> set fs" for f
    using that assms pmm_inv_aligned [OF assms(1) that]
    by (intro load64_store64_other page_aligned_aligned8) auto
  then have "flist (store64 (kmem s) ?p (pmm_stack s)) (pmm_stack s) fs"
    using assms(1) flist_cong [of fs "store64 (kmem s) ?p (pmm_stack s)" "kmem s" "pmm_stack s"]
    by (simp add: pmm_inv_def)
  with assms show ?thesis
    by (simp add: pmm_inv_def pmm_free_alt)
qed

section \<open>The frame allocator interface\<close>

text \<open>
  What the page tables and the heap rely on: allocation takes a page from a sequence of free
  pages and does not touch memory contents outside the allocator's own state.
\<close>

fun alloc_n :: "('s \<Rightarrow> (addr \<times> 's) res) \<Rightarrow> nat \<Rightarrow> 's \<Rightarrow> (addr list \<times> 's) res" where
  "alloc_n alloc 0 s = Inr ([], s)"
| "alloc_n alloc (Suc n) s =
     bindR (alloc s) (\<lambda>(p, s). bindR (alloc_n alloc n s) (\<lambda>(ps, s). Inr (p # ps, s)))"

locale frame_allocator =
  fixes alloc :: "'s \<Rightarrow> (addr \<times> 's) res"
    and release :: "addr \<Rightarrow> 's \<Rightarrow> 's"
    and free :: "'s \<Rightarrow> addr list \<Rightarrow> bool"
  assumes alloc_pop: "free s (f # fs) \<Longrightarrow> \<exists>s'. alloc s = Inr (V2P f, s') \<and> free s' fs"
    and free_distinct: "free s fs \<Longrightarrow> distinct fs"
    and free_frames: "free s fs \<Longrightarrow> f \<in> set fs \<Longrightarrow> page_aligned f \<and> f \<noteq> 0"
    and release_push: "free s fs \<Longrightarrow> f \<noteq> 0 \<Longrightarrow> page_aligned f \<Longrightarrow> f \<notin> set fs \<Longrightarrow>
      free (release (V2P f) s) (f # fs)"
begin

lemma alloc_n_take:
  "free s fs \<Longrightarrow> n \<le> length fs \<Longrightarrow>
   \<exists>s'. alloc_n alloc n s = Inr (map V2P (take n fs), s') \<and> free s' (drop n fs)"
proof (induction n arbitrary: s fs)
  case 0
  then show ?case by simp
next
  case (Suc n)
  then obtain f gs where fs: "fs = f # gs" by (cases fs) auto
  from alloc_pop Suc.prems(1) obtain s1 where s1: "alloc s = Inr (V2P f, s1)" "free s1 gs"
    unfolding fs by blast
  from Suc.IH [OF s1(2)] Suc.prems(2) obtain s' where
    "alloc_n alloc n s1 = Inr (map V2P (take n gs), s')" "free s' (drop n gs)"
    by (auto simp: fs)
  with s1 show ?case by (simp add: fs)
qed

lemma release_all:
  "free s fs \<Longrightarrow> distinct ps \<Longrightarrow> set ps \<inter> set fs = {} \<Longrightarrow>
   (\<And>p. p \<in> set ps \<Longrightarrow> page_aligned p \<and> p \<noteq> 0) \<Longrightarrow>
   free (fold release (map V2P ps) s) (rev ps @ fs)"
proof (induction ps arbitrary: s fs)
  case Nil
  then show ?case by simp
next
  case (Cons p ps)
  then have "free (release (V2P p) s) (p # fs)" by (simp add: release_push)
  with Cons.prems have "free (fold release (map V2P ps) (release (V2P p) s)) (rev ps @ p # fs)"
    by (intro Cons.IH) auto
  then show ?case by simp
qed

end

interpretation pmm: frame_allocator pmm_alloc pmm_free pmm_inv
proof unfold_locales
  fix s :: "'a pmm_scheme" and f fs
  show "pmm_inv s (f # fs) \<Longrightarrow> \<exists>s'. pmm_alloc s = Inr (V2P f, s') \<and> pmm_inv s' fs"
    by (rule pmm_alloc_pop) auto
  show "pmm_inv s fs \<Longrightarrow> distinct fs" by (rule pmm_inv_distinct)
  show "pmm_inv s fs \<Longrightarrow> f \<in> set fs \<Longrightarrow> page_aligned f \<and> f \<noteq> 0" by (rule pmm_inv_aligned)
  show "pmm_inv s fs \<Longrightarrow> f \<noteq> 0 \<Longrightarrow> page_aligned f \<Longrightarrow> f \<notin> set fs \<Longrightarrow>
      pmm_inv (pmm_free (V2P f) s) (f # fs)"
    using pmm_free_push [of s fs "V2P f"] by simp
qed

section \<open>Properties\<close>

text \<open>
  C12. Once the allocator runs on its stack, taking \<open>n\<close> pages from a stack of at least
  \<open>n\<close> succeeds and yields \<open>n\<close> distinct page-aligned frames, the top ones of the
  stack; the rest of the stack is left intact, and giving the frames back one by one restores
  a valid stack with exactly the original pages.
\<close>

theorem pmm_alloc_free_roundtrip:
  assumes "pmm_inv s fs" and "n \<le> length fs"
  shows "\<exists>s'. alloc_n pmm_alloc n s = Inr (map V2P (take n fs), s')
    \<and> distinct (map V2P (take n fs)) \<and> (\<forall>p \<in> set (take n fs). page_aligned (V2P p))
    \<and> pmm_inv s' (drop n fs)
    \<and> pmm_inv (fold pmm_free (map V2P (take n fs)) s') (rev (take n fs) @ drop n fs)"
proof -
  from pmm.alloc_n_take [OF assms] obtain s' where
    s': "alloc_n pmm_alloc n s = Inr (map V2P (take n fs), s')" "pmm_inv s' (drop n fs)"
    by blast
  have d: "distinct (take n fs)" "set (take n fs) \<inter> set (drop n fs) = {}"
    using pmm_inv_distinct [OF assms(1)] by (auto simp: set_take_disj_set_drop_if_distinct)
  have a: "page_aligned p \<and> p \<noteq> 0" if "p \<in> set (take n fs)" for p
    by (rule pmm_inv_aligned [OF assms(1) in_set_takeD [OF that]])
  have "pmm_inv (fold pmm_free (map V2P (take n fs)) s') (rev (take n fs) @ drop n fs)"
    by (rule pmm.release_all [OF s'(2)]) (use d a in auto)
  moreover have "distinct (map V2P (take n fs))"
    using d by (simp add: distinct_map inj_on_def)
  ultimately show ?thesis using s' a by auto
qed

theorem pmm_alloc_free_roundtrip_witness:
  "\<exists>s'. alloc_n pmm_alloc 1 (pmm_free 0x5000 \<lparr>kmem = (\<lambda>_. 0), pmm_running = False, pmm_pos = 0, pmm_stack = 0\<rparr>)
      = Inr ([0x5000], s') \<and> pmm_inv s' []"
proof -
  let ?s0 = "\<lparr>kmem = (\<lambda>_. 0), pmm_running = False, pmm_pos = 0, pmm_stack = 0\<rparr>"
  have p: "P2V 0x5000 \<noteq> 0" "STRIP_FLAGS 0x5000 = 0x5000"
    by (simp_all add: P2V_def KERNEL_OFFSET_def STRIP_FLAGS_def)
  have "pmm_inv ?s0 []" by (simp add: pmm_inv_def)
  then have "pmm_inv (pmm_free 0x5000 ?s0) [P2V 0x5000]"
    using pmm_free_push [of ?s0 "[]" "0x5000"] p by simp
  from pmm_alloc_free_roundtrip [OF this, of 1] show ?thesis by auto
qed

text \<open>
  There is no out-of-memory result: with an empty stack \<^verbatim>\<open>pmm_alloc\<close> dereferences
  the null pointer.
\<close>

theorem pmm_alloc_exhausted:
  assumes "pmm_inv s []" and "pmm_running s"
  shows "pmm_alloc s = Inl NullDeref"
  using assms by (rule pmm_alloc_empty)

theorem pmm_alloc_exhausted_witness:
  "pmm_alloc \<lparr>kmem = (\<lambda>_. 0), pmm_running = True, pmm_pos = 0, pmm_stack = 0\<rparr> = Inl NullDeref"
  by (rule pmm_alloc_exhausted) (simp_all add: pmm_inv_def)

end
