(* ===== verification/Vmm.thy ===== *)
theory Vmm
  imports Pmm
begin

text \<open>
  The page tables of \<^verbatim>\<open>kernel/mem/vmm.c\<close>. A table is a page of 512 entries in the
  kernel's byte memory, reached through the \<^verbatim>\<open>P2V\<close> window; an address space is the
  physical address of its P4 table. \<open>tab m t q\<close> follows the entries \<open>q\<close> from the table
  \<open>t\<close>; \<open>pt_wf\<close> says that the tables reached along a set of index paths are
  pairwise distinct pages that are not on the free stack.
\<close>

record vmm = pmm +
  BootP4 :: addr  \<comment> \<open>the address of the linker symbol\<close>
  cr3 :: addr

section \<open>vmm.c\<close>

definition vmm_new_P4 :: "'z vmm_scheme \<Rightarrow> (addr \<times> 'z vmm_scheme) res" where
  "vmm_new_P4 s =
     bindR (pmm_alloc s) (\<lambda>(P4, s).
       let s = s\<lparr>kmem := memset (P2V P4) 0 PAGE_SIZE (kmem s)\<rparr>;
           s = s\<lparr>kmem := store64 (kmem s) (P2V P4 + 8 * 511) (load64 (kmem s) (BootP4 s + 8 * 511))\<rparr>
       in Inr (P4, s))"

definition vmm_set_P4 :: "addr \<Rightarrow> 'z vmm_scheme \<Rightarrow> 'z vmm_scheme" where
  "vmm_set_P4 P4 s = (if P4 \<noteq> 0 then s\<lparr>cr3 := P4\<rparr> else s\<lparr>cr3 := V2P (BootP4 s)\<rparr>)"

text \<open>
  One level of the walk, the block that \<^verbatim>\<open>vmm_find_page\<close> repeats for P4, P3 and P2:
  \<open>None\<close> is its \<^verbatim>\<open>return 0\<close>.
\<close>

definition vmm_next_table :: "addr \<Rightarrow> addr \<Rightarrow> bool \<Rightarrow> 'z vmm_scheme \<Rightarrow> (addr option \<times> 'z vmm_scheme) res" where
  "vmm_next_table t i touch s =
     (let e = load64 (kmem s) (t + 8 * i) in
      if e = 0 then
        if \<not> touch then Inr (None, s)
        else bindR (pmm_alloc s) (\<lambda>(p, s).
          let s = s\<lparr>kmem := memset (P2V p) 0 PAGE_SIZE (kmem s)\<rparr>;
              e = ADD_FLAGS p (PAGE_PRESENT OR PAGE_WRITE OR PAGE_USER);
              s = s\<lparr>kmem := store64 (kmem s) (t + 8 * i) e\<rparr>
          in Inr (Some (P2V (STRIP_FLAGS e)), s))
      else Inr (Some (P2V (STRIP_FLAGS e)), s))"

definition vmm_find_page :: "addr \<Rightarrow> addr \<Rightarrow> bool \<Rightarrow> 'z vmm_scheme \<Rightarrow> (addr \<times> 'z vmm_scheme) res" where
  "vmm_find_page P4 addr touch s =
     (let addr = addr AND NOT PAGE_FLAGS_MASK; P4 = P2V P4 in
      bindR (vmm_next_table P4 (P4_OFFSET addr) touch s) (\<lambda>(r, s).
        case r of None \<Rightarrow> Inr (0, s) | Some P3 \<Rightarrow>
      bindR (vmm_next_table P3 (P3_OFFSET addr) touch s) (\<lambda>(r, s).
        case r of None \<Rightarrow> Inr (0, s) | Some P2 \<Rightarrow>
      bindR (vmm_next_table P2 (P2_OFFSET addr) touch s) (\<lambda>(r, s).
        case r of None \<Rightarrow> Inr (0, s) | Some P1 \<Rightarrow> Inr (P1, s)))))"

definition GET_P4 :: "'z vmm_scheme \<Rightarrow> addr" where
  "GET_P4 s = V2P (BootP4 s)"

definition vmm_get_page :: "addr \<Rightarrow> addr \<Rightarrow> 'z vmm_scheme \<Rightarrow> addr res" where
  "vmm_get_page P4 addr s =
     (let P4 = (if P4 = 0 then GET_P4 s else P4) in
      bindR (vmm_find_page P4 addr False s) (\<lambda>(P1, s).
        if P1 = 0 then Inr 0 else Inr (load64 (kmem s) (P1 + 8 * P1_OFFSET addr))))"

definition vmm_set_page :: "addr \<Rightarrow> addr \<Rightarrow> addr \<Rightarrow> addr \<Rightarrow> 'z vmm_scheme \<Rightarrow> (addr \<times> 'z vmm_scheme) res" where
  "vmm_set_page P4 addr phys flags s =
     (let P4 = (if P4 = 0 then GET_P4 s else P4) in
      bindR (vmm_find_page P4 addr True s) (\<lambda>(P1, s).
        if P1 = 0 then Inr (0, s)
        else
          let s = s\<lparr>kmem := store64 (kmem s) (P1 + 8 * P1_OFFSET addr) (ADD_FLAGS phys flags)\<rparr>
          in Inr (load64 (kmem s) (P1 + 8 * P1_OFFSET addr), s)))"

text \<open>
  \<^verbatim>\<open>vmm_p4_memcpy\<close> and \<^verbatim>\<open>vmm_p4_memset\<close>: each round moves at least one byte, so
  the remaining count decreases.
\<close>

function vmm_p4_memcpy_loop ::
  "addr \<Rightarrow> addr \<Rightarrow> addr \<Rightarrow> addr \<Rightarrow> u64 \<Rightarrow> u64 \<Rightarrow> 'z vmm_scheme \<Rightarrow> (u64 \<times> 'z vmm_scheme) res" where
  "vmm_p4_memcpy_loop dst_P4 dst src_P4 src n copied s =
     (if n = 0 then Inr (copied, s)
      else
        let d_offset = dst mod PAGE_SIZE; s_offset = src mod PAGE_SIZE;
            d_bytes = PAGE_SIZE - d_offset; s_bytes = PAGE_SIZE - s_offset;
            bytes = (if d_bytes < s_bytes then d_bytes else s_bytes);
            bytes = (if bytes < n then bytes else n)
        in bindR (vmm_get_page dst_P4 dst s) (\<lambda>d_page. bindR (vmm_get_page src_P4 src s) (\<lambda>s_page.
             let d_page = STRIP_FLAGS d_page; s_page = STRIP_FLAGS s_page in
             if d_page = 0 \<or> s_page = 0 then Inr (0, s)
             else vmm_p4_memcpy_loop dst_P4 (dst + bytes) src_P4 (src + bytes) (n - bytes) (copied + bytes)
                    (s\<lparr>kmem := memcpy (P2V d_page + d_offset) (P2V s_page + s_offset) bytes (kmem s)\<rparr>))))"
  by pat_completeness auto
termination
  by (relation "measure (\<lambda>(_, _, _, _, n, _, _). unat n)")
    (auto simp: Let_def not_less unat_gt_0 intro!: unat_diff_less page_rest_pos split: if_splits)

definition vmm_p4_memcpy :: "addr \<Rightarrow> addr \<Rightarrow> addr \<Rightarrow> addr \<Rightarrow> u64 \<Rightarrow> 'z vmm_scheme \<Rightarrow> (u64 \<times> 'z vmm_scheme) res" where
  "vmm_p4_memcpy dst_P4 dst src_P4 src n s = vmm_p4_memcpy_loop dst_P4 dst src_P4 src n 0 s"

function vmm_p4_memset_loop ::
  "addr \<Rightarrow> addr \<Rightarrow> u32 \<Rightarrow> u64 \<Rightarrow> u64 \<Rightarrow> 'z vmm_scheme \<Rightarrow> (u64 \<times> 'z vmm_scheme) res" where
  "vmm_p4_memset_loop P4 p c n set' s =
     (if n = 0 then Inr (set', s)
      else
        let offset = p mod PAGE_SIZE; bytes = PAGE_SIZE - offset;
            bytes = (if bytes < n then bytes else n)
        in bindR (vmm_get_page P4 p s) (\<lambda>page.
             let page = STRIP_FLAGS page in
             if page = 0 then Inr (0, s)
             else vmm_p4_memset_loop P4 (p + bytes) c (n - bytes) (set' + bytes)
                    (s\<lparr>kmem := memset (P2V page + offset) c bytes (kmem s)\<rparr>)))"
  by pat_completeness auto
termination
  by (relation "measure (\<lambda>(_, _, _, n, _, _). unat n)")
    (auto simp: Let_def not_less unat_gt_0 intro!: unat_diff_less page_rest_pos split: if_splits)

definition vmm_p4_memset :: "addr \<Rightarrow> addr \<Rightarrow> u32 \<Rightarrow> u64 \<Rightarrow> 'z vmm_scheme \<Rightarrow> (u64 \<times> 'z vmm_scheme) res" where
  "vmm_p4_memset P4 p c n s = vmm_p4_memset_loop P4 p c n 0 s"

text \<open>
  \<^verbatim>\<open>vmm_free_P4\<close>: the four nested loops over the user half. \<open>free_level 0\<close> is the
  innermost one, over the entries of a P1 table; \<open>free_level (Suc k)\<close> runs the loop one
  level up, whose body frees the table below after emptying it.
\<close>

primrec vmm_free_level :: "nat \<Rightarrow> addr \<Rightarrow> nat \<Rightarrow> 'z vmm_scheme \<Rightarrow> 'z vmm_scheme" where
  "vmm_free_level 0 t count s =
     fold (\<lambda>i s.
       let e = load64 (kmem s) (t + 8 * of_nat i) in
       if e \<noteq> 0 then
         let s = pmm_free (STRIP_FLAGS e) s in s\<lparr>kmem := store64 (kmem s) (t + 8 * of_nat i) 0\<rparr>
       else s) [0..<count] s"
| "vmm_free_level (Suc k) t count s =
     fold (\<lambda>i s.
       let e = load64 (kmem s) (t + 8 * of_nat i) in
       if e \<noteq> 0 then
         let s = vmm_free_level k (P2V (STRIP_FLAGS e)) 512 s;
             s = pmm_free (STRIP_FLAGS (load64 (kmem s) (t + 8 * of_nat i))) s
         in s\<lparr>kmem := store64 (kmem s) (t + 8 * of_nat i) 0\<rparr>
       else s) [0..<count] s"

definition vmm_free_P4 :: "addr \<Rightarrow> 'z vmm_scheme \<Rightarrow> 'z vmm_scheme" where
  "vmm_free_P4 P4 s =
     (let P4 = P2V P4;
          s = vmm_free_level 3 P4 (unat (P4_OFFSET KERNEL_OFFSET)) s
      in pmm_free (V2P P4) s)"

declare vmm_p4_memcpy_loop.simps [simp del] vmm_p4_memset_loop.simps [simp del]

section \<open>Slots of tables\<close>

lemma unat_slot: "unat i < 512 \<Longrightarrow> unat (8 * i :: addr) = 8 * unat i"
  by (simp add: unat_word_ariths)

lemma slot_inject:
  assumes "page_aligned a" "page_aligned b" "unat i < 512" "unat j < 512"
  shows "a + 8 * i = b + 8 * j \<longleftrightarrow> a = b \<and> i = j"
proof -
  have "8 * i = 8 * j \<longleftrightarrow> i = j"
    using assms(3,4) by (metis unat_slot unat_inject64 mult_cancel1 zero_neq_numeral)
  then show ?thesis using page_slot_inject [of a b "8 * i" "8 * j"] assms by (simp add: unat_slot)
qed

lemma slot_aligned8: "page_aligned a \<Longrightarrow> unat i < 512 \<Longrightarrow> aligned8 (a + 8 * i)"
proof -
  assume "page_aligned a" "unat i < 512"
  moreover then obtain c where "unat a = 8 * (512 * c)" by (auto simp: page_aligned_unat elim!: dvdE)
  ultimately show ?thesis by (simp add: aligned8_def unat_add_offset unat_slot)
qed

lemma load64_slot:
  assumes "page_aligned a" "page_aligned b" "unat i < 512" "unat j < 512"
  shows "load64 (store64 m (a + 8 * i) v) (b + 8 * j)
    = (if a = b \<and> i = j then v else load64 m (b + 8 * j))"
  using assms slot_inject [OF assms] load64_store64_other [of "a + 8 * i" "b + 8 * j"]
  by (auto simp: slot_aligned8)

lemma slot_byte:
  assumes "unat i < 512" "k < 8"
  shows "unat (8 * i + of_nat k :: addr) < 4096"
  using assms by (subst unat_add_eq) (auto simp: unat_slot unat_of_nat_eq)

lemma STRIP_slot_byte:
  assumes "page_aligned b" "unat j < 512" "k < 8"
  shows "STRIP_FLAGS (b + 8 * j + of_nat k) = b"
  using STRIP_FLAGS_add_offset [OF assms(1) slot_byte [OF assms(2,3)]] by (simp add: add.assoc)

lemma memset_page_apply:
  "page_aligned f \<Longrightarrow> memset f c 0x1000 m b = (if STRIP_FLAGS b = f then ucast c else m b)"
  by (simp add: memset_apply page_diff)

lemma load64_memset_page:
  assumes "page_aligned f" "page_aligned b" "unat j < 512"
  shows "load64 (memset f 0 0x1000 m) (b + 8 * j) = (if b = f then 0 else load64 m (b + 8 * j))"
proof (cases "b = f")
  case True
  then show ?thesis
    using STRIP_slot_byte assms by (auto intro!: load64_zero simp: memset_page_apply)
next
  case False
  then show ?thesis
    using STRIP_slot_byte assms by (auto intro!: load64_cong simp: memset_page_apply)
qed

lemma store64_page:
  assumes "page_aligned a" "unat i < 512" "STRIP_FLAGS b \<noteq> a"
  shows "store64 m (a + 8 * i) v b = m b"
proof -
  have "\<not> b - (a + 8 * i) < 8"
  proof
    assume "b - (a + 8 * i) < 8"
    then have k: "unat (b - (a + 8 * i)) < 8" by (simp add: word_less_nat_alt)
    have "b = a + 8 * i + of_nat (unat (b - (a + 8 * i)))" by simp
    then have "STRIP_FLAGS b = a" using STRIP_slot_byte [OF assms(1,2) k] by simp
    with assms(3) show False by simp
  qed
  then show ?thesis by (simp add: store64_def)
qed

section \<open>Tables reached by a path of indices\<close>

fun tab :: "mem \<Rightarrow> addr \<Rightarrow> addr list \<Rightarrow> addr option" where
  "tab m t [] = Some t"
| "tab m t (i # is) =
     (let e = load64 m (t + 8 * i) in if e = 0 then None else tab m (P2V (STRIP_FLAGS e)) is)"

text \<open>The entry \<open>j\<close> of the table at path \<open>q\<close>; 0 where there is no such table.\<close>

definition ent :: "mem \<Rightarrow> addr \<Rightarrow> addr list \<Rightarrow> addr \<Rightarrow> addr" where
  "ent m t q j = (case tab m t q of None \<Rightarrow> 0 | Some a \<Rightarrow> load64 m (a + 8 * j))"

lemma tab_snoc:
  "tab m t (q @ [j]) = (if ent m t q j = 0 then None else Some (P2V (STRIP_FLAGS (ent m t q j))))"
  by (induction q arbitrary: t) (auto simp: ent_def Let_def split: option.splits)

text \<open>A set of paths closed under prefixes, with at most three indices below 512.\<close>

definition path_dom :: "addr list set \<Rightarrow> bool" where
  "path_dom D \<longleftrightarrow> [] \<in> D \<and> (\<forall>q j. q @ [j] \<in> D \<longrightarrow> q \<in> D \<and> unat j < 512) \<and> (\<forall>q \<in> D. length q \<le> 3)"

definition tables :: "addr list set \<Rightarrow> mem \<Rightarrow> addr \<Rightarrow> addr set" where
  "tables D m t = {a. \<exists>q \<in> D. tab m t q = Some a}"

definition pt_wf :: "addr list set \<Rightarrow> mem \<Rightarrow> addr \<Rightarrow> bool" where
  "pt_wf D m t \<longleftrightarrow> page_aligned t \<and> 0 \<notin> tables D m t
     \<and> (\<forall>p \<in> D. \<forall>q \<in> D. \<forall>a. tab m t p = Some a \<longrightarrow> tab m t q = Some a \<longrightarrow> p = q)"

lemma tab_aligned: "page_aligned t \<Longrightarrow> tab m t q = Some a \<Longrightarrow> page_aligned a"
  by (induction m t q rule: tab.induct) (auto simp: Let_def split: if_splits)

lemma pt_wf_inj: "pt_wf D m t \<Longrightarrow> p \<in> D \<Longrightarrow> q \<in> D \<Longrightarrow> tab m t p = Some a \<Longrightarrow> tab m t q = Some a \<Longrightarrow> p = q"
  by (auto simp: pt_wf_def)

lemma pt_wf_table: "pt_wf D m t \<Longrightarrow> q \<in> D \<Longrightarrow> tab m t q = Some a \<Longrightarrow> page_aligned a \<and> a \<noteq> 0"
  by (auto simp: pt_wf_def tables_def intro: tab_aligned)

lemma path_dom_snoc: "path_dom D \<Longrightarrow> q @ [j] \<in> D \<Longrightarrow> q \<in> D \<and> unat j < 512"
  by (auto simp: path_dom_def)

text \<open>Memory that agrees on all entries gives the same tables.\<close>

lemma tab_cong:
  assumes "path_dom D" "\<And>q j. q @ [j] \<in> D \<Longrightarrow> ent m' t q j = ent m t q j"
  shows "q \<in> D \<Longrightarrow> tab m' t q = tab m t q"
proof (induction q rule: rev_induct)
  case Nil
  then show ?case by simp
next
  case (snoc j q)
  then show ?case using assms by (simp add: tab_snoc)
qed

section \<open>Writing one entry\<close>

lemma tab_store64:
  assumes dom: "path_dom D" and wf: "pt_wf D m t"
    and p: "p \<in> D" "tab m t p = Some a" and i: "unat i < 512"
    and q: "q \<in> D" "\<forall>r. q \<noteq> p @ i # r"
  shows "tab (store64 m (a + 8 * i) v) t q = tab m t q"
  using q
proof (induction q rule: rev_induct)
  case Nil
  then show ?case by simp
next
  case (snoc j q)
  have q: "q \<in> D" "unat j < 512" using path_dom_snoc [OF dom snoc.prems(1)] by auto
  have IH: "tab (store64 m (a + 8 * i) v) t q = tab m t q"
    using snoc.IH [OF q(1)] snoc.prems(2) by (metis append_Cons append_assoc)
  have "load64 (store64 m (a + 8 * i) v) (b + 8 * j) = load64 m (b + 8 * j)" if b: "tab m t q = Some b" for b
  proof -
    have "\<not> (a = b \<and> i = j)"
      using pt_wf_inj [OF wf p(1) q(1) p(2)] b snoc.prems(2) by auto
    then show ?thesis
      using pt_wf_table [OF wf] p b q i by (subst load64_slot) auto
  qed
  then show ?case using IH by (auto simp: tab_snoc ent_def split: option.splits)
qed

lemma ent_store64:
  assumes dom: "path_dom D" and wf: "pt_wf D m t"
    and p: "p \<in> D" "tab m t p = Some a" and i: "unat i < 512"
    and q: "q \<in> D" "\<forall>r. q \<noteq> p @ i # r" and j: "unat j < 512"
  shows "ent (store64 m (a + 8 * i) v) t q j = (if q = p \<and> j = i then v else ent m t q j)"
proof (cases "tab m t q")
  case None
  then show ?thesis using tab_store64 [OF assms(1-7)] p(2) by (auto simp: ent_def)
next
  case (Some b)
  have "load64 (store64 m (a + 8 * i) v) (b + 8 * j) = (if a = b \<and> i = j then v else load64 m (b + 8 * j))"
    using pt_wf_table [OF wf] p Some q i j by (intro load64_slot) auto
  moreover have "a = b \<longleftrightarrow> q = p"
    using pt_wf_inj [OF wf p(1) q(1) p(2)] Some p(2) by auto
  ultimately show ?thesis using tab_store64 [OF assms(1-7)] Some by (auto simp: ent_def)
qed

lemma tab_memset_fresh:
  assumes dom: "path_dom D" and wf: "pt_wf D m t"
    and f: "page_aligned f" "f \<notin> tables D m t" and q: "q \<in> D"
  shows "tab (memset f 0 0x1000 m) t q = tab m t q"
  using q
proof (induction q rule: rev_induct)
  case Nil
  then show ?case by simp
next
  case (snoc j q)
  have q: "q \<in> D" "unat j < 512" using path_dom_snoc [OF dom snoc.prems(1)] by auto
  have "load64 (memset f 0 0x1000 m) (b + 8 * j) = load64 m (b + 8 * j)" if b: "tab m t q = Some b" for b
    using pt_wf_table [OF wf q(1) b] f q b by (subst load64_memset_page) (auto simp: tables_def)
  then show ?case using snoc.IH [OF q(1)] by (auto simp: tab_snoc ent_def split: option.splits)
qed

lemma ent_memset_fresh:
  assumes dom: "path_dom D" and wf: "pt_wf D m t"
    and f: "page_aligned f" "f \<notin> tables D m t" and q: "q \<in> D" and j: "unat j < 512"
  shows "ent (memset f 0 0x1000 m) t q j = ent m t q j"
  using tab_memset_fresh [OF assms(1-5)] pt_wf_table [OF wf q] f q j
  by (auto simp: ent_def load64_memset_page tables_def split: option.splits)

lemma tab_below_empty: "ent m t p i = 0 \<Longrightarrow> tab m t (p @ i # r) = None"
proof (induction r rule: rev_induct)
  case Nil
  then show ?case by (simp add: tab_snoc)
next
  case (snoc x xs)
  then show ?case using tab_snoc [of m t "p @ i # xs" x] by (simp add: ent_def)
qed

lemma tab_below_zeroed:
  assumes dom: "path_dom D" and z: "\<And>j. unat j < 512 \<Longrightarrow> ent m t (p @ [i]) j = 0"
  shows "p @ i # r \<in> D \<Longrightarrow> r \<noteq> [] \<Longrightarrow> tab m t (p @ i # r) = None"
proof (induction r rule: rev_induct)
  case Nil
  then show ?case by simp
next
  case (snoc x xs)
  have "p @ i # xs \<in> D" "unat x < 512"
    using path_dom_snoc [OF dom, of "p @ i # xs" x] snoc.prems by auto
  then have "ent m t (p @ i # xs) x = 0"
    using snoc.IH z by (cases "xs = []") (auto simp: ent_def)
  then show ?case using tab_snoc [of m t "p @ i # xs" x] by simp
qed

text \<open>Hanging a fresh zeroed page below an empty entry.\<close>

lemma new_table:
  fixes m t p a i f v
  assumes dom: "path_dom D" and wf: "pt_wf D m t"
    and p: "p @ [i] \<in> D" "tab m t p = Some a" "ent m t p i = 0"
    and f: "page_aligned f" "f \<noteq> 0" "f \<notin> tables D m t"
    and v: "v \<noteq> 0" "P2V (STRIP_FLAGS v) = f"
  defines "m' \<equiv> store64 (memset f 0 0x1000 m) (a + 8 * i) v"
  shows "q \<in> D \<Longrightarrow> tab m' t q = (if q = p @ [i] then Some f else tab m t q)"
    and "q \<in> D \<Longrightarrow> unat j < 512 \<Longrightarrow> ent m' t q j = (if q = p \<and> j = i then v else ent m t q j)"
proof -
  let ?m = "memset f 0 0x1000 m"
  have p': "p \<in> D" "unat i < 512" using path_dom_snoc [OF dom p(1)] by auto
  have wf1: "pt_wf D ?m t"
    using wf tab_memset_fresh [OF dom wf f(1,3)] by (simp add: pt_wf_def tables_def)
  have p1: "tab ?m t p = Some a" using p(2) tab_memset_fresh [OF dom wf f(1,3) p'(1)] by simp
  have a: "page_aligned a" "a \<noteq> f" using pt_wf_table [OF wf p'(1) p(2)] p(2) p'(1) f(3)
    by (auto simp: tables_def)
  have outside: "\<forall>r. q \<noteq> p @ i # r \<Longrightarrow> q \<in> D \<Longrightarrow> tab m' t q = tab m t q" for q
    using tab_store64 [OF dom wf1 p'(1) p1 p'(2)] tab_memset_fresh [OF dom wf f(1,3)]
    by (simp add: m'_def)
  have outent: "\<forall>r. q \<noteq> p @ i # r \<Longrightarrow> q \<in> D \<Longrightarrow> unat j < 512 \<Longrightarrow>
      ent m' t q j = (if q = p \<and> j = i then v else ent m t q j)" for q j
    using ent_store64 [OF dom wf1 p'(1) p1 p'(2)] ent_memset_fresh [OF dom wf f(1,3)]
    by (simp add: m'_def)
  have pi: "tab m' t (p @ [i]) = Some f"
    using outent [of p i] p' v by (simp add: tab_snoc)
  have zero: "ent m' t (p @ [i]) j = 0" if "unat j < 512" for j
    using pi load64_slot [OF a(1) f(1) p'(2) that] load64_memset_page [OF f(1) f(1) that] a(2)
    by (simp add: ent_def m'_def)
  note none = tab_below_empty [OF p(3)] and below = tab_below_zeroed [OF dom zero]
  show "tab m' t q = (if q = p @ [i] then Some f else tab m t q)" if "q \<in> D"
  proof (cases "\<exists>r. q = p @ i # r")
    case True
    then obtain r where r: "q = p @ i # r" by blast
    then show ?thesis using that pi below none by (cases "r = []") auto
  next
    case False
    then show ?thesis using that outside by auto
  qed
  show "ent m' t q j = (if q = p \<and> j = i then v else ent m t q j)" if "q \<in> D" "unat j < 512"
  proof (cases "\<exists>r. q = p @ i # r")
    case True
    then obtain r where r: "q = p @ i # r" by blast
    have "ent m t q j = 0" using none r by (simp add: ent_def)
    moreover have "ent m' t q j = 0"
      using that r zero below by (cases "r = []") (auto simp: ent_def)
    ultimately show ?thesis using r by simp
  next
    case False
    then show ?thesis using outent that by blast
  qed
qed
section \<open>The invariant and the walk\<close>

definition vmm_inv :: "addr list set \<Rightarrow> addr \<Rightarrow> 'z vmm_scheme \<Rightarrow> addr list \<Rightarrow> bool" where
  "vmm_inv D t s fs \<longleftrightarrow> path_dom D \<and> pmm_inv s fs \<and> pmm_running s \<and> pt_wf D (kmem s) t
     \<and> tables D (kmem s) t \<inter> set fs = {}"

text \<open>The path of a virtual address, and the entry of its page.\<close>

definition vpath :: "addr \<Rightarrow> addr list" where
  "vpath va = [P4_OFFSET va, P3_OFFSET va, P2_OFFSET va]"

definition pte :: "mem \<Rightarrow> addr \<Rightarrow> addr \<Rightarrow> addr" where
  "pte m t va = ent m t (vpath va) (P1_OFFSET va)"

text \<open>
  What an operation that only adds tables from the free stack may do: take the first \<open>k\<close>
  free pages, keep the entries of the leaf tables and everything outside tables and the taken
  pages, and touch no other part of the state.
\<close>

definition vmm_grow :: "addr list set \<Rightarrow> addr \<Rightarrow> 'z vmm_scheme \<Rightarrow> addr list \<Rightarrow> nat \<Rightarrow> 'z vmm_scheme \<Rightarrow> bool" where
  "vmm_grow D t s fs k s' \<longleftrightarrow> k \<le> length fs \<and> vmm_inv D t s' (drop k fs)
     \<and> (\<forall>q \<in> D. length q = 3 \<longrightarrow> (\<forall>j. unat j < 512 \<longrightarrow> ent (kmem s') t q j = ent (kmem s) t q j))
     \<and> (\<forall>q \<in> D. tab (kmem s) t q \<noteq> None \<longrightarrow> tab (kmem s') t q = tab (kmem s) t q)
     \<and> tables D (kmem s') t = tables D (kmem s) t \<union> set (take k fs)
     \<and> (\<forall>b. STRIP_FLAGS b \<notin> tables D (kmem s) t \<union> set (take k fs) \<longrightarrow> kmem s' b = kmem s b)
     \<and> s' = s\<lparr>kmem := kmem s', pmm_stack := pmm_stack s'\<rparr>"

lemma vmm_grow_refl: "vmm_inv D t s fs \<Longrightarrow> vmm_grow D t s fs 0 s"
  by (simp add: vmm_grow_def)

lemma grow_state:
  fixes s s1 s2 :: "'z vmm_scheme"
  assumes e1: "s1 = s\<lparr>kmem := kmem s1, pmm_stack := pmm_stack s1\<rparr>"
   and e2: "s2 = s1\<lparr>kmem := kmem s2, pmm_stack := pmm_stack s2\<rparr>"
  shows "s2 = s\<lparr>kmem := kmem s2, pmm_stack := pmm_stack s2\<rparr>"
proof -
  have "s1\<lparr>kmem := kmem s2, pmm_stack := pmm_stack s2\<rparr> = s\<lparr>kmem := kmem s2, pmm_stack := pmm_stack s2\<rparr>"
    by (subst e1) simp
  with e2 show ?thesis by simp
qed

lemma vmm_grow_trans:
  assumes 1: "vmm_grow D t s fs k s1" and 2: "vmm_grow D t s1 (drop k fs) l s2"
  shows "vmm_grow D t s fs (k + l) s2"
proof -
  have tk: "set (take (k + l) fs) = set (take k fs) \<union> set (take l (drop k fs))"
    by (simp add: take_add)
  have T1: "tables D (kmem s1) t = tables D (kmem s) t \<union> set (take k fs)"
    and T2: "tables D (kmem s2) t = tables D (kmem s1) t \<union> set (take l (drop k fs))"
    using 1 2 by (auto simp: vmm_grow_def)
  have M1: "\<And>b. STRIP_FLAGS b \<notin> tables D (kmem s) t \<union> set (take k fs) \<Longrightarrow> kmem s1 b = kmem s b"
    and M2: "\<And>b. STRIP_FLAGS b \<notin> tables D (kmem s1) t \<union> set (take l (drop k fs)) \<Longrightarrow> kmem s2 b = kmem s1 b"
    using 1 2 by (auto simp: vmm_grow_def)
  have M: "kmem s2 b = kmem s b" if "STRIP_FLAGS b \<notin> tables D (kmem s) t \<union> set (take (k + l) fs)" for b
    using M1 [of b] M2 [of b] T1 that tk by auto
  have R: "s2 = s\<lparr>kmem := kmem s2, pmm_stack := pmm_stack s2\<rparr>"
    using 1 2 grow_state [of s1 s s2] by (simp add: vmm_grow_def)
  have B: "\<forall>q\<in>D. tab (kmem s) t q \<noteq> None \<longrightarrow> tab (kmem s2) t q = tab (kmem s) t q"
    using 1 2 by (metis vmm_grow_def)
  have K: "k + l \<le> length fs" "vmm_inv D t s2 (drop (k + l) fs)"
    using 1 2 by (auto simp: vmm_grow_def add.commute)
  have L: "\<forall>q \<in> D. length q = 3 \<longrightarrow> (\<forall>j. unat j < 512 \<longrightarrow> ent (kmem s2) t q j = ent (kmem s) t q j)"
    using 1 2 by (simp add: vmm_grow_def)
  show ?thesis
    unfolding vmm_grow_def using K L B T1 T2 M tk by (intro conjI R) auto
qed

lemma new_table_wf:
  assumes dom: "path_dom D" and wf: "pt_wf D m t"
    and p: "p @ [i] \<in> D" "tab m t p = Some a" "ent m t p i = 0"
    and f: "page_aligned f" "f \<noteq> 0" "f \<notin> tables D m t"
    and v: "v \<noteq> 0" "P2V (STRIP_FLAGS v) = f"
  defines "m' \<equiv> store64 (memset f 0 0x1000 m) (a + 8 * i) v"
  shows "pt_wf D m' t" and "tables D m' t = insert f (tables D m t)"
proof -
  have tab': "tab m' t q = (if q = p @ [i] then Some f else tab m t q)" if "q \<in> D" for q
    using new_table(1) [OF assms(1-10)] that by (simp add: m'_def)
  have "tab m t (p @ [i]) = None" using p(3) by (simp add: tab_snoc)
  then show T: "tables D m' t = insert f (tables D m t)"
    using tab' p(1) by (auto simp: tables_def split: if_splits) (metis option.distinct(1))
  have nf: "tab m t q \<noteq> Some f" if "q \<in> D" for q using f(3) that by (auto simp: tables_def)
  show "pt_wf D m' t"
    using wf f(2) nf unfolding pt_wf_def T by (auto simp: tab' split: if_splits)
qed

lemma ADD_FLAGS_table [simp]:
  "ADD_FLAGS p (0x001 OR 0x002 OR 0x004) \<noteq> 0"
proof -
  have "bit (ADD_FLAGS p (0x001 OR 0x002 OR 0x004)) 0"
    by (simp add: ADD_FLAGS_def bit_simps)
  then show ?thesis by (metis bit_0_eq bot_apply bot_bool_def)
qed

lemma vmm_next_table_touch:
  assumes inv: "vmm_inv D t s fs" and p: "p @ [i] \<in> D" "tab (kmem s) t p = Some a"
    and short: "length p < 3" and fs: "fs \<noteq> []"
  shows "\<exists>b s' k. vmm_next_table a i True s = Inr (Some b, s') \<and> k \<le> 1
    \<and> tab (kmem s') t (p @ [i]) = Some b \<and> vmm_grow D t s fs k s'"
proof (cases "ent (kmem s) t p i = 0")
  case False
  then have "vmm_next_table a i True s = Inr (Some (P2V (STRIP_FLAGS (ent (kmem s) t p i))), s)"
    using p(2) by (simp add: vmm_next_table_def ent_def Let_def)
  then show ?thesis using vmm_grow_refl [OF inv] False tab_snoc [of "kmem s" t p i]
    by (intro exI [of _ "P2V (STRIP_FLAGS (ent (kmem s) t p i))"] exI [of _ s] exI [of _ 0]) simp
next
  case True
  obtain f gs where fs: "fs = f # gs" using fs by (cases fs) auto
  have dom: "path_dom D" and wf: "pt_wf D (kmem s) t" and pinv: "pmm_inv s (f # gs)"
    and dis: "tables D (kmem s) t \<inter> set (f # gs) = {}" and run: "pmm_running s"
    using inv fs by (auto simp: vmm_inv_def)
  have f: "page_aligned f" "f \<noteq> 0" "f \<notin> tables D (kmem s) t"
    using pmm_inv_aligned [OF pinv] dis by auto
  obtain s1 where s1: "pmm_alloc s = Inr (V2P f, s1)" "s1 = s\<lparr>pmm_stack := load64 (kmem s) f\<rparr>" "pmm_inv s1 gs"
    using pmm_alloc_pop [OF pinv] .
  define v where "v = ADD_FLAGS (V2P f) (0x001 OR 0x002 OR 0x004)"
  have v: "v \<noteq> 0" "P2V (STRIP_FLAGS v) = f"
  proof -
    show "v \<noteq> 0" unfolding v_def by (rule ADD_FLAGS_table)
    show "P2V (STRIP_FLAGS v) = f" using f(1) by (simp add: v_def)
  qed
  define m' where "m' = store64 (memset f 0 0x1000 (kmem s)) (a + 8 * i) v"
  define s' where "s' = s1\<lparr>kmem := m'\<rparr>"
  note new = new_table [OF dom wf p True f v, folded m'_def]
    and wf' = new_table_wf [OF dom wf p True f v, folded m'_def]
  have "load64 (kmem s) (a + 8 * i) = 0" using True p(2) by (simp add: ent_def)
  then have eq: "vmm_next_table a i True s = Inr (Some f, s')"
    using s1 v by (simp add: vmm_next_table_def s'_def m'_def v_def Let_def del: or_numerals)
  have pi: "p \<in> D" "unat i < 512" using path_dom_snoc [OF dom p(1)] by auto
  have a: "page_aligned a" "a \<in> tables D (kmem s) t"
    using pt_wf_table [OF wf pi(1) p(2)] pi(1) p(2) by (auto simp: tables_def)
  have "load64 m' g = load64 (kmem s) g" if "g \<in> set gs" for g
    using load64_slot [OF a(1), of g i 0 "memset f 0 0x1000 (kmem s)" v]
      load64_memset_page [OF f(1), of g 0 "kmem s"] pmm_inv_aligned [OF pinv, of g] that pi(2) dis a(2)
      pmm_inv_distinct [OF pinv]
    by (auto simp: m'_def)
  then have "pmm_inv s' gs"
    using s1(2,3) by (intro pmm_inv_frame [OF s1(3)]) (auto simp: s'_def)
  then have I: "vmm_inv D t s' gs"
    using dom wf' run dis s1(2) pmm_inv_distinct [OF pinv] by (auto simp: vmm_inv_def s'_def)
  have M: "m' b = kmem s b" if "STRIP_FLAGS b \<notin> insert f (tables D (kmem s) t)" for b
  proof -
    have "STRIP_FLAGS b \<noteq> a" "STRIP_FLAGS b \<noteq> f" using that a(2) by auto
    then show ?thesis using store64_page [OF a(1) pi(2)] f(1) by (simp add: m'_def memset_page_apply)
  qed
  have "vmm_grow D t s fs 1 s'"
    using I new wf'(2) M short fs s1(2) unfolding vmm_grow_def
    by (auto simp: s'_def tab_snoc True)
  then show ?thesis using eq new(1) [OF p(1)] by (auto simp: s'_def)
qed

lemma P_OFFSET_STRIP [simp]:
  "P1_OFFSET (STRIP_FLAGS a) = P1_OFFSET a" "P2_OFFSET (STRIP_FLAGS a) = P2_OFFSET a"
  "P3_OFFSET (STRIP_FLAGS a) = P3_OFFSET a" "P4_OFFSET (STRIP_FLAGS a) = P4_OFFSET a"
  by (simp_all add: P1_OFFSET_def P2_OFFSET_def P3_OFFSET_def P4_OFFSET_def STRIP_FLAGS_def mask12 mask9
      bit_eq_iff bit_simps) auto

lemma vmm_find_page_alt:
  "vmm_find_page P4 va touch s =
      bindR (vmm_next_table (P2V P4) (P4_OFFSET va) touch s) (\<lambda>(r, s).
        case r of None \<Rightarrow> Inr (0, s) | Some P3 \<Rightarrow>
      bindR (vmm_next_table P3 (P3_OFFSET va) touch s) (\<lambda>(r, s).
        case r of None \<Rightarrow> Inr (0, s) | Some P2 \<Rightarrow>
      bindR (vmm_next_table P2 (P2_OFFSET va) touch s) (\<lambda>(r, s).
        case r of None \<Rightarrow> Inr (0, s) | Some P1 \<Rightarrow> Inr (P1, s))))"
  unfolding vmm_find_page_def Let_def STRIP_FLAGS_def [symmetric] by (simp only: P_OFFSET_STRIP)

lemma vmm_next_table_no_touch:
  "vmm_next_table a i False s =
     Inr (if load64 (kmem s) (a + 8 * i) = 0 then None
          else Some (P2V (STRIP_FLAGS (load64 (kmem s) (a + 8 * i)))), s)"
  by (simp add: vmm_next_table_def Let_def)

lemma vmm_find_page_no_touch:
  "vmm_find_page P4 va False s =
     Inr (case tab (kmem s) (P2V P4) (vpath va) of None \<Rightarrow> 0 | Some a \<Rightarrow> a, s)"
  by (simp add: vmm_find_page_alt vmm_next_table_no_touch vpath_def Let_def)

lemma vmm_find_page_touch:
  assumes inv: "vmm_inv D (P2V P4) s fs" and va: "vpath va \<in> D" and fs: "3 \<le> length fs"
  shows "\<exists>a s' k. vmm_find_page P4 va True s = Inr (a, s') \<and> k \<le> 3
    \<and> tab (kmem s') (P2V P4) (vpath va) = Some a \<and> vmm_grow D (P2V P4) s fs k s'"
proof -
  let ?t = "P2V P4"
  have dom: "path_dom D" using inv by (simp add: vmm_inv_def)
  have q2: "[P4_OFFSET va, P3_OFFSET va] \<in> D"
    using path_dom_snoc [OF dom, of "[P4_OFFSET va, P3_OFFSET va]"] va by (simp add: vpath_def)
  have q1: "[P4_OFFSET va] \<in> D" using path_dom_snoc [OF dom, of "[P4_OFFSET va]"] q2 by simp
  have inv_of: "vmm_grow D ?t s fs k s' \<Longrightarrow> vmm_inv D ?t s' (drop k fs)" for k s'
    by (simp add: vmm_grow_def)
  obtain b1 s1 k1 where 1: "vmm_next_table ?t (P4_OFFSET va) True s = Inr (Some b1, s1)" "k1 \<le> 1"
    "tab (kmem s1) ?t [P4_OFFSET va] = Some b1" "vmm_grow D ?t s fs k1 s1"
    using vmm_next_table_touch [OF inv, of "[]" "P4_OFFSET va" ?t] q1 fs
    by (cases "fs = []") (auto simp del: tab.simps simp: tab.simps(1))
  obtain b2 s2 k2 where 2: "vmm_next_table b1 (P3_OFFSET va) True s1 = Inr (Some b2, s2)" "k2 \<le> 1"
    "tab (kmem s2) ?t [P4_OFFSET va, P3_OFFSET va] = Some b2" "vmm_grow D ?t s1 (drop k1 fs) k2 s2"
    using vmm_next_table_touch [OF inv_of [OF 1(4)], of "[P4_OFFSET va]" "P3_OFFSET va" b1] q2 1 fs
    by (auto simp del: tab.simps)
  note g2 = vmm_grow_trans [OF 1(4) 2(4)]
  obtain b3 s3 k3 where 3: "vmm_next_table b2 (P2_OFFSET va) True s2 = Inr (Some b3, s3)" "k3 \<le> 1"
    "tab (kmem s3) ?t (vpath va) = Some b3" "vmm_grow D ?t s2 (drop (k1 + k2) fs) k3 s3"
    using vmm_next_table_touch [OF inv_of [OF g2], of "[P4_OFFSET va, P3_OFFSET va]" "P2_OFFSET va" b2]
      va 1(2) 2 fs by (auto simp: vpath_def simp del: tab.simps)
  have "vmm_find_page P4 va True s = Inr (b3, s3)"
    using 1(1) 2(1) 3(1) by (simp add: vmm_find_page_alt)
  then show ?thesis
    using 3(3) vmm_grow_trans [OF g2 3(4)] 1(2) 2(2) 3(2)
    by (intro exI [of _ b3] exI [of _ s3] exI [of _ "k1 + k2 + k3"]) simp
qed

lemma vmm_get_page_pte:
  assumes "pt_wf D (kmem s) (P2V P4)" "vpath va \<in> D" "P4 \<noteq> 0"
  shows "vmm_get_page P4 va s = Inr (pte (kmem s) (P2V P4) va)"
  using assms pt_wf_table [OF assms(1,2)]
  by (auto simp: vmm_get_page_def vmm_find_page_no_touch pte_def ent_def split: option.splits)


section \<open>Mapping a page\<close>

text \<open>Two addresses name the same page of an address space when their keys agree.\<close>

definition vkey :: "addr \<Rightarrow> addr list \<times> addr" where
  "vkey va = (vpath va, P1_OFFSET va)"

lemma ent_frame:
  assumes dom: "path_dom D" and al: "page_aligned t"
    and same: "\<And>b. STRIP_FLAGS b \<in> tables D m t \<Longrightarrow> m' b = m b"
  shows "q \<in> D \<Longrightarrow> unat j < 512 \<Longrightarrow> ent m' t q j = ent m t q j"
    and "q \<in> D \<Longrightarrow> tab m' t q = tab m t q"
proof -
  have ld: "load64 m' (a + 8 * j) = load64 m (a + 8 * j)"
    if "q \<in> D" "tab m t q = Some a" "unat j < 512" for q a j
  proof (rule load64_cong)
    fix k :: nat
    assume "k < 8"
    then have "STRIP_FLAGS (a + 8 * j + of_nat k) = a"
      using STRIP_slot_byte [OF tab_aligned [OF al that(2)] that(3)] by simp
    then show "m' (a + 8 * j + of_nat k) = m (a + 8 * j + of_nat k)"
      using that(1,2) by (intro same) (auto simp: tables_def)
  qed
  show tab: "tab m' t q = tab m t q" if "q \<in> D" for q
    using that
  proof (induction q rule: rev_induct)
    case (snoc j q)
    then show ?case using path_dom_snoc [OF dom snoc.prems] ld [of q _ j]
      by (auto simp: tab_snoc ent_def split: option.splits)
  qed simp
  show "ent m' t q j = ent m t q j" if "q \<in> D" "unat j < 512"
    using tab that ld by (auto simp: ent_def split: option.splits)
qed

lemma set_leaf:
  fixes v
  assumes inv: "vmm_inv D t s fs" and q: "vpath va \<in> D" and a: "tab (kmem s) t (vpath va) = Some a"
  defines "s' \<equiv> s\<lparr>kmem := store64 (kmem s) (a + 8 * P1_OFFSET va) v\<rparr>"
  shows "vmm_inv D t s' fs" and "tables D (kmem s') t = tables D (kmem s) t"
    and "vpath va' \<in> D \<Longrightarrow> pte (kmem s') t va' = (if vkey va' = vkey va then v else pte (kmem s) t va')"
    and "STRIP_FLAGS b \<notin> tables D (kmem s) t \<Longrightarrow> kmem s' b = kmem s b"
proof -
  have dom: "path_dom D" and wf: "pt_wf D (kmem s) t" using inv by (auto simp: vmm_inv_def)
  have len: "\<forall>r. p \<noteq> vpath va @ P1_OFFSET va # r" if "p \<in> D" for p
    using that dom by (auto simp: path_dom_def vpath_def)
  note tb = tab_store64 [OF dom wf q a unat_P_OFFSET(1) _ len]
    and en = ent_store64 [OF dom wf q a unat_P_OFFSET(1) _ len]
  have al: "page_aligned a" "a \<in> tables D (kmem s) t"
    using pt_wf_table [OF wf q a] q a by (auto simp: tables_def)
  show T: "tables D (kmem s') t = tables D (kmem s) t"
    using tb by (simp add: tables_def s'_def)
  show M: "kmem s' b = kmem s b" if "STRIP_FLAGS b \<notin> tables D (kmem s) t" for b
  proof -
    have "STRIP_FLAGS b \<noteq> a" using that al(2) by auto
    then show ?thesis using store64_page [OF al(1) unat_P_OFFSET(1)] by (simp add: s'_def)
  qed
  have "load64 (kmem s') f = load64 (kmem s) f" if f: "f \<in> set fs" for f
    using load64_slot [of a f "P1_OFFSET va" 0 "kmem s" v] al f inv pmm_inv_aligned [of s fs f]
    by (auto simp: s'_def vmm_inv_def unat_P_OFFSET)
  then have "pmm_inv s' fs"
    using inv by (intro pmm_inv_frame [of s fs s']) (auto simp: vmm_inv_def s'_def)
  moreover have "pt_wf D (kmem s') t"
    using wf tb T by (simp add: pt_wf_def s'_def)
  ultimately show "vmm_inv D t s' fs" using inv T by (simp add: vmm_inv_def s'_def)
  show "pte (kmem s') t va' = (if vkey va' = vkey va then v else pte (kmem s) t va')" if "vpath va' \<in> D"
    using en [OF that that unat_P_OFFSET(1)] by (simp add: pte_def vkey_def s'_def)
qed

lemma vmm_set_page_spec:
  assumes inv: "vmm_inv D (P2V P4) s fs" and P4: "P4 \<noteq> 0" and q: "vpath va \<in> D" and fs: "3 \<le> length fs"
  shows "\<exists>s' k. vmm_set_page P4 va phys flags s = Inr (ADD_FLAGS phys flags, s') \<and> k \<le> 3
    \<and> vmm_inv D (P2V P4) s' (drop k fs)
    \<and> (\<forall>va'. vpath va' \<in> D \<longrightarrow> pte (kmem s') (P2V P4) va'
         = (if vkey va' = vkey va then ADD_FLAGS phys flags else pte (kmem s) (P2V P4) va'))
    \<and> tables D (kmem s') (P2V P4) = tables D (kmem s) (P2V P4) \<union> set (take k fs)
    \<and> (\<forall>b. STRIP_FLAGS b \<notin> tables D (kmem s') (P2V P4) \<longrightarrow> kmem s' b = kmem s b)
    \<and> s' = s\<lparr>kmem := kmem s', pmm_stack := pmm_stack s'\<rparr>"
proof -
  let ?t = "P2V P4"
  obtain a s1 k where 1: "vmm_find_page P4 va True s = Inr (a, s1)" "k \<le> 3"
    "tab (kmem s1) ?t (vpath va) = Some a" "vmm_grow D ?t s fs k s1"
    using vmm_find_page_touch [OF inv q fs] by blast
  have inv1: "vmm_inv D ?t s1 (drop k fs)" using 1(4) by (simp add: vmm_grow_def)
  have a: "a \<noteq> 0" using pt_wf_table [OF _ q 1(3)] inv1 by (auto simp: vmm_inv_def)
  define s' where "s' = s1\<lparr>kmem := store64 (kmem s1) (a + 8 * P1_OFFSET va) (ADD_FLAGS phys flags)\<rparr>"
  have eq: "vmm_set_page P4 va phys flags s = Inr (ADD_FLAGS phys flags, s')"
    using P4 1(1) a by (simp add: vmm_set_page_def s'_def Let_def)
  note leaf = set_leaf [OF inv1 q 1(3), where v = "ADD_FLAGS phys flags", folded s'_def]
  have len: "length (vpath x) = 3" for x by (simp add: vpath_def)
  have pte1: "vpath x \<in> D \<Longrightarrow> pte (kmem s1) ?t x = pte (kmem s) ?t x" for x
    using 1(4) len unat_P_OFFSET(1) by (simp add: vmm_grow_def pte_def)
  have T: "tables D (kmem s') ?t = tables D (kmem s) ?t \<union> set (take k fs)"
    using leaf(2) 1(4) by (simp add: vmm_grow_def)
  have M: "kmem s' b = kmem s b" if "STRIP_FLAGS b \<notin> tables D (kmem s') ?t" for b
    using that leaf(2,4) 1(4) T by (simp add: vmm_grow_def)
  have "s' = s1\<lparr>kmem := kmem s', pmm_stack := pmm_stack s'\<rparr>" by (simp add: s'_def)
  then have R: "s' = s\<lparr>kmem := kmem s', pmm_stack := pmm_stack s'\<rparr>"
    using grow_state [of s1 s s'] 1(4) by (simp add: vmm_grow_def)
  show ?thesis
    using leaf(3) pte1 leaf(1) T M R 1(2)
    by (intro exI [of _ s'] exI [of _ k] conjI eq R) auto
qed

section \<open>User address spaces\<close>

definition user_dom :: "addr list set" where
  "user_dom = {q. length q \<le> 3 \<and> (\<forall>i \<in> set q. unat i < 512) \<and> (q = [] \<or> hd q \<noteq> 511)}"

lemma path_dom_user: "path_dom user_dom"
  by (auto simp: path_dom_def user_dom_def)

lemma vpath_user: "P4_OFFSET va \<noteq> 511 \<Longrightarrow> vpath va \<in> user_dom"
  by (simp add: user_dom_def vpath_def unat_P_OFFSET)

lemma empty_root:
  assumes "\<And>j. unat j < 512 \<Longrightarrow> j \<noteq> 511 \<Longrightarrow> load64 m (t + 8 * j) = 0" "q \<in> user_dom"
  shows "tab m t q = (if q = [] then Some t else None)"
  using assms by (cases q) (auto simp: user_dom_def)

lemma vmm_inv_empty_root:
  assumes "pmm_inv s fs" "pmm_running s" "page_aligned t" "t \<noteq> 0" "t \<notin> set fs"
    and "\<And>j. unat j < 512 \<Longrightarrow> j \<noteq> 511 \<Longrightarrow> load64 (kmem s) (t + 8 * j) = 0"
  shows "vmm_inv user_dom t s fs" and "tables user_dom (kmem s) t = {t}"
proof -
  note tb = empty_root [OF assms(6)]
  have "[] \<in> user_dom" by (simp add: user_dom_def)
  then show T: "tables user_dom (kmem s) t = {t}"
    by (auto simp: tables_def tb split: if_splits)
  have "pt_wf user_dom (kmem s) t"
    using assms(3,4) T by (auto simp: pt_wf_def tb split: if_splits)
  with T assms show "vmm_inv user_dom t s fs" by (simp add: vmm_inv_def path_dom_user)
qed

lemma vmm_new_P4_spec:
  assumes inv: "pmm_inv s (f # fs)" "pmm_running s"
    and boot: "page_aligned (BootP4 s)" "BootP4 s \<notin> set (f # fs)"
  shows "\<exists>s'. vmm_new_P4 s = Inr (V2P f, s') \<and> vmm_inv user_dom f s' fs
    \<and> tables user_dom (kmem s') f = {f}
    \<and> (\<forall>va. vpath va \<in> user_dom \<longrightarrow> pte (kmem s') f va = 0)
    \<and> load64 (kmem s') (f + 8 * 511) = load64 (kmem s) (BootP4 s + 8 * 511)
    \<and> (\<forall>b. STRIP_FLAGS b \<noteq> f \<longrightarrow> kmem s' b = kmem s b)
    \<and> s' = s\<lparr>kmem := kmem s', pmm_stack := pmm_stack s'\<rparr>"
proof -
  obtain s1 where s1: "pmm_alloc s = Inr (V2P f, s1)" "s1 = s\<lparr>pmm_stack := load64 (kmem s) f\<rparr>" "pmm_inv s1 fs"
    using pmm_alloc_pop [OF inv(1)] .
  have f: "page_aligned f" "f \<noteq> 0" "f \<notin> set fs"
    using pmm_inv_aligned [OF inv(1)] pmm_inv_distinct [OF inv(1)] by auto
  let ?e = "load64 (kmem s) (BootP4 s + 8 * 511)"
  have b: "load64 (memset f 0 0x1000 (kmem s)) (BootP4 s + 8 * 511) = ?e"
    using load64_memset_page [OF f(1) boot(1), of 511] boot(2) by auto
  define m where "m = store64 (memset f 0 0x1000 (kmem s)) (f + 8 * 511) ?e"
  define s' where "s' = s1\<lparr>kmem := m\<rparr>"
  have eq: "vmm_new_P4 s = Inr (V2P f, s')"
    using s1 b by (simp add: vmm_new_P4_def s'_def m_def Let_def)
  have ld: "load64 m (a + 8 * j) = (if a = f then if j = 511 then ?e else 0 else load64 (kmem s) (a + 8 * j))"
    if "page_aligned a" "unat j < 512" for a j
    using load64_slot [OF f(1) that(1) _ that(2), of 511] load64_memset_page [OF f(1) that]
    by (auto simp: m_def)
  have "pmm_inv s' fs"
    using s1 ld [of _ 0] f(3) pmm_inv_aligned [OF s1(3)]
    by (intro pmm_inv_frame [OF s1(3)]) (auto simp: s'_def)
  moreover have z: "load64 (kmem s') (f + 8 * j) = 0" if "unat j < 512" "j \<noteq> 511" for j
    using ld [OF f(1) that(1)] that(2) by (simp add: s'_def)
  ultimately have I: "vmm_inv user_dom f s' fs" "tables user_dom (kmem s') f = {f}"
    using vmm_inv_empty_root [of s' fs f] f s1(2) inv(2) by (auto simp: s'_def)
  have pte0: "pte (kmem s') f va = 0" if "vpath va \<in> user_dom" for va
    using empty_root [OF z that] by (simp add: pte_def ent_def vpath_def)
  have M: "m b = kmem s b" if "STRIP_FLAGS b \<noteq> f" for b
    using store64_page [OF f(1) _ that, of 511] f(1) that by (simp add: m_def memset_page_apply)
  show ?thesis
    using eq I pte0 ld [OF f(1), of 511] M s1(2) by (intro exI [of _ s']) (simp add: s'_def)
qed

lemma pmm_free_outside: "STRIP_FLAGS b \<noteq> P2V (STRIP_FLAGS page) \<Longrightarrow> kmem (pmm_free page s) b = kmem s b"
  using store64_page [of "P2V (STRIP_FLAGS page)" 0 b] by (simp add: pmm_free_alt)

section \<open>Copying between address spaces\<close>

lemma page_run:
  assumes "unat (PAGE_OFFSET a) + k < 4096"
  shows "STRIP_FLAGS (a + of_nat k) = STRIP_FLAGS a"
    and "PAGE_OFFSET (a + of_nat k) = PAGE_OFFSET a + of_nat k"
proof -
  have u: "unat (PAGE_OFFSET a + of_nat k) < 4096"
    using assms by (subst unat_add_eq) (auto simp: unat_of_nat_eq)
  have eq: "STRIP_FLAGS a + (PAGE_OFFSET a + of_nat k) = a + of_nat k"
    by (metis STRIP_plus_OFFSET add.assoc)
  show "STRIP_FLAGS (a + of_nat k) = STRIP_FLAGS a"
    and "PAGE_OFFSET (a + of_nat k) = PAGE_OFFSET a + of_nat k"
    using STRIP_FLAGS_add_offset [OF _ u, of "STRIP_FLAGS a"] PAGE_OFFSET_add_offset [OF _ u, of "STRIP_FLAGS a"]
    unfolding eq by simp_all
qed

text \<open>Where a byte of an address space lives, given the frame of its page.\<close>

definition loc :: "(addr \<Rightarrow> addr) \<Rightarrow> addr \<Rightarrow> addr" where
  "loc fr va = P2V (fr va) + PAGE_OFFSET va"

lemma loc_run:
  assumes fr: "\<And>a b. STRIP_FLAGS a = STRIP_FLAGS b \<Longrightarrow> fr a = fr b"
    and "unat (PAGE_OFFSET va) + k < 4096"
  shows "loc fr (va + of_nat k) = loc fr va + of_nat k"
  using page_run [OF assms(2)] fr [of "va + of_nat k" va] by (simp add: loc_def)

lemma loc_STRIP: "page_aligned (fr va) \<Longrightarrow> STRIP_FLAGS (loc fr va) = P2V (fr va)"
  by (simp add: loc_def STRIP_FLAGS_add_offset unat_PAGE_OFFSET)

lemma bytes_apart:
  fixes d s n :: addr
  assumes "unat (PAGE_OFFSET s) + unat n \<le> 4096" "STRIP_FLAGS d \<noteq> STRIP_FLAGS s"
  shows "n \<le> d - s"
proof (rule ccontr)
  assume "\<not> n \<le> d - s"
  then have "unat (PAGE_OFFSET s) + unat (d - s) < 4096"
    using assms(1) by (simp add: word_le_nat_alt)
  from page_run(1) [OF this] have "STRIP_FLAGS d = STRIP_FLAGS s" by simp
  with assms(2) show False by simp
qed

text \<open>
  \<open>copied dl sl N i m0 m\<close>: of the \<open>N\<close> bytes to be moved from the locations \<open>sl\<close> to
  the locations \<open>dl\<close>, the first \<open>i\<close> have been moved and nothing else has changed.
\<close>

definition copied :: "(nat \<Rightarrow> addr) \<Rightarrow> (nat \<Rightarrow> addr) \<Rightarrow> nat \<Rightarrow> mem \<Rightarrow> mem \<Rightarrow> bool" where
  "copied dl sl i m0 m \<longleftrightarrow> (\<forall>k < i. m (dl k) = m0 (sl k)) \<and> (\<forall>b. (\<forall>k < i. b \<noteq> dl k) \<longrightarrow> m b = m0 b)"

lemma copied_round:
  assumes "copied dl sl i m0 m"
    and run: "\<And>j. j < unat bytes \<Longrightarrow> dl (i + j) = dl i + of_nat j \<and> sl (i + j) = sl i + of_nat j"
    and apart: "bytes \<le> dl i - sl i"
    and inj: "\<And>k l. k < i + unat bytes \<Longrightarrow> l < i + unat bytes \<Longrightarrow> dl k = dl l \<Longrightarrow> k = l"
    and fresh: "\<And>k l. k < i \<Longrightarrow> l < i + unat bytes \<Longrightarrow> dl k \<noteq> sl l"
  shows "copied dl sl (i + unat bytes) m0 (memcpy (dl i) (sl i) bytes m)"
proof -
  let ?m = "memcpy (dl i) (sl i) bytes m"
  have m1: "?m b = (if b - dl i < bytes then m (sl i + (b - dl i)) else m b)" for b
    using apart by (simp add: memcpy_apply)
  have new: "?m (dl (i + j)) = m0 (sl (i + j))" if "j < unat bytes" for j
  proof -
    have "(of_nat j :: addr) < bytes"
      using that unat_less64 [of bytes] by (simp add: word_less_nat_alt unat_of_nat_eq)
    then have "?m (dl (i + j)) = m (sl (i + j))" using run [OF that] by (simp add: m1)
    moreover have "\<forall>k < i. sl (i + j) \<noteq> dl k" using fresh that by (metis nat_add_left_cancel_less)
    ultimately show ?thesis using assms(1) by (simp add: copied_def)
  qed
  have old: "?m b = m b" if "\<forall>j < unat bytes. b \<noteq> dl (i + j)" for b
  proof -
    have "\<not> b - dl i < bytes"
      using run [of "unat (b - dl i)"] that by (auto simp: word_less_nat_alt)
    then show ?thesis by (simp add: m1)
  qed
  have "?m (dl k) = m0 (sl k)" if "k < i + unat bytes" for k
  proof (cases "k < i")
    case True
    then have "\<forall>j < unat bytes. dl k \<noteq> dl (i + j)" using inj [of k "i + j" for j] by fastforce
    then show ?thesis using old assms(1) True by (simp add: copied_def)
  next
    case False
    then show ?thesis using new [of "k - i"] that by simp
  qed
  moreover have "?m b = m0 b" if "\<forall>k < i + unat bytes. b \<noteq> dl k" for b
    using that old [of b] assms(1) by (simp add: copied_def)
  ultimately show ?thesis by (simp add: copied_def)
qed


text \<open>
  \<open>p4_view s P4 base N fr W\<close>: the \<open>N\<close> bytes from \<open>base\<close> are mapped in \<open>P4\<close>,
  to the frames \<open>fr\<close>, and stay mapped so whatever is written to the locations \<open>W\<close>.
\<close>

definition p4_view :: "'z vmm_scheme \<Rightarrow> addr \<Rightarrow> addr \<Rightarrow> nat \<Rightarrow> (addr \<Rightarrow> addr) \<Rightarrow> addr set \<Rightarrow> bool" where
  "p4_view s P4 base N fr W \<longleftrightarrow>
     (\<forall>a b. STRIP_FLAGS a = STRIP_FLAGS b \<longrightarrow> fr a = fr b) \<and> (\<forall>a. page_aligned (fr a))
     \<and> (\<forall>k < N. fr (base + of_nat k) \<noteq> 0)
     \<and> (\<forall>m k. (\<forall>b. b \<notin> W \<longrightarrow> m b = kmem s b) \<longrightarrow> k < N \<longrightarrow>
          (\<exists>e. vmm_get_page P4 (base + of_nat k) (s\<lparr>kmem := m\<rparr>) = Inr e
             \<and> STRIP_FLAGS e = fr (base + of_nat k)))"

lemma p4_viewD:
  assumes "p4_view s P4 base N fr W" "k < N" "\<And>b. b \<notin> W \<Longrightarrow> m b = kmem s b"
  obtains e where "vmm_get_page P4 (base + of_nat k) (s\<lparr>kmem := m\<rparr>) = Inr e"
    "STRIP_FLAGS e = fr (base + of_nat k)" "fr (base + of_nat k) \<noteq> 0"
  using assms unfolding p4_view_def by blast

lemma p4_view_frame:
  assumes "p4_view s P4 base N fr W"
  shows "STRIP_FLAGS a = STRIP_FLAGS b \<Longrightarrow> fr a = fr b" and "page_aligned (fr a)"
  using assms unfolding p4_view_def by blast+

lemma p4_view_run:
  assumes "p4_view s P4 base N fr W" "unat (PAGE_OFFSET (base + of_nat i)) + j < 4096"
  shows "loc fr (base + of_nat (i + j)) = loc fr (base + of_nat i) + of_nat j"
  using loc_run [OF p4_view_frame(1) [OF assms(1)] assms(2)] by (simp add: add.assoc)

lemma page_rest_bound: "bytes \<le> 0x1000 - d mod 0x1000 \<Longrightarrow> unat (PAGE_OFFSET d) + unat bytes \<le> 4096"
  by (simp add: word_le_nat_alt mod_PAGE_SIZE unat_page_rest unat_PAGE_OFFSET)

lemma min3_pos: "n \<noteq> 0 \<Longrightarrow> 0 < (a::addr) \<Longrightarrow> 0 < b \<Longrightarrow>
  0 < (if (if a < b then a else b) < n then (if a < b then a else b) else n)"
  by (simp add: word_neq_0_conv)

lemma vmm_p4_memcpy_loop_step:
  fixes s :: "'z vmm_scheme"
  assumes "n \<noteq> 0" and e: "vmm_get_page dP4 d s = Inr e1" "STRIP_FLAGS e1 = fd" "fd \<noteq> 0"
      "vmm_get_page sP4 c s = Inr e2" "STRIP_FLAGS e2 = fs" "fs \<noteq> 0"
  obtains bytes where "0 < bytes" "bytes \<le> n"
    "unat (PAGE_OFFSET d) + unat bytes \<le> 4096" "unat (PAGE_OFFSET c) + unat bytes \<le> 4096"
    "vmm_p4_memcpy_loop dP4 d sP4 c n cp s = vmm_p4_memcpy_loop dP4 (d + bytes) sP4 (c + bytes) (n - bytes) (cp + bytes)
       (s\<lparr>kmem := memcpy (P2V fd + PAGE_OFFSET d) (P2V fs + PAGE_OFFSET c) bytes (kmem s)\<rparr>)"
proof -
  define db where "db = 0x1000 - d mod 0x1000"
  define sb where "sb = 0x1000 - c mod 0x1000"
  define b0 where "b0 = (if db < sb then db else sb)"
  define bytes where "bytes = (if b0 < n then b0 else n)"
  have bn: "bytes \<le> n" by (auto simp: bytes_def)
  have bp: "0 < bytes"
    using min3_pos [OF assms(1) page_rest_pos page_rest_pos, of d c]
    by (simp only: bytes_def b0_def db_def sb_def)
  have "bytes \<le> db" "bytes \<le> sb" by (auto simp: bytes_def b0_def)
  then have od: "unat (PAGE_OFFSET d) + unat bytes \<le> 4096" "unat (PAGE_OFFSET c) + unat bytes \<le> 4096"
    by (simp_all only: db_def sb_def page_rest_bound)
  have "vmm_p4_memcpy_loop dP4 d sP4 c n cp s
      = vmm_p4_memcpy_loop dP4 (d + bytes) sP4 (c + bytes) (n - bytes) (cp + bytes)
         (s\<lparr>kmem := memcpy (P2V fd + PAGE_OFFSET d) (P2V fs + PAGE_OFFSET c) bytes (kmem s)\<rparr>)"
    unfolding bytes_def b0_def db_def sb_def
    by (subst vmm_p4_memcpy_loop.simps)
      (simp only: Let_def mod_PAGE_SIZE bindR.simps assms if_False simp_thms)
  then show ?thesis by (rule that [OF bp bn od])
qed

lemma vmm_p4_memcpy_loop_correct:
  fixes s :: "'z vmm_scheme"
  assumes dv: "p4_view s dP4 dst N dfr W" and sv: "p4_view s sP4 src N sfr W"
    and dl: "dl = (\<lambda>k. loc dfr (dst + of_nat k))" and sl: "sl = (\<lambda>k. loc sfr (src + of_nat k))"
    and W: "W = dl ` {..<N}" and apart: "\<And>k l. k < N \<Longrightarrow> l < N \<Longrightarrow> dfr (dst + of_nat k) \<noteq> sfr (src + of_nat l)"
    and inj: "inj_on dl {..<N}"
  shows "i + unat n = N \<Longrightarrow> copied dl sl i (kmem s) m \<Longrightarrow>
   \<exists>m'. vmm_p4_memcpy_loop dP4 (dst + of_nat i) sP4 (src + of_nat i) n (of_nat i) (s\<lparr>kmem := m\<rparr>)
      = Inr (of_nat N, s\<lparr>kmem := m'\<rparr>) \<and> copied dl sl N (kmem s) m'"
proof (induction "unat n" arbitrary: n i m rule: less_induct)
  case less
  show ?case
  proof (cases "n = 0")
    case True
    then show ?thesis using less.prems by (subst vmm_p4_memcpy_loop.simps) auto
  next
    case False
    have iN: "i < N" using less.prems(1) False by (simp add: unat_gt_0 flip: less.prems(1))
    have off: "m b = kmem s b" if "b \<notin> W" for b
    proof -
      have "\<forall>k < i. b \<noteq> dl k" using that iN by (auto simp: W)
      then show ?thesis using less.prems(2) by (simp add: copied_def)
    qed
    obtain e1 where e1: "vmm_get_page dP4 (dst + of_nat i) (s\<lparr>kmem := m\<rparr>) = Inr e1"
      "STRIP_FLAGS e1 = dfr (dst + of_nat i)" "dfr (dst + of_nat i) \<noteq> 0"
      by (rule p4_viewD [OF dv iN off])
    obtain e2 where e2: "vmm_get_page sP4 (src + of_nat i) (s\<lparr>kmem := m\<rparr>) = Inr e2"
      "STRIP_FLAGS e2 = sfr (src + of_nat i)" "sfr (src + of_nat i) \<noteq> 0"
      by (rule p4_viewD [OF sv iN off])
    obtain bytes where b: "0 < bytes" "bytes \<le> n"
      "unat (PAGE_OFFSET (dst + of_nat i)) + unat bytes \<le> 4096"
      "unat (PAGE_OFFSET (src + of_nat i)) + unat bytes \<le> 4096"
      and step: "vmm_p4_memcpy_loop dP4 (dst + of_nat i) sP4 (src + of_nat i) n (of_nat i) (s\<lparr>kmem := m\<rparr>)
        = vmm_p4_memcpy_loop dP4 (dst + of_nat i + bytes) sP4 (src + of_nat i + bytes) (n - bytes)
           (of_nat i + bytes) (s\<lparr>kmem := memcpy (dl i) (sl i) bytes m\<rparr>)"
      by (rule vmm_p4_memcpy_loop_step [OF False e1 e2, of "of_nat i"]) (simp add: dl sl loc_def)
    have ib: "i + unat bytes \<le> N" using less.prems(1) b(2) by (simp add: word_le_nat_alt)
    note al = p4_view_frame(2) [OF dv] p4_view_frame(2) [OF sv]
    have ne: "dl k \<noteq> sl l" if "k < N" "l < N" for k l
      using apart [OF that] al loc_STRIP [of dfr "dst + of_nat k"] loc_STRIP [of sfr "src + of_nat l"]
      by (auto simp: dl sl)
    have "STRIP_FLAGS (dl i) \<noteq> STRIP_FLAGS (sl i)"
      using apart [OF iN iN] al by (simp add: dl sl loc_STRIP)
    moreover have "PAGE_OFFSET (sl i) = PAGE_OFFSET (src + of_nat i)"
      using al by (simp add: sl loc_def PAGE_OFFSET_add_offset unat_PAGE_OFFSET)
    ultimately have "bytes \<le> dl i - sl i"
      using bytes_apart [of "sl i" bytes "dl i"] b(4) by simp
    then have "copied dl sl (i + unat bytes) (kmem s) (memcpy (dl i) (sl i) bytes m)"
      using p4_view_run [OF dv, of i] p4_view_run [OF sv, of i] b(3,4) inj ib ne
      by (intro copied_round [OF less.prems(2)]) (auto simp: dl sl inj_on_def)
    moreover have "unat (n - bytes) < unat n" "(i + unat bytes) + unat (n - bytes) = N"
      using unat_diff_less [OF b(1,2)] less.prems(1) unat_sub [OF b(2)] b(2)
      by (simp_all add: word_le_nat_alt)
    ultimately show ?thesis
      using less.hyps [of "n - bytes" "i + unat bytes"] step by (simp add: add.assoc)
  qed
qed

text \<open>Reading the frame of a page through well-formed tables.\<close>

definition frame :: "mem \<Rightarrow> addr \<Rightarrow> addr \<Rightarrow> addr" where
  "frame m P4 va = STRIP_FLAGS (pte m (P2V P4) va)"

lemma vkey_STRIP: "STRIP_FLAGS a = STRIP_FLAGS b \<Longrightarrow> vkey a = vkey b"
  by (metis P_OFFSET_STRIP vkey_def vpath_def)

lemma frame_STRIP: "STRIP_FLAGS a = STRIP_FLAGS b \<Longrightarrow> frame m P4 a = frame m P4 b"
  using vkey_STRIP [of a b] by (simp add: frame_def pte_def vkey_def)

lemma p4_view_wf:
  assumes dom: "path_dom D" and wf: "pt_wf D (kmem s) (P2V P4)" and P4: "P4 \<noteq> 0"
    and va: "\<And>k. k < N \<Longrightarrow> vpath (base + of_nat k) \<in> D"
    and mapped: "\<And>k. k < N \<Longrightarrow> frame (kmem s) P4 (base + of_nat k) \<noteq> 0"
    and W: "\<And>b. b \<in> W \<Longrightarrow> STRIP_FLAGS b \<notin> tables D (kmem s) (P2V P4)"
  shows "p4_view s P4 base N (frame (kmem s) P4) W"
  unfolding p4_view_def
proof (intro conjI allI impI)
  fix m k
  assume m: "\<forall>b. b \<notin> W \<longrightarrow> m b = kmem s b" and k: "k < N"
  have al: "page_aligned (P2V P4)" using wf by (simp add: pt_wf_def)
  have same: "m b = kmem s b" if "STRIP_FLAGS b \<in> tables D (kmem s) (P2V P4)" for b
    using m W that by blast
  note fr = ent_frame [where m = "kmem s" and m' = m, OF dom al same]
  have "tables D m (P2V P4) = tables D (kmem s) (P2V P4)"
    using fr(2) by (simp add: tables_def)
  then have "pt_wf D m (P2V P4)" using wf fr(2) by (simp add: pt_wf_def)
  then have "vmm_get_page P4 (base + of_nat k) (s\<lparr>kmem := m\<rparr>) = Inr (pte m (P2V P4) (base + of_nat k))"
    using vmm_get_page_pte [of D "s\<lparr>kmem := m\<rparr>" P4] va [OF k] P4 by simp
  moreover have "pte m (P2V P4) (base + of_nat k) = pte (kmem s) (P2V P4) (base + of_nat k)"
    using fr(1) [OF _ va [OF k] unat_P_OFFSET(1)] by (simp add: pte_def)
  ultimately show "\<exists>e. vmm_get_page P4 (base + of_nat k) (s\<lparr>kmem := m\<rparr>) = Inr e
      \<and> STRIP_FLAGS e = frame (kmem s) P4 (base + of_nat k)"
    by (simp add: frame_def)
next
  show "frame (kmem s) P4 a = frame (kmem s) P4 b" if "STRIP_FLAGS a = STRIP_FLAGS b" for a b
    using that by (rule frame_STRIP)
  show "page_aligned (frame (kmem s) P4 a)" for a by (simp add: frame_def)
  show "frame (kmem s) P4 (base + of_nat k) \<noteq> 0" if "k < N" for k using that by (rule mapped)
qed


text \<open>The location of a byte of an address space.\<close>

definition vloc :: "mem \<Rightarrow> addr \<Rightarrow> addr \<Rightarrow> addr" where
  "vloc m P4 va = loc (frame m P4) va"

lemma vmm_p4_memcpy_correct:
  fixes s :: "'z vmm_scheme"
  assumes dom: "path_dom D" "path_dom D'"
    and wf: "pt_wf D (kmem s) (P2V P4)" "pt_wf D' (kmem s) (P2V P4')" and P4: "P4 \<noteq> 0" "P4' \<noteq> 0"
    and va: "\<And>k. k < unat n \<Longrightarrow> vpath (dst + of_nat k) \<in> D" "\<And>k. k < unat n \<Longrightarrow> vpath (src + of_nat k) \<in> D'"
    and mapped: "\<And>k. k < unat n \<Longrightarrow> frame (kmem s) P4 (dst + of_nat k) \<noteq> 0"
      "\<And>k. k < unat n \<Longrightarrow> frame (kmem s) P4' (src + of_nat k) \<noteq> 0"
    and data: "\<And>k. k < unat n \<Longrightarrow> P2V (frame (kmem s) P4 (dst + of_nat k)) \<notin>
      tables D (kmem s) (P2V P4) \<union> tables D' (kmem s) (P2V P4')"
    and apart: "\<And>k l. k < unat n \<Longrightarrow> l < unat n \<Longrightarrow>
      frame (kmem s) P4 (dst + of_nat k) \<noteq> frame (kmem s) P4' (src + of_nat l)"
    and inj: "inj_on (\<lambda>k. vloc (kmem s) P4 (dst + of_nat k)) {..<unat n}"
  shows "\<exists>m'. vmm_p4_memcpy P4 dst P4' src n s = Inr (n, s\<lparr>kmem := m'\<rparr>)
    \<and> copied (\<lambda>k. vloc (kmem s) P4 (dst + of_nat k)) (\<lambda>k. vloc (kmem s) P4' (src + of_nat k)) (unat n) (kmem s) m'"
proof -
  let ?N = "unat n"
  let ?dl = "\<lambda>k. vloc (kmem s) P4 (dst + of_nat k)" and ?sl = "\<lambda>k. vloc (kmem s) P4' (src + of_nat k)"
  have al: "page_aligned (frame (kmem s) P4 a)" for a by (simp add: frame_def)
  have W: "STRIP_FLAGS b \<notin> tables D (kmem s) (P2V P4) \<union> tables D' (kmem s) (P2V P4')" if "b \<in> ?dl ` {..<?N}" for b
    using that data al loc_STRIP [of "frame (kmem s) P4"] by (auto simp: vloc_def)
  have "p4_view s P4 dst ?N (frame (kmem s) P4) (?dl ` {..<?N})"
    using W by (intro p4_view_wf [OF dom(1) wf(1) P4(1) va(1) mapped(1)]) blast+
  moreover have "p4_view s P4' src ?N (frame (kmem s) P4') (?dl ` {..<?N})"
    using W by (intro p4_view_wf [OF dom(2) wf(2) P4(2) va(2) mapped(2)]) blast+
  ultimately have "\<exists>m'. vmm_p4_memcpy_loop P4 (dst + of_nat 0) P4' (src + of_nat 0) n (of_nat 0) (s\<lparr>kmem := kmem s\<rparr>)
      = Inr (of_nat ?N, s\<lparr>kmem := m'\<rparr>) \<and> copied ?dl ?sl ?N (kmem s) m'"
    using apart inj by (intro vmm_p4_memcpy_loop_correct) (auto simp: vloc_def copied_def)
  then show ?thesis by (simp add: vmm_p4_memcpy_def)
qed

section \<open>Properties\<close>

lemma pmm_free_fields [simp]:
  "pmm_running (pmm_free p s) = True" "pmm_pos (pmm_free p s) = pmm_pos s"
  "BootP4 (pmm_free p s) = BootP4 s" "cr3 (pmm_free p s) = cr3 s"
  by (simp_all add: pmm_free_alt)

definition example_vmm :: vmm where
  "example_vmm = fold pmm_free [0x5000, 0x6000, 0x7000, 0x8000, 0x9000, 0xA000]
     \<lparr>kmem = (\<lambda>_. 0), pmm_running = False, pmm_pos = 0, pmm_stack = 0, BootP4 = P2V 0x2000, cr3 = 0\<rparr>"

definition example_frames :: "addr list" where
  "example_frames = [P2V 0xA000, P2V 0x9000, P2V 0x8000, P2V 0x7000, P2V 0x6000, P2V 0x5000]"

lemma example_frame_facts:
  "page_aligned 0x2000" "page_aligned 0x3000" "page_aligned 0x4000" "page_aligned 0x5000" "page_aligned 0x6000" "page_aligned 0x7000" "page_aligned 0x8000" "page_aligned 0x9000" "page_aligned 0xA000"
  "P2V 0x2000 \<noteq> 0" "P2V 0x3000 \<noteq> 0" "P2V 0x4000 \<noteq> 0" "P2V 0x5000 \<noteq> 0" "P2V 0x6000 \<noteq> 0" "P2V 0x7000 \<noteq> 0" "P2V 0x8000 \<noteq> 0" "P2V 0x9000 \<noteq> 0" "P2V 0xA000 \<noteq> 0"
  by (simp_all add: page_aligned_def P2V_def KERNEL_OFFSET_def)

lemma example_pmm_inv: "pmm_inv example_vmm example_frames"
proof -
  let ?s0 = "\<lparr>kmem = (\<lambda>_. 0), pmm_running = False, pmm_pos = 0, pmm_stack = 0, BootP4 = P2V 0x2000, cr3 = 0\<rparr> :: vmm"
  have "pmm_inv ?s0 []" by (simp add: pmm_inv_def)
  then have "pmm_inv (fold pmm_free (map V2P [P2V 0x5000, P2V 0x6000, P2V 0x7000, P2V 0x8000, P2V 0x9000, P2V 0xA000]) ?s0)
      (rev [P2V 0x5000, P2V 0x6000, P2V 0x7000, P2V 0x8000, P2V 0x9000, P2V 0xA000] @ [])"
    by (rule pmm.release_all) (auto simp: example_frame_facts)
  then show ?thesis by (simp add: example_vmm_def example_frames_def)
qed

lemma example_zero: 
  assumes "page_aligned t" "t \<notin> set example_frames" "unat j < 512"
  shows "load64 (kmem example_vmm) (t + 8 * j) = 0"
proof (rule load64_zero)
  fix k :: nat
  assume "k < 8"
  then have "STRIP_FLAGS (t + 8 * j + of_nat k) = t" using STRIP_slot_byte [OF assms(1,3)] by simp
  with assms(2) show "kmem example_vmm (t + 8 * j + of_nat k) = 0"
    by (simp add: example_vmm_def pmm_free_outside example_frame_facts example_frames_def)
qed

lemma example_root:
  assumes "page_aligned p" "P2V p \<noteq> 0" "P2V p \<notin> set example_frames"
  shows "vmm_inv user_dom (P2V p) example_vmm example_frames"
    and "tables user_dom (kmem example_vmm) (P2V p) = {P2V p}"
proof -
  have "pmm_running example_vmm" by (simp add: example_vmm_def)
  from vmm_inv_empty_root [OF example_pmm_inv this, of "P2V p"]
  show "vmm_inv user_dom (P2V p) example_vmm example_frames"
    "tables user_dom (kmem example_vmm) (P2V p) = {P2V p}"
    using example_zero [of "P2V p"] assms by simp_all
qed

lemma example_vmm_inv: "vmm_inv user_dom (P2V 0x4000) example_vmm example_frames"
  "vmm_inv user_dom (P2V 0x3000) example_vmm example_frames"
  and example_tables: "tables user_dom (kmem example_vmm) (P2V 0x4000) = {P2V 0x4000}"
  "tables user_dom (kmem example_vmm) (P2V 0x3000) = {P2V 0x3000}"
proof -
  have n: "P2V 0x4000 \<notin> set example_frames" "P2V 0x3000 \<notin> set example_frames"
    by (simp_all add: example_frames_def)
  show "vmm_inv user_dom (P2V 0x4000) example_vmm example_frames"
    "vmm_inv user_dom (P2V 0x3000) example_vmm example_frames"
    "tables user_dom (kmem example_vmm) (P2V 0x4000) = {P2V 0x4000}"
    "tables user_dom (kmem example_vmm) (P2V 0x3000) = {P2V 0x3000}"
    using n by (simp_all add: example_root example_frame_facts)
qed

text \<open>
  C3. Mapping a page of a user address space and reading it back: on well-formed tables with at
  least three free pages, \<^verbatim>\<open>vmm_set_page\<close> succeeds and returns the entry,
  \<^verbatim>\<open>vmm_get_page\<close> then returns this entry for every address of that page and what it
  returned before for every other user page, and the tables stay well formed.
\<close>

theorem vmm_set_get_page:
  assumes "vmm_inv user_dom (P2V P4) s fs" and "P4 \<noteq> 0" and "P4_OFFSET va \<noteq> 511" and "3 \<le> length fs"
  shows "\<exists>s' k. vmm_set_page P4 va phys flags s = Inr (ADD_FLAGS phys flags, s') \<and> k \<le> 3
    \<and> vmm_inv user_dom (P2V P4) s' (drop k fs)
    \<and> (\<forall>va'. P4_OFFSET va' \<noteq> 511 \<longrightarrow>
         vmm_get_page P4 va' s' = (if vkey va' = vkey va then Inr (ADD_FLAGS phys flags) else vmm_get_page P4 va' s))"
proof -
  obtain s' k where s': "vmm_set_page P4 va phys flags s = Inr (ADD_FLAGS phys flags, s')" "k \<le> 3"
    "vmm_inv user_dom (P2V P4) s' (drop k fs)"
    and pte: "\<forall>va'. vpath va' \<in> user_dom \<longrightarrow> pte (kmem s') (P2V P4) va'
         = (if vkey va' = vkey va then ADD_FLAGS phys flags else pte (kmem s) (P2V P4) va')"
    using vmm_set_page_spec [OF assms(1,2) vpath_user [OF assms(3)] assms(4), of phys flags] by blast
  have wf: "pt_wf user_dom (kmem s) (P2V P4)" "pt_wf user_dom (kmem s') (P2V P4)"
    using assms(1) s'(3) by (auto simp: vmm_inv_def)
  have "vmm_get_page P4 va' s' = (if vkey va' = vkey va then Inr (ADD_FLAGS phys flags) else vmm_get_page P4 va' s)"
    if "P4_OFFSET va' \<noteq> 511" for va'
    using vmm_get_page_pte [OF wf(1) vpath_user [OF that] assms(2)]
      vmm_get_page_pte [OF wf(2) vpath_user [OF that] assms(2)] pte vpath_user [OF that] by simp
  with s' show ?thesis by blast
qed

theorem vmm_set_get_page_witness:
  "\<exists>s'. vmm_set_page 0x4000 0x400000 0xB000 7 example_vmm = Inr (0xB007, s')
    \<and> vmm_get_page 0x4000 0x400123 s' = Inr 0xB007"
proof -
  have k: "vkey 0x400123 = vkey 0x400000" "P4_OFFSET 0x400123 \<noteq> 511" "P4_OFFSET 0x400000 \<noteq> 511"
    and f: "ADD_FLAGS 0xB000 7 = 0xB007"
    and l: "3 \<le> length example_frames"
    by (simp_all add: example_frames_def vkey_def vpath_def P1_OFFSET_def P2_OFFSET_def P3_OFFSET_def P4_OFFSET_def ADD_FLAGS_def)
  show ?thesis
    using vmm_set_get_page [OF example_vmm_inv(1), of "0x400000" "0xB000" 7] k l unfolding f by auto
qed

text \<open>
  C7. Address spaces are isolated: mapping a user page in one address space leaves every
  user page of another one as it was, when the two share no user table and the tables of the
  other are not on the free stack; both stay well formed.
\<close>

theorem vmm_set_page_isolation:
  assumes "vmm_inv user_dom (P2V P4) s fs" and "P4 \<noteq> 0" and "P4_OFFSET va \<noteq> 511" and "3 \<le> length fs"
    and "pt_wf user_dom (kmem s) (P2V Q4)" and "Q4 \<noteq> 0"
    and "tables user_dom (kmem s) (P2V Q4) \<inter> (tables user_dom (kmem s) (P2V P4) \<union> set fs) = {}"
  shows "\<exists>s'. vmm_set_page P4 va phys flags s = Inr (ADD_FLAGS phys flags, s')
    \<and> pt_wf user_dom (kmem s') (P2V Q4)
    \<and> tables user_dom (kmem s') (P2V Q4) = tables user_dom (kmem s) (P2V Q4)
    \<and> (\<forall>va'. P4_OFFSET va' \<noteq> 511 \<longrightarrow> vmm_get_page Q4 va' s' = vmm_get_page Q4 va' s)"
proof -
  let ?T = "\<lambda>s. tables user_dom (kmem s) (P2V Q4)"
  obtain s' k where s': "vmm_set_page P4 va phys flags s = Inr (ADD_FLAGS phys flags, s')"
    "tables user_dom (kmem s') (P2V P4) = tables user_dom (kmem s) (P2V P4) \<union> set (take k fs)"
    and out: "\<forall>b. STRIP_FLAGS b \<notin> tables user_dom (kmem s') (P2V P4) \<longrightarrow> kmem s' b = kmem s b"
    using vmm_set_page_spec [OF assms(1,2) vpath_user [OF assms(3)] assms(4), of phys flags] by blast
  have same: "kmem s' b = kmem s b" if "STRIP_FLAGS b \<in> ?T s" for b
    using out that assms(7) s'(2) set_take_subset [of k fs] by blast
  have al: "page_aligned (P2V Q4)" using assms(5) by (simp add: pt_wf_def)
  note fr = ent_frame [OF path_dom_user al same]
  have T: "?T s' = ?T s" using fr(2) by (simp add: tables_def)
  then have wf: "pt_wf user_dom (kmem s') (P2V Q4)" using assms(5) fr(2) by (simp add: pt_wf_def)
  have "vmm_get_page Q4 va' s' = vmm_get_page Q4 va' s" if "P4_OFFSET va' \<noteq> 511" for va'
    using vmm_get_page_pte [OF wf vpath_user [OF that] assms(6)]
      vmm_get_page_pte [OF assms(5) vpath_user [OF that] assms(6)]
      fr(1) [OF _ vpath_user [OF that] unat_P_OFFSET(1)] by (simp add: pte_def)
  with s' wf T show ?thesis by blast
qed

theorem vmm_set_page_isolation_witness:
  "\<exists>s'. vmm_set_page 0x4000 0x400000 0xB000 7 example_vmm = Inr (ADD_FLAGS 0xB000 7, s')
    \<and> vmm_get_page 0x3000 0x400000 s' = vmm_get_page 0x3000 0x400000 example_vmm"
proof -
  have k: "P4_OFFSET 0x400000 \<noteq> 511" "3 \<le> length example_frames"
    "{P2V 0x3000} \<inter> ({P2V 0x4000} \<union> set example_frames) = {}"
    by (simp_all add: example_frames_def P4_OFFSET_def)
  have wf: "pt_wf user_dom (kmem example_vmm) (P2V 0x3000)" using example_vmm_inv(2) by (simp add: vmm_inv_def)
  show ?thesis
    using vmm_set_page_isolation [OF example_vmm_inv(1) _ k(1,2) wf, of "0xB000" 7] k(1,3)
    unfolding example_tables by auto
qed

text \<open>
  A new address space: \<^verbatim>\<open>vmm_new_P4\<close> takes one free page for its root, every
  user page is unmapped, the kernel's entry 511 is the one of the boot tables, its tables are
  well formed, and no byte outside the new page changes.
\<close>

theorem vmm_new_P4_fresh:
  assumes "pmm_inv s (f # fs)" and "pmm_running s" and "V2P f \<noteq> 0"
    and "page_aligned (BootP4 s)" and "BootP4 s \<notin> set (f # fs)"
  shows "\<exists>s'. vmm_new_P4 s = Inr (V2P f, s') \<and> vmm_inv user_dom f s' fs
    \<and> (\<forall>va. P4_OFFSET va \<noteq> 511 \<longrightarrow> vmm_get_page (V2P f) va s' = Inr 0)
    \<and> load64 (kmem s') (f + 8 * 511) = load64 (kmem s) (BootP4 s + 8 * 511)
    \<and> (\<forall>b. STRIP_FLAGS b \<noteq> f \<longrightarrow> kmem s' b = kmem s b)"
proof -
  obtain s' where s': "vmm_new_P4 s = Inr (V2P f, s')" "vmm_inv user_dom f s' fs"
    "\<forall>va. vpath va \<in> user_dom \<longrightarrow> pte (kmem s') f va = 0"
    "load64 (kmem s') (f + 8 * 511) = load64 (kmem s) (BootP4 s + 8 * 511)"
    "\<forall>b. STRIP_FLAGS b \<noteq> f \<longrightarrow> kmem s' b = kmem s b"
    using vmm_new_P4_spec [OF assms(1,2,4,5)] by blast
  have wf: "pt_wf user_dom (kmem s') (P2V (V2P f))" using s'(2) by (simp add: vmm_inv_def)
  have "vmm_get_page (V2P f) va s' = Inr 0" if "P4_OFFSET va \<noteq> 511" for va
    using vmm_get_page_pte [OF wf vpath_user [OF that] assms(3)] s'(3) vpath_user [OF that] by simp
  with s' show ?thesis by blast
qed

theorem vmm_new_P4_fresh_witness:
  "\<exists>s'. vmm_new_P4 example_vmm = Inr (0xA000, s') \<and> vmm_get_page 0xA000 0x400000 s' = Inr 0"
proof -
  have e: "pmm_inv example_vmm (P2V 0xA000 # tl example_frames)" "pmm_running example_vmm"
    "BootP4 example_vmm = P2V 0x2000" "P2V 0x2000 \<notin> set (P2V 0xA000 # tl example_frames)"
    "P4_OFFSET 0x400000 \<noteq> 511"
    using example_pmm_inv by (simp_all add: example_frames_def example_vmm_def P4_OFFSET_def)
  show ?thesis
    using vmm_new_P4_fresh [OF e(1,2)] e(3,4,5) by (auto simp: example_frame_facts)
qed

text \<open>
  C8. \<^verbatim>\<open>vmm_p4_memcpy\<close> copies across page boundaries and between address spaces: when
  every page of both ranges is mapped, no destination page is a table or a source page, and no
  two destination bytes share a location, it returns the full count, every byte of the
  destination range holds the source byte, and every location outside the destination range
  keeps its contents.
\<close>

theorem vmm_p4_memcpy_copies:
  fixes s :: "'z vmm_scheme"
  assumes "pt_wf user_dom (kmem s) (P2V P4)" and "pt_wf user_dom (kmem s) (P2V Q4)" and "P4 \<noteq> 0" and "Q4 \<noteq> 0"
    and user: "\<And>k. k < unat n \<Longrightarrow> P4_OFFSET (dst + of_nat k) \<noteq> 511 \<and> P4_OFFSET (src + of_nat k) \<noteq> 511"
    and mapped: "\<And>k. k < unat n \<Longrightarrow> frame (kmem s) P4 (dst + of_nat k) \<noteq> 0 \<and> frame (kmem s) Q4 (src + of_nat k) \<noteq> 0"
    and data: "\<And>k. k < unat n \<Longrightarrow> P2V (frame (kmem s) P4 (dst + of_nat k)) \<notin>
      tables user_dom (kmem s) (P2V P4) \<union> tables user_dom (kmem s) (P2V Q4)"
    and apart: "\<And>k l. k < unat n \<Longrightarrow> l < unat n \<Longrightarrow>
      frame (kmem s) P4 (dst + of_nat k) \<noteq> frame (kmem s) Q4 (src + of_nat l)"
    and inj: "inj_on (\<lambda>k. vloc (kmem s) P4 (dst + of_nat k)) {..<unat n}"
  shows "\<exists>s'. vmm_p4_memcpy P4 dst Q4 src n s = Inr (n, s')
    \<and> (\<forall>k < unat n. kmem s' (vloc (kmem s) P4 (dst + of_nat k)) = kmem s (vloc (kmem s) Q4 (src + of_nat k)))
    \<and> (\<forall>b. b \<notin> (\<lambda>k. vloc (kmem s) P4 (dst + of_nat k)) ` {..<unat n} \<longrightarrow> kmem s' b = kmem s b)"
proof -
  obtain m' where "vmm_p4_memcpy P4 dst Q4 src n s = Inr (n, s\<lparr>kmem := m'\<rparr>)"
    "copied (\<lambda>k. vloc (kmem s) P4 (dst + of_nat k)) (\<lambda>k. vloc (kmem s) Q4 (src + of_nat k)) (unat n) (kmem s) m'"
    using vmm_p4_memcpy_correct [OF path_dom_user path_dom_user assms(1-4) _ _ _ _ data apart inj]
      user mapped vpath_user by blast
  then show ?thesis unfolding copied_def by (intro exI [of _ "s\<lparr>kmem := m'\<rparr>"]) auto
qed

lemma two_pages:
  "\<exists>s k. pt_wf user_dom (kmem s) (P2V 0x4000) \<and> k \<le> 6
     \<and> tables user_dom (kmem s) (P2V 0x4000) = {P2V 0x4000} \<union> set (take k example_frames)
     \<and> frame (kmem (s :: vmm)) 0x4000 0x400000 = 0xB000 \<and> frame (kmem s) 0x4000 0x401000 = 0xC000"
proof -
  have u: "P4_OFFSET 0x400000 \<noteq> 511" "P4_OFFSET 0x401000 \<noteq> 511" "vkey 0x400000 \<noteq> vkey 0x401000"
    and l: "length example_frames = 6" "3 \<le> length example_frames" and z: "(0x4000::addr) \<noteq> 0"
    by (simp_all add: example_frames_def P4_OFFSET_def vkey_def vpath_def P1_OFFSET_def P2_OFFSET_def P3_OFFSET_def)
  have p: "STRIP_FLAGS (ADD_FLAGS 0xB000 7) = 0xB000" "STRIP_FLAGS (ADD_FLAGS 0xC000 7) = 0xC000"
    by (simp_all add: page_aligned_def)
  obtain s1 :: vmm and k1 where 1: "k1 \<le> 3" "vmm_inv user_dom (P2V 0x4000) s1 (drop k1 example_frames)"
    "\<forall>va'. vpath va' \<in> user_dom \<longrightarrow> pte (kmem s1) (P2V 0x4000) va'
         = (if vkey va' = vkey 0x400000 then ADD_FLAGS 0xB000 7 else pte (kmem example_vmm) (P2V 0x4000) va')"
    "tables user_dom (kmem s1) (P2V 0x4000) = {P2V 0x4000} \<union> set (take k1 example_frames)"
    using vmm_set_page_spec [OF example_vmm_inv(1) z vpath_user [OF u(1)] l(2), of "0xB000" 7]
    unfolding example_tables by blast
  have l2: "3 \<le> length (drop k1 example_frames)" using l(1) 1(1) by simp
  obtain s2 :: vmm and k2 where 2: "k2 \<le> 3" "vmm_inv user_dom (P2V 0x4000) s2 (drop k2 (drop k1 example_frames))"
    "\<forall>va'. vpath va' \<in> user_dom \<longrightarrow> pte (kmem s2) (P2V 0x4000) va'
         = (if vkey va' = vkey 0x401000 then ADD_FLAGS 0xC000 7 else pte (kmem s1) (P2V 0x4000) va')"
    "tables user_dom (kmem s2) (P2V 0x4000) = {P2V 0x4000} \<union> set (take k1 example_frames) \<union> set (take k2 (drop k1 example_frames))"
    using vmm_set_page_spec [OF 1(2) z vpath_user [OF u(2)] l2, of "0xC000" 7]
    unfolding 1(4) by blast
  have "frame (kmem s2) 0x4000 0x400000 = 0xB000" "frame (kmem s2) 0x4000 0x401000 = 0xC000"
    unfolding frame_def using 1(3) 2(3) vpath_user [OF u(1)] vpath_user [OF u(2)] u(3) p by simp_all
  moreover have "tables user_dom (kmem s2) (P2V 0x4000) = {P2V 0x4000} \<union> set (take (k1 + k2) example_frames)"
    using 2(4) by (simp add: take_add Un_assoc)
  moreover have "pt_wf user_dom (kmem s2) (P2V 0x4000)" using 2(2) by (simp add: vmm_inv_def)
  ultimately show ?thesis using 1(1) 2(1) by (intro exI [of _ s2] exI [of _ "k1 + k2"]) simp
qed

theorem vmm_p4_memcpy_copies_witness:
  "\<exists>s s' :: vmm. vmm_p4_memcpy 0x4000 0x401000 0x4000 0x400000 8 s = Inr (8, s')
     \<and> kmem s' (P2V 0xC000) = kmem s (P2V 0xB000)"
proof -
  obtain s :: vmm and k where s: "pt_wf user_dom (kmem s) (P2V 0x4000)" "k \<le> 6"
     "tables user_dom (kmem s) (P2V 0x4000) = {P2V 0x4000} \<union> set (take k example_frames)"
     and fr: "frame (kmem s) 0x4000 0x400000 = 0xB000" "frame (kmem s) 0x4000 0x401000 = 0xC000"
    using two_pages by blast
  have run: "STRIP_FLAGS (p + of_nat i) = p" "PAGE_OFFSET (p + of_nat i) = of_nat i"
    if "i < 8" "page_aligned p" for p i
    using that by (auto intro!: STRIP_FLAGS_add_offset PAGE_OFFSET_add_offset simp: unat_of_nat_eq)
  have al: "page_aligned (0x400000::addr)" "page_aligned (0x401000::addr)" by (simp_all add: page_aligned_def)
  have d: "frame (kmem s) 0x4000 (0x401000 + of_nat i) = 0xC000" "frame (kmem s) 0x4000 (0x400000 + of_nat i) = 0xB000"
    if "i < 8" for i
    using fr frame_STRIP [of "0x401000 + of_nat i" "0x401000"] frame_STRIP [of "0x400000 + of_nat i" "0x400000"]
      run(1) [OF that] al by simp_all
  have u: "P4_OFFSET (0x401000 + of_nat i) \<noteq> 511" "P4_OFFSET (0x400000 + of_nat i) \<noteq> 511" if "i < 8" for i
  proof -
    have "P4_OFFSET (0x401000::addr) \<noteq> 511" "P4_OFFSET (0x400000::addr) \<noteq> 511" by (simp_all add: P4_OFFSET_def)
    then show "P4_OFFSET (0x401000 + of_nat i) \<noteq> 511" "P4_OFFSET (0x400000 + of_nat i) \<noteq> 511"
      using P_OFFSET_STRIP(4) [of "0x401000 + of_nat i"] P_OFFSET_STRIP(4) [of "0x400000 + of_nat i"]
        run(1) [OF that] al by simp_all
  qed
  have t: "P2V 0xC000 \<notin> tables user_dom (kmem s) (P2V 0x4000)"
    using s(3) in_set_takeD [of "P2V 0xC000" k example_frames] by (auto simp: example_frames_def)
  have v: "vloc (kmem s) 0x4000 (0x401000 + of_nat i) = P2V 0xC000 + of_nat i"
    "vloc (kmem s) 0x4000 (0x400000 + of_nat i) = P2V 0xB000 + of_nat i" if "i < 8" for i
    using d [OF that] run(2) [OF that] al by (simp_all add: vloc_def loc_def)
  have i8: "unat (8::u64) = 8" by simp
  have "inj_on (\<lambda>k. vloc (kmem s) 0x4000 (0x401000 + of_nat k)) {..<8}"
    by (auto simp: inj_on_def v dest!: arg_cong [where f = unat] simp: unat_of_nat_eq)
  with u d t have "\<exists>s'. vmm_p4_memcpy 0x4000 0x401000 0x4000 0x400000 8 s = Inr (8, s')
    \<and> (\<forall>k < unat (8::u64). kmem s' (vloc (kmem s) 0x4000 (0x401000 + of_nat k)) = kmem s (vloc (kmem s) 0x4000 (0x400000 + of_nat k)))
    \<and> (\<forall>b. b \<notin> (\<lambda>k. vloc (kmem s) 0x4000 (0x401000 + of_nat k)) ` {..<unat (8::u64)} \<longrightarrow> kmem s' b = kmem s b)"
    unfolding i8 by (intro vmm_p4_memcpy_copies [OF s(1,1), where n = 8, unfolded i8]) auto
  then obtain s' where "vmm_p4_memcpy 0x4000 0x401000 0x4000 0x400000 8 s = Inr (8, s')"
    "kmem s' (vloc (kmem s) 0x4000 0x401000) = kmem s (vloc (kmem s) 0x4000 0x400000)"
    by (auto dest: spec [of _ 0])
  then show ?thesis using v [of 0] by auto
qed

text \<open>
  The walk ignores \<^verbatim>\<open>PAGE_HUGE\<close>. The boot tables map the kernel with 2 MiB
  entries; below such an entry \<^verbatim>\<open>vmm_set_page\<close> reports success but leaves the entry
  that the processor uses in place, so the mapping of the address does not change, and writes
  the new entry into the mapped data itself.
\<close>

theorem vmm_set_page_under_huge:
  assumes "P4 \<noteq> 0" and "tab (kmem s) (P2V P4) [P4_OFFSET va, P3_OFFSET va] = Some t"
    and "load64 (kmem s) (t + 8 * P2_OFFSET va) = e2" and "e2 AND PAGE_HUGE \<noteq> 0"
    and "page_aligned t" and "t \<noteq> P2V (STRIP_FLAGS e2)" and "P2V (STRIP_FLAGS e2) \<noteq> 0"
  shows "\<exists>s'. vmm_set_page P4 va phys flags s = Inr (ADD_FLAGS phys flags, s')
    \<and> load64 (kmem s') (t + 8 * P2_OFFSET va) = e2
    \<and> s' = s\<lparr>kmem := store64 (kmem s) (P2V (STRIP_FLAGS e2) + 8 * P1_OFFSET va) (ADD_FLAGS phys flags)\<rparr>"
proof -
  have e2: "e2 \<noteq> 0" using assms(4) by auto
  have "vmm_find_page P4 va True s = Inr (P2V (STRIP_FLAGS e2), s)"
    using assms(2,3) e2 by (auto simp: vmm_find_page_alt vmm_next_table_def Let_def split: if_splits)
  moreover have "load64 (store64 (kmem s) (P2V (STRIP_FLAGS e2) + 8 * P1_OFFSET va) v) (t + 8 * P2_OFFSET va) = e2" for v
    using assms(3,5,6) by (subst load64_slot) (auto simp: unat_P_OFFSET)
  ultimately show ?thesis
    using assms(1,7) by (simp add: vmm_set_page_def Let_def)
qed

definition huge_mem :: mem where
  "huge_mem = store64 (store64 (store64 (\<lambda>_. 0) (P2V 0x2000 + 8 * 511) 0x3003) (P2V 0x3000 + 8 * 0) 0x4003)
     (P2V 0x4000 + 8 * 0) 0x200083"

theorem vmm_set_page_under_huge_witness:
  "\<exists>s'. vmm_set_page 0x2000 0xFFFFFF8000001000 0x9000 3 (example_vmm\<lparr>kmem := huge_mem\<rparr>)
      = Inr (ADD_FLAGS 0x9000 3, s') \<and> load64 (kmem s') (P2V 0x4000) = 0x200083"
proof -
  let ?s = "example_vmm\<lparr>kmem := huge_mem\<rparr>"
  have o: "P4_OFFSET 0xFFFFFF8000001000 = 511" "P3_OFFSET 0xFFFFFF8000001000 = 0" "P2_OFFSET 0xFFFFFF8000001000 = 0"
    by (simp_all add: P4_OFFSET_def P3_OFFSET_def P2_OFFSET_def)
  have f: "STRIP_FLAGS 0x3003 = 0x3000" "STRIP_FLAGS 0x4003 = 0x4000" "STRIP_FLAGS 0x200083 = 0x200000" "P2V 0x200000 \<noteq> 0"
    by (simp_all add: STRIP_FLAGS_def P2V_def KERNEL_OFFSET_def)
  have sl: "load64 (store64 m (P2V a + 8 * i) v) (P2V b + 8 * j) = (if a = b \<and> i = j then v else load64 m (P2V b + 8 * j))"
    if "page_aligned a" "page_aligned b" "unat i < 512" "unat j < 512" for m a b i j v
    using load64_slot [of "P2V a" "P2V b" i j] that by simp
  have u: "unat (511::addr) < 512" "unat (0::addr) < 512"
    "(0x4000::addr) \<noteq> 0x3000" "(0x4000::addr) \<noteq> 0x2000" "(0x3000::addr) \<noteq> 0x2000"
    by simp_all
  have l: "load64 huge_mem (P2V 0x2000 + 8 * 511) = 0x3003" "load64 huge_mem (P2V 0x3000 + 8 * 0) = 0x4003"
    "load64 huge_mem (P2V 0x4000 + 8 * 0) = 0x200083"
    unfolding huge_mem_def by (simp_all only: sl example_frame_facts u simp_thms if_True if_False)
  show ?thesis
    using vmm_set_page_under_huge [of "0x2000" ?s "0xFFFFFF8000001000" "P2V 0x4000" "0x200083" "0x9000" 3] o l f
    by (auto simp: example_frame_facts)
qed

end
