(* ===== verification/Heap.thy ===== *)
theory Heap
  imports Vmm
begin

text \<open>
  The kernel heap of \<^verbatim>\<open>kernel/mem/heap.c\<close>: a doubly linked list of chunks that tile
  the address range from \<^verbatim>\<open>KERNEL_HEAP_S\<close> to \<^verbatim>\<open>heap_max\<close>. Chunk headers are
  kept in a store of \<^verbatim>\<open>chunk_t\<close> values indexed by address, the bytes of the data areas
  in the byte memory at the same virtual addresses; \<open>heap_inv\<close> relates them to the
  sequence of blocks \<open>(address, size, free)\<close>.
\<close>

record chunk_t =
  c_p :: addr
  c_n :: addr
  c_flags :: u8
  c_size :: u64

type_synonym chunk_store = "addr \<Rightarrow> chunk_t"

abbreviation (input) CHUNK_FREE :: u8 where "CHUNK_FREE \<equiv> 0x1"
abbreviation (input) sizeof_chunk_t :: u64 where "sizeof_chunk_t \<equiv> 32"

record kheap = vmm +
  heap_max :: addr
  brk :: addr
  heap :: addr
  chunks :: chunk_store

section \<open>heap.c\<close>

definition upd :: "addr \<Rightarrow> (chunk_t \<Rightarrow> chunk_t) \<Rightarrow> chunk_store \<Rightarrow> chunk_store" where
  "upd c f h = h(c := f (h c))"

text \<open>The loop of \<^verbatim>\<open>ksbrk\<close> has no bound of its own; \<open>None\<close> is a run that never ends.\<close>

partial_function (option) ksbrk_loop :: "addr \<Rightarrow> 'z kheap_scheme \<Rightarrow> 'z kheap_scheme res option" where
  "ksbrk_loop sz s =
     (if brk s < heap_max s + sz then
        (case bindR (pmm_alloc s) (\<lambda>(p, s). vmm_set_page 0 (brk s) p (PAGE_PRESENT OR PAGE_WRITE) s) of
          Inl e \<Rightarrow> Some (Inl e)
        | Inr r \<Rightarrow> ksbrk_loop sz ((snd r)\<lparr>brk := brk (snd r) + PAGE_SIZE\<rparr>))
      else Some (Inr s))"

definition ksbrk :: "addr \<Rightarrow> 'z kheap_scheme \<Rightarrow> (addr \<times> 'z kheap_scheme) res" where
  "ksbrk sz s =
     bindR (case ksbrk_loop sz s of None \<Rightarrow> Inl Diverges | Some r \<Rightarrow> r) (\<lambda>s.
       let s = s\<lparr>heap_max := heap_max s + sz\<rparr> in Inr (heap_max s, s))"

definition merge_next :: "addr \<Rightarrow> chunk_store \<Rightarrow> chunk_store" where
  "merge_next c h =
     (if c_n (h c) \<noteq> 0 \<and> c_flags (h (c_n (h c))) AND CHUNK_FREE \<noteq> 0 then
        let h = upd c (\<lambda>k. k\<lparr>c_size := c_size k + (c_size (h (c_n k)) + sizeof_chunk_t)\<rparr>) h;
            h = upd c (\<lambda>k. k\<lparr>c_n := c_n (h (c_n k))\<rparr>) h
        in if c_n (h c) \<noteq> 0 then upd (c_n (h c)) (\<lambda>k. k\<lparr>c_p := c\<rparr>) h else h
      else h)"

definition merge_prev :: "addr \<Rightarrow> chunk_store \<Rightarrow> chunk_store" where
  "merge_prev c h =
     (if c_p (h c) \<noteq> 0 \<and> c_flags (h (c_p (h c))) AND CHUNK_FREE \<noteq> 0 then
        let h = upd (c_p (h c)) (\<lambda>k. k\<lparr>c_size := c_size k + (c_size (h c) + sizeof_chunk_t)\<rparr>) h;
            h = upd (c_p (h c)) (\<lambda>k. k\<lparr>c_n := c_n (h c)\<rparr>) h
        in if c_n (h c) \<noteq> 0 then upd (c_n (h c)) (\<lambda>k. k\<lparr>c_p := c_p (h c)\<rparr>) h else h
      else h)"

definition merge_chunk :: "addr \<Rightarrow> chunk_store \<Rightarrow> chunk_store" where
  "merge_chunk c h = merge_prev c (merge_next c h)"

definition split_chunk :: "addr \<Rightarrow> u64 \<Rightarrow> chunk_store \<Rightarrow> chunk_store" where
  "split_chunk c sz h =
     (if c_size (h c) \<le> sz + sizeof_chunk_t then h
      else
        let c2 = c + 32 + sz;
            h = upd c2 (\<lambda>k. k\<lparr>c_size := c_size (h c) - sz - sizeof_chunk_t\<rparr>) h;
            h = upd c2 (\<lambda>k. k\<lparr>c_flags := CHUNK_FREE\<rparr>) h;
            h = upd c2 (\<lambda>k. k\<lparr>c_n := c_n (h c)\<rparr>) h;
            h = (if c_n (h c2) \<noteq> 0 then upd (c_n (h c2)) (\<lambda>k. k\<lparr>c_p := c2\<rparr>) h else h);
            h = upd c (\<lambda>k. k\<lparr>c_n := c2\<rparr>) h;
            h = upd c2 (\<lambda>k. k\<lparr>c_p := c\<rparr>) h
        in upd c (\<lambda>k. k\<lparr>c_size := sz\<rparr>) h)"

definition kfree :: "addr \<Rightarrow> 'z kheap_scheme \<Rightarrow> 'z kheap_scheme res" where
  "kfree a s =
     (if a < KERNEL_HEAP_S \<or> a > heap_max s then Inl (Panic ''kfree'')
      else
        let c = a - sizeof_chunk_t;
            h = upd c (\<lambda>k. k\<lparr>c_flags := CHUNK_FREE\<rparr>) (chunks s)
        in Inr (s\<lparr>chunks := merge_chunk c h\<rparr>))"

text \<open>
  The search of \<^verbatim>\<open>kmalloc\<close> returns the chunk it found (0 for none) and the value of
  \<^verbatim>\<open>p\<close>; \<open>kmalloc_grow\<close> is the part after the loop.
\<close>

partial_function (option) kmalloc_find :: "chunk_store \<Rightarrow> u64 \<Rightarrow> addr \<Rightarrow> addr \<Rightarrow> (addr \<times> addr) option" where
  "kmalloc_find h sz c p =
     (if c = 0 then Some (0, p)
      else if c_flags (h c) AND CHUNK_FREE \<noteq> 0 \<and> sz \<le> c_size (h c) then Some (c, p)
      else kmalloc_find h sz (c_n (h c)) c)"

definition kmalloc_grow :: "u64 \<Rightarrow> addr \<Rightarrow> 'z kheap_scheme \<Rightarrow> 'z kheap_scheme res" where
  "kmalloc_grow sz p s =
     (let c = (if p \<noteq> 0 then p + (c_size (chunks s p) + sizeof_chunk_t) else heap_max s);
          s = (if p \<noteq> 0 then s else s\<lparr>heap := c\<rparr>)
      in bindR (ksbrk (sz + sizeof_chunk_t) s) (\<lambda>(end, s).
         bindR (deref c (chunks s)) (\<lambda>h.
           let h = upd c (\<lambda>k. k\<lparr>c_size := end - (c + 32)\<rparr>) h;
               h = upd c (\<lambda>k. k\<lparr>c_flags := CHUNK_FREE\<rparr>) h;
               h = upd c (\<lambda>k. k\<lparr>c_p := 0, c_n := 0\<rparr>) h;
               h = upd c (\<lambda>k. k\<lparr>c_p := p\<rparr>) h;
               h = (if p \<noteq> 0 then upd c (\<lambda>k. k\<lparr>c_n := c_n (h p)\<rparr>) h else h);
               h = (if p \<noteq> 0 then upd p (\<lambda>k. k\<lparr>c_n := c\<rparr>) h else h)
           in Inr (s\<lparr>chunks := h\<rparr>))))"

partial_function (option) kmalloc_rec :: "u64 \<Rightarrow> 'z kheap_scheme \<Rightarrow> (addr \<times> 'z kheap_scheme) res option" where
  "kmalloc_rec sz s =
     (case kmalloc_find (chunks s) sz (heap s) 0 of
        None \<Rightarrow> None
      | Some (c, p) \<Rightarrow>
          if c \<noteq> 0 then
            Some (Inr (c + 32, s\<lparr>chunks := upd c (\<lambda>k. k\<lparr>c_flags := 0\<rparr>) (split_chunk c sz (chunks s))\<rparr>))
          else (case kmalloc_grow sz p s of Inl e \<Rightarrow> Some (Inl e) | Inr s \<Rightarrow> kmalloc_rec sz s))"

definition kmalloc :: "u64 \<Rightarrow> 'z kheap_scheme \<Rightarrow> (addr \<times> 'z kheap_scheme) res" where
  "kmalloc sz s = (case kmalloc_rec sz s of None \<Rightarrow> Inl Diverges | Some r \<Rightarrow> r)"

definition kcalloc :: "u64 \<Rightarrow> u64 \<Rightarrow> 'z kheap_scheme \<Rightarrow> (addr \<times> 'z kheap_scheme) res" where
  "kcalloc count sz s =
     bindR (kmalloc (count * sz) s) (\<lambda>(ptr, s).
       Inr (ptr, s\<lparr>kmem := memset ptr 0 (count * sz) (kmem s)\<rparr>))"

definition krealloc :: "addr \<Rightarrow> u64 \<Rightarrow> 'z kheap_scheme \<Rightarrow> (addr \<times> 'z kheap_scheme) res" where
  "krealloc ptr sz s =
     bindR (kmalloc sz s) (\<lambda>(new, s).
       if ptr \<noteq> 0 then
         let s = s\<lparr>kmem := memcpy new ptr sz (kmem s)\<rparr> in
         bindR (kfree ptr s) (\<lambda>s. Inr (new, s))
       else Inr (new, s))"

text \<open>The lines that \<^verbatim>\<open>heap_print\<close> prints: size and flags of every chunk.\<close>

partial_function (option) heap_print :: "chunk_store \<Rightarrow> addr \<Rightarrow> (u64 \<times> u8) list option" where
  "heap_print h c =
     (if c = 0 then Some []
      else Option.bind (heap_print h (c_n (h c))) (\<lambda>xs. Some ((c_size (h c), c_flags (h c)) # xs)))"

text \<open>\<^verbatim>\<open>strdup\<close> of \<^verbatim>\<open>string.c\<close>, the only routine there that allocates.\<close>

definition strdup :: "addr \<Rightarrow> 'z kheap_scheme \<Rightarrow> (addr \<times> 'z kheap_scheme) res" where
  "strdup p s =
     bindR (of_option Diverges (strlen (kmem s) p)) (\<lambda>n.
     bindR (kmalloc (n + 1) s) (\<lambda>(ret, s).
     bindR (of_option Diverges (strlen (kmem s) p)) (\<lambda>n.
       Inr (ret, s\<lparr>kmem := memcpy ret p (n + 1) (kmem s)\<rparr>))))"

section \<open>Chunk lists and blocks\<close>

type_synonym block = "addr \<times> u64 \<times> bool"

abbreviation baddr :: "block \<Rightarrow> addr" where "baddr b \<equiv> fst b"
abbreviation bsize :: "block \<Rightarrow> u64" where "bsize b \<equiv> fst (snd b)"
abbreviation bfree :: "block \<Rightarrow> bool" where "bfree b \<equiv> snd (snd b)"

definition hd_addr :: "block list \<Rightarrow> addr \<Rightarrow> addr" where
  "hd_addr bs q = (if bs = [] then q else baddr (hd bs))"

definition last_addr :: "addr \<Rightarrow> block list \<Rightarrow> addr" where
  "last_addr p bs = (if bs = [] then p else baddr (last bs))"

lemma hd_addr_simps [simp]: "hd_addr [] q = q" "hd_addr (b # bs) q = baddr b"
  by (simp_all add: hd_addr_def)

lemma last_addr_simps [simp]: "last_addr p [] = p" "last_addr p (b # bs) = last_addr (baddr b) bs"
  "last_addr p (bs @ [b]) = baddr b"
  by (simp_all add: last_addr_def)

text \<open>The headers of a run of chunks between the chunk \<open>p\<close> before and \<open>q\<close> after it.\<close>

fun hseg :: "chunk_store \<Rightarrow> addr \<Rightarrow> block list \<Rightarrow> addr \<Rightarrow> bool" where
  "hseg h p [] q \<longleftrightarrow> True"
| "hseg h p ((x, n, f) # bs) q \<longleftrightarrow>
     h x = \<lparr>c_p = p, c_n = hd_addr bs q, c_flags = of_bool f, c_size = n\<rparr> \<and> x \<noteq> 0 \<and> hseg h x bs q"

text \<open>The blocks tile the range from \<open>a\<close> to \<open>e\<close>, with 32 bytes of header each.\<close>

fun tiles :: "nat \<Rightarrow> block list \<Rightarrow> nat \<Rightarrow> bool" where
  "tiles a [] e \<longleftrightarrow> a = e"
| "tiles a ((x, n, f) # bs) e \<longleftrightarrow> unat x = a \<and> tiles (a + 32 + unat n) bs e"

fun separated :: "block list \<Rightarrow> bool" where
  "separated [] \<longleftrightarrow> True"
| "separated [b] \<longleftrightarrow> True"
| "separated (b # c # bs) \<longleftrightarrow> \<not> (bfree b \<and> bfree c) \<and> separated (c # bs)"

lemma hseg_append:
  "hseg h p (xs @ ys) q \<longleftrightarrow> hseg h p xs (hd_addr ys q) \<and> hseg h (last_addr p xs) ys q"
  by (induction h p xs q rule: hseg.induct) (auto simp: hd_addr_def)

lemma hseg_cong:
  "(\<And>x. x \<in> baddr ` set bs \<Longrightarrow> h' x = h x) \<Longrightarrow> hseg h' p bs q = hseg h p bs q"
  by (induction h p bs q rule: hseg.induct) simp_all

lemma hseg_nonzero: "hseg h p bs q \<Longrightarrow> b \<in> set bs \<Longrightarrow> baddr b \<noteq> 0"
  by (induction h p bs q rule: hseg.induct) auto

lemma tiles_append: "tiles a (xs @ ys) e \<longleftrightarrow> (\<exists>m. tiles a xs m \<and> tiles m ys e)"
  by (induction xs arbitrary: a) auto

lemma tiles_le: "tiles a bs e \<Longrightarrow> a \<le> e"
  by (induction bs arbitrary: a) fastforce+

lemma tiles_range: "tiles a bs e \<Longrightarrow> b \<in> set bs \<Longrightarrow> a \<le> unat (baddr b) \<and> unat (baddr b) + 32 + unat (bsize b) \<le> e"
proof (induction bs arbitrary: a)
  case (Cons c bs)
  obtain x n f where c: "c = (x, n, f)" by (cases c) auto
  show ?case
  proof (cases "b = c")
    case True
    then show ?thesis using Cons.prems tiles_le [of "a + 32 + unat n" bs e] by (auto simp: c)
  next
    case False
    then show ?thesis using Cons.IH [of "a + 32 + unat n"] Cons.prems by (auto simp: c)
  qed
qed simp

lemma tiles_lt: "tiles a (b # bs) e \<Longrightarrow> c \<in> set bs \<Longrightarrow> unat (baddr b) + 32 + unat (bsize b) \<le> unat (baddr c)"
  using tiles_range [of "unat (baddr b) + 32 + unat (bsize b)" bs e c] by (cases b) auto

lemma tiles_distinct: "tiles a bs e \<Longrightarrow> distinct (map baddr bs)"
proof (induction bs arbitrary: a)
  case (Cons b bs)
  then have "baddr b \<notin> baddr ` set bs" using tiles_lt [of a b bs e] by fastforce
  with Cons show ?case by (cases b) auto
qed simp

text \<open>Two blocks of a tiling occupy disjoint ranges.\<close>

lemma tiles_disjoint:
  "tiles a bs e \<Longrightarrow> b \<in> set bs \<Longrightarrow> c \<in> set bs \<Longrightarrow> b \<noteq> c \<Longrightarrow>
   unat (baddr b) + 32 + unat (bsize b) \<le> unat (baddr c) \<or> unat (baddr c) + 32 + unat (bsize c) \<le> unat (baddr b)"
proof (induction bs arbitrary: a)
  case (Cons d bs)
  have t: "tiles (a + 32 + unat (bsize d)) bs e" using Cons.prems(1) by (cases d) auto
  consider "b = d" "c \<in> set bs" | "c = d" "b \<in> set bs" | "b \<in> set bs" "c \<in> set bs"
    using Cons.prems(2-4) by auto
  then show ?case using tiles_lt [OF Cons.prems(1)] Cons.IH [OF t _ _ Cons.prems(4)] by cases auto
qed simp

lemma of_bool_flag [simp]: "of_bool f AND (1::u8) = of_bool f" "(1::u8) AND of_bool f = of_bool f"
  by (cases f; simp)+

lemma hseg_mid:
  "hseg h p (xs @ (x, n, f) # ys) q \<longleftrightarrow>
     hseg h p xs x \<and> h x = \<lparr>c_p = last_addr p xs, c_n = hd_addr ys q, c_flags = of_bool f, c_size = n\<rparr>
     \<and> x \<noteq> 0 \<and> hseg h x ys q"
  by (auto simp: hseg_append)

text \<open>Changing one header, and the back pointer of the chunk after it.\<close>

definition set_prev :: "addr \<Rightarrow> block list \<Rightarrow> chunk_store \<Rightarrow> chunk_store" where
  "set_prev x ys h = (if ys = [] then h else upd (hd_addr ys 0) (\<lambda>k. k\<lparr>c_p := x\<rparr>) h)"

lemma set_prev_hd: "hseg h y ys 0 \<Longrightarrow>
   (if hd_addr ys 0 \<noteq> 0 then upd (hd_addr ys 0) (\<lambda>k. k\<lparr>c_p := x\<rparr>) g else g) = set_prev x ys g"
  by (cases ys) (auto simp: set_prev_def)

lemma hseg_set_prev:
  "hseg h y ys 0 \<Longrightarrow> distinct (map baddr ys) \<Longrightarrow> hseg (set_prev x ys h) x ys 0"
proof (cases ys)
  case (Cons b bs)
  assume *: "hseg h y ys 0" "distinct (map baddr ys)"
  obtain z n f where b: "b = (z, n, f)" by (cases b) auto
  have "hseg (upd z (\<lambda>k. k\<lparr>c_p := x\<rparr>) h) z bs 0 = hseg h z bs 0"
    using * by (intro hseg_cong) (auto simp: Cons b upd_def)
  with * show ?thesis by (simp add: Cons b set_prev_def) (simp add: upd_def)
qed simp

lemma set_prev_other: "a \<notin> baddr ` set ys \<Longrightarrow> set_prev x ys h a = h a"
  by (cases ys) (auto simp: set_prev_def upd_def)

lemma hseg_replace:
  assumes "hseg h p xs x" "hseg h y ys 0" "x \<noteq> 0" "distinct (map baddr xs @ x # map baddr ys)"
    and "\<And>a. a \<notin> D \<Longrightarrow> a \<noteq> x \<Longrightarrow> g a = h a" "D \<inter> (baddr ` set xs \<union> baddr ` set ys) = {}"
    and "g x = \<lparr>c_p = last_addr p xs, c_n = hd_addr ys 0, c_flags = of_bool f, c_size = n\<rparr>"
  shows "hseg (set_prev x ys g) p (xs @ (x, n, f) # ys) 0"
proof -
  have "hseg g p xs x = hseg h p xs x" "hseg g y ys 0 = hseg h y ys 0"
    using assms(4-6) by (intro hseg_cong; force)+
  then have g: "hseg g p xs x" "hseg g y ys 0" using assms(1,2) by auto
  have "hseg (set_prev x ys g) p xs x = hseg g p xs x"
    using assms(4) by (intro hseg_cong) (auto intro!: set_prev_other)
  moreover have "set_prev x ys g x = g x" using assms(4) by (intro set_prev_other) auto
  moreover have "hseg (set_prev x ys g) x ys 0" using g(2) assms(4) by (intro hseg_set_prev) auto
  ultimately show ?thesis using g(1) assms(3,7) by (simp add: hseg_mid)
qed

lemma merge_next_none:
  "hseg h p (xs @ (x, n, f) # ys) 0 \<Longrightarrow> ys = [] \<or> \<not> bfree (hd ys) \<Longrightarrow> merge_next x h = h"
  by (cases ys) (auto simp: hseg_mid merge_next_def)

lemma merge_next_free:
  assumes "hseg h p (xs @ (x, n, f) # (y, m, True) # ys) 0" "distinct (map baddr (xs @ (x, n, f) # (y, m, True) # ys))"
  shows "hseg (merge_next x h) p (xs @ (x, n + (m + 32), f) # ys) 0"
proof -
  from assms(1) have h: "hseg h p xs x" "hseg h y ys 0" "x \<noteq> 0" "y \<noteq> 0"
    "h x = \<lparr>c_p = last_addr p xs, c_n = y, c_flags = of_bool f, c_size = n\<rparr>"
    "h y = \<lparr>c_p = x, c_n = hd_addr ys 0, c_flags = 1, c_size = m\<rparr>"
    by (auto simp: hseg_mid)
  let ?g = "h(x := \<lparr>c_p = last_addr p xs, c_n = hd_addr ys 0, c_flags = of_bool f, c_size = n + (m + 32)\<rparr>)"
  have "y \<noteq> x" using assms(2) by auto
  then have "merge_next x h = (if hd_addr ys 0 \<noteq> 0 then upd (hd_addr ys 0) (\<lambda>k. k\<lparr>c_p := x\<rparr>) ?g else ?g)"
    using h(4-6) by (simp add: merge_next_def upd_def Let_def)
  also have "\<dots> = set_prev x ys ?g" by (rule set_prev_hd [OF h(2)])
  finally show ?thesis
    using assms(2) by (simp only:) (rule hseg_replace [OF h(1-3), where D = "{}"], auto)
qed

lemma merge_prev_none:
  "hseg h 0 (xs @ (x, n, f) # ys) 0 \<Longrightarrow> xs = [] \<or> \<not> bfree (last xs) \<Longrightarrow> merge_prev x h = h"
  by (cases xs rule: rev_cases) (auto simp: hseg_mid merge_prev_def)

lemma merge_prev_free:
  assumes "hseg h p (xs @ (w, k, True) # (x, n, f) # ys) 0" "distinct (map baddr (xs @ (w, k, True) # (x, n, f) # ys))"
  shows "hseg (merge_prev x h) p (xs @ (w, k + (n + 32), True) # ys) 0"
proof -
  from assms(1) have h: "hseg h p xs w" "hseg h x ys 0" "w \<noteq> 0" "x \<noteq> 0"
    "h w = \<lparr>c_p = last_addr p xs, c_n = x, c_flags = 1, c_size = k\<rparr>"
    "h x = \<lparr>c_p = w, c_n = hd_addr ys 0, c_flags = of_bool f, c_size = n\<rparr>"
    by (auto simp: hseg_mid)
  let ?g = "h(w := \<lparr>c_p = last_addr p xs, c_n = hd_addr ys 0, c_flags = 1, c_size = k + (n + 32)\<rparr>)"
  have "w \<noteq> x" using assms(2) by auto
  then have "merge_prev x h = (if hd_addr ys 0 \<noteq> 0 then upd (hd_addr ys 0) (\<lambda>k. k\<lparr>c_p := w\<rparr>) ?g else ?g)"
    using h(3-6) by (simp add: merge_prev_def upd_def Let_def)
  also have "\<dots> = set_prev w ys ?g" by (rule set_prev_hd [OF h(2)])
  finally show ?thesis
    using assms(2) by (simp only:) (rule hseg_replace [OF h(1-3), where D = "{}"], auto)
qed

lemma split_chunk_whole: "hseg h p (xs @ (x, n, f) # ys) 0 \<Longrightarrow> n \<le> sz + 32 \<Longrightarrow> split_chunk x sz h = h"
  by (simp add: hseg_mid split_chunk_def)

lemma split_chunk_hseg:
  assumes "hseg h p (xs @ (x, n, f) # ys) 0" "distinct (map baddr (xs @ (x, n, f) # ys))" "\<not> n \<le> sz + 32"
    and "x + 32 + sz \<notin> baddr ` set (xs @ (x, n, f) # ys)" "x + 32 + sz \<noteq> 0"
  shows "hseg (split_chunk x sz h) p (xs @ (x, sz, f) # (x + 32 + sz, n - sz - 32, True) # ys) 0"
proof -
  let ?y = "x + 32 + sz"
  from assms(1) have h: "hseg h p xs x" "hseg h x ys 0" "x \<noteq> 0"
    "h x = \<lparr>c_p = last_addr p xs, c_n = hd_addr ys 0, c_flags = of_bool f, c_size = n\<rparr>"
    by (auto simp: hseg_mid)
  have ne: "?y \<noteq> x" "hd_addr ys 0 \<noteq> x \<or> ys = []" "hd_addr ys 0 \<noteq> ?y \<or> ys = []"
    using assms(2,4,5) by (cases ys; auto)+
  let ?g = "h(x := \<lparr>c_p = last_addr p xs, c_n = ?y, c_flags = of_bool f, c_size = sz\<rparr>,
     ?y := \<lparr>c_p = x, c_n = hd_addr ys 0, c_flags = 1, c_size = n - sz - 32\<rparr>)"
  have z: "hd_addr ys 0 = 0 \<longleftrightarrow> ys = []" using h(2) by (cases ys) auto
  have "split_chunk x sz h = set_prev ?y ys ?g"
    using h(3,4) ne assms(3,5) z by (cases "ys = []") (auto simp: split_chunk_def upd_def Let_def set_prev_def fun_eq_iff)
  moreover have same: "?g a = h a" if "a \<in> baddr ` set xs \<union> baddr ` set ys" for a
  proof -
    have "a \<noteq> x" "a \<noteq> ?y" using that assms(2,4) by auto
    then show ?thesis by simp
  qed
  moreover have "hseg (set_prev ?y ys ?g) p ((xs @ [(x, sz, f)]) @ (?y, n - sz - 32, True) # ys) 0"
  proof (rule hseg_replace [where D = "{}"])
    show "hseg ?g p (xs @ [(x, sz, f)]) ?y"
    proof -
      have "hseg ?g p xs x = hseg h p xs x" by (rule hseg_cong) (use same in blast)
      then show ?thesis using h(1,3) ne(1) by (simp add: hseg_mid)
    qed
    have "hseg ?g x ys 0 = hseg h x ys 0" by (rule hseg_cong) (use same in blast)
    then show "hseg ?g x ys 0" using h(2) by simp
  qed (use assms(2,4,5) in auto)
  ultimately show ?thesis by simp
qed

section \<open>Sequences of blocks\<close>

text \<open>First fit: mark the first free block that is large enough as used and split off what is left over.\<close>

fun afit :: "u64 \<Rightarrow> block list \<Rightarrow> (addr \<times> block list) option" where
  "afit sz [] = None"
| "afit sz ((x, n, f) # bs) =
     (if f \<and> sz \<le> n then
        Some (x, if n \<le> sz + 32 then (x, n, False) # bs
                 else (x, sz, False) # (x + 32 + sz, n - sz - 32, True) # bs)
      else map_option (apsnd (Cons (x, n, f))) (afit sz bs))"

fun coalesce :: "block list \<Rightarrow> block list" where
  "coalesce ((x, n, True) # (y, m, True) # bs) = coalesce ((x, n + (m + 32), True) # bs)"
| "coalesce (b # bs) = b # coalesce bs"
| "coalesce [] = []"

definition afree :: "addr \<Rightarrow> block list \<Rightarrow> block list" where
  "afree x bs = coalesce (map (\<lambda>(y, n, f). (y, n, f \<or> y = x)) bs)"

definition live :: "block list \<Rightarrow> (addr \<times> u64) set" where
  "live bs = {(x + 32, n) |x n. (x, n, False) \<in> set bs}"

lemma live_simps [simp]:
  "live [] = {}" "live ((x, n, False) # bs) = insert (x + 32, n) (live bs)" "live ((x, n, True) # bs) = live bs"
  "live (xs @ ys) = live xs \<union> live ys"
  by (auto simp: live_def)

lemma afit_None: "afit sz bs = None \<longleftrightarrow> (\<forall>b \<in> set bs. \<not> (bfree b \<and> sz \<le> bsize b))"
proof (induction bs)
  case (Cons b bs)
  then show ?case by (cases b; cases "afit sz bs") (auto split: if_splits)
qed simp

lemma afit_Some:
  assumes "afit sz bs = Some (x, bs')"
  obtains xs n ys where "bs = xs @ (x, n, True) # ys" "sz \<le> n" "\<forall>b \<in> set xs. \<not> (bfree b \<and> sz \<le> bsize b)"
    "bs' = xs @ (if n \<le> sz + 32 then (x, n, False) # ys else (x, sz, False) # (x + 32 + sz, n - sz - 32, True) # ys)"
  using assms
proof (induction bs arbitrary: bs' thesis)
  case (Cons b bs)
  obtain y m g where b: "b = (y, m, g)" by (cases b) auto
  show ?case
  proof (cases "g \<and> sz \<le> m")
    case True
    then have "y = x" "bs' = (if m \<le> sz + 32 then (x, m, False) # bs else (x, sz, False) # (x + 32 + sz, m - sz - 32, True) # bs)"
      using Cons.prems(2) by (auto simp: b)
    then show ?thesis using True by (intro Cons.prems(1) [of "[]" m bs]) (auto simp: b)
  next
    case False
    then obtain cs where cs: "afit sz bs = Some (x, cs)" "bs' = (y, m, g) # cs"
      using Cons.prems(2) by (auto simp: b)
    obtain xs n ys where "bs = xs @ (x, n, True) # ys" "sz \<le> n" "\<forall>b \<in> set xs. \<not> (bfree b \<and> sz \<le> bsize b)"
      "cs = xs @ (if n \<le> sz + 32 then (x, n, False) # ys else (x, sz, False) # (x + 32 + sz, n - sz - 32, True) # ys)"
      using Cons.IH [OF _ cs(1)] by blast
    then show ?thesis using False cs(2) by (intro Cons.prems(1) [of "(y, m, g) # xs" n ys]) (auto simp: b)
  qed
qed simp

lemma separated_append:
  "separated (xs @ ys) \<longleftrightarrow> separated xs \<and> separated ys \<and> (xs = [] \<or> ys = [] \<or> \<not> (bfree (last xs) \<and> bfree (hd ys)))"
proof (induction xs rule: separated.induct)
  case (2 b)
  then show ?case by (cases ys) auto
qed auto

lemma separated_tl: "separated (b # bs) \<Longrightarrow> separated bs"
  by (cases b; cases bs) auto

lemma separated_coalesce: "separated bs \<Longrightarrow> coalesce bs = bs"
  by (induction bs rule: coalesce.induct) (auto dest: separated_tl)

lemma coalesce_append:
  "separated xs \<Longrightarrow> xs = [] \<or> ys = [] \<or> \<not> bfree (last xs) \<or> \<not> bfree (hd ys) \<Longrightarrow> coalesce (xs @ ys) = xs @ coalesce ys"
proof (induction xs rule: separated.induct)
  case (2 b)
  then show ?case by (cases b; cases ys; cases "bfree b"; cases "bfree (hd ys)") auto
next
  case (3 b c bs)
  then show ?case by (cases b; cases c; cases "bfree b"; cases "bfree c") auto
qed auto

lemma coalesce_prefix: "separated (xs @ [b]) \<Longrightarrow> coalesce (xs @ b # ys) = xs @ coalesce (b # ys)"
  by (rule coalesce_append) (auto simp: separated_append)

text \<open>What freeing the block \<open>x\<close> does around it.\<close>

definition join_next :: "addr \<Rightarrow> u64 \<Rightarrow> block list \<Rightarrow> block list" where
  "join_next x n ys = (case ys of (y, m, True) # ys' \<Rightarrow> (x, n + (m + 32), True) # ys' | _ \<Rightarrow> (x, n, True) # ys)"

lemma coalesce_join_next: "separated ys \<Longrightarrow> coalesce ((x, n, True) # ys) = join_next x n ys"
proof (cases ys)
  case (Cons b bs)
  assume s: "separated ys"
  obtain y m g where b: "b = (y, m, g)" by (cases b) auto
  show ?thesis
  proof (cases g)
    case True
    have "separated ((x, n + (m + 32), True) # bs)" using s True by (cases bs) (auto simp: Cons b)
    then show ?thesis using True by (simp add: Cons b join_next_def separated_coalesce)
  next
    case False
    then show ?thesis using s separated_tl [of b bs] by (simp add: Cons b join_next_def separated_coalesce)
  qed
qed (simp add: join_next_def)

lemma afree_mid:
  assumes "separated (xs @ (x, n, False) # ys)" "x \<notin> baddr ` set xs" "x \<notin> baddr ` set ys"
  shows "afree x (xs @ (x, n, False) # ys) = coalesce (xs @ (x, n, True) # ys)"
proof -
  have id: "map (\<lambda>(y, n, f). (y, n, f \<or> y = x)) zs = zs" if "x \<notin> baddr ` set zs" for zs
    using that by (induction zs) auto
  show ?thesis using assms by (simp add: afree_def id)
qed

lemma afree_last_used:
  assumes "separated (xs @ (x, n, False) # ys)" "xs = [] \<or> \<not> bfree (last xs)"
  shows "coalesce (xs @ (x, n, True) # ys) = xs @ join_next x n ys"
  using assms coalesce_append [of xs "(x, n, True) # ys"] coalesce_join_next [of ys x n]
  by (cases ys) (auto simp: separated_append)

lemma afree_last_free:
  assumes "separated (xs @ (w, k, True) # (x, n, False) # ys)"
  shows "coalesce (xs @ (w, k, True) # (x, n, True) # ys)
    = xs @ (case join_next x n ys of b # bs \<Rightarrow> (w, k + (bsize b + 32), True) # bs)"
proof -
  have s: "separated (xs @ [(w, k, True)])" "separated ys" "separated (xs @ [(w, k + (n + 32), True)])"
    using assms by (cases ys; auto simp: separated_append)+
  have "coalesce (xs @ (w, k, True) # (x, n, True) # ys) = xs @ join_next w (k + (n + 32)) ys"
    using coalesce_prefix [OF s(1), of "(x, n, True) # ys"] coalesce_join_next [OF s(2)] by simp
  also have "join_next w (k + (n + 32)) ys = (case join_next x n ys of b # bs \<Rightarrow> (w, k + (bsize b + 32), True) # bs)"
    by (auto simp: join_next_def split: list.splits prod.splits bool.splits)
  finally show ?thesis .
qed

lemma join_next_cases:
  obtains "ys = []" "join_next x n ys = (x, n, True) # ys"
  | y m ys' where "ys = (y, m, False) # ys'" "join_next x n ys = (x, n, True) # ys"
  | y m ys' where "ys = (y, m, True) # ys'" "join_next x n ys = (x, n + (m + 32), True) # ys'"
  unfolding join_next_def by (cases ys) (auto split: bool.splits)

lemma merge_next_refines:
  assumes "hseg h p (xs @ (x, n, True) # ys) 0" "distinct (map baddr (xs @ (x, n, True) # ys))"
  shows "hseg (merge_next x h) p (xs @ join_next x n ys) 0"
  using merge_next_none [OF assms(1)] merge_next_free [of h p xs x n True] assms
  by (cases rule: join_next_cases [of ys x n]) auto

lemma join_next_hd: "\<exists>m ys'. join_next x n ys = (x, m, True) # ys' \<and> baddr ` set ys' \<subseteq> baddr ` set ys
    \<and> (distinct (map baddr ys) \<longrightarrow> distinct (map baddr ys'))"
  by (cases rule: join_next_cases [of ys x n]) auto

lemma merge_chunk_refines:
  assumes "hseg h 0 (xs @ (x, n, True) # ys) 0" "distinct (map baddr (xs @ (x, n, True) # ys))"
    and "separated (xs @ (x, n, False) # ys)"
  shows "hseg (merge_chunk x h) 0 (coalesce (xs @ (x, n, True) # ys)) 0"
proof -
  obtain m ys' where j: "join_next x n ys = (x, m, True) # ys'" "baddr ` set ys' \<subseteq> baddr ` set ys"
    "distinct (map baddr ys')"
  proof -
    have "distinct (map baddr ys)" using assms(2) by simp
    then show thesis using join_next_hd [of x n ys] that by blast
  qed
  have h': "hseg (merge_next x h) 0 (xs @ (x, m, True) # ys') 0"
    using merge_next_refines [OF assms(1,2)] by (simp only: j)
  show ?thesis
  proof (cases "xs = [] \<or> \<not> bfree (last xs)")
    case True
    then show ?thesis
      using afree_last_used [OF assms(3)] merge_prev_none [OF h'] h' by (simp add: merge_chunk_def j(1))
  next
    case False
    then obtain vs b where "xs = vs @ [b]" "bfree b" by (cases xs rule: rev_cases) simp_all
    then obtain w k where xs: "xs = vs @ [(w, k, True)]" by (cases b) simp
    have "hseg (merge_prev x (merge_next x h)) 0 (vs @ (w, k + (m + 32), True) # ys') 0"
    proof (rule merge_prev_free)
      show "hseg (merge_next x h) 0 (vs @ (w, k, True) # (x, m, True) # ys') 0" using h' by (simp add: xs)
      have d: "baddr ` set vs \<inter> baddr ` set ys = {}" "x \<notin> baddr ` set ys" "w \<notin> baddr ` set ys"
        "distinct (map baddr vs)" "w \<noteq> x" "w \<notin> baddr ` set vs" "x \<notin> baddr ` set vs"
        using assms(2) by (simp_all add: xs)
      have "baddr ` set vs \<inter> baddr ` set ys' = {}" using j(2) d(1) by (metis Int_mono subset_empty subset_refl)
      with d j(3) contra_subsetD [OF j(2) d(2)] contra_subsetD [OF j(2) d(3)] show "distinct (map baddr (vs @ (w, k, True) # (x, m, True) # ys'))" by simp
    qed
    then show ?thesis
      using afree_last_free [of vs w k x n ys] assms(3) unfolding merge_chunk_def j(1) xs by simp
  qed
qed

lemma tiles_join:
  assumes "tiles a ((x, n, f) # (y, m, g) # bs) e" "e < 2 ^ 64"
  shows "tiles a ((x, n + (m + 32), f') # bs) e"
proof -
  have "unat x + 32 + unat n + 32 + unat m \<le> e"
    using assms(1) tiles_le [of "a + 32 + unat n + 32 + unat m" bs e] by auto
  then have "unat (n + (m + 32)) = unat n + (unat m + 32)"
    using assms(2) by (simp add: unat_add_eq)
  then show ?thesis using assms(1) by (simp add: algebra_simps)
qed

lemma tiles_coalesce: "tiles a bs e \<Longrightarrow> e < 2 ^ 64 \<Longrightarrow> tiles a (coalesce bs) e"
proof (induction bs arbitrary: a rule: coalesce.induct)
  case (1 x n y m bs)
  then show ?case using tiles_join [of a x n True y m True bs e True] by simp
qed auto

lemma coalesce_eq_Nil [simp]: "coalesce bs = [] \<longleftrightarrow> bs = []"
  by (induction bs rule: coalesce.induct) auto

lemma hd_coalesce: "bs \<noteq> [] \<Longrightarrow> baddr (hd (coalesce bs)) = baddr (hd bs) \<and> bfree (hd (coalesce bs)) = bfree (hd bs)"
  by (induction bs rule: coalesce.induct) auto

lemma separated_Cons: "separated (b # bs) \<longleftrightarrow> separated bs \<and> (bs = [] \<or> \<not> (bfree b \<and> bfree (hd bs)))"
  using separated_append [of "[b]" bs] by (cases b) auto

lemma separated_coalesce_all: "separated (coalesce bs)"
  using hd_coalesce by (induction bs rule: coalesce.induct) (fastforce simp: separated_Cons)+

lemma live_Cons: "live (b # bs) = (if bfree b then {} else {(baddr b + 32, bsize b)}) \<union> live bs"
  by (cases b) (auto simp: live_def)

lemma live_coalesce: "live (coalesce bs) = live bs"
  by (induction bs rule: coalesce.induct) (auto simp: live_Cons)

lemma hd_addr_coalesce: "hd_addr (coalesce bs) q = hd_addr bs q"
  using hd_coalesce [of bs] by (simp add: hd_addr_def)

section \<open>The invariant\<close>

text \<open>
  The heap's part of the boot page tables: the paths of addresses from
  \<^verbatim>\<open>KERNEL_HEAP_S\<close> on.
\<close>

definition heap_dom :: "addr list set" where
  "heap_dom = {q. length q \<le> 3 \<and> (\<forall>i \<in> set q. unat i < 512) \<and> (q \<noteq> [] \<longrightarrow> hd q = 511)
     \<and> (2 \<le> length q \<longrightarrow> 256 \<le> unat (q ! 1))}"

definition heap_vm :: "'z kheap_scheme \<Rightarrow> addr list \<Rightarrow> bool" where
  "heap_vm s fs \<longleftrightarrow> vmm_inv heap_dom (BootP4 s) s fs \<and> V2P (BootP4 s) \<noteq> 0
     \<and> (\<forall>t \<in> tables heap_dom (kmem s) (BootP4 s) \<union> set fs. t < KERNEL_HEAP_S)
     \<and> page_aligned (brk s) \<and> KERNEL_HEAP_S \<le> brk s"

definition heap_inv :: "'z kheap_scheme \<Rightarrow> addr list \<Rightarrow> block list \<Rightarrow> bool" where
  "heap_inv s fs bs \<longleftrightarrow> heap_vm s fs \<and> heap_max s \<le> brk s \<and> heap s = hd_addr bs 0
     \<and> hseg (chunks s) 0 bs 0 \<and> tiles (unat KERNEL_HEAP_S) bs (unat (heap_max s)) \<and> separated bs"

text \<open>What growing the heap leaves alone: everything but the page tables, the free pages and \<^verbatim>\<open>brk\<close>.\<close>

definition heap_keep :: "'z kheap_scheme \<Rightarrow> 'z kheap_scheme \<Rightarrow> bool" where
  "heap_keep s s' \<longleftrightarrow> s' = s\<lparr>kmem := kmem s', pmm_stack := pmm_stack s', brk := brk s'\<rparr>
     \<and> (\<forall>b. KERNEL_HEAP_S \<le> b \<longrightarrow> kmem s' b = kmem s b)"

lemma heap_dom_cases:
  "q \<in> heap_dom \<longleftrightarrow> q = [] \<or> q = [511] \<or> (\<exists>i. q = [511, i] \<and> 256 \<le> unat i \<and> unat i < 512)
     \<or> (\<exists>i j. q = [511, i, j] \<and> 256 \<le> unat i \<and> unat i < 512 \<and> unat j < 512)"
  by (cases q; cases "tl q"; cases "tl (tl q)"; cases "tl (tl (tl q))") (auto simp: heap_dom_def)

lemma path_dom_heap: "path_dom heap_dom"
  unfolding path_dom_def
proof (intro conjI allI impI ballI)
  show "[] \<in> heap_dom" by (simp add: heap_dom_cases)
  show "length q \<le> 3" if "q \<in> heap_dom" for q using that by (auto simp: heap_dom_cases)
  fix q :: "addr list" and j
  assume "q @ [j] \<in> heap_dom"
  then have "q = [] \<and> j = 511 \<or> q = [511] \<and> 256 \<le> unat j \<and> unat j < 512
      \<or> (\<exists>i. q = [511, i] \<and> 256 \<le> unat i \<and> unat i < 512) \<and> unat j < 512"
    unfolding heap_dom_cases append_eq_Cons_conv by auto
  then show "q \<in> heap_dom" "unat j < 512" unfolding heap_dom_cases by auto
qed

lemma unat_KERNEL_HEAP_S: "unat KERNEL_HEAP_S = 18446743798831644672"
  by (simp add: KERNEL_HEAP_S_def)

lemma vpath_heap:
  assumes "KERNEL_HEAP_S \<le> va"
  shows "vpath va \<in> heap_dom"
proof -
  have a: "18446743798831644672 \<le> unat va" using assms by (simp add: word_le_nat_alt unat_KERNEL_HEAP_S)
  have "unat (P4_OFFSET va) = unat va div 549755813888 mod 512"
    using unat_and_mask [of "drop_bit 39 va" 9] by (simp add: P4_OFFSET_def mask9 unat_drop_bit)
  moreover have "unat va div 549755813888 = 33554431" using a unat_less64 [of va] by simp
  ultimately have "unat (P4_OFFSET va) = unat (511::addr)" by simp
  then have "P4_OFFSET va = 511" by (rule unat_inject64)
  moreover have "unat (P3_OFFSET va) = unat va div 1073741824 mod 512"
    using unat_and_mask [of "drop_bit 30 va" 9] by (simp add: P3_OFFSET_def mask9 unat_drop_bit)
  moreover have "256 \<le> unat va div 1073741824 mod 512"
  proof -
    define y where "y = unat va div 1073741824 - 512 * 33554431"
    have "17179868928 \<le> unat va div 1073741824" "unat va div 1073741824 < 17179869184"
      using a unat_less64 [of va] by (simp_all add: less_eq_div_iff_mult_less_eq div_less_iff_less_mult)
    then have "unat va div 1073741824 = 512 * 33554431 + y" "256 \<le> y" "y < 512" by (auto simp: y_def)
    then show ?thesis by (simp only: mod_mult_self4 mod_less)
  qed
  ultimately have "P4_OFFSET va = 511" "256 \<le> unat (P3_OFFSET va)" by simp_all
  then show ?thesis by (simp add: heap_dom_def vpath_def unat_P_OFFSET)
qed

lemma vmm_inv_kheap [simp]:
  "vmm_inv D t (s\<lparr>brk := x\<rparr>) fs = vmm_inv D t s fs" "vmm_inv D t (s\<lparr>heap := x\<rparr>) fs = vmm_inv D t s fs"
  "vmm_inv D t (s\<lparr>heap_max := x\<rparr>) fs = vmm_inv D t s fs" "vmm_inv D t (s\<lparr>chunks := h\<rparr>) fs = vmm_inv D t s fs"
  by (simp_all add: vmm_inv_def pmm_inv_def)

lemma heap_vm_fields [simp]:
  "heap_vm (s\<lparr>heap := x\<rparr>) fs = heap_vm s fs" "heap_vm (s\<lparr>heap_max := x\<rparr>) fs = heap_vm s fs"
  "heap_vm (s\<lparr>chunks := h\<rparr>) fs = heap_vm s fs"
  by (simp_all add: heap_vm_def)

lemma heap_keep_refl: "heap_keep s s" by (simp add: heap_keep_def)

lemma heap_keep_trans: "heap_keep s s1 \<Longrightarrow> heap_keep s1 s2 \<Longrightarrow> heap_keep s s2"
proof -
  assume k: "heap_keep s s1" "heap_keep s1 s2"
  from k have e1: "s1 = s\<lparr>kmem := kmem s1, pmm_stack := pmm_stack s1, brk := brk s1\<rparr>"
    and e2: "s2 = s1\<lparr>kmem := kmem s2, pmm_stack := pmm_stack s2, brk := brk s2\<rparr>" by (auto simp: heap_keep_def)
  have "s1\<lparr>kmem := kmem s2, pmm_stack := pmm_stack s2, brk := brk s2\<rparr>
      = s\<lparr>kmem := kmem s2, pmm_stack := pmm_stack s2, brk := brk s2\<rparr>" by (subst e1) simp
  with e2 k show ?thesis by (simp add: heap_keep_def)
qed

lemma heap_keepD:
  assumes "heap_keep s s'"
  shows "heap_max s' = heap_max s" "heap s' = heap s" "chunks s' = chunks s" "BootP4 s' = BootP4 s"
    "KERNEL_HEAP_S \<le> b \<Longrightarrow> kmem s' b = kmem s b"
proof -
  have e: "s' = s\<lparr>kmem := kmem s', pmm_stack := pmm_stack s', brk := brk s'\<rparr>" using assms by (simp add: heap_keep_def)
  show "heap_max s' = heap_max s" "heap s' = heap s" "chunks s' = chunks s" "BootP4 s' = BootP4 s"
    by (subst e, simp)+
  show "KERNEL_HEAP_S \<le> b \<Longrightarrow> kmem s' b = kmem s b" using assms by (simp add: heap_keep_def)
qed

lemma page_aligned_HEAP [simp]: "page_aligned KERNEL_HEAP_S"
  by (simp add: page_aligned_def KERNEL_HEAP_S_def)

lemma STRIP_ge_HEAP: "KERNEL_HEAP_S \<le> b \<Longrightarrow> KERNEL_HEAP_S \<le> STRIP_FLAGS b"
proof -
  assume "KERNEL_HEAP_S \<le> b"
  then have "unat KERNEL_HEAP_S div 4096 \<le> unat b div 4096" by (intro div_le_mono) (simp add: word_le_nat_alt)
  then show ?thesis by (simp add: word_le_nat_alt unat_STRIP_FLAGS unat_KERNEL_HEAP_S)
qed

section \<open>Growing\<close>

lemma vmm_set_page_boot:
  "V2P (BootP4 s) \<noteq> 0 \<Longrightarrow> vmm_set_page 0 va phys flags s = vmm_set_page (V2P (BootP4 s)) va phys flags s"
  by (simp add: vmm_set_page_def GET_P4_def)

lemma ksbrk_round:
  fixes s :: "'z kheap_scheme"
  assumes vm: "heap_vm s fs" and fs: "4 \<le> length fs" and room: "unat (brk s) + 4096 < 2 ^ 64"
  obtains r k where "bindR (pmm_alloc s) (\<lambda>(p, s). vmm_set_page 0 (brk s) p (PAGE_PRESENT OR PAGE_WRITE) s) = Inr r"
    "k \<le> 4" "heap_vm ((snd r)\<lparr>brk := brk (snd r) + PAGE_SIZE\<rparr>) (drop k fs)"
    "heap_keep s ((snd r)\<lparr>brk := brk (snd r) + PAGE_SIZE\<rparr>)" "brk (snd r) = brk s"
proof -
  obtain f gs where f: "fs = f # gs" using fs by (cases fs) auto
  have inv: "vmm_inv heap_dom (BootP4 s) s (f # gs)" and B: "V2P (BootP4 s) \<noteq> 0"
    and low: "\<forall>t \<in> tables heap_dom (kmem s) (BootP4 s) \<union> set fs. t < KERNEL_HEAP_S"
    and al: "page_aligned (brk s)" "KERNEL_HEAP_S \<le> brk s"
    using vm by (auto simp: heap_vm_def f)
  from inv have "pmm_inv s (f # gs)" by (simp add: vmm_inv_def)
  then obtain s1 where s1: "pmm_alloc s = Inr (V2P f, s1)" "s1 = s\<lparr>pmm_stack := load64 (kmem s) f\<rparr>" "pmm_inv s1 gs"
    using pmm_alloc_pop by metis
  have inv1: "vmm_inv heap_dom (P2V (V2P (BootP4 s))) s1 gs"
    using inv s1(2,3) by (auto simp: vmm_inv_def)
  have 3: "3 \<le> length gs" using fs by (simp add: f)
  obtain s2 k where s2: "vmm_set_page (V2P (BootP4 s)) (brk s) (V2P f) (PAGE_PRESENT OR PAGE_WRITE) s1
      = Inr (ADD_FLAGS (V2P f) (PAGE_PRESENT OR PAGE_WRITE), s2)" "k \<le> 3" "vmm_inv heap_dom (BootP4 s) s2 (drop k gs)"
    "tables heap_dom (kmem s2) (BootP4 s) = tables heap_dom (kmem s1) (BootP4 s) \<union> set (take k gs)"
    "\<forall>b. STRIP_FLAGS b \<notin> tables heap_dom (kmem s2) (BootP4 s) \<longrightarrow> kmem s2 b = kmem s1 b"
    "s2 = s1\<lparr>kmem := kmem s2, pmm_stack := pmm_stack s2\<rparr>"
    using vmm_set_page_spec [OF inv1 B vpath_heap [OF al(2)] 3, of "V2P f" "PAGE_PRESENT OR PAGE_WRITE"]
    unfolding P2V_V2P by blast
  have b1: "brk s1 = brk s" "BootP4 s1 = BootP4 s" "kmem s1 = kmem s" by (simp_all add: s1(2))
  have b2: "brk s2 = brk s" "BootP4 s2 = BootP4 s"
    by (subst s2(6), simp add: b1)+
  have e: "s2 = s\<lparr>kmem := kmem s2, pmm_stack := pmm_stack s2\<rparr>" by (subst s2(6)) (simp add: s1(2))
  have T: "t < KERNEL_HEAP_S" if "t \<in> tables heap_dom (kmem s2) (BootP4 s) \<union> set (drop k gs)" for t
    using that low s2(4) b1(3) set_take_subset [of k gs] set_drop_subset [of k gs] by (auto simp: f)
  have M: "kmem s2 b = kmem s b" if "KERNEL_HEAP_S \<le> b" for b
    using s2(5) T STRIP_ge_HEAP [OF that] b1(3) by (metis UnI1 leD)
  have "unat (brk s + 4096) = unat (brk s) + 4096" using room by (simp add: unat_add_eq)
  then have "KERNEL_HEAP_S \<le> brk s + 4096" "page_aligned (brk s + 4096)"
    using al by (auto simp: word_le_nat_alt page_aligned_unat)
  then have "heap_vm (s2\<lparr>brk := brk s2 + PAGE_SIZE\<rparr>) (drop k gs)"
    using s2(3) T B b2 by (simp add: heap_vm_def)
  moreover have "heap_keep s (s2\<lparr>brk := brk s2 + PAGE_SIZE\<rparr>)"
    unfolding heap_keep_def using M by (subst e) (simp add: b2)
  moreover have "bindR (pmm_alloc s) (\<lambda>(p, s). vmm_set_page 0 (brk s) p (PAGE_PRESENT OR PAGE_WRITE) s)
      = Inr (ADD_FLAGS (V2P f) (PAGE_PRESENT OR PAGE_WRITE), s2)"
    using s1(1) s2(1) vmm_set_page_boot [of s1] B b1 by simp
  ultimately show thesis
    using s2(2) b2(1) by (intro that [of "(ADD_FLAGS (V2P f) (PAGE_PRESENT OR PAGE_WRITE), s2)" "Suc k"]) (auto simp: f)
qed

lemma ksbrk_loop_done: "heap_max s + sz \<le> brk s \<Longrightarrow> ksbrk_loop sz s = Some (Inr s)"
  by (subst ksbrk_loop.simps) (auto dest: leD)

lemma ksbrk_loop_ok:
  fixes s :: "'z kheap_scheme"
  assumes "heap_vm s fs" "4 * n \<le> length fs" "unat (heap_max s + sz) \<le> unat (brk s) + 4096 * n"
    and "unat (heap_max s + sz) + 4096 < 2 ^ 64"
  shows "\<exists>s' k. ksbrk_loop sz s = Some (Inr s') \<and> k \<le> 4 * n \<and> heap_vm s' (drop k fs) \<and> heap_keep s s'
    \<and> heap_max s + sz \<le> brk s' \<and> brk s \<le> brk s'"
  using assms
proof (induction n arbitrary: s fs)
  case 0
  then have "heap_max s + sz \<le> brk s" by (simp add: word_le_nat_alt)
  with 0 show ?case
    by (intro exI [of _ s] exI [of _ 0]) (auto simp: ksbrk_loop_done heap_keep_refl)
next
  case (Suc n)
  show ?case
  proof (cases "heap_max s + sz \<le> brk s")
    case True
    with Suc show ?thesis
      by (intro exI [of _ s] exI [of _ 0]) (auto simp: ksbrk_loop_done heap_keep_refl)
  next
    case False
    then have lt: "brk s < heap_max s + sz" by simp
    then have room: "unat (brk s) + 4096 < 2 ^ 64" using Suc.prems(4) by (simp add: word_less_nat_alt)
    have 4: "4 \<le> length fs" using Suc.prems(2) by simp
    obtain r k where r: "bindR (pmm_alloc s) (\<lambda>(p, s). vmm_set_page 0 (brk s) p (PAGE_PRESENT OR PAGE_WRITE) s) = Inr r"
      "k \<le> 4" "heap_vm ((snd r)\<lparr>brk := brk (snd r) + PAGE_SIZE\<rparr>) (drop k fs)"
      "heap_keep s ((snd r)\<lparr>brk := brk (snd r) + PAGE_SIZE\<rparr>)" "brk (snd r) = brk s"
      using ksbrk_round [OF Suc.prems(1) 4 room] by blast
    let ?s = "(snd r)\<lparr>brk := brk (snd r) + PAGE_SIZE\<rparr>"
    have b: "unat (brk ?s) = unat (brk s) + 4096" using room r(5) by (simp add: unat_add_eq)
    note keep = heap_keepD [OF r(4)]
    have "\<exists>s' k'. ksbrk_loop sz ?s = Some (Inr s') \<and> k' \<le> 4 * n \<and> heap_vm s' (drop k' (drop k fs)) \<and> heap_keep ?s s'
        \<and> heap_max ?s + sz \<le> brk s' \<and> brk ?s \<le> brk s'"
      using Suc.prems r(2) b keep(1) by (intro Suc.IH r(3)) auto
    then obtain s' k' where s': "ksbrk_loop sz ?s = Some (Inr s')" "k' \<le> 4 * n" "heap_vm s' (drop k' (drop k fs))"
      "heap_keep ?s s'" "heap_max ?s + sz \<le> brk s'" "brk ?s \<le> brk s'" by blast
    have "ksbrk_loop sz s = Some (Inr s')"
      using lt r(1) s'(1) by (subst ksbrk_loop.simps) simp
    moreover have "brk s \<le> brk s'" using s'(6) b by (simp add: word_le_nat_alt)
    ultimately show ?thesis
      using s' r(2) keep(1) heap_keep_trans [OF r(4) s'(4)]
      by (intro exI [of _ s'] exI [of _ "k' + k"]) (auto simp: add.commute)
  qed
qed

lemma ksbrk_ok:
  fixes s :: "'z kheap_scheme"
  assumes "heap_vm s fs" "heap_max s \<le> brk s" "4 * (unat sz div 4096 + 1) \<le> length fs"
    and "unat (heap_max s) + unat sz + 4096 < 2 ^ 64"
  shows "\<exists>s' k. ksbrk sz s = Inr (heap_max s + sz, s'\<lparr>heap_max := heap_max s + sz\<rparr>) \<and> k \<le> 4 * (unat sz div 4096 + 1)
    \<and> heap_vm s' (drop k fs) \<and> heap_keep s s' \<and> heap_max s + sz \<le> brk s'"
proof -
  have e: "unat (heap_max s + sz) = unat (heap_max s) + unat sz" using assms(4) by (simp add: unat_add_eq)
  have "unat sz \<le> 4096 * (unat sz div 4096 + 1)" by simp
  then have "unat (heap_max s + sz) \<le> unat (brk s) + 4096 * (unat sz div 4096 + 1)"
    using assms(2) e unfolding word_le_nat_alt by linarith
  then obtain s' k where s': "ksbrk_loop sz s = Some (Inr s')" "k \<le> 4 * (unat sz div 4096 + 1)" "heap_vm s' (drop k fs)"
    "heap_keep s s'" "heap_max s + sz \<le> brk s'"
    using ksbrk_loop_ok [OF assms(1,3)] assms(4) e by metis
  then show ?thesis using heap_keepD(1) [OF s'(4)] by (auto simp: ksbrk_def)
qed

section \<open>Searching\<close>

lemma kmalloc_find_none:
  "hseg h p bs 0 \<Longrightarrow> afit sz bs = None \<Longrightarrow> kmalloc_find h sz (hd_addr bs 0) p = Some (0, last_addr p bs)"
proof (induction bs arbitrary: p)
  case Nil
  then show ?case by (simp add: kmalloc_find.simps)
next
  case (Cons b bs)
  obtain x n f where b: "b = (x, n, f)" by (cases b) auto
  have "\<not> (f \<and> sz \<le> n)" "afit sz bs = None" using Cons.prems(2) by (auto simp: b split: if_splits)
  then show ?case using Cons by (subst kmalloc_find.simps) (auto simp: b)
qed

lemma kmalloc_find_some:
  "hseg h p (xs @ (x, n, True) # ys) 0 \<Longrightarrow> sz \<le> n \<Longrightarrow> \<forall>b \<in> set xs. \<not> (bfree b \<and> sz \<le> bsize b) \<Longrightarrow>
   kmalloc_find h sz (hd_addr (xs @ (x, n, True) # ys) 0) p = Some (x, last_addr p xs)"
proof (induction xs arbitrary: p)
  case Nil
  then show ?case by (subst kmalloc_find.simps) simp
next
  case (Cons b xs)
  obtain y m g where b: "b = (y, m, g)" by (cases b) auto
  show ?case using Cons by (subst kmalloc_find.simps) (auto simp: b)
qed

section \<open>Operations on the invariant\<close>

lemma tiles_split:
  assumes "tiles a ((x, n, f) # bs) e" "\<not> n \<le> sz + 32" "sz \<le> n" "e < 2 ^ 64"
  shows "tiles a ((x, sz, g) # (x + 32 + sz, n - sz - 32, g') # bs) e" "unat (x + 32 + sz) = unat x + 32 + unat sz"
proof -
  have e: "unat x = a" "unat x + 32 + unat n \<le> e" using assms(1) tiles_le [of "a + 32 + unat n" bs e] by auto
  have s: "unat sz \<le> unat n" using assms(3) by (simp add: word_le_nat_alt)
  then have s32: "unat (sz + 32) = unat sz + 32" using e assms(4) by (simp add: unat_add_eq)
  then have lt: "unat sz + 32 < unat n" using assms(2) by (simp add: word_le_nat_alt)
  then have "sz + 32 \<le> n" using s32 by (simp add: word_le_nat_alt)
  then have "unat (n - (sz + 32)) = unat n - unat (sz + 32)" by (rule unat_sub)
  then have "unat (n - sz - 32) = unat n - unat sz - 32" using s32 by (simp add: diff_diff_eq)
  moreover show y: "unat (x + 32 + sz) = unat x + 32 + unat sz"
    using e s assms(4) by (simp add: unat_add_eq)
  ultimately show "tiles a ((x, sz, g) # (x + 32 + sz, n - sz - 32, g') # bs) e"
    using assms(1) e(1) lt by (simp add: ac_simps)
qed

lemma unat_le64: "unat (a::addr) < 2 ^ 64"
  using unat_less64 [of a] by simp

lemma heap_inv_distinct: "heap_inv s fs bs \<Longrightarrow> distinct (map baddr bs)"
  by (auto simp: heap_inv_def dest: tiles_distinct)

lemma hseg_flags:
  assumes "hseg h p (xs @ (x, n, f) # ys) q" "distinct (map baddr (xs @ (x, n, f) # ys))"
  shows "hseg (upd x (\<lambda>k. k\<lparr>c_flags := of_bool g\<rparr>) h) p (xs @ (x, n, g) # ys) q"
proof -
  have same: "upd x (\<lambda>k. k\<lparr>c_flags := of_bool g\<rparr>) h a = h a" if "a \<in> baddr ` set xs \<union> baddr ` set ys" for a
    using that assms(2) by (auto simp: upd_def)
  have "hseg (upd x (\<lambda>k. k\<lparr>c_flags := of_bool g\<rparr>) h) p xs x = hseg h p xs x"
    "hseg (upd x (\<lambda>k. k\<lparr>c_flags := of_bool g\<rparr>) h) x ys q = hseg h x ys q"
    by (rule hseg_cong, use same in blast)+
  then show ?thesis using assms(1) by (simp add: hseg_mid) (simp add: upd_def)
qed

lemma live_block:
  assumes "(a, n) \<in> live bs"
  obtains xs ys where "bs = xs @ (a - 32, n, False) # ys"
proof -
  have "(a - 32, n, False) \<in> set bs" using assms by (auto simp: live_def)
  then show thesis using that by (meson split_list)
qed

lemma block_range:
  assumes "heap_inv s fs bs" "(x, n, f) \<in> set bs"
  shows "unat KERNEL_HEAP_S \<le> unat x" "unat x + 32 + unat n \<le> unat (heap_max s)" "unat (x + 32) = unat x + 32"
proof -
  have t: "tiles (unat KERNEL_HEAP_S) bs (unat (heap_max s))" using assms(1) by (simp add: heap_inv_def)
  show r: "unat KERNEL_HEAP_S \<le> unat x" "unat x + 32 + unat n \<le> unat (heap_max s)"
    using tiles_range [OF t assms(2)] by auto
  then show "unat (x + 32) = unat x + 32" using unat_less64 [of "heap_max s"] by (simp add: unat_add_eq)
qed

lemma kfree_ok:
  assumes inv: "heap_inv s fs bs" and a: "(a, n) \<in> live bs"
  shows "\<exists>h. kfree a s = Inr (s\<lparr>chunks := h\<rparr>) \<and> heap_inv (s\<lparr>chunks := h\<rparr>) fs (afree (a - 32) bs)"
proof -
  obtain xs ys where bs: "bs = xs @ (a - 32, n, False) # ys" using live_block [OF a] .
  let ?x = "a - 32"
  have d: "distinct (map baddr (xs @ (?x, n, False) # ys))" using heap_inv_distinct [OF inv] by (simp add: bs)
  have r: "unat KERNEL_HEAP_S \<le> unat ?x" "unat ?x + 32 + unat n \<le> unat (heap_max s)" "unat a = unat ?x + 32"
    using block_range [OF inv, of ?x n False] by (auto simp: bs)
  then have g: "\<not> (a < KERNEL_HEAP_S \<or> a > heap_max s)" by (auto simp: word_less_nat_alt)
  let ?h = "upd ?x (\<lambda>k. k\<lparr>c_flags := 1\<rparr>) (chunks s)"
  have "hseg ?h 0 (xs @ (?x, n, True) # ys) 0"
    using hseg_flags [of "chunks s" 0 xs ?x n False ys 0 True] inv d by (simp add: heap_inv_def bs)
  then have seg: "hseg (merge_chunk ?x ?h) 0 (coalesce (xs @ (?x, n, True) # ys)) 0"
    using d inv by (intro merge_chunk_refines) (auto simp: heap_inv_def bs)
  have af: "afree ?x bs = coalesce (xs @ (?x, n, True) # ys)"
    unfolding bs using d inv by (intro afree_mid) (auto simp: heap_inv_def bs)
  have "tiles (unat KERNEL_HEAP_S) (xs @ (?x, n, True) # ys) (unat (heap_max s))"
    using inv by (simp add: heap_inv_def bs tiles_append)
  then have "tiles (unat KERNEL_HEAP_S) (afree ?x bs) (unat (heap_max s))"
    unfolding af by (rule tiles_coalesce) (rule unat_le64)
  moreover have "heap s = hd_addr (afree ?x bs) 0"
    using inv unfolding af by (cases xs) (auto simp: heap_inv_def bs hd_addr_coalesce)
  ultimately have "heap_inv (s\<lparr>chunks := merge_chunk ?x ?h\<rparr>) fs (afree ?x bs)"
    using inv seg af separated_coalesce_all by (simp add: heap_inv_def)
  moreover have "kfree a s = Inr (s\<lparr>chunks := merge_chunk ?x ?h\<rparr>)" using g by (simp add: kfree_def Let_def)
  ultimately show ?thesis by blast
qed

lemma live_afree:
  assumes "heap_inv s fs bs" "(a, n) \<in> live bs"
  shows "live (afree (a - 32) bs) = live bs - {(a, n)}"
proof -
  obtain xs ys where bs: "bs = xs @ (a - 32, n, False) # ys" using live_block [OF assms(2)] .
  have d: "distinct (map baddr (xs @ (a - 32, n, False) # ys))" using heap_inv_distinct [OF assms(1)] by (simp add: bs)
  have "afree (a - 32) bs = coalesce (xs @ (a - 32, n, True) # ys)"
    unfolding bs using d assms(1) by (intro afree_mid) (auto simp: heap_inv_def bs)
  then have "live (afree (a - 32) bs) = live xs \<union> live ys" by (simp add: live_coalesce)
  moreover have "(a, n) \<notin> live xs \<union> live ys" using d by (auto simp: live_def image_iff)
  ultimately show ?thesis by (auto simp: bs)
qed

section \<open>Allocation\<close>

lemma alloc_hit:
  assumes seg: "hseg h 0 bs 0" and t: "tiles a bs e" "e < 2 ^ 64" and fit: "afit sz bs = Some (x, bs')"
  shows "\<exists>p. kmalloc_find h sz (hd_addr bs 0) 0 = Some (x, p)"
    and "hseg (upd x (\<lambda>k. k\<lparr>c_flags := 0\<rparr>) (split_chunk x sz h)) 0 bs' 0" and "tiles a bs' e"
    and "hd_addr bs' 0 = hd_addr bs 0" and "x \<noteq> 0"
proof -
  obtain xs n ys where bs: "bs = xs @ (x, n, True) # ys" "sz \<le> n" "\<forall>b \<in> set xs. \<not> (bfree b \<and> sz \<le> bsize b)"
    and bs': "bs' = xs @ (if n \<le> sz + 32 then (x, n, False) # ys else (x, sz, False) # (x + 32 + sz, n - sz - 32, True) # ys)"
    using afit_Some [OF fit] by blast
  have d: "distinct (map baddr (xs @ (x, n, True) # ys))" using tiles_distinct [OF t(1)] by (simp add: bs)
  show "\<exists>p. kmalloc_find h sz (hd_addr bs 0) 0 = Some (x, p)"
    using kmalloc_find_some [of h 0 xs x n ys sz] seg bs by auto
  show "x \<noteq> 0" using seg by (simp add: bs hseg_mid)
  show "hd_addr bs' 0 = hd_addr bs 0" by (cases xs) (auto simp: bs bs')
  obtain m where m: "tiles a xs m" "tiles m ((x, n, True) # ys) e" using t(1) by (auto simp: bs tiles_append)
  show tl: "tiles a bs' e"
    using m tiles_split(1) [OF m(2) _ bs(2) t(2), of False True] by (auto simp: bs' tiles_append)
  show "hseg (upd x (\<lambda>k. k\<lparr>c_flags := 0\<rparr>) (split_chunk x sz h)) 0 bs' 0"
  proof (cases "n \<le> sz + 32")
    case True
    then show ?thesis
      using hseg_flags [of h 0 xs x n True ys 0 False] split_chunk_whole [of h 0 xs x n True ys sz] seg d by (simp add: bs bs')
  next
    case False
    have d': "distinct (map baddr bs')" using tiles_distinct [OF tl] .
    have y: "unat (x + 32 + sz) = unat x + 32 + unat sz" by (rule tiles_split(2) [OF m(2) False bs(2) t(2)])
    then have "x + 32 + sz \<noteq> 0" by auto
    then have "hseg (split_chunk x sz h) 0 (xs @ (x, sz, True) # (x + 32 + sz, n - sz - 32, True) # ys) 0"
      using seg d d' False by (intro split_chunk_hseg) (auto simp: bs bs')
    then show ?thesis
      using hseg_flags [of "split_chunk x sz h" 0 xs x sz True _ 0 False] d' False by (simp add: bs')
  qed
qed

lemma kmalloc_hit:
  assumes "hseg (chunks s) 0 bs 0" "tiles a bs e" "e < 2 ^ 64" "heap s = hd_addr bs 0" "afit sz bs = Some (x, bs')"
  shows "kmalloc_rec sz s
    = Some (Inr (x + 32, s\<lparr>chunks := upd x (\<lambda>k. k\<lparr>c_flags := 0\<rparr>) (split_chunk x sz (chunks s))\<rparr>))"
  using alloc_hit(1,5) [OF assms(1,2,3,5)] assms(4) by (subst kmalloc_rec.simps) auto

lemma last_block_end:
  assumes "tiles a bs (unat e)" "bs \<noteq> []"
  shows "last_addr 0 bs + (bsize (last bs) + 32) = e"
proof -
  obtain xs x n f where bs: "bs = xs @ [(x, n, f)]"
    using assms(2) by (cases bs rule: rev_cases) (auto)
  have "unat x + 32 + unat n = unat e" using assms(1) by (auto simp: bs tiles_append)
  then have "of_nat (unat x + 32 + unat n) = (of_nat (unat e) :: addr)" by simp
  then show ?thesis by (simp add: bs algebra_simps)
qed

lemma hseg_snoc:
  fixes f :: bool and n :: u64
  assumes "hseg h 0 bs 0" "distinct (map baddr bs)" "c \<noteq> 0" "c \<notin> baddr ` set bs"
  defines "p \<equiv> last_addr 0 bs"
  defines "h1 \<equiv> upd c (\<lambda>k. k\<lparr>c_p := p, c_n := 0, c_flags := of_bool f, c_size := n\<rparr>) h"
  shows "hseg (if p \<noteq> 0 then upd p (\<lambda>k. k\<lparr>c_n := c\<rparr>) h1 else h1) 0 (bs @ [(c, n, f)]) 0"
proof (cases bs rule: rev_cases)
  case Nil
  have "h1 c = \<lparr>c_p = 0, c_n = 0, c_flags = of_bool f, c_size = n\<rparr>" by (simp add: h1_def p_def Nil upd_def)
  then show ?thesis using assms(3) Nil by (simp add: p_def)
next
  case (snoc xs b)
  obtain x m g where b: "b = (x, m, g)" by (cases b) auto
  have p: "p = x" "x \<noteq> 0" "x \<noteq> c" using assms by (auto simp: snoc b hseg_mid)
  let ?h = "upd x (\<lambda>k. k\<lparr>c_n := c\<rparr>) h1"
  have "hseg ?h 0 xs x = hseg h 0 xs x"
    using assms(2,4) by (intro hseg_cong) (auto simp: h1_def snoc b upd_def)
  moreover have "h x = \<lparr>c_p = last_addr 0 xs, c_n = 0, c_flags = of_bool g, c_size = m\<rparr>" "hseg h 0 xs x"
    using assms(1) by (auto simp: snoc b hseg_mid)
  ultimately have "hseg ?h 0 (xs @ (x, m, g) # [(c, n, f)]) 0"
    using p assms(3) by (simp add: hseg_mid) (simp add: h1_def upd_def)
  then show ?thesis using p by (simp add: snoc b)
qed

lemma kmalloc_grow_ok:
  fixes s :: "'z kheap_scheme"
  assumes inv: "heap_inv s fs bs" and fs: "4 * (unat (sz + 32) div 4096 + 1) \<le> length fs"
    and room: "unat (heap_max s) + unat sz + 32 + 4096 < 2 ^ 64"
  shows "\<exists>s' k. kmalloc_grow sz (last_addr 0 bs) s = Inr s' \<and> k \<le> 4 * (unat (sz + 32) div 4096 + 1)
    \<and> heap_vm s' (drop k fs) \<and> heap_max s' \<le> brk s' \<and> heap_max s' = heap_max s + (sz + 32)
    \<and> heap s' = hd_addr (bs @ [(heap_max s, sz, True)]) 0 \<and> hseg (chunks s') 0 (bs @ [(heap_max s, sz, True)]) 0
    \<and> tiles (unat KERNEL_HEAP_S) (bs @ [(heap_max s, sz, True)]) (unat (heap_max s'))
    \<and> (\<forall>b. KERNEL_HEAP_S \<le> b \<longrightarrow> kmem s' b = kmem s b)"
proof -
  let ?p = "last_addr 0 bs" and ?c = "heap_max s" and ?bs = "bs @ [(heap_max s, sz, True)]"
  have seg: "hseg (chunks s) 0 bs 0" and t: "tiles (unat KERNEL_HEAP_S) bs (unat ?c)" and hd: "heap s = hd_addr bs 0"
    and vm: "heap_vm s fs" "?c \<le> brk s"
    using inv by (auto simp: heap_inv_def)
  have sz: "unat (sz + 32) = unat sz + 32" using room by (simp add: unat_add_eq)
  have E: "unat (?c + (sz + 32)) = unat ?c + 32 + unat sz" using room sz by (simp add: unat_add_eq)
  have c: "?c \<noteq> 0" using tiles_le [OF t] by (auto simp: unat_KERNEL_HEAP_S)
  have cn: "?c \<notin> baddr ` set bs" using tiles_range [OF t] by fastforce
  have d: "distinct (map baddr bs)" by (rule tiles_distinct [OF t])
  have p0: "?p = 0 \<longleftrightarrow> bs = []" using hseg_nonzero [OF seg] by (auto simp: last_addr_def)
  have pc: "?p + (c_size (chunks s ?p) + 32) = ?c" if ne: "bs \<noteq> []"
  proof -
    obtain xs x n f where bs: "bs = xs @ [(x, n, f)]" using ne by (cases bs rule: rev_cases) auto
    then have "c_size (chunks s ?p) = n" using seg by (simp add: hseg_mid)
    then show ?thesis using last_block_end [OF t ne] by (simp add: bs)
  qed
  let ?s = "if ?p \<noteq> 0 then s else s\<lparr>heap := ?c\<rparr>"
  have "heap_vm ?s fs" "heap_max ?s \<le> brk ?s" using vm by auto
  then obtain s1 k where s1: "ksbrk (sz + 32) ?s = Inr (?c + (sz + 32), s1\<lparr>heap_max := ?c + (sz + 32)\<rparr>)"
    "k \<le> 4 * (unat (sz + 32) div 4096 + 1)" "heap_vm s1 (drop k fs)" "heap_keep ?s s1" "?c + (sz + 32) \<le> brk s1"
    using ksbrk_ok [of ?s fs "sz + 32"] fs room sz by (auto split: if_splits)
  note keep = heap_keepD [OF s1(4)]
  have ch: "chunks s1 = chunks s" "heap s1 = hd_addr ?bs 0"
    using keep(2,3) p0 hd by (cases bs; auto)+
  let ?h1 = "upd ?c (\<lambda>k. k\<lparr>c_p := ?p, c_n := 0, c_flags := of_bool True, c_size := sz\<rparr>) (chunks s)"
  let ?h = "if ?p \<noteq> 0 then upd ?p (\<lambda>k. k\<lparr>c_n := ?c\<rparr>) ?h1 else ?h1"
  have pn: "c_n (chunks s ?p) = 0 \<and> ?p \<noteq> ?c" if "bs \<noteq> []"
    using seg cn that by (cases bs rule: rev_cases) (auto simp: hseg_append)
  have sz': "?c + (sz + 32) - (?c + 32) = sz" by simp
  have "kmalloc_grow sz ?p s = Inr (s1\<lparr>heap_max := ?c + (sz + 32), chunks := ?h\<rparr>)"
    using s1(1) pc pn c p0 ch(1) unfolding kmalloc_grow_def Let_def
    by (cases "bs = []") (auto simp: upd_def fun_eq_iff)
  moreover have "hseg ?h 0 ?bs 0" by (rule hseg_snoc [OF seg d c cn])
  moreover have "tiles (unat KERNEL_HEAP_S) ?bs (unat (?c + (sz + 32)))"
    using t E by (auto simp: tiles_append)
  moreover have "kmem s1 b = kmem s b" if "KERNEL_HEAP_S \<le> b" for b using keep(5) [OF that] by (simp split: if_splits)
  ultimately show ?thesis
    using s1(2,3,5) ch(2)
    by (intro exI [of _ "s1\<lparr>heap_max := ?c + (sz + 32), chunks := ?h\<rparr>"] exI [of _ k]) simp
qed

lemma separated_afit: "separated bs \<Longrightarrow> afit sz bs = Some (x, bs') \<Longrightarrow> separated bs'"
  by (elim afit_Some) (auto simp: separated_append separated_Cons split: if_splits)

lemma live_afit:
  assumes "afit sz bs = Some (x, bs')" "distinct (map baddr bs)"
  shows "\<exists>n. sz \<le> n \<and> live bs' = insert (x + 32, n) (live bs) \<and> x + 32 \<notin> fst ` live bs"
proof -
  obtain xs n ys where bs: "bs = xs @ (x, n, True) # ys" "sz \<le> n"
    "bs' = xs @ (if n \<le> sz + 32 then (x, n, False) # ys else (x, sz, False) # (x + 32 + sz, n - sz - 32, True) # ys)"
    using afit_Some [OF assms(1)] by metis
  then have "x + 32 \<notin> fst ` live bs" using assms(2) by (auto simp: live_def image_iff)
  with bs show ?thesis by (intro exI [of _ "if n \<le> sz + 32 then n else sz"]) auto
qed

lemma afit_snoc:
  "afit sz bs = None \<Longrightarrow> sz \<le> sz + 32 \<Longrightarrow> afit sz (bs @ [(c, sz, True)]) = Some (c, bs @ [(c, sz, False)])"
proof (induction bs)
  case (Cons b bs)
  then show ?case by (cases b) (auto split: if_splits)
qed simp

definition fit_or_grow :: "u64 \<Rightarrow> addr \<Rightarrow> block list \<Rightarrow> (addr \<times> block list) option" where
  "fit_or_grow sz e bs = (case afit sz bs of None \<Rightarrow> afit sz (bs @ [(e, sz, True)]) | Some r \<Rightarrow> Some r)"

lemma kmalloc_ok:
  fixes s :: "'z kheap_scheme"
  assumes inv: "heap_inv s fs bs" and fs: "4 * (unat (sz + 32) div 4096 + 1) \<le> length fs"
    and room: "unat (heap_max s) + unat sz + 32 + 4096 < 2 ^ 64"
  shows "\<exists>x bs' s' k. fit_or_grow sz (heap_max s) bs = Some (x, bs') \<and> kmalloc sz s = Inr (x + 32, s')
    \<and> k \<le> 4 * (unat (sz + 32) div 4096 + 1) \<and> heap_inv s' (drop k fs) bs'
    \<and> unat (heap_max s') \<le> unat (heap_max s) + unat sz + 32 \<and> live bs \<subseteq> live bs'
    \<and> (\<forall>b. KERNEL_HEAP_S \<le> b \<longrightarrow> kmem s' b = kmem s b)"
proof (cases "afit sz bs")
  case (Some r)
  then obtain x bs' where r: "afit sz bs = Some (x, bs')" by (cases r) auto
  let ?h = "upd x (\<lambda>k. k\<lparr>c_flags := 0\<rparr>) (split_chunk x sz (chunks s))"
  have i: "hseg (chunks s) 0 bs 0" "tiles (unat KERNEL_HEAP_S) bs (unat (heap_max s))" "heap s = hd_addr bs 0" "separated bs"
    using inv by (auto simp: heap_inv_def)
  note hit = alloc_hit [OF i(1,2) unat_le64 r]
  have "heap_inv (s\<lparr>chunks := ?h\<rparr>) fs bs'"
    using inv hit(2,3,4) separated_afit [OF i(4) r] by (simp add: heap_inv_def)
  moreover have "kmalloc sz s = Inr (x + 32, s\<lparr>chunks := ?h\<rparr>)"
    using kmalloc_hit [OF i(1,2) unat_le64 i(3) r] by (simp add: kmalloc_def)
  moreover have "live bs \<subseteq> live bs'" using live_afit [OF r heap_inv_distinct [OF inv]] by auto
  ultimately show ?thesis
    using r by (intro exI [of _ x] exI [of _ bs'] exI [of _ "s\<lparr>chunks := ?h\<rparr>"] exI [of _ 0]) (simp add: fit_or_grow_def)
next
  case None
  let ?bs = "bs @ [(heap_max s, sz, True)]" and ?bs' = "bs @ [(heap_max s, sz, False)]"
  obtain s1 k where s1: "kmalloc_grow sz (last_addr 0 bs) s = Inr s1" "k \<le> 4 * (unat (sz + 32) div 4096 + 1)"
    "heap_vm s1 (drop k fs)" "heap_max s1 \<le> brk s1" "heap_max s1 = heap_max s + (sz + 32)" "heap s1 = hd_addr ?bs 0"
    "hseg (chunks s1) 0 ?bs 0" "tiles (unat KERNEL_HEAP_S) ?bs (unat (heap_max s1))"
    "\<forall>b. KERNEL_HEAP_S \<le> b \<longrightarrow> kmem s1 b = kmem s b"
    using kmalloc_grow_ok [OF assms] by blast
  have seg: "hseg (chunks s) 0 bs 0" "heap s = hd_addr bs 0" "separated bs" using inv by (auto simp: heap_inv_def)
  have r: "afit sz ?bs = Some (heap_max s, ?bs')" using room by (intro afit_snoc [OF None]) (simp add: word_le_nat_alt unat_add_eq)
  let ?h = "upd (heap_max s) (\<lambda>k. k\<lparr>c_flags := 0\<rparr>) (split_chunk (heap_max s) sz (chunks s1))"
  note hit = alloc_hit [OF s1(7,8) unat_le64 r]
  have "separated ?bs'" using seg(3) by (simp add: separated_append)
  then have "heap_inv (s1\<lparr>chunks := ?h\<rparr>) (drop k fs) ?bs'"
    using s1(3,4,6) hit(2,3,4) by (simp add: heap_inv_def)
  moreover have "kmalloc_rec sz s = kmalloc_rec sz s1"
    using kmalloc_find_none [OF seg(1) None] seg(2) s1(1) by (subst kmalloc_rec.simps) simp
  then have "kmalloc sz s = Inr (heap_max s + 32, s1\<lparr>chunks := ?h\<rparr>)"
    using kmalloc_hit [OF s1(7,8) unat_le64 s1(6) r] by (simp add: kmalloc_def)
  moreover have "unat (heap_max s1) \<le> unat (heap_max s) + unat sz + 32"
    using room s1(5) by (simp add: unat_add_eq)
  ultimately show ?thesis
    using s1(2,9) None r
    by (intro exI [of _ "heap_max s"] exI [of _ ?bs'] exI [of _ "s1\<lparr>chunks := ?h\<rparr>"] exI [of _ k])
      (auto simp: fit_or_grow_def)
qed

section \<open>The allocator interface\<close>

text \<open>
  What the rest of the kernel relies on. \<open>inv k s L\<close>: the live blocks are \<open>L\<close> (address
  of the data, size) and there is memory for requests of total cost \<open>k\<close>.
\<close>

datatype heap_op = Malloc u64 | Free nat

text \<open>A program holds the pointers it got, each with the size it had asked for.\<close>

fun heap_run :: "(u64 \<Rightarrow> 's \<Rightarrow> (addr \<times> 's) res) \<Rightarrow> (addr \<Rightarrow> 's \<Rightarrow> 's res) \<Rightarrow> heap_op list
    \<Rightarrow> (addr \<times> u64) list \<times> 's \<Rightarrow> ((addr \<times> u64) list \<times> 's) res" where
  "heap_run alloc free [] (ps, s) = Inr (ps, s)"
| "heap_run alloc free (Malloc sz # ops) (ps, s) =
     bindR (alloc sz s) (\<lambda>(a, s). heap_run alloc free ops (ps @ [(a, sz)], s))"
| "heap_run alloc free (Free i # ops) (ps, s) =
     bindR (free (fst (ps ! i)) s) (\<lambda>s. heap_run alloc free ops (take i ps @ drop (Suc i) ps, s))"

fun heap_ops_ok :: "heap_op list \<Rightarrow> nat \<Rightarrow> bool" where
  "heap_ops_ok [] n \<longleftrightarrow> True"
| "heap_ops_ok (Malloc sz # ops) n \<longleftrightarrow> heap_ops_ok ops (Suc n)"
| "heap_ops_ok (Free i # ops) n \<longleftrightarrow> i < n \<and> heap_ops_ok ops (n - 1)"

fun heap_cost :: "(u64 \<Rightarrow> nat) \<Rightarrow> heap_op list \<Rightarrow> nat" where
  "heap_cost c [] = 0"
| "heap_cost c (Malloc sz # ops) = c sz + heap_cost c ops"
| "heap_cost c (Free i # ops) = heap_cost c ops"

locale allocator =
  fixes alloc :: "u64 \<Rightarrow> 's \<Rightarrow> (addr \<times> 's) res"
    and free :: "addr \<Rightarrow> 's \<Rightarrow> 's res"
    and inv :: "nat \<Rightarrow> 's \<Rightarrow> (addr \<times> u64) set \<Rightarrow> bool"
    and cost :: "u64 \<Rightarrow> nat"
    and contents :: "'s \<Rightarrow> addr \<Rightarrow> u8"
  assumes alloc_ok: "inv k s L \<Longrightarrow> cost sz \<le> k \<Longrightarrow>
      \<exists>a n s'. alloc sz s = Inr (a, s') \<and> sz \<le> n \<and> a \<notin> fst ` L \<and> inv (k - cost sz) s' (insert (a, n) L)
        \<and> (\<forall>(b, m) \<in> L. \<forall>i < unat m. contents s' (b + of_nat i) = contents s (b + of_nat i))"
    and free_ok: "inv k s L \<Longrightarrow> (a, n) \<in> L \<Longrightarrow>
      \<exists>s'. free a s = Inr s' \<and> inv k s' (L - {(a, n)}) \<and> contents s' = contents s"
    and live_fun: "inv k s L \<Longrightarrow> (a, n) \<in> L \<Longrightarrow> (a, m) \<in> L \<Longrightarrow> n = m"
    and live_disjoint: "inv k s L \<Longrightarrow> (a, n) \<in> L \<Longrightarrow> (b, m) \<in> L \<Longrightarrow> a \<noteq> b \<Longrightarrow>
      unat a + unat n \<le> unat b \<or> unat b + unat m \<le> unat a"
begin

definition holds :: "(addr \<times> u64) list \<Rightarrow> (addr \<times> u64) set \<Rightarrow> bool" where
  "holds ps L \<longleftrightarrow> distinct (map fst ps) \<and> fst ` set ps = fst ` L \<and> (\<forall>p \<in> set ps. \<exists>n. (fst p, n) \<in> L \<and> snd p \<le> n)"

lemma holds_insert: "holds ps L \<Longrightarrow> a \<notin> fst ` L \<Longrightarrow> sz \<le> n \<Longrightarrow> holds (ps @ [(a, sz)]) (insert (a, n) L)"
  by (fastforce simp: holds_def)

lemma holds_remove:
  assumes inv: "inv k s L" and h: "holds ps L" and i: "i < length ps" and n: "(fst (ps ! i), n) \<in> L"
  shows "holds (take i ps @ drop (Suc i) ps) (L - {(fst (ps ! i), n)})"
proof -
  let ?qs = "take i ps @ drop (Suc i) ps"
  have eq: "ps = take i ps @ ps ! i # drop (Suc i) ps" by (rule id_take_nth_drop [OF i])
  then have "distinct (map fst (take i ps @ ps ! i # drop (Suc i) ps))" using h by (simp add: holds_def)
  then have d: "distinct (map fst ?qs)" "fst (ps ! i) \<notin> fst ` set ?qs" "set ps = insert (ps ! i) (set ?qs)"
    using arg_cong [OF eq, of set] by (auto simp: rev_image_eqI)
  have "fst ` (L - {(fst (ps ! i), n)}) = fst ` L - {fst (ps ! i)}"
    using live_fun [OF inv n] by force
  moreover have "\<exists>m. (fst p, m) \<in> L - {(fst (ps ! i), n)} \<and> snd p \<le> m" if p: "p \<in> set ?qs" for p
  proof -
    obtain m where "(fst p, m) \<in> L" "snd p \<le> m" using h d(3) p unfolding holds_def by blast
    moreover have "fst p \<noteq> fst (ps ! i)" using d(2) p by (metis image_eqI)
    ultimately show ?thesis by auto
  qed
  moreover have "fst ` set ?qs = fst ` L - {fst (ps ! i)}"
  proof -
    have "fst ` L = insert (fst (ps ! i)) (fst ` set ?qs)" using h d(3) unfolding holds_def by auto
    then show ?thesis using d(2) by auto
  qed
  ultimately show ?thesis using d(1) unfolding holds_def by metis
qed

lemma run_ok:
  "inv k s L \<Longrightarrow> holds ps L \<Longrightarrow> heap_ops_ok ops (length ps) \<Longrightarrow> heap_cost cost ops \<le> k \<Longrightarrow>
   \<exists>ps' s' L'. heap_run alloc free ops (ps, s) = Inr (ps', s') \<and> holds ps' L' \<and> inv (k - heap_cost cost ops) s' L'"
proof (induction ops arbitrary: k s L ps)
  case Nil
  then show ?case by auto
next
  case (Cons op ops)
  show ?case
  proof (cases op)
    case (Malloc sz)
    then have c: "cost sz \<le> k" "heap_cost cost ops \<le> k - cost sz" using Cons.prems(4) by auto
    obtain a n s' where s': "alloc sz s = Inr (a, s')" "sz \<le> n" "a \<notin> fst ` L" "inv (k - cost sz) s' (insert (a, n) L)"
      using alloc_ok [OF Cons.prems(1) c(1)] by blast
    then have "\<exists>ps' s'' L'. heap_run alloc free ops (ps @ [(a, sz)], s') = Inr (ps', s'') \<and> holds ps' L'
        \<and> inv (k - cost sz - heap_cost cost ops) s'' L'"
      using Cons.prems Malloc c holds_insert by (intro Cons.IH [OF s'(4)]) auto
    then show ?thesis using Malloc s'(1) by (simp add: diff_diff_eq)
  next
    case (Free i)
    then have i: "i < length ps" using Cons.prems(3) by simp
    then have "fst (ps ! i) \<in> fst ` L" using Cons.prems(2) nth_mem [OF i] unfolding holds_def by blast
    then obtain n where n: "(fst (ps ! i), n) \<in> L" by force
    obtain s' where s': "free (fst (ps ! i)) s = Inr s'" "inv k s' (L - {(fst (ps ! i), n)})"
      using free_ok [OF Cons.prems(1) n] by blast
    have "\<exists>ps' s'' L'. heap_run alloc free ops (take i ps @ drop (Suc i) ps, s') = Inr (ps', s'') \<and> holds ps' L'
        \<and> inv (k - heap_cost cost ops) s'' L'"
      using holds_remove [OF Cons.prems(1,2) i n] Cons.prems Free i by (intro Cons.IH [OF s'(2)]) auto
    then show ?thesis using Free s'(1) by simp
  qed
qed

lemma holds_member: "holds ps L \<Longrightarrow> i < length ps \<Longrightarrow> \<exists>n. (fst (ps ! i), n) \<in> L \<and> snd (ps ! i) \<le> n"
  by (simp add: holds_def)

lemma holds_disjoint:
  assumes inv: "inv k s L" and h: "holds ps L" and ij: "i < length ps" "j < length ps" "i \<noteq> j"
  shows "unat (fst (ps ! i)) + unat (snd (ps ! i)) \<le> unat (fst (ps ! j)) \<or> unat (fst (ps ! j)) + unat (snd (ps ! j)) \<le> unat (fst (ps ! i))"
proof -
  obtain n m where nm: "(fst (ps ! i), n) \<in> L" "snd (ps ! i) \<le> n" "(fst (ps ! j), m) \<in> L" "snd (ps ! j) \<le> m"
    using that holds_member [OF h ij(1)] holds_member [OF h ij(2)] by blast
  have "fst (ps ! i) \<noteq> fst (ps ! j)"
    using h ij nth_eq_iff_index_eq [of "map fst ps" i j] by (simp add: holds_def)
  from live_disjoint [OF inv nm(1,3) this] nm(2,4) show ?thesis by (auto simp: word_le_nat_alt)
qed

end

definition heap_need :: "u64 \<Rightarrow> nat" where
  "heap_need sz = unat sz div 4096 + 2"

definition heap_live :: "nat \<Rightarrow> 'z kheap_scheme \<Rightarrow> (addr \<times> u64) set \<Rightarrow> bool" where
  "heap_live k s L \<longleftrightarrow> (\<exists>fs bs. heap_inv s fs bs \<and> L = live bs \<and> 4 * k \<le> length fs
     \<and> unat (heap_max s) + 4096 * (k + 1) < 2 ^ 64)"

lemma heap_need_enough:
  assumes "heap_need sz \<le> k" "unat (heap_max s) + 4096 * (k + 1) < 2 ^ 64" "4 * k \<le> length fs"
  shows "4 * (unat (sz + 32) div 4096 + 1) \<le> 4 * heap_need sz" "4 * heap_need sz \<le> length fs"
    "unat sz + 32 \<le> 4096 * heap_need sz" "unat (heap_max s) + unat sz + 32 + 4096 < 2 ^ 64"
proof -
  have "unat sz mod 4096 < 4096" by simp
  then show a: "unat sz + 32 \<le> 4096 * heap_need sz"
    using mult_div_mod_eq [of 4096 "unat sz"] by (simp add: heap_need_def)
  moreover have "4096 * heap_need sz \<le> 4096 * k" using assms(1) by simp
  ultimately show r: "unat (heap_max s) + unat sz + 32 + 4096 < 2 ^ 64" using assms(2) by simp
  then have "unat (sz + 32) = unat sz + 32" by (simp add: unat_add_eq)
  moreover have "(unat sz + 32) div 4096 \<le> (unat sz + 4096) div 4096" by (rule div_le_mono) simp
  ultimately show "4 * (unat (sz + 32) div 4096 + 1) \<le> 4 * heap_need sz"
    by (simp add: heap_need_def)
  show "4 * heap_need sz \<le> length fs" using assms by simp
qed

lemma live_data:
  assumes "heap_inv s fs bs" "(a, n) \<in> live bs"
  shows "(a - 32, n, False) \<in> set bs" "unat a = unat (a - 32) + 32" "unat KERNEL_HEAP_S \<le> unat a" "unat a + unat n \<le> unat (heap_max s)"
proof -
  show m: "(a - 32, n, False) \<in> set bs" using assms(2) by (auto simp: live_def)
  show "unat a = unat (a - 32) + 32" "unat KERNEL_HEAP_S \<le> unat a" "unat a + unat n \<le> unat (heap_max s)"
    using block_range [OF assms(1) m] by auto
qed

lemma live_byte:
  assumes "heap_inv s fs bs" "(a, n) \<in> live bs" "i < unat n"
  shows "KERNEL_HEAP_S \<le> a + of_nat i"
proof -
  have "i < 18446744073709551616" using assms(3) unat_less64 [of n] by linarith
  then have "unat (a + of_nat i) = unat a + i"
    using live_data(4) [OF assms(1,2)] assms(3) unat_less64 [of "heap_max s"]
    by (subst unat_add_eq) (auto simp: unat_of_nat_eq)
  then show ?thesis using live_data(3) [OF assms(1,2)] by (simp add: word_le_nat_alt)
qed

lemma live_fit_or_grow:
  assumes inv: "heap_inv s fs bs" and fit: "fit_or_grow sz (heap_max s) bs = Some (x, bs')"
  shows "\<exists>n. sz \<le> n \<and> live bs' = insert (x + 32, n) (live bs) \<and> x + 32 \<notin> fst ` live bs"
proof (cases "afit sz bs")
  case None
  have t: "tiles (unat KERNEL_HEAP_S) bs (unat (heap_max s))" using inv by (simp add: heap_inv_def)
  have "distinct (map baddr (bs @ [(heap_max s, sz, True)]))"
    using heap_inv_distinct [OF inv] tiles_range [OF t] by fastforce
  from live_afit [OF _ this, of sz x bs'] fit None show ?thesis by (simp add: fit_or_grow_def)
next
  case (Some r)
  then show ?thesis using live_afit [OF _ heap_inv_distinct [OF inv]] fit by (simp add: fit_or_grow_def)
qed

interpretation kheap: allocator kmalloc kfree heap_live heap_need kmem
proof unfold_locales
  fix k :: nat and s :: "'z kheap_scheme" and L sz
  assume L: "heap_live k s L" and c: "heap_need sz \<le> k"
  obtain fs bs where i: "heap_inv s fs bs" "L = live bs" "4 * k \<le> length fs" "unat (heap_max s) + 4096 * (k + 1) < 2 ^ 64"
    using L by (auto simp: heap_live_def)
  note n = heap_need_enough [OF c i(4,3)]
  have fs: "4 * (unat (sz + 32) div 4096 + 1) \<le> length fs" using n by linarith
  obtain x bs' s' j where r: "fit_or_grow sz (heap_max s) bs = Some (x, bs')" "kmalloc sz s = Inr (x + 32, s')"
    "j \<le> 4 * (unat (sz + 32) div 4096 + 1)" "heap_inv s' (drop j fs) bs'"
    "unat (heap_max s') \<le> unat (heap_max s) + unat sz + 32"
    "\<forall>b. KERNEL_HEAP_S \<le> b \<longrightarrow> kmem s' b = kmem s b"
    using kmalloc_ok [OF i(1) fs n(4)] by blast
  obtain n' where n': "sz \<le> n'" "live bs' = insert (x + 32, n') L" "x + 32 \<notin> fst ` L"
    using live_fit_or_grow [OF i(1) r(1)] i(2) by blast
  have "4 * (k - heap_need sz) \<le> length (drop j fs)" using i(3) r(3) n c by simp
  moreover have "unat (heap_max s') + 4096 * (k - heap_need sz + 1) < 2 ^ 64"
  proof -
    have "4096 * (k - heap_need sz + 1) + 4096 * heap_need sz = 4096 * (k + 1)" using c by simp
    then show ?thesis using r(5) n(3) i(4) by simp
  qed
  moreover have "kmem s' (b + of_nat l) = kmem s (b + of_nat l)" if "(b, m) \<in> L" "l < unat m" for b m l
    using r(6) live_byte [OF i(1)] that i(2) by blast
  ultimately have "heap_live (k - heap_need sz) s' (insert (x + 32, n') L)
      \<and> (\<forall>(b, m) \<in> L. \<forall>i < unat m. kmem s' (b + of_nat i) = kmem s (b + of_nat i))"
    using r(4) n'(2) unfolding heap_live_def by (intro conjI exI [of _ "drop j fs"] exI [of _ bs']) auto
  then show "\<exists>a n s'. kmalloc sz s = Inr (a, s') \<and> sz \<le> n \<and> a \<notin> fst ` L \<and> heap_live (k - heap_need sz) s' (insert (a, n) L)
        \<and> (\<forall>(b, m) \<in> L. \<forall>i < unat m. kmem s' (b + of_nat i) = kmem s (b + of_nat i))"
    using r(2) n'(1,3) by blast
next
  fix k :: nat and s :: "'z kheap_scheme" and L a n
  assume L: "heap_live k s L" "(a, n) \<in> L"
  then obtain fs bs where i: "heap_inv s fs bs" "L = live bs" "4 * k \<le> length fs" "unat (heap_max s) + 4096 * (k + 1) < 2 ^ 64"
    by (auto simp: heap_live_def)
  have a: "(a, n) \<in> live bs" using L i by simp
  obtain h where h: "kfree a s = Inr (s\<lparr>chunks := h\<rparr>)" "heap_inv (s\<lparr>chunks := h\<rparr>) fs (afree (a - 32) bs)"
    using kfree_ok [OF i(1) a] by blast
  then have "heap_live k (s\<lparr>chunks := h\<rparr>) (L - {(a, n)})"
    using i live_afree [OF i(1) a] unfolding heap_live_def by auto
  with h(1) show "\<exists>s'. kfree a s = Inr s' \<and> heap_live k s' (L - {(a, n)}) \<and> kmem s' = kmem s" by auto
next
  fix k :: nat and s :: "'z kheap_scheme" and L a n m
  assume "heap_live k s L" "(a, n) \<in> L" "(a, m) \<in> L"
  then obtain fs bs where i: "heap_inv s fs bs" "(a - 32, n, False) \<in> set bs" "(a - 32, m, False) \<in> set bs"
    using live_data(1) by (fastforce simp: heap_live_def)
  then show "n = m" using eq_key_imp_eq_value [OF heap_inv_distinct [OF i(1)]] by blast
next
  fix k :: nat and s :: "'z kheap_scheme" and L a n b m
  assume "heap_live k s L" "(a, n) \<in> L" "(b, m) \<in> L" "a \<noteq> b"
  then obtain fs bs where i: "heap_inv s fs bs" "(a, n) \<in> live bs" "(b, m) \<in> live bs" and ab: "a - 32 \<noteq> b - 32"
    by (auto simp: heap_live_def)
  note da = live_data [OF i(1,2)] and db = live_data [OF i(1,3)]
  have "tiles (unat KERNEL_HEAP_S) bs (unat (heap_max s))" using i(1) by (simp add: heap_inv_def)
  from tiles_disjoint [OF this da(1) db(1)] ab da(2) db(2)
  show "unat a + unat n \<le> unat b \<or> unat b + unat m \<le> unat a" by auto
qed

section \<open>An example heap\<close>

definition example_heap :: kheap where
  "example_heap = fold pmm_free (map (\<lambda>i. 0x5000 + 0x1000 * of_nat i) [0..<24])
     \<lparr>kmem = (\<lambda>_. 0), pmm_running = False, pmm_pos = 0, pmm_stack = 0, BootP4 = P2V 0x2000, cr3 = 0,
      heap_max = KERNEL_HEAP_S, brk = KERNEL_HEAP_S, heap = 0, chunks = (\<lambda>_. \<lparr>c_p = 0, c_n = 0, c_flags = 0, c_size = 0\<rparr>)\<rparr>"

definition example_heap_frames :: "addr list" where
  "example_heap_frames = rev (map (\<lambda>i. P2V (0x5000 + 0x1000 * of_nat i)) [0..<24])"

lemma frame_seq:
  assumes "i < 24"
  shows "unat (0x5000 + 0x1000 * of_nat i :: addr) = 20480 + 4096 * i"
proof -
  have "unat (0x1000 * of_nat i :: addr) = 4096 * i"
    using assms by (simp add: unat_word_ariths unat_of_nat_eq)
  then show ?thesis using assms by (subst unat_add_eq) auto
qed

lemma frame_seq_P2V:
  assumes "i < 24"
  shows "page_aligned (0x5000 + 0x1000 * of_nat i)" "P2V (0x5000 + 0x1000 * of_nat i) < KERNEL_HEAP_S"
    "P2V (0x5000 + 0x1000 * of_nat i) \<noteq> 0" "P2V (0x5000 + 0x1000 * of_nat i) \<noteq> P2V 0x2000"
proof -
  have u: "unat (P2V (0x5000 + 0x1000 * of_nat i)) = 20480 + 4096 * i + 18446743523953737728"
    unfolding P2V_def using assms frame_seq [OF assms] by (subst unat_add_eq) (auto simp: KERNEL_OFFSET_def)
  show "page_aligned (0x5000 + 0x1000 * of_nat i)" by (simp add: page_aligned_unat frame_seq [OF assms] dvd_add)
  show "P2V (0x5000 + 0x1000 * of_nat i) < KERNEL_HEAP_S"
    using u assms by (simp add: word_less_nat_alt unat_KERNEL_HEAP_S)
  show "P2V (0x5000 + 0x1000 * of_nat i) \<noteq> 0" using u by auto
  show "P2V (0x5000 + 0x1000 * of_nat i) \<noteq> P2V 0x2000"
  proof
    assume "P2V (0x5000 + 0x1000 * of_nat i) = P2V 0x2000"
    then have "unat (0x5000 + 0x1000 * of_nat i :: addr) = unat (0x2000 :: addr)" by (simp only: P2V_inject)
    then show False using frame_seq [OF assms] by simp
  qed
qed

lemma pmm_free_kheap [simp]:
  "heap_max (pmm_free p s) = heap_max s" "brk (pmm_free p s) = brk s" "heap (pmm_free p s) = heap s"
  "chunks (pmm_free p s) = chunks s"
  by (simp_all add: pmm_free_alt)

lemma fold_pmm_free_kheap [simp]:
  "heap_max (fold pmm_free ps s) = heap_max s" "brk (fold pmm_free ps s) = brk s" "heap (fold pmm_free ps s) = heap s"
  "chunks (fold pmm_free ps s) = chunks s" "BootP4 (fold pmm_free ps s) = BootP4 s"
  by (induction ps arbitrary: s) auto

lemma fold_pmm_free_outside:
  "STRIP_FLAGS b \<notin> (\<lambda>p. P2V (STRIP_FLAGS p)) ` set ps \<Longrightarrow> kmem (fold pmm_free ps s) b = kmem s b"
  by (induction ps arbitrary: s) (auto simp: pmm_free_outside)

lemma example_heap_pmm: "pmm_inv example_heap example_heap_frames" "pmm_running example_heap"
proof -
  let ?s0 = "\<lparr>kmem = (\<lambda>_. 0), pmm_running = False, pmm_pos = 0, pmm_stack = 0, BootP4 = P2V 0x2000, cr3 = 0,
      heap_max = KERNEL_HEAP_S, brk = KERNEL_HEAP_S, heap = 0, chunks = (\<lambda>_. \<lparr>c_p = 0, c_n = 0, c_flags = 0, c_size = 0\<rparr>)\<rparr> :: kheap"
  let ?ps = "map (\<lambda>i. P2V (0x5000 + 0x1000 * of_nat i)) [0..<24]"
  have inj: "inj_on (\<lambda>i. P2V (0x5000 + 0x1000 * of_nat i)) {0..<24}"
  proof (rule inj_onI)
    fix i j :: nat
    assume ij: "i \<in> {0..<24}" "j \<in> {0..<24}" and "P2V (0x5000 + 0x1000 * of_nat i) = P2V (0x5000 + 0x1000 * of_nat j)"
    then have "unat (0x5000 + 0x1000 * of_nat i :: addr) = unat (0x5000 + 0x1000 * of_nat j :: addr)" by (simp only: P2V_inject)
    with ij show "i = j" using frame_seq [of i] frame_seq [of j] by simp
  qed
  have "pmm_inv ?s0 []" by (simp add: pmm_inv_def)
  then have "pmm_inv (fold pmm_free (map V2P ?ps) ?s0) (rev ?ps @ [])"
    using inj frame_seq_P2V(1,3) by (intro pmm.release_all) (auto simp: distinct_map)
  then show i: "pmm_inv example_heap example_heap_frames"
    by (simp add: example_heap_def example_heap_frames_def comp_def del: upt_rec_numeral)
  show "pmm_running example_heap" using i by (simp add: pmm_inv_def example_heap_frames_def)
qed

lemma example_heap_inv: "heap_inv example_heap example_heap_frames []"
proof -
  let ?t = "P2V 0x2000"
  have z: "kmem example_heap b = 0" if "STRIP_FLAGS b = ?t" for b
  proof -
    have "STRIP_FLAGS b \<notin> (\<lambda>p. P2V (STRIP_FLAGS p)) ` set (map (\<lambda>i. 0x5000 + 0x1000 * of_nat i) [0..<24])"
      using that frame_seq_P2V(1,4) by (auto simp del: upt_rec_numeral)
    then show ?thesis unfolding example_heap_def by (subst fold_pmm_free_outside) simp_all
  qed
  have z8: "load64 (kmem example_heap) (?t + 8 * j) = 0" if "unat j < 512" for j
    using STRIP_slot_byte [of ?t j] that by (intro load64_zero z) (auto simp: example_frame_facts)
  have tb: "tab (kmem example_heap) ?t q = (if q = [] then Some ?t else None)" if "q \<in> heap_dom" for q
    using that z8 [of 511] by (cases q) (auto simp: heap_dom_def)
  have "[] \<in> heap_dom" by (simp add: heap_dom_def)
  then have T: "tables heap_dom (kmem example_heap) ?t = {?t}" by (auto simp: tables_def tb split: if_splits)
  have B: "BootP4 example_heap = ?t" "brk example_heap = KERNEL_HEAP_S" "heap_max example_heap = KERNEL_HEAP_S" "heap example_heap = 0"
    by (simp_all add: example_heap_def del: upt_rec_numeral)
  have low: "?t < KERNEL_HEAP_S" by (simp add: P2V_def KERNEL_OFFSET_def KERNEL_HEAP_S_def)
  have fr: "f < KERNEL_HEAP_S \<and> f \<noteq> ?t" if "f \<in> set example_heap_frames" for f
    using that frame_seq_P2V(2,4) by (auto simp: example_heap_frames_def simp del: upt_rec_numeral)
  have "pt_wf heap_dom (kmem example_heap) ?t"
    using T by (auto simp: pt_wf_def tb example_frame_facts split: if_splits)
  then have "vmm_inv heap_dom ?t example_heap example_heap_frames"
    using example_heap_pmm T fr path_dom_heap by (auto simp: vmm_inv_def)
  then show ?thesis using B T low fr by (auto simp: heap_inv_def heap_vm_def)
qed

section \<open>Properties\<close>

text \<open>
  C1. \<^verbatim>\<open>kmalloc\<close> refines first fit on the sequence of blocks: with enough free pages
  it returns, takes the first free block that is large enough (or a new block at the end of the
  heap when there is none), splits off the rest, and leaves a heap whose headers represent exactly
  that sequence, tile the heap range, and have no two adjacent free blocks; no byte of the heap
  range changes.
\<close>

theorem kmalloc_first_fit:
  fixes s :: "'z kheap_scheme"
  assumes "heap_inv s fs bs" and "4 * (unat (sz + 32) div 4096 + 1) \<le> length fs"
    and "unat (heap_max s) + unat sz + 32 + 4096 < 2 ^ 64"
  shows "\<exists>x bs' s' k. fit_or_grow sz (heap_max s) bs = Some (x, bs') \<and> kmalloc sz s = Inr (x + 32, s')
    \<and> heap_inv s' (drop k fs) bs' \<and> (\<forall>b. KERNEL_HEAP_S \<le> b \<longrightarrow> kmem s' b = kmem s b)"
  using kmalloc_ok [OF assms] by blast

theorem kmalloc_first_fit_witness:
  "\<exists>s'. kmalloc 100 example_heap = Inr (KERNEL_HEAP_S + 32, s')"
proof -
  have l: "4 * (unat (100 + 32 :: u64) div 4096 + 1) \<le> length example_heap_frames"
    by (simp add: example_heap_frames_def)
  have m: "heap_max example_heap = KERNEL_HEAP_S" by (simp add: example_heap_def del: upt_rec_numeral)
  have "unat (heap_max example_heap) + unat (100 :: u64) + 32 + 4096 < 2 ^ 64"
    by (simp add: m unat_KERNEL_HEAP_S)
  from kmalloc_first_fit [OF example_heap_inv l this] show ?thesis
    by (auto simp: fit_or_grow_def m)
qed

text \<open>
  C9. \<^verbatim>\<open>kfree\<close> of a live block succeeds, makes exactly that block free, merges it with
  the free blocks next to it so that again no two adjacent blocks are free, and keeps every other
  live block and all heap contents.
\<close>

theorem kfree_coalesces:
  assumes "heap_inv s fs bs" and "(a, n) \<in> live bs"
  shows "\<exists>s'. kfree a s = Inr s' \<and> heap_inv s' fs (afree (a - 32) bs)
    \<and> live (afree (a - 32) bs) = live bs - {(a, n)} \<and> kmem s' = kmem s"
  using kfree_ok [OF assms] live_afree [OF assms] by auto

theorem kfree_coalesces_witness:
  "\<exists>s s' fs. kmalloc 100 example_heap = Inr (KERNEL_HEAP_S + 32, s) \<and> kfree (KERNEL_HEAP_S + 32) s = Inr s'
     \<and> heap_inv s' fs [(KERNEL_HEAP_S, 100, True)]"
proof -
  have l: "4 * (unat (100 + 32 :: u64) div 4096 + 1) \<le> length example_heap_frames"
    by (simp add: example_heap_frames_def)
  have m: "heap_max example_heap = KERNEL_HEAP_S" by (simp add: example_heap_def del: upt_rec_numeral)
  have "unat (heap_max example_heap) + unat (100 :: u64) + 32 + 4096 < 2 ^ 64"
    by (simp add: m unat_KERNEL_HEAP_S)
  from kmalloc_ok [OF example_heap_inv l this] obtain s fs where
    s: "kmalloc 100 example_heap = Inr (KERNEL_HEAP_S + 32, s)" "heap_inv s fs [(KERNEL_HEAP_S, 100, False)]"
    by (auto simp: fit_or_grow_def m)
  from kfree_coalesces [OF s(2), of "KERNEL_HEAP_S + 32" 100] s(1) show ?thesis
    by (auto simp: afree_def)
qed

text \<open>
  C6. Any program of \<^verbatim>\<open>kmalloc\<close> and \<^verbatim>\<open>kfree\<close> calls that frees only pointers it
  holds runs to the end when there are enough free pages, and the blocks it holds, each of the size
  that was asked for, lie in disjoint address ranges.
\<close>

theorem heap_program_safe:
  assumes "heap_live k s {}" and "heap_ops_ok ops 0" and "heap_cost heap_need ops \<le> k"
  shows "\<exists>ps s'. heap_run kmalloc kfree ops ([], s) = Inr (ps, s')
    \<and> (\<forall>i < length ps. \<forall>j < length ps. i \<noteq> j \<longrightarrow>
         unat (fst (ps ! i)) + unat (snd (ps ! i)) \<le> unat (fst (ps ! j)) \<or> unat (fst (ps ! j)) + unat (snd (ps ! j)) \<le> unat (fst (ps ! i)))"
proof -
  have "kheap.holds [] {}" by (simp add: kheap.holds_def)
  then obtain ps s' L where r: "heap_run kmalloc kfree ops ([], s) = Inr (ps, s')" "kheap.holds ps L"
    "heap_live (k - heap_cost heap_need ops) s' L"
    using kheap.run_ok [OF assms(1), of "[]" ops] assms(2,3) by auto
  with kheap.holds_disjoint [OF r(3,2)] show ?thesis by blast
qed

theorem heap_program_safe_witness:
  "\<exists>ps s'. heap_run kmalloc kfree [Malloc 100, Malloc 50, Free 0] ([], example_heap) = Inr (ps, s')"
proof -
  have "heap_live 4 example_heap {}"
    using example_heap_inv unfolding heap_live_def
    by (intro exI [of _ example_heap_frames] exI [of _ "[]"])
      (auto simp: example_heap_frames_def example_heap_def unat_KERNEL_HEAP_S simp del: upt_rec_numeral)
  from heap_program_safe [OF this, of "[Malloc 100, Malloc 50, Free 0]"] show ?thesis
    by (auto simp: heap_need_def)
qed

lemma memcpy_loop_add: "memcpy_loop (i + j) dp sp m = memcpy_loop j (dp + of_nat i) (sp + of_nat i) (memcpy_loop i dp sp m)"
  by (induction i arbitrary: dp sp m) (simp_all add: algebra_simps)

lemma memcpy_prefix:
  assumes "unat dst + unat n \<le> unat src \<or> unat src + l \<le> unat dst" "l \<le> unat n" "unat dst + unat n < 2 ^ 64"
    and "unat src + l < 2 ^ 64" "i < l"
  shows "memcpy dst src n m (dst + of_nat i) = m (src + of_nat i)"
proof -
  let ?j = "unat n - l"
  have n: "unat n = l + ?j" using assms(2) by simp
  have l64: "l < 2 ^ 64" "?j < 2 ^ 64" "unat n < 2 ^ 64" using assms(2) unat_less64 [of n] by auto
  have d: "dst = src \<or> l \<le> unat (dst - src)"
    using assms(1-4) unat_less64 [of src] unat_less64 [of dst] by (auto simp: unat_sub_if')
  have iu: "unat (of_nat i :: addr) = i" "unat (of_nat l :: addr) = l"
    using assms(5) l64(1) by (auto simp: unat_of_nat_eq)
  have "memcpy_loop l dst src m (dst + of_nat i) = m (src + of_nat i)"
    using memcpy_loop_apply [OF l64(1) d, of m "dst + of_nat i"] iu assms(5) by simp
  moreover have "?j \<le> unat (dst + of_nat i - (dst + of_nat l))"
    using iu assms(5) l64 by (simp add: unat_sub_if')
  then have "memcpy_loop ?j (dst + of_nat l) (src + of_nat l) (memcpy_loop l dst src m) (dst + of_nat i)
      = memcpy_loop l dst src m (dst + of_nat i)"
    by (rule memcpy_loop_outside [OF l64(2)])
  ultimately show ?thesis unfolding memcpy_def by (subst n) (simp add: memcpy_loop_add)
qed

text \<open>Data writes into the heap range keep the invariant.\<close>

lemma heap_vm_data:
  assumes vm: "heap_vm s fs" and m: "\<And>b. b < KERNEL_HEAP_S \<Longrightarrow> m b = kmem s b"
  shows "heap_vm (s\<lparr>kmem := m\<rparr>) fs"
proof -
  let ?t = "BootP4 s" and ?T = "tables heap_dom (kmem s) (BootP4 s)"
  have inv: "vmm_inv heap_dom ?t s fs" and low: "\<forall>t \<in> ?T \<union> set fs. t < KERNEL_HEAP_S"
    using vm by (auto simp: heap_vm_def)
  have al: "page_aligned ?t" using inv by (simp add: vmm_inv_def pt_wf_def)
  have low': "b < KERNEL_HEAP_S" if "STRIP_FLAGS b < KERNEL_HEAP_S" for b
    using STRIP_ge_HEAP [of b] that by (meson leD leI)
  have "m b = kmem s b" if "STRIP_FLAGS b \<in> ?T" for b using that low low' m by blast
  note fr = ent_frame(2) [OF path_dom_heap al this]
  have T: "tables heap_dom m ?t = ?T" using fr by (simp add: tables_def)
  have ld: "load64 m f = load64 (kmem s) f" if f: "f \<in> set fs" for f
  proof (rule load64_cong)
    fix k :: nat
    assume "k < 8"
    moreover have "page_aligned f" using inv f pmm_inv_aligned [of s fs f] by (simp add: vmm_inv_def)
    ultimately have "STRIP_FLAGS (f + of_nat k) = f" using STRIP_slot_byte [of f 0 k] by simp
    moreover have "f < KERNEL_HEAP_S" using low f by blast
    ultimately have "STRIP_FLAGS (f + of_nat k) < KERNEL_HEAP_S" by metis
    then show "m (f + of_nat k) = kmem s (f + of_nat k)" by (rule m [OF low'])
  qed
  have "pmm_inv s fs" using inv by (simp add: vmm_inv_def)
  then have "pmm_inv (s\<lparr>kmem := m\<rparr>) fs" by (rule pmm_inv_frame) (simp_all add: ld)
  moreover have "pt_wf heap_dom m ?t"
    using inv T unfolding vmm_inv_def pt_wf_def by (simp only: fr cong: ball_cong) blast
  ultimately show ?thesis using vm T by (simp add: heap_vm_def vmm_inv_def)
qed

lemma heap_live_data:
  assumes "heap_live k s L" "\<And>b. b < KERNEL_HEAP_S \<Longrightarrow> m b = kmem s b"
  shows "heap_live k (s\<lparr>kmem := m\<rparr>) L"
  using assms heap_vm_data [of s _ m] by (auto simp: heap_live_def heap_inv_def)

lemma heap_live_range:
  assumes "heap_live k s L" "(a, n) \<in> L"
  shows "unat KERNEL_HEAP_S \<le> unat a" "unat a + unat n < 2 ^ 64"
proof -
  obtain fs bs where i: "heap_inv s fs bs" "(a, n) \<in> live bs" using assms by (auto simp: heap_live_def)
  show "unat KERNEL_HEAP_S \<le> unat a" "unat a + unat n < 2 ^ 64"
    using live_data(3,4) [OF i] unat_le64 [of "heap_max s"] by auto
qed

text \<open>
  C11. \<^verbatim>\<open>krealloc\<close> of a live block keeps its contents: the new block is live and at least
  as large as requested, the old one is no longer live, and the first bytes, as many as both blocks
  hold, are the old ones, even when the copy runs past the end of a smaller old block.
\<close>

theorem krealloc_keeps_contents:
  assumes live: "heap_live k s L" and p: "(p, n) \<in> L" and c: "heap_need sz \<le> k"
  shows "\<exists>a m s'. krealloc p sz s = Inr (a, s') \<and> sz \<le> m
    \<and> heap_live (k - heap_need sz) s' (insert (a, m) (L - {(p, n)}))
    \<and> (\<forall>i < min (unat n) (unat sz). kmem s' (a + of_nat i) = kmem s (p + of_nat i))"
proof -
  obtain a m s1 where s1: "kmalloc sz s = Inr (a, s1)" "sz \<le> m" "a \<notin> fst ` L"
    "heap_live (k - heap_need sz) s1 (insert (a, m) L)"
    "\<forall>(b, l) \<in> L. \<forall>i < unat l. kmem s1 (b + of_nat i) = kmem s (b + of_nat i)"
    using kheap.alloc_ok [OF live c] by blast
  have ap: "a \<noteq> p" using s1(3) p by force
  note ra = heap_live_range [OF s1(4), of a m] and rp = heap_live_range [OF live p]
  have szm: "unat sz \<le> unat m" using s1(2) by (simp add: word_le_nat_alt)
  have dis: "unat a + unat m \<le> unat p \<or> unat p + unat n \<le> unat a"
    using kheap.live_disjoint [OF s1(4), of a m p n] ap p by auto
  let ?l = "min (unat n) (unat sz)" and ?m = "memcpy a p sz (kmem s1)"
  have copy: "?m (a + of_nat i) = kmem s (p + of_nat i)" if i: "i < ?l" for i
  proof -
    have "?m (a + of_nat i) = kmem s1 (p + of_nat i)"
      using i dis szm ra rp by (intro memcpy_prefix [where l = ?l]) auto
    then show ?thesis using s1(5) p i by auto
  qed
  have "?m b = kmem s1 b" if "b < KERNEL_HEAP_S" for b
  proof (rule memcpy_outside)
    have "unat b < unat a" "unat a + unat sz < 2 ^ 64" using that ra szm by (auto simp: word_less_nat_alt)
    then show "sz \<le> b - a" by (simp add: word_le_nat_alt unat_sub_if')
  qed
  from heap_live_data [OF s1(4) this] have live2: "heap_live (k - heap_need sz) (s1\<lparr>kmem := ?m\<rparr>) (insert (a, m) L)" .
  obtain s' where s': "kfree p (s1\<lparr>kmem := ?m\<rparr>) = Inr s'" "heap_live (k - heap_need sz) s' (insert (a, m) L - {(p, n)})"
    "kmem s' = ?m"
    using kheap.free_ok [OF live2, of p n] p by auto
  have "p \<noteq> 0" using rp(1) by (auto simp: unat_KERNEL_HEAP_S)
  moreover have "insert (a, m) L - {(p, n)} = insert (a, m) (L - {(p, n)})" using ap by auto
  ultimately show ?thesis
    using s1(1,2) s' copy by (intro exI [of _ a] exI [of _ m] exI [of _ s']) (auto simp: krealloc_def)
qed

theorem krealloc_keeps_contents_witness:
  "\<exists>s a b s'. kmalloc 4 example_heap = Inr (a, s) \<and> krealloc a 100 s = Inr (b, s') \<and> kmem s' b = kmem s a"
proof -
  have "heap_live 4 example_heap {}"
    using example_heap_inv unfolding heap_live_def
    by (intro exI [of _ example_heap_frames] exI [of _ "[]"])
      (auto simp: example_heap_frames_def example_heap_def unat_KERNEL_HEAP_S simp del: upt_rec_numeral)
  from kheap.alloc_ok [OF this, of 4] obtain a n s where
    s: "kmalloc 4 example_heap = Inr (a, s)" "4 \<le> n" "heap_live 2 s {(a, n)}"
    by (auto simp: heap_need_def)
  from krealloc_keeps_contents [OF s(3), of a n 100] obtain b s' where
    "krealloc a 100 s = Inr (b, s')" "\<forall>i < min (unat n) 100. kmem s' (b + of_nat i) = kmem s (a + of_nat i)"
    by (auto simp: heap_need_def)
  moreover have "0 < min (unat n) 100" using s(2) by (simp add: word_le_nat_alt)
  ultimately have "kmem s' (b + of_nat 0) = kmem s (a + of_nat 0)" by blast
  with s(1) \<open>krealloc a 100 s = Inr (b, s')\<close> show ?thesis by auto
qed

end
