(* ===== verification/Pipe.thy ===== *)
theory Pipe
  imports Prelude
begin

text \<open>
  The ring buffer of \<^verbatim>\<open>kernel/fs/pipe.c\<close>. A call holds the pipe's lock except while
  it waits in \<^verbatim>\<open>schedule()\<close>, so its code is a sequence of atomic sections: \<open>Returned\<close> is
  a section that ends the call, \<open>Waiting\<close> one that ends in \<^verbatim>\<open>schedule()\<close>, with the
  local variables the call resumes with. The buffer is a list of \<^verbatim>\<open>size\<close> bytes, positions
  are 64-bit counters. \<open>contents\<close> is the queue of bytes a pipe holds.
\<close>

record pipe_data =
  pbuffer :: "u8 list"
  psize :: u64
  preaders :: u64
  pwriters :: u64
  read_pos :: u64
  write_pos :: u64
  preader :: addr
  pwriter :: addr

datatype 'a atomic = Returned 'a | Waiting 'a

text \<open>\<^verbatim>\<open>memcpy\<close> out of and into the ring buffer; the other side is a byte list.\<close>

definition copy_out :: "u8 list \<Rightarrow> u64 \<Rightarrow> u64 \<Rightarrow> u8 list res" where
  "copy_out b pos n = (if unat pos + unat n \<le> length b then Inr (take (unat n) (drop (unat pos) b)) else Inl OutOfBounds)"

definition copy_in :: "u8 list \<Rightarrow> u64 \<Rightarrow> u8 list \<Rightarrow> u64 \<Rightarrow> u64 \<Rightarrow> u8 list res" where
  "copy_in b pos src off n =
     (if unat pos + unat n \<le> length b \<and> unat off + unat n \<le> length src then
        Inr (take (unat pos) b @ take (unat n) (drop (unat off) src) @ drop (unat pos + unat n) b)
      else Inl OutOfBounds)"

definition pipe_read :: "u64 \<Rightarrow> pipe_data \<Rightarrow> (u8 list \<times> u64 \<times> pipe_data) atomic res" where
  "pipe_read nbyte d =
     (if read_pos d \<ge> write_pos d then Inr (Waiting ([], 0, d))
      else
        let bytes = write_pos d - read_pos d;
            bytes = (if bytes > nbyte then nbyte else bytes);
            buf_pos = read_pos d mod psize d;
            n = psize d - buf_pos;
            n = (if n > bytes then bytes else n)
        in bindR (copy_out (pbuffer d) buf_pos n) (\<lambda>buf1.
           bindR (if bytes - n \<noteq> 0 then copy_out (pbuffer d) 0 (bytes - n) else Inr []) (\<lambda>buf2.
             Inr (Returned (buf1 @ buf2, bytes, d\<lparr>read_pos := read_pos d + bytes\<rparr>)))))"

text \<open>
  The loop of \<^verbatim>\<open>pipe_write\<close> on its locals \<^verbatim>\<open>nbyte\<close> and \<^verbatim>\<open>written\<close>. A
  round that does not wait writes at least one byte, so a section always ends.
\<close>

lemma pipe_round_pos:
  fixes sz w r nbyte :: u64
  assumes "nbyte \<noteq> 0" "\<not> r + sz \<le> w"
  shows "unat (nbyte - (if sz - (w - r) > nbyte then nbyte else sz - (w - r))) < unat nbyte"
proof -
  have "sz - (w - r) \<noteq> 0"
  proof
    assume "sz - (w - r) = 0"
    then have "r + sz = w" by simp
    with assms(2) show False by simp
  qed
  then show ?thesis using assms(1)
    by (auto simp: not_less unat_gt_0 intro!: unat_diff_less) (simp add: word_greater_zero_iff)
qed

function pipe_write_loop :: "u8 list \<Rightarrow> u64 \<Rightarrow> u64 \<Rightarrow> pipe_data \<Rightarrow> (u64 \<times> u64 \<times> pipe_data) atomic res" where
  "pipe_write_loop buf nbyte written d =
     (if nbyte = 0 then Inr (Returned (nbyte, written, d))
      else if write_pos d \<ge> read_pos d + psize d then Inr (Waiting (nbyte, written, d))
      else
        let bytes = psize d - (write_pos d - read_pos d);
            bytes = (if bytes > nbyte then nbyte else bytes);
            buf_pos = write_pos d mod psize d;
            n = psize d - buf_pos;
            n = (if n > bytes then bytes else n)
        in bindR (copy_in (pbuffer d) buf_pos buf written n) (\<lambda>b.
           bindR (if bytes - n \<noteq> 0 then copy_in b 0 buf (written + n) (bytes - n) else Inr b) (\<lambda>b.
             pipe_write_loop buf (nbyte - bytes) (written + bytes)
               (d\<lparr>pbuffer := b, write_pos := write_pos d + bytes\<rparr>))))"
  by pat_completeness auto
termination
  by (relation "measure (\<lambda>(_, nbyte, _, _). unat nbyte)") (auto simp only: in_measure prod.case wf_measure intro: pipe_round_pos)

definition pipe_write :: "u8 list \<Rightarrow> u64 \<Rightarrow> pipe_data \<Rightarrow> (u64 \<times> u64 \<times> pipe_data) atomic res" where
  "pipe_write buf nbyte d = pipe_write_loop buf nbyte 0 d"

declare pipe_write_loop.simps [simp del]

section \<open>The queue of bytes in a pipe\<close>

definition pipe_inv :: "pipe_data \<Rightarrow> bool" where
  "pipe_inv d \<longleftrightarrow> length (pbuffer d) = unat (psize d) \<and> 0 < psize d
     \<and> unat (read_pos d) \<le> unat (write_pos d) \<and> unat (write_pos d) \<le> unat (read_pos d) + unat (psize d)"

definition contents :: "pipe_data \<Rightarrow> u8 list" where
  "contents d = map (\<lambda>i. pbuffer d ! (i mod unat (psize d))) [unat (read_pos d)..<unat (write_pos d)]"

lemma length_contents [simp]: "length (contents d) = unat (write_pos d) - unat (read_pos d)"
  by (simp add: contents_def)

text \<open>A run of at most \<open>N\<close> positions in a ring of \<open>N\<close> slots is one or two stretches of the buffer.\<close>

lemma ring_run:
  assumes "length b = N" "k \<le> N" "0 < N"
  shows "map (\<lambda>i. b ! (i mod N)) [r..<r + k]
    = take (min k (N - r mod N)) (drop (r mod N) b) @ take (k - (N - r mod N)) b"
proof (rule nth_equalityI)
  show "length (map (\<lambda>i. b ! (i mod N)) [r..<r + k])
      = length (take (min k (N - r mod N)) (drop (r mod N) b) @ take (k - (N - r mod N)) b)"
    using assms mod_less_divisor [OF assms(3), of r] by (simp add: min_def) linarith
  fix i
  assume "i < length (map (\<lambda>i. b ! (i mod N)) [r..<r + k])"
  then have i: "i < k" by simp
  have rN: "r mod N < N" using assms(3) by simp
  show "map (\<lambda>i. b ! (i mod N)) [r..<r + k] ! i
      = (take (min k (N - r mod N)) (drop (r mod N) b) @ take (k - (N - r mod N)) b) ! i"
  proof (cases "i < N - r mod N")
    case True
    then have "(r mod N + i) mod N = r mod N + i" by simp
    then have "(r + i) mod N = r mod N + i" by (simp only: mod_add_left_eq)
    then show ?thesis using True i assms(1) rN by (simp add: nth_append)
  next
    case False
    then have j: "r mod N + i = N + (i - (N - r mod N))" "i - (N - r mod N) < N" using rN i assms(2) by linarith+
    have "(r + i) mod N = (r mod N + i) mod N" by (simp only: mod_add_left_eq)
    also have "\<dots> = i - (N - r mod N)" unfolding j(1) using j(2) by (simp only: mod_add_self1 mod_less)
    finally have "(r + i) mod N = i - (N - r mod N)" .
    then show ?thesis using False i assms(1) rN by (simp add: nth_append min_def)
  qed
qed

lemma unat_mod64: "unat (a mod b :: addr) = unat a mod unat b"
  by (rule unat_mod)

text \<open>The counts computed by a call that moves \<open>k\<close> bytes at position \<open>r\<close>.\<close>

lemma ring_counts:
  fixes pos sz bytes :: u64
  assumes "0 < sz" "bytes \<le> sz"
  defines "n \<equiv> (if sz - pos mod sz > bytes then bytes else sz - pos mod sz)"
  shows "unat n = min (unat bytes) (unat sz - unat pos mod unat sz)"
    "unat (bytes - n) = unat bytes - (unat sz - unat pos mod unat sz)" "n \<le> bytes"
proof -
  have p: "unat (pos mod sz) = unat pos mod unat sz" "unat pos mod unat sz < unat sz"
    using assms(1) by (auto simp: unat_mod64 word_less_nat_alt)
  have s: "unat (sz - pos mod sz) = unat sz - unat pos mod unat sz"
    using p by (subst unat_sub) (auto simp: word_le_nat_alt)
  show n: "unat n = min (unat bytes) (unat sz - unat pos mod unat sz)"
    using s by (auto simp: n_def word_less_nat_alt min_def)
  show le: "n \<le> bytes" using n by (simp add: word_le_nat_alt)
  show "unat (bytes - n) = unat bytes - (unat sz - unat pos mod unat sz)"
    using n le by (simp add: unat_sub min_def)
qed

lemma pipe_read_empty: "pipe_inv d \<Longrightarrow> contents d = [] \<Longrightarrow> pipe_read n d = Inr (Waiting ([], 0, d))"
  by (auto simp: pipe_read_def pipe_inv_def contents_def word_le_nat_alt)

lemma pipe_read_refines:
  assumes inv: "pipe_inv d" and ne: "contents d \<noteq> []"
  shows "\<exists>d'. pipe_read nbyte d = Inr (Returned (take (unat nbyte) (contents d), of_nat (min (unat nbyte) (length (contents d))), d'))
    \<and> pipe_inv d' \<and> contents d' = drop (unat nbyte) (contents d) \<and> write_pos d' = write_pos d
    \<and> psize d' = psize d"
proof -
  let ?r = "unat (read_pos d)" and ?w = "unat (write_pos d)" and ?N = "unat (psize d)"
  define bytes where "bytes = (if write_pos d - read_pos d > nbyte then nbyte else write_pos d - read_pos d)"
  define n where "n = (if psize d - read_pos d mod psize d > bytes then bytes else psize d - read_pos d mod psize d)"
  have i: "length (pbuffer d) = ?N" "0 < psize d" "?r \<le> ?w" "?w \<le> ?r + ?N" "?r < ?w"
    using inv ne by (auto simp: pipe_inv_def contents_def)
  have diff: "unat (write_pos d - read_pos d) = ?w - ?r" using i(3) by (simp add: unat_sub word_le_nat_alt)
  then have b: "unat bytes = min (unat nbyte) (?w - ?r)" by (auto simp: bytes_def word_less_nat_alt min_def)
  define k where "k = min (unat nbyte) (?w - ?r)"
  have kN: "k \<le> ?N" "?r + k \<le> ?w" using i by (auto simp: k_def)
  have bN: "bytes \<le> psize d" using b kN by (simp add: word_le_nat_alt k_def)
  note rc = ring_counts [OF i(2) bN, of "read_pos d", folded n_def]
  have rm: "?r mod ?N < ?N" using i(2) by (simp add: word_less_nat_alt)
  have eq: "pipe_read nbyte d = bindR (copy_out (pbuffer d) (read_pos d mod psize d) n) (\<lambda>buf1.
      bindR (if bytes - n \<noteq> 0 then copy_out (pbuffer d) 0 (bytes - n) else Inr []) (\<lambda>buf2.
        Inr (Returned (buf1 @ buf2, bytes, d\<lparr>read_pos := read_pos d + bytes\<rparr>))))"
    unfolding pipe_read_def Let_def bytes_def [symmetric] n_def [symmetric] using i(5) by (simp add: word_le_nat_alt)
  have "copy_out (pbuffer d) (read_pos d mod psize d) n = Inr (take (min k (?N - ?r mod ?N)) (drop (?r mod ?N) (pbuffer d)))"
  proof -
    have "?r mod ?N + min k (?N - ?r mod ?N) \<le> ?N" using rm unfolding min_def by (auto split: if_splits)
    then show ?thesis using rc(1) b i(1) by (simp add: copy_out_def unat_mod64 k_def)
  qed
  moreover have "(if bytes - n \<noteq> 0 then copy_out (pbuffer d) 0 (bytes - n) else Inr []) = Inr (take (k - (?N - ?r mod ?N)) (pbuffer d))"
  proof (cases "bytes - n = 0")
    case True
    then have "k - (?N - ?r mod ?N) = 0" using rc(2) b by (metis k_def unat_0)
    with True show ?thesis by simp
  next
    case False
    have "unat (bytes - n) = k - (?N - ?r mod ?N)" "k - (?N - ?r mod ?N) \<le> ?N"
      using rc(2) b kN(1) unfolding k_def by linarith+
    then show ?thesis using False i(1) by (simp add: copy_out_def)
  qed
  ultimately have "pipe_read nbyte d = Inr (Returned (map (\<lambda>j. pbuffer d ! (j mod ?N)) [?r..<?r + k], bytes, d\<lparr>read_pos := read_pos d + bytes\<rparr>))"
    using i(1) kN(1) ring_run [of "pbuffer d" ?N k ?r] rm unfolding eq by (simp only: bindR.simps)
  moreover have "map (\<lambda>j. pbuffer d ! (j mod ?N)) [?r..<?r + k] = take (unat nbyte) (contents d)"
    using kN(2) by (auto simp: contents_def take_map k_def min_def)
  moreover have "bytes = of_nat (min (unat nbyte) (length (contents d)))"
  proof -
    have "bytes = of_nat (unat bytes)" by simp
    then show ?thesis using b by simp
  qed
  moreover have u: "unat (read_pos d + bytes) = ?r + k"
    using b kN(2) unat_less64 [of "write_pos d"] by (subst unat_add_eq) (auto simp: k_def)
  moreover have "pipe_inv (d\<lparr>read_pos := read_pos d + bytes\<rparr>)"
    using inv u kN i by (auto simp: pipe_inv_def)
  moreover have "contents (d\<lparr>read_pos := read_pos d + bytes\<rparr>) = drop (unat nbyte) (contents d)"
    using u by (auto simp: contents_def drop_map k_def min_def)
  ultimately show ?thesis by auto
qed

lemma blit_nth:
  assumes "p + length xs \<le> length b" "j < length b"
  shows "(take p b @ xs @ drop (p + length xs) b) ! j = (if p \<le> j \<and> j < p + length xs then xs ! (j - p) else b ! j)"
  using assms by (auto simp: nth_append min_def)

definition ring_put :: "nat \<Rightarrow> nat \<Rightarrow> u8 list \<Rightarrow> u8 list \<Rightarrow> u8 list" where
  "ring_put N p xs b =
     (let n = min (length xs) (N - p); b1 = take p b @ take n xs @ drop (p + n) b
      in drop n xs @ drop (length xs - n) b1)"

lemma ring_put_nth:
  assumes "length b = N" "p < N" "length xs \<le> N" "j < N"
  shows "ring_put N p xs b ! j = (if p \<le> j \<and> j < p + length xs then xs ! (j - p)
    else if j + N < p + length xs then xs ! (j + N - p) else b ! j)" "length (ring_put N p xs b) = N"
proof -
  let ?n = "min (length xs) (N - p)" and ?k = "length xs"
  let ?b1 = "take p b @ take ?n xs @ drop (p + ?n) b"
  have l1: "length ?b1 = N" using assms by (auto simp: min_def)
  have n: "p + ?n \<le> N" "length (take ?n xs) = ?n" using assms(2) by (auto simp: min_def)
  have b1: "?b1 ! j = (if p \<le> j \<and> j < p + ?n then take ?n xs ! (j - p) else b ! j)"
    using blit_nth [of p "take ?n xs" b j] n assms by simp
  have d: "length (drop ?n xs) = ?k - ?n" "?k - ?n \<le> p" using assms by (auto simp: min_def)
  have "ring_put N p xs b ! j = (if j < ?k - ?n then drop ?n xs ! j else ?b1 ! j)"
  proof -
    have le: "0 + length (drop ?n xs) \<le> length ?b1" "j < length ?b1" unfolding d(1) l1 using d(2) assms(2,4) by linarith+
    from blit_nth [OF le] show ?thesis
      unfolding ring_put_def Let_def d(1) by (simp only: take_0 append_Nil add_0 le0 simp_thms diff_zero)
  qed
  also have "\<dots> = (if p \<le> j \<and> j < p + ?k then xs ! (j - p) else if j + N < p + ?k then xs ! (j + N - p) else b ! j)"
  proof (cases "?k \<le> N - p")
    case True
    then have n: "?n = ?k" by simp
    have "\<not> j + N < p + ?k" using True assms(2,4) by linarith
    then show ?thesis unfolding b1 unfolding n by simp
  next
    case False
    then have n: "?n = N - p" by simp
    have c: "?k - (N - p) = p + ?k - N" "j < p + ?k - N \<longleftrightarrow> j + N < p + ?k" "j + N < p + ?k \<Longrightarrow> j < p"
      "p + (N - p) = N" "p \<le> j \<Longrightarrow> j - p < N - p" "N - p + j = j + N - p" "p \<le> j \<Longrightarrow> j < p + ?k"
      using assms(2,3,4) False by linarith+
    show ?thesis
    proof (cases "j < p + ?k - N")
      case True
      then have "\<not> p \<le> j" "j + N < p + ?k" using c(2,3) by auto
      with True False show ?thesis unfolding b1 unfolding n c(1) by (simp add: c(6))
    next
      case j: False
      then have "\<not> j + N < p + ?k" using c(2) by simp
      with j show ?thesis unfolding b1 unfolding n c(1,4) using assms(4) c(5,7) by simp
    qed
  qed
  finally show "ring_put N p xs b ! j = (if p \<le> j \<and> j < p + ?k then xs ! (j - p)
    else if j + N < p + ?k then xs ! (j + N - p) else b ! j)" .
  show "length (ring_put N p xs b) = N"
  proof -
    have "length (drop (?k - ?n) ?b1) = N - (?k - ?n)" unfolding length_drop l1 ..
    then have "length (drop ?n xs @ drop (?k - ?n) ?b1) = ?k - ?n + (N - (?k - ?n))" by (simp only: length_append d(1))
    also have "\<dots> = N" using d(2) assms(2) by linarith
    finally show ?thesis unfolding ring_put_def Let_def .
  qed
qed

lemma ring_put_mod:
  assumes "length b = N" "0 < N" "length xs \<le> N"
  shows "t < length xs \<Longrightarrow> ring_put N (w mod N) xs b ! ((w + t) mod N) = xs ! t"
    and "i < w \<Longrightarrow> w + length xs \<le> i + N \<Longrightarrow> ring_put N (w mod N) xs b ! (i mod N) = b ! (i mod N)"
proof -
  let ?p = "w mod N"
  have p: "?p < N" using assms(2) by simp
  show "ring_put N ?p xs b ! ((w + t) mod N) = xs ! t" if t: "t < length xs"
  proof -
    have m: "(w + t) mod N = (?p + t) mod N" by (simp only: mod_add_left_eq)
    show ?thesis
    proof (cases "?p + t < N")
      case True
      then show ?thesis using ring_put_nth(1) [OF assms(1) p assms(3)] t m by simp
    next
      case False
      then obtain j where j: "?p + t = N + j" by (metis le_iff_add not_less)
      have jN: "j < N" using j p t assms(3) by linarith
      have "(w + t) mod N = j" unfolding m j using jN by (simp only: mod_add_self1 mod_less)
      moreover have "j + N - ?p = t" "\<not> ?p \<le> j \<or> \<not> j < ?p + length xs \<or> j - ?p = t" "j + N < ?p + length xs" "j < ?p"
        using j p t assms(3) by linarith+
      ultimately show ?thesis using ring_put_nth(1) [OF assms(1) p assms(3) jN] by simp
    qed
  qed
  show "ring_put N ?p xs b ! (i mod N) = b ! (i mod N)" if i: "i < w" "w + length xs \<le> i + N"
  proof -
    have jN: "i mod N < N" using assms(2) by simp
    have no: "(w + t) mod N \<noteq> i mod N" if t: "t < length xs" for t
    proof
      assume "(w + t) mod N = i mod N"
      then have "N dvd w + t - i" using i(1) by (metis mod_eq_dvd_iff_nat less_imp_le trans_le_add1)
      moreover have "0 < w + t - i" "w + t - i < N" using i t by linarith+
      ultimately show False by (meson nat_dvd_not_less)
    qed
    have "\<not> (?p \<le> i mod N \<and> i mod N < ?p + length xs)"
    proof
      assume a: "?p \<le> i mod N \<and> i mod N < ?p + length xs"
      let ?t = "i mod N - ?p"
      have "?t < length xs" "?p + ?t = i mod N" using a by linarith+
      then have "?t < length xs" "(w + ?t) mod N = i mod N" by (metis mod_add_left_eq mod_mod_trivial)+
      then show False using no by blast
    qed
    moreover have "\<not> i mod N + N < ?p + length xs"
    proof
      assume a: "i mod N + N < ?p + length xs"
      let ?t = "i mod N + N - ?p"
      have "?t < length xs" "?p + ?t = i mod N + N" using a p by linarith+
      then have "?t < length xs" "(w + ?t) mod N = i mod N" by (metis mod_add_left_eq mod_add_self2 mod_mod_trivial)+
      then show False using no by blast
    qed
    ultimately show ?thesis using ring_put_nth(1) [OF assms(1) p assms(3) jN] by metis
  qed
qed

lemma pipe_write_done: "pipe_write_loop buf 0 written d = Inr (Returned (0, written, d))"
  by (simp add: pipe_write_loop.simps)

lemma pipe_write_full:
  "pipe_inv d \<Longrightarrow> length (contents d) = unat (psize d) \<Longrightarrow> unat (read_pos d) + unat (psize d) < 2 ^ 64 \<Longrightarrow> nbyte \<noteq> 0 \<Longrightarrow>
   pipe_write_loop buf nbyte written d = Inr (Waiting (nbyte, written, d))"
  by (subst pipe_write_loop.simps) (auto simp: pipe_inv_def word_le_nat_alt unat_add_eq)

lemma copy_in_ring:
  assumes "length b = N" "p < N" "k \<le> N" "unat (n::u64) = min k (N - p)" "unat (m::u64) = k - (N - p)"
    and "unat pos = p" "unat written + k \<le> length buf" "length buf < 2 ^ 64"
  shows "bindR (copy_in b pos buf written n) (\<lambda>b. bindR (if m \<noteq> 0 then copy_in b 0 buf (written + n) m else Inr b) f)
    = f (ring_put N p (take k (drop (unat written) buf)) b)"
proof -
  let ?xs = "take k (drop (unat written) buf)"
  have lx: "length ?xs = k" using assms(7) by simp
  have n: "unat n \<le> k" "p + unat n \<le> N" using assms(2,4) by auto
  have t1: "take (unat n) (drop (unat written) buf) = take (unat n) ?xs" using n(1) by (simp add: min_absorb1)
  let ?b1 = "take p b @ take (unat n) ?xs @ drop (p + unat n) b"
  have c1: "copy_in b pos buf written n = Inr ?b1"
    using n assms(1,6,7) t1 by (simp add: copy_in_def)
  have l1: "length ?b1 = N" using n assms(1,2) lx by simp
  have R: "ring_put N p ?xs b = drop (unat n) ?xs @ drop (k - unat n) ?b1"
    unfolding ring_put_def Let_def lx assms(4) [symmetric] ..
  have mk: "unat m = k - unat n" using assms(4,5) by (simp add: min_def)
  show ?thesis
  proof (cases "m = 0")
    case True
    then have "k = unat n" using mk n(1) by simp
    then show ?thesis unfolding R c1 using True lx by simp
  next
    case False
    have w: "unat (written + n) = unat written + unat n" using n(1) assms(7,8) by (intro unat_add_eq) simp
    have "take (unat m) (drop (unat written + unat n) buf) = drop (unat n) ?xs"
      unfolding mk by (simp add: drop_take add.commute)
    then have "copy_in ?b1 0 buf (written + n) m = Inr (drop (unat n) ?xs @ drop (k - unat n) ?b1)"
      unfolding copy_in_def using w mk n assms(7) l1 assms(3) by simp
    then show ?thesis unfolding R c1 using False by simp
  qed
qed

lemma contents_put:
  assumes inv: "pipe_inv d" and xs: "length (contents d) + length xs \<le> unat (psize d)"
    and room: "unat (write_pos d) + length xs < 2 ^ 64"
  defines "d' \<equiv> d\<lparr>pbuffer := ring_put (unat (psize d)) (unat (write_pos d) mod unat (psize d)) xs (pbuffer d),
      write_pos := write_pos d + of_nat (length xs)\<rparr>"
  shows "pipe_inv d'" and "contents d' = contents d @ xs"
proof -
  let ?r = "unat (read_pos d)" and ?w = "unat (write_pos d)" and ?N = "unat (psize d)" and ?k = "length xs"
  have i: "length (pbuffer d) = ?N" "0 < ?N" "?r \<le> ?w" "?w \<le> ?r + ?N" "?k \<le> ?N" "?w + ?k \<le> ?r + ?N"
    using inv xs by (auto simp: pipe_inv_def word_less_nat_alt)
  have w': "unat (write_pos d + of_nat ?k) = ?w + ?k"
    using room by (subst unat_add_eq) (auto simp: unat_of_nat_eq)
  have p: "?w mod ?N < ?N" using i(2) by simp
  note put = ring_put_mod [OF i(1,2,5), of _ ?w] 
  show "pipe_inv d'"
    using inv i w' ring_put_nth(2) [OF i(1) p i(5) p] by (simp add: pipe_inv_def d'_def)
  have "map (\<lambda>i. pbuffer d' ! (i mod ?N)) [?r..<?w] = contents d"
    unfolding contents_def d'_def using put(2) i(6) by (intro map_cong) auto
  moreover have "map (\<lambda>i. pbuffer d' ! (i mod ?N)) [?w..<?w + ?k] = xs"
    by (rule nth_equalityI) (simp_all add: d'_def put(1))
  moreover have "[?r..<?w + ?k] = [?r..<?w] @ [?w..<?w + ?k]" using i(3) by (rule upt_add_eq_append)
  moreover have "contents d' = map (\<lambda>i. pbuffer d' ! (i mod ?N)) [?r..<?w + ?k]"
    by (simp add: contents_def d'_def w')
  ultimately show "contents d' = contents d @ xs" by (simp only: map_append)
qed

lemma pipe_write_round:
  assumes inv: "pipe_inv d" and nb: "nbyte \<noteq> 0" and sp: "length (contents d) < unat (psize d)"
    and len: "unat written + unat nbyte \<le> length buf" "length buf < 2 ^ 64"
    and room: "unat (write_pos d) + unat (psize d) < 2 ^ 64"
  defines "k \<equiv> min (unat nbyte) (unat (psize d) - length (contents d))"
  shows "\<exists>d'. pipe_write_loop buf nbyte written d = pipe_write_loop buf (nbyte - of_nat k) (written + of_nat k) d'
    \<and> pipe_inv d' \<and> contents d' = contents d @ take k (drop (unat written) buf) \<and> psize d' = psize d \<and> read_pos d' = read_pos d"
proof -
  let ?r = "unat (read_pos d)" and ?w = "unat (write_pos d)" and ?N = "unat (psize d)"
  define bytes where "bytes = (if psize d - (write_pos d - read_pos d) > nbyte then nbyte else psize d - (write_pos d - read_pos d))"
  define n where "n = (if psize d - write_pos d mod psize d > bytes then bytes else psize d - write_pos d mod psize d)"
  have i: "length (pbuffer d) = ?N" "0 < ?N" "?r \<le> ?w" "?w \<le> ?r + ?N" "0 < psize d"
    using inv by (auto simp: pipe_inv_def word_less_nat_alt)
  have sp': "?w - ?r < ?N" using sp by simp
  have d1: "unat (write_pos d - read_pos d) = ?w - ?r" using i(3) by (simp add: unat_sub word_le_nat_alt)
  have "write_pos d - read_pos d \<le> psize d" using d1 sp' by (simp add: word_le_nat_alt)
  then have d2: "unat (psize d - (write_pos d - read_pos d)) = ?N - (?w - ?r)" using d1 by (simp add: unat_sub)
  have b: "unat bytes = k" unfolding bytes_def k_def using d2 by (auto simp: word_less_nat_alt min_def)
  have bk: "bytes = of_nat k" using b by (metis ucast_id unsigned_of_nat of_nat_unat)
  have k: "k \<le> ?N" "k \<le> unat nbyte" "?w - ?r + k \<le> ?N" using sp' by (auto simp: k_def)
  have bN: "bytes \<le> psize d" using b k(1) by (simp add: word_le_nat_alt)
  note rc = ring_counts [OF i(5) bN, of "write_pos d", folded n_def, unfolded b]
  have nw: "\<not> read_pos d + psize d \<le> write_pos d" using sp' room i(3) by (simp add: word_le_nat_alt unat_add_eq)
  have p: "?w mod ?N < ?N" using i(2) by simp
  let ?xs = "take k (drop (unat written) buf)"
  have lx: "length ?xs = k" using len(1) k(2) by simp
  have "pipe_write_loop buf nbyte written d
     = bindR (copy_in (pbuffer d) (write_pos d mod psize d) buf written n) (\<lambda>b.
           bindR (if bytes - n \<noteq> 0 then copy_in b 0 buf (written + n) (bytes - n) else Inr b) (\<lambda>b.
             pipe_write_loop buf (nbyte - bytes) (written + bytes)
               (d\<lparr>pbuffer := b, write_pos := write_pos d + bytes\<rparr>)))"
    by (subst pipe_write_loop.simps) (simp only: nb nw if_False Let_def bytes_def [symmetric] n_def [symmetric])
  also have "\<dots> = pipe_write_loop buf (nbyte - of_nat k) (written + of_nat k)
       (d\<lparr>pbuffer := ring_put ?N (?w mod ?N) ?xs (pbuffer d), write_pos := write_pos d + of_nat k\<rparr>)"
    unfolding bk [symmetric] using len k(2)
    by (intro copy_in_ring [OF i(1) p k(1) rc(1,2)]) (auto simp: unat_mod64)
  finally have e: "pipe_write_loop buf nbyte written d = \<dots>" .
  have "length (contents d) + length ?xs \<le> ?N" "?w + length ?xs < 2 ^ 64" using lx k room by auto
  from contents_put [OF inv this] e show ?thesis unfolding lx
    by (intro exI [of _ "d\<lparr>pbuffer := ring_put ?N (?w mod ?N) ?xs (pbuffer d), write_pos := write_pos d + of_nat k\<rparr>"]) simp
qed

text \<open>A section of \<^verbatim>\<open>pipe_write\<close>: it appends as many bytes as fit and waits only when some are left.\<close>

lemma pipe_write_refines:
  assumes inv: "pipe_inv d" and len: "unat written + unat nbyte \<le> length buf" "length buf < 2 ^ 64"
    and room: "unat (write_pos d) + unat (psize d) < 2 ^ 64"
  defines "k \<equiv> min (unat nbyte) (unat (psize d) - length (contents d))"
  shows "\<exists>d'. pipe_write_loop buf nbyte written d
      = Inr ((if k = unat nbyte then Returned else Waiting) (nbyte - of_nat k, written + of_nat k, d'))
    \<and> pipe_inv d' \<and> contents d' = contents d @ take k (drop (unat written) buf)
    \<and> psize d' = psize d \<and> read_pos d' = read_pos d"
proof -
  have room': "unat (read_pos d) + unat (psize d) < 2 ^ 64" using room inv by (simp add: pipe_inv_def)
  have cap: "length (contents d) \<le> unat (psize d)" using inv by (auto simp: pipe_inv_def)
  consider (nothing) "nbyte = 0" | (full) "nbyte \<noteq> 0" "length (contents d) = unat (psize d)"
    | (some) "nbyte \<noteq> 0" "length (contents d) < unat (psize d)" using cap by linarith
  then show ?thesis
  proof cases
    case nothing
    then show ?thesis using inv by (intro exI [of _ d]) (simp add: k_def pipe_write_done)
  next
    case full
    then have "unat nbyte \<noteq> 0" by (simp add: unat_eq_0)
    with full show ?thesis using inv room' by (intro exI [of _ d]) (simp add: k_def pipe_write_full del: length_contents)
  next
    case some
    obtain d' where d': "pipe_write_loop buf nbyte written d = pipe_write_loop buf (nbyte - of_nat k) (written + of_nat k) d'"
      "pipe_inv d'" "contents d' = contents d @ take k (drop (unat written) buf)" "psize d' = psize d" "read_pos d' = read_pos d"
      using pipe_write_round [OF inv some len room] unfolding k_def by blast
    have kn: "k \<le> unat nbyte" by (simp add: k_def)
    show ?thesis
    proof (cases "k = unat nbyte")
      case True
      then have "nbyte - of_nat k = 0" by simp
      then show ?thesis using d' True by (intro exI [of _ d']) (simp add: pipe_write_done)
    next
      case False
      have "length (contents d') = unat (psize d')"
        using False cap kn len(1) unfolding d'(3,4) by (simp add: k_def min_def del: length_contents split: if_splits) linarith
      moreover have "nbyte - of_nat k \<noteq> 0"
      proof
        assume "nbyte - of_nat k = 0"
        then have "nbyte = of_nat k" by simp
        then have "unat nbyte = k" using kn unat_less64 [of nbyte] by (simp add: unat_of_nat_eq)
        with False show False by simp
      qed
      ultimately show ?thesis using d' False room' pipe_write_full [OF d'(2)] by (intro exI [of _ d']) simp
    qed
  qed
qed

section \<open>Readers and writers interleaved\<close>

text \<open>
  One atomic section of some call: a writer, at its first or at a later section, has put bytes
  into the pipe, or a reader has taken bytes out. Sections that only wait change nothing.
\<close>

datatype pipe_ev = Wrote "u8 list" | Got "u8 list"

inductive pipe_step :: "pipe_data \<Rightarrow> pipe_ev \<Rightarrow> pipe_data \<Rightarrow> bool" where
  put: "pipe_write_loop buf nbyte written d = Inr r \<Longrightarrow>
    r = Returned (nbyte', written', d') \<or> r = Waiting (nbyte', written', d') \<Longrightarrow>
    unat written + unat nbyte \<le> length buf \<Longrightarrow> length buf < 2 ^ 64 \<Longrightarrow>
    pipe_step d (Wrote (take (unat (nbyte - nbyte')) (drop (unat written) buf))) d'"
| get: "pipe_read nbyte d = Inr (Returned (out, count, d')) \<Longrightarrow> pipe_step d (Got out) d'"

inductive pipe_run :: "pipe_data \<Rightarrow> pipe_ev list \<Rightarrow> pipe_data \<Rightarrow> bool" where
  start: "pipe_run d [] d"
| step: "pipe_run d evs d1 \<Longrightarrow> pipe_step d1 ev d2 \<Longrightarrow> pipe_run d (evs @ [ev]) d2"

fun written_of :: "pipe_ev list \<Rightarrow> u8 list" where
  "written_of [] = []"
| "written_of (Wrote xs # evs) = xs @ written_of evs"
| "written_of (Got xs # evs) = written_of evs"

fun got_of :: "pipe_ev list \<Rightarrow> u8 list" where
  "got_of [] = []"
| "got_of (Wrote xs # evs) = got_of evs"
| "got_of (Got xs # evs) = xs @ got_of evs"

lemma written_of_append [simp]: "written_of (a @ b) = written_of a @ written_of b"
  by (induction a rule: written_of.induct) auto

lemma got_of_append [simp]: "got_of (a @ b) = got_of a @ got_of b"
  by (induction a rule: got_of.induct) auto

lemma pipe_step_queue:
  assumes "pipe_step d ev d'" "pipe_inv d" "unat (write_pos d) + unat (psize d) < 2 ^ 64"
  shows "pipe_inv d' \<and> psize d' = psize d
    \<and> (case ev of Wrote xs \<Rightarrow> contents d' = contents d @ xs \<and> read_pos d' = read_pos d
                | Got xs \<Rightarrow> contents d = xs @ contents d' \<and> write_pos d' = write_pos d)"
  using assms(1)
proof cases
  case (put buf nbyte written r nbyte' written')
  let ?k = "min (unat nbyte) (unat (psize d) - length (contents d))"
  obtain d1 where d1: "pipe_write_loop buf nbyte written d
      = Inr ((if ?k = unat nbyte then Returned else Waiting) (nbyte - of_nat ?k, written + of_nat ?k, d1))"
    "pipe_inv d1" "contents d1 = contents d @ take ?k (drop (unat written) buf)" "psize d1 = psize d" "read_pos d1 = read_pos d"
    using pipe_write_refines [OF assms(2) put(4,5) assms(3)] by blast
  have "nbyte' = nbyte - of_nat ?k" "d' = d1" using d1(1) put(2,3) by (auto split: if_splits)
  moreover have "unat (of_nat ?k :: u64) = ?k" using unat_less64 [of nbyte] by (intro unat_of_nat_eq) auto
  ultimately show ?thesis using d1 put(1) by simp
next
  case (get nbyte out count)
  have "contents d \<noteq> []" using get(2) pipe_read_empty [OF assms(2)] by auto
  from pipe_read_refines [OF assms(2) this, of nbyte] get show ?thesis by auto
qed

section \<open>Properties\<close>

text \<open>A pipe as \<^verbatim>\<open>pipe()\<close> creates it: zeroed, with a buffer of \<^verbatim>\<open>PIPE_SIZE\<close> bytes.\<close>

definition pipe_new :: "addr \<Rightarrow> addr \<Rightarrow> pipe_data" where
  "pipe_new r w = \<lparr>pbuffer = replicate 0x1000 0, psize = 0x1000, preaders = 0, pwriters = 0,
     read_pos = 0, write_pos = 0, preader = r, pwriter = w\<rparr>"

lemma pipe_new_fields [simp]:
  "psize (pipe_new r w) = 0x1000" "write_pos (pipe_new r w) = 0" "read_pos (pipe_new r w) = 0"
  by (simp_all add: pipe_new_def)

lemma pipe_new_inv: "pipe_inv (pipe_new r w)" "contents (pipe_new r w) = []"
  by (simp_all add: pipe_inv_def pipe_new_def contents_def)

lemma pipe_run_queue:
  assumes "pipe_run d evs d'" "d = pipe_new r w" "length (written_of evs) + 0x1000 < 2 ^ 64"
  shows "pipe_inv d' \<and> psize d' = 0x1000 \<and> written_of evs = got_of evs @ contents d'
    \<and> unat (write_pos d') = length (written_of evs)"
  using assms
proof (induction rule: pipe_run.induct)
  case (start d)
  then show ?case by (simp add: pipe_new_inv)
next
  case (step d evs d1 ev d2)
  have l: "length (written_of evs) + 0x1000 < 2 ^ 64" using step.prems(2) by simp
  have IH: "pipe_inv d1" "psize d1 = 0x1000" "written_of evs = got_of evs @ contents d1" "unat (write_pos d1) = length (written_of evs)"
    using step.IH [OF step.prems(1) l] by blast+
  have w: "unat (write_pos d1) + unat (psize d1) < 2 ^ 64" unfolding IH(2,4) using l by simp
  have q: "pipe_inv d2 \<and> psize d2 = psize d1 \<and> (case ev of Wrote xs \<Rightarrow> contents d2 = contents d1 @ xs \<and> read_pos d2 = read_pos d1
                | Got xs \<Rightarrow> contents d1 = xs @ contents d2 \<and> write_pos d2 = write_pos d1)"
    by (rule pipe_step_queue [OF step.hyps(2) IH(1) w])
  show ?case
  proof (cases ev)
    case (Wrote xs)
    then have c: "contents d2 = contents d1 @ xs" "read_pos d2 = read_pos d1" using q by auto
    have "unat (read_pos d1) \<le> unat (write_pos d1)" "unat (read_pos d2) \<le> unat (write_pos d2)"
      using IH(1) q by (auto simp: pipe_inv_def)
    then have "unat (write_pos d2) = unat (write_pos d1) + length xs"
      using arg_cong [OF c(1), of length] c(2) by simp
    then show ?thesis using q IH c Wrote by (simp del: length_contents)
  next
    case (Got xs)
    then show ?thesis using q IH by (simp del: length_contents)
  qed
qed

text \<open>
  C2. A pipe is a FIFO queue for any interleaving of readers and writers: after any sequence of
  sections of \<^verbatim>\<open>pipe_read\<close> and \<^verbatim>\<open>pipe_write\<close> calls on a new pipe (fewer than
  \<open>2 ^ 64 - 4096\<close> bytes in all), the bytes written so far are the bytes read so far followed
  by the at most 4096 bytes in the pipe, in order, with none lost or duplicated.
\<close>

theorem pipe_fifo:
  assumes "pipe_run (pipe_new r w) evs d" and "length (written_of evs) + 0x1000 < 2 ^ 64"
  shows "written_of evs = got_of evs @ contents d \<and> length (contents d) \<le> 0x1000 \<and> pipe_inv d"
proof -
  have q: "pipe_inv d" "psize d = 0x1000" "written_of evs = got_of evs @ contents d"
    using pipe_run_queue [OF assms(1) refl assms(2)] by blast+
  moreover have "length (contents d) \<le> 0x1000" using q(1,2) by (auto simp: pipe_inv_def)
  ultimately show ?thesis by blast
qed

theorem pipe_fifo_witness:
  "\<exists>d. pipe_run (pipe_new 1 2) [Wrote [7, 8], Got [7]] d \<and> [7, 8] = [7] @ contents d"
proof -
  have "unat (write_pos (pipe_new 1 2)) + unat (psize (pipe_new 1 2)) < 2 ^ 64" by simp
  from pipe_write_refines [OF pipe_new_inv(1) _ _ this, of 0 2 "[7, 8]"]
  obtain d1 where d1: "pipe_write_loop [7, 8] 2 0 (pipe_new 1 2) = Inr (Returned (0, 2, d1))"
    "pipe_inv d1" "contents d1 = [7, 8]"
    by (auto simp: pipe_new_inv)
  from pipe_step.put [OF d1(1) disjI1 [OF refl]] have s1: "pipe_step (pipe_new 1 2) (Wrote [7, 8]) d1" by simp
  from pipe_read_refines [OF d1(2), of 1] d1(3) obtain d2 where "pipe_read 1 d1 = Inr (Returned ([7], 1, d2))" by auto
  from pipe_step.get [OF this] have s2: "pipe_step d1 (Got [7]) d2" .
  have run: "pipe_run (pipe_new 1 2) [Wrote [7, 8], Got [7]] d2"
    using pipe_run.step [OF pipe_run.step [OF pipe_run.start s1] s2] by simp
  from pipe_fifo [OF run] show ?thesis using run by auto
qed

text \<open>
  C10. Calls wait only when they must: on a pipe that satisfies the invariant,
  \<^verbatim>\<open>pipe_read\<close> of a positive count returns at once if and only if the pipe is not empty,
  and then with at least one byte; a section of \<^verbatim>\<open>pipe_write\<close> returns if and only if all
  its bytes fit. So a reader and a writer never both wait.
\<close>

theorem pipe_waits_iff:
  assumes "pipe_inv d" and "unat (write_pos d) + unat (psize d) < 2 ^ 64" and "nbyte \<noteq> 0"
    and "length buf < 2 ^ 64" and "buf \<noteq> []"
  shows "((\<exists>out n d'. pipe_read nbyte d = Inr (Returned (out, n, d')) \<and> out \<noteq> []) \<longleftrightarrow> contents d \<noteq> [])
    \<and> ((\<exists>n d'. pipe_write buf (of_nat (length buf)) d = Inr (Returned (0, n, d')))
         \<longleftrightarrow> length (contents d) + length buf \<le> unat (psize d))
    \<and> (contents d = [] \<longrightarrow> (\<exists>r d'. pipe_write buf (of_nat (length buf)) d = Inr r
         \<and> (\<exists>nb n. r = Returned (nb, n, d') \<or> r = Waiting (nb, n, d')) \<and> contents d' \<noteq> []))"
proof -
  let ?n = "of_nat (length buf) :: u64" and ?N = "unat (psize d)"
  have n: "unat ?n = length buf" using assms(4) by (simp add: unat_of_nat_eq)
  define k where "k = min (unat ?n) (?N - length (contents d))"
  obtain d1 where d1: "pipe_write buf ?n d = Inr ((if k = unat ?n then Returned else Waiting) (?n - of_nat k, of_nat k, d1))"
    "contents d1 = contents d @ take k buf"
    using pipe_write_refines [OF assms(1) _ assms(4,2), of 0 ?n] n unfolding pipe_write_def k_def by auto
  have cap: "length (contents d) \<le> ?N" "0 < ?N" using assms(1) by (auto simp: pipe_inv_def word_less_nat_alt)
  have k: "k = unat ?n \<longleftrightarrow> length (contents d) + length buf \<le> ?N" using cap n unfolding k_def by auto
  have rd: "(\<exists>out n d'. pipe_read nbyte d = Inr (Returned (out, n, d')) \<and> out \<noteq> []) \<longleftrightarrow> contents d \<noteq> []"
    using pipe_read_empty [OF assms(1)] pipe_read_refines [OF assms(1), of nbyte] assms(3)
    by (cases "contents d = []") (auto simp: unat_eq_0)
  have wr: "(\<exists>n d'. pipe_write buf ?n d = Inr (Returned (0, n, d'))) \<longleftrightarrow> length (contents d) + length buf \<le> ?N"
    using d1(1) k n by (cases "k = unat ?n") auto
  have "contents d = [] \<Longrightarrow> contents d1 \<noteq> []" using d1(2) cap(2) assms(5) n by (auto simp: k_def)
  then show ?thesis using rd wr d1(1) by (cases "k = unat ?n") auto
qed

theorem pipe_waits_iff_witness:
  "\<not> (\<exists>out n d'. pipe_read 5 (pipe_new 1 2) = Inr (Returned (out, n, d')) \<and> out \<noteq> [])
   \<and> (\<exists>n d'. pipe_write [1, 2, 3] 3 (pipe_new 1 2) = Inr (Returned (0, n, d')))"
  using pipe_waits_iff [OF pipe_new_inv(1) [of 1 2], of 5 "[1, 2, 3]"] pipe_new_inv(2) [of 1 2]
  by simp

end
