(* ===== verification/Vfs.thy ===== *)
theory Vfs
  imports Pipe Vmm
begin

text \<open>
  The file layer: \<^verbatim>\<open>kernel/fs/vfs.c\<close> and the parts of \<^verbatim>\<open>kernel/fs/pipe.c\<close> that
  create, open and close pipe files. Kernel objects are kept in stores indexed by address; the
  heap (theory \<open>Heap\<close>) is seen here as the sequence \<open>avail\<close> of addresses that it hands out
  next, and a freed object is \<open>None\<close>, so that a use after free or a second free is an error
  value. Driver tables are arguments: a driver's entry that the C structure leaves null is
  \<open>None\<close>. Strings are byte lists without their terminator; \<open>str_diff\<close> is what
  \<^verbatim>\<open>strcmp\<close> returns on them (theory \<open>KString\<close>).
\<close>

section \<open>Object stores\<close>

definition obj :: "(addr \<rightharpoonup> 'a) \<Rightarrow> addr \<Rightarrow> 'a res" where
  "obj m a = (if a = 0 then Inl NullDeref else case m a of None \<Rightarrow> Inl UseAfterFree | Some x \<Rightarrow> Inr x)"

lemma obj_Inr_iff [res_simps]: "obj m a = Inr x \<longleftrightarrow> a \<noteq> 0 \<and> m a = Some x"
  by (auto simp: obj_def split: option.splits)

lemma obj_simps [simp]:
  "obj m 0 = Inl NullDeref" "a \<noteq> 0 \<Longrightarrow> m a = Some x \<Longrightarrow> obj m a = Inr x"
  "a \<noteq> 0 \<Longrightarrow> m a = None \<Longrightarrow> obj m a = Inl UseAfterFree"
  by (auto simp: obj_def)

text \<open>The \<^verbatim>\<open>driver\<close> pointer: null or the address of one of the kernel's driver tables.\<close>

datatype drvref = NullDrv | PipeReader | PipeWriter | DebugFs | AtaFs

record file_t =
  refs :: u64
  ftype :: u64
  driver :: drvref
  fdata :: addr

record mountpoint =
  mp_root :: addr
  path_len :: u64
  mp_path :: "u8 list"

record fsys = vmm +
  files :: "addr \<rightharpoonup> file_t"
  pipes :: "addr \<rightharpoonup> pipe_data"
  mountpoints :: "mountpoint list"
  avail :: "addr list"

text \<open>\<^verbatim>\<open>kcalloc\<close> of an object, and \<^verbatim>\<open>kfree\<close> with its range check and a live object.\<close>

definition new_addr :: "'z fsys_scheme \<Rightarrow> (addr \<times> 'z fsys_scheme) res" where
  "new_addr s = (case avail s of [] \<Rightarrow> Inl NullDeref | a # as \<Rightarrow> Inr (a, s\<lparr>avail := as\<rparr>))"

definition free_obj :: "(addr \<rightharpoonup> 'a) \<Rightarrow> addr \<Rightarrow> (addr \<rightharpoonup> 'a) res" where
  "free_obj m a = (if a < KERNEL_HEAP_S then Inl (Panic ''kfree'')
     else case m a of None \<Rightarrow> Inl UseAfterFree | Some _ \<Rightarrow> Inr (m(a := None)))"

section \<open>vfs.c: files\<close>

definition fs_get :: "addr \<Rightarrow> 'z fsys_scheme \<Rightarrow> (addr \<times> 'z fsys_scheme) res" where
  "fs_get file s =
     bindR (if file = 0 then
              bindR (new_addr s) (\<lambda>(a, s). Inr (a, s\<lparr>files := (files s)(a \<mapsto> \<lparr>refs = 0, ftype = 0, driver = NullDrv, fdata = 0\<rparr>)\<rparr>))
            else Inr (file, s)) (\<lambda>(file, s).
     bindR (obj (files s) file) (\<lambda>f.
       Inr (file, s\<lparr>files := (files s)(file \<mapsto> f\<lparr>refs := refs f + 1\<rparr>)\<rparr>)))"

definition fs_put :: "addr \<Rightarrow> 'z fsys_scheme \<Rightarrow> (addr \<times> 'z fsys_scheme) res" where
  "fs_put file s =
     (if file = 0 then Inr (file, s)
      else
        bindR (obj (files s) file) (\<lambda>f.
          let f = f\<lparr>refs := refs f - 1\<rparr>; s = s\<lparr>files := (files s)(file \<mapsto> f)\<rparr> in
          if refs f = 0 then bindR (free_obj (files s) file) (\<lambda>m. Inr (0, s\<lparr>files := m\<rparr>))
          else Inr (file, s)))"

record 's fs_driver =
  open_fn :: "(addr \<Rightarrow> u64 \<Rightarrow> 's \<Rightarrow> (int \<times> 's) res) option"
  close_fn :: "(addr \<Rightarrow> 's \<Rightarrow> (int \<times> 's) res) option"
  read_fn :: "(addr \<Rightarrow> u64 \<Rightarrow> u64 \<Rightarrow> 's \<Rightarrow> (u8 list \<times> u64 \<times> 's) atomic res) option"
  write_fn :: "(addr \<Rightarrow> u8 list \<Rightarrow> u64 \<Rightarrow> u64 \<Rightarrow> 's \<Rightarrow> (u64 \<times> u64 \<times> 's) atomic res) option"
  readdir_fn :: "(addr \<Rightarrow> u64 \<Rightarrow> 's \<Rightarrow> ((u8 list \<times> addr) option \<times> 's) res) option"

text \<open>
  The test \<^verbatim>\<open>file && file->driver && file->driver->fn\<close>: the entry of the driver, if there
  is one. \<open>drv\<close> gives the contents of the driver tables.
\<close>

definition driver_entry :: "(drvref \<Rightarrow> 'd) \<Rightarrow> ('d \<Rightarrow> 'f option) \<Rightarrow> addr \<Rightarrow> 'z fsys_scheme \<Rightarrow> 'f option res" where
  "driver_entry drv sel file s =
     (if file = 0 then Inr None
      else bindR (obj (files s) file) (\<lambda>f. if driver f = NullDrv then Inr None else Inr (sel (drv (driver f)))))"

definition fs_open :: "(drvref \<Rightarrow> 'z fsys_scheme fs_driver) \<Rightarrow> addr \<Rightarrow> u64 \<Rightarrow> 'z fsys_scheme \<Rightarrow> (int \<times> 'z fsys_scheme) res" where
  "fs_open drv file flags s =
     bindR (driver_entry drv open_fn file s) (\<lambda>e. case e of Some fn \<Rightarrow> fn file flags s | None \<Rightarrow> Inr (-1, s))"

definition fs_close :: "(drvref \<Rightarrow> 'z fsys_scheme fs_driver) \<Rightarrow> addr \<Rightarrow> 'z fsys_scheme \<Rightarrow> (int \<times> 'z fsys_scheme) res" where
  "fs_close drv file s =
     bindR (driver_entry drv close_fn file s) (\<lambda>e. case e of Some fn \<Rightarrow> fn file s | None \<Rightarrow> Inr (-1, s))"

definition fs_read :: "(drvref \<Rightarrow> 'z fsys_scheme fs_driver) \<Rightarrow> addr \<Rightarrow> u64 \<Rightarrow> u64 \<Rightarrow> 'z fsys_scheme
    \<Rightarrow> (u8 list \<times> u64 \<times> 'z fsys_scheme) atomic res" where
  "fs_read drv file nbyte offset s =
     bindR (driver_entry drv read_fn file s)
       (\<lambda>e. case e of Some fn \<Rightarrow> fn file nbyte offset s | None \<Rightarrow> Inr (Returned ([], -1, s)))"

definition fs_write :: "(drvref \<Rightarrow> 'z fsys_scheme fs_driver) \<Rightarrow> addr \<Rightarrow> u8 list \<Rightarrow> u64 \<Rightarrow> u64 \<Rightarrow> 'z fsys_scheme
    \<Rightarrow> (u64 \<times> u64 \<times> 'z fsys_scheme) atomic res" where
  "fs_write drv file buffer nbyte offset s =
     bindR (driver_entry drv write_fn file s)
       (\<lambda>e. case e of Some fn \<Rightarrow> fn file buffer nbyte offset s | None \<Rightarrow> Inr (Returned (0, -1, s)))"

definition fs_readdir :: "(drvref \<Rightarrow> 'z fsys_scheme fs_driver) \<Rightarrow> addr \<Rightarrow> u64 \<Rightarrow> 'z fsys_scheme
    \<Rightarrow> ((u8 list \<times> addr) option \<times> 'z fsys_scheme) res" where
  "fs_readdir drv dir offset s =
     bindR (driver_entry drv readdir_fn dir s) (\<lambda>e. case e of Some fn \<Rightarrow> fn dir offset s | None \<Rightarrow> Inr (None, s))"

text \<open>The search ends only if the driver's directory does.\<close>

partial_function (option) finddir_loop ::
  "(drvref \<Rightarrow> 'z fsys_scheme fs_driver) \<Rightarrow> addr \<Rightarrow> u8 list \<Rightarrow> u64 \<Rightarrow> 'z fsys_scheme \<Rightarrow> (addr \<times> 'z fsys_scheme) res option" where
  "finddir_loop drv dir name offset s =
     (case fs_readdir drv dir offset s of
        Inl e \<Rightarrow> Some (Inl e)
      | Inr (None, s) \<Rightarrow> Some (Inr (0, s))
      | Inr (Some (n, file), s) \<Rightarrow>
          if str_diff n name \<noteq> 0 then
            (case fs_put file s of Inl e \<Rightarrow> Some (Inl e) | Inr r \<Rightarrow> finddir_loop drv dir name (offset + 1) (snd r))
          else Some (Inr (file, s)))"

definition fs_finddir :: "(drvref \<Rightarrow> 'z fsys_scheme fs_driver) \<Rightarrow> addr \<Rightarrow> u8 list \<Rightarrow> 'z fsys_scheme \<Rightarrow> (addr \<times> 'z fsys_scheme) res" where
  "fs_finddir drv dir name s = (case finddir_loop drv dir name 0 s of None \<Rightarrow> Inl Diverges | Some r \<Rightarrow> r)"

section \<open>vfs.c: mount points and paths\<close>

definition fs_mount :: "addr \<Rightarrow> u8 list \<Rightarrow> 'z fsys_scheme \<Rightarrow> 'z fsys_scheme res" where
  "fs_mount root path s =
     bindR (new_addr s) (\<lambda>(mp, s).
     bindR (fs_get root s) (\<lambda>(r, s).
       Inr (s\<lparr>mountpoints := mountpoints s @ [\<lparr>mp_root = r, path_len = of_nat (length path), mp_path = path\<rparr>]\<rparr>)))"

fun umount_list :: "u8 list \<Rightarrow> mountpoint list \<Rightarrow> (mountpoint \<times> mountpoint list) option" where
  "umount_list path [] = None"
| "umount_list path (mp # mps) =
     (if str_diff (mp_path mp) path = 0 then Some (mp, mps)
      else map_option (\<lambda>(m, ms). (m, mp # ms)) (umount_list path mps))"

definition fs_umount :: "u8 list \<Rightarrow> 'z fsys_scheme \<Rightarrow> 'z fsys_scheme res" where
  "fs_umount path s =
     (case umount_list path (mountpoints s) of
        None \<Rightarrow> Inr s
      | Some (mp, mps) \<Rightarrow> bindR (fs_put (mp_root mp) (s\<lparr>mountpoints := mps\<rparr>)) (\<lambda>(_, s). Inr s))"

text \<open>\<^verbatim>\<open>strncmp\<close> on strings, the bytes it compares being the first \<open>n + 1\<close> (\<open>strncmp_str_diff\<close>).\<close>

definition strncmp_chars :: "u8 list \<Rightarrow> u8 list \<Rightarrow> u64 \<Rightarrow> int" where
  "strncmp_chars xs ys n = str_diff (take (Suc (unat n)) xs) (take (Suc (unat n)) ys)"

fun closest_mp_loop :: "u8 list \<Rightarrow> mountpoint list \<Rightarrow> u64 \<Rightarrow> mountpoint option \<Rightarrow> mountpoint option" where
  "closest_mp_loop path [] best_len best = best"
| "closest_mp_loop path (mp # mps) best_len best =
     (let len = path_len mp in
      if strncmp_chars (mp_path mp) path (len - 1) = 0 \<and> len > best_len
      then closest_mp_loop path mps len (Some mp)
      else closest_mp_loop path mps best_len best)"

definition fs_closest_mp :: "u8 list \<Rightarrow> 'z fsys_scheme \<Rightarrow> mountpoint option" where
  "fs_closest_mp path s = closest_mp_loop path (mountpoints s) 0 None"

abbreviation (input) slash :: u8 where "slash \<equiv> 0x2F"

definition pathtok :: "u8 list \<Rightarrow> (u8 list \<times> u8 list) option" where
  "pathtok p =
     (if p = [] then None
      else
        let p = dropWhile (\<lambda>c. c = slash) p;
            ret = takeWhile (\<lambda>c. c \<noteq> slash) p;
            p = dropWhile (\<lambda>c. c \<noteq> slash) p
        in Some (ret, if p \<noteq> [] then tl p else p))"

lemma pathtok_shorter:
  assumes "pathtok p = Some (tok, p')"
  shows "length p' < length p"
proof -
  define q where "q = dropWhile (\<lambda>c. c = slash) p"
  define r where "r = dropWhile (\<lambda>c. c \<noteq> slash) q"
  have "p \<noteq> []" using assms by (cases "p = []") (simp_all add: pathtok_def)
  moreover have "p' = (if r \<noteq> [] then tl r else r)"
    using assms \<open>p \<noteq> []\<close> unfolding pathtok_def Let_def q_def [symmetric] r_def [symmetric] by simp
  moreover have "length r \<le> length q" "length q \<le> length p"
    unfolding r_def q_def by (rule length_dropWhile_le)+
  ultimately show ?thesis by (cases r) simp_all
qed

function namef_loop :: "(drvref \<Rightarrow> 'z fsys_scheme fs_driver) \<Rightarrow> addr \<Rightarrow> u8 list \<Rightarrow> 'z fsys_scheme \<Rightarrow> (addr \<times> 'z fsys_scheme) res" where
  "namef_loop drv dir p s =
     (case pathtok p of
        None \<Rightarrow> Inr (dir, s)
      | Some (name, p') \<Rightarrow>
          bindR (fs_finddir drv dir name s) (\<lambda>(next, s).
            if next = 0 then Inr (0, s)
            else bindR (fs_put dir s) (\<lambda>(_, s). namef_loop drv next p' s)))"
  by pat_completeness auto
termination
  by (relation "measure (\<lambda>(_, _, p, _). length p)") (auto dest: pathtok_shorter)

declare namef_loop.simps [simp del]

text \<open>\<^verbatim>\<open>fs_namef\<close> works on a copy of the path that it frees at the end.\<close>

definition fs_namef :: "(drvref \<Rightarrow> 'z fsys_scheme fs_driver) \<Rightarrow> u8 list \<Rightarrow> 'z fsys_scheme \<Rightarrow> (addr \<times> 'z fsys_scheme) res" where
  "fs_namef drv path s =
     bindR (new_addr s) (\<lambda>(q, s).
       case fs_closest_mp path s of
         None \<Rightarrow> Inl NullDeref
       | Some mp \<Rightarrow> bindR (fs_get (mp_root mp) s) (\<lambda>(dir, s). namef_loop drv dir (drop (unat (path_len mp)) path) s))"

section \<open>pipe.c: pipe files\<close>

definition pipe_open :: "addr \<Rightarrow> u64 \<Rightarrow> 'z fsys_scheme \<Rightarrow> (int \<times> 'z fsys_scheme) res" where
  "pipe_open file flags s =
     bindR (obj (files s) file) (\<lambda>f. bindR (obj (pipes s) (fdata f)) (\<lambda>d.
       let d = (if file = preader d then d\<lparr>preaders := preaders d + 1\<rparr> else d\<lparr>pwriters := pwriters d + 1\<rparr>)
       in Inr (0, s\<lparr>pipes := (pipes s)(fdata f \<mapsto> d)\<rparr>)))"

definition pipe_close :: "addr \<Rightarrow> 'z fsys_scheme \<Rightarrow> (int \<times> 'z fsys_scheme) res" where
  "pipe_close file s =
     bindR (obj (files s) file) (\<lambda>f. bindR (obj (pipes s) (fdata f)) (\<lambda>d.
       let d = (if file = preader d then d\<lparr>preaders := preaders d - 1\<rparr> else d\<lparr>pwriters := pwriters d - 1\<rparr>);
           s = s\<lparr>pipes := (pipes s)(fdata f \<mapsto> d)\<rparr>
       in if preaders d = 0 \<and> pwriters d = 0 then
            bindR (free_obj (pipes s) (fdata f)) (\<lambda>m. let s = s\<lparr>pipes := m\<rparr> in
            bindR (free_obj (files s) file) (\<lambda>m. Inr (0, s\<lparr>files := m\<rparr>)))
          else Inr (0, s)))"

definition pipe_read_file :: "addr \<Rightarrow> u64 \<Rightarrow> u64 \<Rightarrow> 'z fsys_scheme \<Rightarrow> (u8 list \<times> u64 \<times> 'z fsys_scheme) atomic res" where
  "pipe_read_file file nbyte offset s =
     bindR (obj (files s) file) (\<lambda>f. bindR (obj (pipes s) (fdata f)) (\<lambda>d.
     bindR (pipe_read nbyte d) (\<lambda>r. Inr (map_atomic (\<lambda>(out, n, d). (out, n, s\<lparr>pipes := (pipes s)(fdata f \<mapsto> d)\<rparr>)) r))))"

definition pipe_write_file :: "addr \<Rightarrow> u8 list \<Rightarrow> u64 \<Rightarrow> u64 \<Rightarrow> 'z fsys_scheme \<Rightarrow> (u64 \<times> u64 \<times> 'z fsys_scheme) atomic res" where
  "pipe_write_file file buffer nbyte offset s =
     bindR (obj (files s) file) (\<lambda>f. bindR (obj (pipes s) (fdata f)) (\<lambda>d.
     bindR (pipe_write buffer nbyte d) (\<lambda>r. Inr (map_atomic (\<lambda>(nb, n, d). (nb, n, s\<lparr>pipes := (pipes s)(fdata f \<mapsto> d)\<rparr>)) r))))"

definition pipe_reader :: "'z fsys_scheme fs_driver" where
  "pipe_reader = \<lparr>open_fn = Some pipe_open, close_fn = Some pipe_close, read_fn = Some pipe_read_file,
     write_fn = None, readdir_fn = None\<rparr>"

definition pipe_writer :: "'z fsys_scheme fs_driver" where
  "pipe_writer = \<lparr>open_fn = Some pipe_open, close_fn = Some pipe_close, read_fn = None,
     write_fn = Some pipe_write_file, readdir_fn = None\<rparr>"

definition pipe :: "'z fsys_scheme \<Rightarrow> (addr \<times> addr \<times> 'z fsys_scheme) res" where
  "pipe s =
     bindR (new_addr s) (\<lambda>(r, s). bindR (new_addr s) (\<lambda>(w, s). bindR (new_addr s) (\<lambda>(data, s). bindR (new_addr s) (\<lambda>(buffer, s).
       Inr (r, w, s\<lparr>files := (files s)(r \<mapsto> \<lparr>refs = 0, ftype = 0, driver = PipeReader, fdata = data\<rparr>,
                                      w \<mapsto> \<lparr>refs = 0, ftype = 0, driver = PipeWriter, fdata = data\<rparr>),
                    pipes := (pipes s)(data \<mapsto> pipe_new r w)\<rparr>)))))"

section \<open>Reference counts\<close>

datatype ref_op = Get | Put

fun ref_run :: "addr \<Rightarrow> ref_op list \<Rightarrow> 'z fsys_scheme \<Rightarrow> 'z fsys_scheme res" where
  "ref_run a [] s = Inr s"
| "ref_run a (Get # ops) s = bindR (fs_get a s) (\<lambda>(_, s). ref_run a ops s)"
| "ref_run a (Put # ops) s = bindR (fs_put a s) (\<lambda>(_, s). ref_run a ops s)"

text \<open>The number of references after some operations; \<open>None\<close> if an operation came after the last one was dropped.\<close>

fun ref_count :: "nat \<Rightarrow> ref_op list \<Rightarrow> nat option" where
  "ref_count r [] = Some r"
| "ref_count r (op # ops) =
     (if r = 0 then None else case op of Get \<Rightarrow> ref_count (r + 1) ops | Put \<Rightarrow> ref_count (r - 1) ops)"

lemma fs_get_live:
  assumes "files s a = Some f" "a \<noteq> 0"
  shows "fs_get a s = Inr (a, s\<lparr>files := (files s)(a \<mapsto> f\<lparr>refs := refs f + 1\<rparr>)\<rparr>)"
  using assms by (simp add: fs_get_def)

lemma fs_put_live:
  assumes "files s a = Some f" "KERNEL_HEAP_S \<le> a"
  shows "fs_put a s = Inr (if refs f = 1 then (0, s\<lparr>files := (files s)(a := None)\<rparr>)
    else (a, s\<lparr>files := (files s)(a \<mapsto> f\<lparr>refs := refs f - 1\<rparr>)\<rparr>))"
proof -
  have "a \<noteq> 0" using assms(2) by (auto simp: KERNEL_HEAP_S_def)
  then show ?thesis using assms by (auto simp: fs_put_def free_obj_def Let_def)
qed

lemma ref_run_dead: "files s a = None \<Longrightarrow> a \<noteq> 0 \<Longrightarrow> ref_run a (op # ops) s = Inl UseAfterFree"
  by (cases op) (simp_all add: fs_get_def fs_put_def)

lemma ref_run_count:
  assumes "files s a = Some f" "KERNEL_HEAP_S \<le> a" "unat (refs f) = r" "0 < r" "r + length ops < 2 ^ 64"
  shows "(case ref_count r ops of
      None \<Rightarrow> ref_run a ops s = Inl UseAfterFree
    | Some n \<Rightarrow> \<exists>s'. ref_run a ops s = Inr s' \<and> (\<forall>b. b \<noteq> a \<longrightarrow> files s' b = files s b)
        \<and> files s' a = (if n = 0 then None else Some (f\<lparr>refs := of_nat n\<rparr>)))"
  using assms
proof (induction ops arbitrary: s f r)
  case Nil
  then have "refs f = of_nat r" by (metis of_nat_unat ucast_id)
  with Nil show ?case by simp
next
  case (Cons op ops)
  have a: "a \<noteq> 0" using Cons.prems(2) by (auto simp: KERNEL_HEAP_S_def)
  show ?case
  proof (cases op)
    case Get
    let ?f = "f\<lparr>refs := refs f + 1\<rparr>" and ?s = "s\<lparr>files := (files s)(a \<mapsto> f\<lparr>refs := refs f + 1\<rparr>)\<rparr>"
    have u: "unat (refs ?f) = r + 1" using Cons.prems(3,5) by (simp add: unat_add_eq)
    have "case ref_count (r + 1) ops of
        None \<Rightarrow> ref_run a ops ?s = Inl UseAfterFree
      | Some n \<Rightarrow> \<exists>s'. ref_run a ops ?s = Inr s' \<and> (\<forall>b. b \<noteq> a \<longrightarrow> files s' b = files ?s b)
          \<and> files s' a = (if n = 0 then None else Some (?f\<lparr>refs := of_nat n\<rparr>))"
      using Cons.prems u by (intro Cons.IH) auto
    then show ?thesis using Get Cons.prems(1,4) a by (auto simp: fs_get_live cong: if_cong split: option.splits)
  next
    case Put
    show ?thesis
    proof (cases "r = 1")
      case True
      then have "unat (refs f) = unat (1::u64)" using Cons.prems(3) by simp
      then have r1: "refs f = 1" by (rule unat_inject64)
      let ?s = "s\<lparr>files := (files s)(a := None)\<rparr>"
      have "ref_run a (Put # ops) s = ref_run a ops ?s"
        using fs_put_live [OF Cons.prems(1,2)] r1 by simp
      then show ?thesis using True Put a ref_run_dead [of ?s a] by (cases ops) auto
    next
      case False
      let ?f = "f\<lparr>refs := refs f - 1\<rparr>" and ?s = "s\<lparr>files := (files s)(a \<mapsto> f\<lparr>refs := refs f - 1\<rparr>)\<rparr>"
      have "1 \<le> refs f" using Cons.prems(3,4) by (simp add: word_le_nat_alt)
      then have u: "unat (refs ?f) = r - 1" using Cons.prems(3) by (simp add: unat_sub)
      have r1: "refs f \<noteq> 1" using False Cons.prems(3) by auto
      have "case ref_count (r - 1) ops of
          None \<Rightarrow> ref_run a ops ?s = Inl UseAfterFree
        | Some n \<Rightarrow> \<exists>s'. ref_run a ops ?s = Inr s' \<and> (\<forall>b. b \<noteq> a \<longrightarrow> files s' b = files ?s b)
            \<and> files s' a = (if n = 0 then None else Some (?f\<lparr>refs := of_nat n\<rparr>))"
        using Cons.prems u False by (intro Cons.IH) auto
      then show ?thesis
        using Put Cons.prems(4) fs_put_live [OF Cons.prems(1,2)] r1 by (auto cong: if_cong split: option.splits)
    qed
  qed
qed

section \<open>Mount points\<close>

definition mp_ok :: "mountpoint \<Rightarrow> bool" where
  "mp_ok mp \<longleftrightarrow> unat (path_len mp) = length (mp_path mp) \<and> 0 \<notin> set (mp_path mp)"

definition mounted_on :: "mountpoint \<Rightarrow> u8 list \<Rightarrow> bool" where
  "mounted_on mp path \<longleftrightarrow> mp_path mp \<noteq> [] \<and> take (length (mp_path mp)) path = mp_path mp"

lemma closest_test:
  assumes "mp_ok mp" "0 \<notin> set path" "0 < path_len mp"
  shows "strncmp_chars (mp_path mp) path (path_len mp - 1) = 0 \<longleftrightarrow> mounted_on mp path"
proof -
  have "path_len mp \<noteq> 0" using assms(3) by auto
  then have l: "Suc (unat (path_len mp - 1)) = length (mp_path mp)" "mp_path mp \<noteq> []"
    using assms(1) unat_gt_0 [of "path_len mp"] by (auto simp: mp_ok_def unat_minus_one)
  have z: "0 \<notin> set (take (length (mp_path mp)) path)" "0 \<notin> set (mp_path mp)"
    using assms(1,2) by (auto simp: mp_ok_def dest: in_set_takeD)
  show ?thesis unfolding strncmp_chars_def l(1) mounted_on_def using l(2) str_diff_zero_iff [OF z(2,1)] by auto
qed

lemma closest_mp_loop_spec:
  assumes "\<forall>mp \<in> set mps. mp_ok mp" "0 \<notin> set path"
    and "case best of None \<Rightarrow> best_len = 0 | Some b \<Rightarrow> mounted_on b path \<and> mp_ok b \<and> best_len = path_len b"
  shows "(case closest_mp_loop path mps best_len best of
      None \<Rightarrow> best = None \<and> (\<forall>mp \<in> set mps. \<not> mounted_on mp path)
    | Some b \<Rightarrow> mounted_on b path \<and> mp_ok b \<and> (b \<in> set mps \<or> best = Some b)
        \<and> (\<forall>mp \<in> set mps. mounted_on mp path \<longrightarrow> path_len mp \<le> path_len b) \<and> best_len \<le> path_len b)"
  using assms
proof (induction mps arbitrary: best_len best)
  case Nil
  then show ?case by (cases best) auto
next
  case (Cons mp mps)
  have ok: "mp_ok mp" "\<forall>mp \<in> set mps. mp_ok mp" using Cons.prems(1) by auto
  have pos: "mounted_on mp path \<Longrightarrow> 0 < path_len mp"
    using ok(1) by (auto simp: mounted_on_def mp_ok_def word_less_nat_alt)
  show ?case
  proof (cases "mounted_on mp path \<and> best_len < path_len mp")
    case True
    then have t: "strncmp_chars (mp_path mp) path (path_len mp - 1) = 0 \<and> best_len < path_len mp"
      using closest_test [OF ok(1) Cons.prems(2)] pos by auto
    have "case closest_mp_loop path mps (path_len mp) (Some mp) of
        None \<Rightarrow> Some mp = None \<and> (\<forall>mp \<in> set mps. \<not> mounted_on mp path)
      | Some b \<Rightarrow> mounted_on b path \<and> mp_ok b \<and> (b \<in> set mps \<or> Some mp = Some b)
        \<and> (\<forall>mp \<in> set mps. mounted_on mp path \<longrightarrow> path_len mp \<le> path_len b) \<and> path_len mp \<le> path_len b"
      using True ok Cons.prems(2) by (intro Cons.IH) auto
    then show ?thesis using t by (auto simp: Let_def split: option.splits)
  next
    case False
    then have t: "\<not> (strncmp_chars (mp_path mp) path (path_len mp - 1) = 0 \<and> best_len < path_len mp)"
      using closest_test [OF ok(1) Cons.prems(2)] by (metis bot_nat_0.extremum_strict linorder_not_le word_gt_0 word_zero_le order_le_less_trans)
    have IH: "case closest_mp_loop path mps best_len best of
        None \<Rightarrow> best = None \<and> (\<forall>mp \<in> set mps. \<not> mounted_on mp path)
      | Some b \<Rightarrow> mounted_on b path \<and> mp_ok b \<and> (b \<in> set mps \<or> best = Some b)
        \<and> (\<forall>mp \<in> set mps. mounted_on mp path \<longrightarrow> path_len mp \<le> path_len b) \<and> best_len \<le> path_len b"
      using ok Cons.prems(2,3) by (intro Cons.IH) auto
    have "closest_mp_loop path (mp # mps) best_len best = closest_mp_loop path mps best_len best"
      using t by (auto simp: Let_def)
    moreover have "best = None \<Longrightarrow> \<not> mounted_on mp path" using False pos Cons.prems(3) by auto
    moreover have "mounted_on mp path \<Longrightarrow> path_len mp \<le> best_len" using False by auto
    ultimately show ?thesis using IH by (auto split: option.splits)
  qed
qed

section \<open>Paths\<close>

text \<open>The names that \<^verbatim>\<open>fs_namef\<close> looks up, and the lookup along a list of names.\<close>

function path_tokens :: "u8 list \<Rightarrow> u8 list list" where
  "path_tokens p = (case pathtok p of None \<Rightarrow> [] | Some (tok, p') \<Rightarrow> tok # path_tokens p')"
  by pat_completeness auto
termination
  by (relation "measure length") (auto dest: pathtok_shorter)

declare path_tokens.simps [simp del]

fun path_join :: "u8 list list \<Rightarrow> u8 list" where
  "path_join [] = []"
| "path_join [c] = c"
| "path_join (c # d # cs) = c @ slash # path_join (d # cs)"

fun walk :: "(drvref \<Rightarrow> 'z fsys_scheme fs_driver) \<Rightarrow> addr \<Rightarrow> u8 list list \<Rightarrow> 'z fsys_scheme \<Rightarrow> (addr \<times> 'z fsys_scheme) res" where
  "walk drv dir [] s = Inr (dir, s)"
| "walk drv dir (name # names) s =
     bindR (fs_finddir drv dir name s) (\<lambda>(next, s).
       if next = 0 then Inr (0, s) else bindR (fs_put dir s) (\<lambda>(_, s). walk drv next names s))"

definition name_ok :: "u8 list \<Rightarrow> bool" where
  "name_ok c \<longleftrightarrow> c \<noteq> [] \<and> slash \<notin> set c"

lemma takeWhile_name: "slash \<notin> set c \<Longrightarrow> takeWhile (\<lambda>x. x \<noteq> slash) (c @ slash # r) = c"
  "slash \<notin> set c \<Longrightarrow> dropWhile (\<lambda>x. x \<noteq> slash) (c @ slash # r) = slash # r"
  "slash \<notin> set c \<Longrightarrow> takeWhile (\<lambda>x. x \<noteq> slash) c = c" "slash \<notin> set c \<Longrightarrow> dropWhile (\<lambda>x. x \<noteq> slash) c = []"
  by (induction c) auto

lemma dropWhile_slash: "name_ok c \<Longrightarrow> dropWhile (\<lambda>x. x = slash) (c @ r) = c @ r"
  by (cases c) (auto simp: name_ok_def)

lemma pathtok_name:
  assumes "name_ok c"
  shows "pathtok (c @ slash # r) = Some (c, r)" "pathtok c = Some (c, [])"
    "pathtok (slash # p) = (if p = [] then Some ([], []) else pathtok p)"
proof -
  have c: "c \<noteq> []" "slash \<notin> set c" using assms by (auto simp: name_ok_def)
  show "pathtok (c @ slash # r) = Some (c, r)"
    using c dropWhile_slash [OF assms, of "slash # r"] takeWhile_name(1,2) [OF c(2), of r]
    unfolding pathtok_def Let_def by (simp only:) simp
  show "pathtok c = Some (c, [])"
    using c dropWhile_slash [OF assms, of "[]"] takeWhile_name(3,4) [OF c(2)]
    unfolding pathtok_def Let_def by (simp only: append_Nil2) simp
  show "pathtok (slash # p) = (if p = [] then Some ([], []) else pathtok p)"
    by (simp add: pathtok_def Let_def)
qed

lemma path_tokens_join: "(\<And>c. c \<in> set cs \<Longrightarrow> name_ok c) \<Longrightarrow> path_tokens (path_join cs) = cs"
proof (induction cs rule: path_join.induct)
  case 1
  then show ?case by (simp add: path_tokens.simps pathtok_def)
next
  case (2 c)
  have "path_tokens [] = []" by (simp add: path_tokens.simps pathtok_def)
  then show ?case using pathtok_name(2) [of c] 2 by (subst path_tokens.simps) simp
next
  case (3 c d cs)
  have "path_tokens (path_join (d # cs)) = d # cs" using 3 by auto
  moreover have "pathtok (c @ slash # path_join (d # cs)) = Some (c, path_join (d # cs))"
    using pathtok_name(1) 3 by simp
  ultimately show ?case by (subst path_tokens.simps) simp
qed

lemma path_tokens_slash: "p \<noteq> [] \<Longrightarrow> path_tokens (slash # p) = path_tokens p"
  using pathtok_name(3) [of "[1]" p] by (subst (1 2) path_tokens.simps) (simp add: name_ok_def)

lemma namef_loop_walk: "namef_loop drv dir p s = walk drv dir (path_tokens p) s"
proof (induction p arbitrary: dir s rule: path_tokens.induct)
  case (1 p)
  show ?case
  proof (cases "pathtok p")
    case None
    then show ?thesis by (simp add: namef_loop.simps path_tokens.simps)
  next
    case (Some r)
    obtain tok p' where r: "r = (tok, p')" by (cases r)
    have IH: "namef_loop drv dir' p' s' = walk drv dir' (path_tokens p') s'" for dir' s'
      using 1 [OF Some [unfolded r]] r by simp
    have "path_tokens p = tok # path_tokens p'" using Some r by (subst path_tokens.simps) simp
    moreover have "namef_loop drv dir p s = bindR (fs_finddir drv dir tok s) (\<lambda>(next, s).
        if next = 0 then Inr (0, s) else bindR (fs_put dir s) (\<lambda>(_, s). namef_loop drv next p' s))"
      using Some r by (subst namef_loop.simps) simp
    ultimately show ?thesis by (simp add: IH cong: if_cong)
  qed
qed

lemma namef_loop_walk_fun: "namef_loop drv dir p = walk drv dir (path_tokens p)"
  by (rule ext) (rule namef_loop_walk)

section \<open>Properties\<close>

text \<open>
  C15. Reference counting is exact: after any sequence of \<^verbatim>\<open>fs_get\<close> and
  \<^verbatim>\<open>fs_put\<close> on a file that has \<open>r\<close> references, with fewer than \<open>2 ^ 64\<close> at any time, the
  file exists if and only if the count is not zero, with that count in \<^verbatim>\<open>refs\<close>; no other
  file changes; and the sequence is an access to a freed object if and only if it goes on after the
  count has reached zero.
\<close>

theorem file_refs_exact:
  assumes "files s a = Some f" and "KERNEL_HEAP_S \<le> a" and "unat (refs f) = r" and "0 < r"
    and "r + length ops < 2 ^ 64"
  shows "(case ref_count r ops of
      None \<Rightarrow> ref_run a ops s = Inl UseAfterFree
    | Some n \<Rightarrow> \<exists>s'. ref_run a ops s = Inr s' \<and> (\<forall>b. b \<noteq> a \<longrightarrow> files s' b = files s b)
        \<and> files s' a = (if n = 0 then None else Some (f\<lparr>refs := of_nat n\<rparr>)))"
  by (rule ref_run_count [OF assms])

definition example_fsys :: fsys where
  "example_fsys = \<lparr>kmem = kmem example_vmm, pmm_running = True, pmm_pos = 0, pmm_stack = pmm_stack example_vmm,
     BootP4 = BootP4 example_vmm, cr3 = 0,
     files = [KERNEL_HEAP_S \<mapsto> \<lparr>refs = 1, ftype = 1, driver = NullDrv, fdata = 0\<rparr>], pipes = Map.empty,
     mountpoints = [\<lparr>mp_root = KERNEL_HEAP_S, path_len = 1, mp_path = [slash]\<rparr>,
       \<lparr>mp_root = KERNEL_HEAP_S, path_len = 4, mp_path = [slash, 100, 101, 118]\<rparr>],
     avail = [KERNEL_HEAP_S + 64, KERNEL_HEAP_S + 128, KERNEL_HEAP_S + 192, KERNEL_HEAP_S + 256]\<rparr>"

definition example_drivers :: "drvref \<Rightarrow> fsys fs_driver" where
  "example_drivers r = (if r = PipeReader then pipe_reader else pipe_writer)"

theorem file_refs_exact_witness:
  "\<exists>s'. ref_run KERNEL_HEAP_S [Get, Put, Put] example_fsys = Inr s' \<and> files s' KERNEL_HEAP_S = None"
  using file_refs_exact [of example_fsys KERNEL_HEAP_S _ 1 "[Get, Put, Put]"] by (auto simp: example_fsys_def)

text \<open>
  C16. \<^verbatim>\<open>fs_closest_mp\<close> returns a mount point whose path is a prefix of the given path and
  as long as any such, and the null pointer if and only if there is none. The test
  \<^verbatim>\<open>strncmp(mp->path, path, len-1)\<close> is right because \<^verbatim>\<open>strncmp\<close> compares one byte
  more than its count.
\<close>

theorem fs_closest_mp_longest:
  assumes "\<forall>mp \<in> set (mountpoints s). mp_ok mp" and "0 \<notin> set path"
  shows "(case fs_closest_mp path s of
      None \<Rightarrow> \<forall>mp \<in> set (mountpoints s). \<not> mounted_on mp path
    | Some b \<Rightarrow> b \<in> set (mountpoints s) \<and> mounted_on b path
        \<and> (\<forall>mp \<in> set (mountpoints s). mounted_on mp path \<longrightarrow> path_len mp \<le> path_len b))"
  using closest_mp_loop_spec [OF assms, where best = None and best_len = 0] by (auto simp: fs_closest_mp_def split: option.splits)

theorem fs_closest_mp_longest_witness:
  "\<exists>b. fs_closest_mp [slash, 100, 101, 118, slash, 97] example_fsys = Some b \<and> path_len b = 4"
proof -
  have "\<forall>mp \<in> set (mountpoints example_fsys). mp_ok mp" by (simp add: example_fsys_def mp_ok_def)
  moreover have "\<not> (4::u64) \<le> 1" by (simp add: word_le_nat_alt)
  ultimately show ?thesis
    using fs_closest_mp_longest [of example_fsys "[slash, 100, 101, 118, slash, 97]"]
    by (auto simp: example_fsys_def mounted_on_def split: option.splits)
qed



text \<open>
  C18. Closing the last end of a pipe frees its file, and \<^verbatim>\<open>sys_close\<close> then drops a
  reference of the freed file: \<^verbatim>\<open>fs_close\<close> succeeds, and the \<^verbatim>\<open>fs_put\<close> that
  follows accesses a freed object.
\<close>

theorem pipe_last_close_use_after_free:
  assumes "files s a = Some f" and "fdata f = d" and "pipes s d = Some p" and "driver f = PipeReader \<or> driver f = PipeWriter"
    and "KERNEL_HEAP_S \<le> a" and "KERNEL_HEAP_S \<le> d"
    and "if a = preader p then preaders p = 1 \<and> pwriters p = 0 else preaders p = 0 \<and> pwriters p = 1"
    and "drv PipeReader = pipe_reader" and "drv PipeWriter = pipe_writer"
  shows "\<exists>s'. fs_close drv a s = Inr (0, s') \<and> files s' a = None \<and> fs_put a s' = Inl UseAfterFree"
proof -
  have n: "a \<noteq> 0" "d \<noteq> 0" using assms(5,6) by (auto simp: KERNEL_HEAP_S_def)
  have "driver_entry drv close_fn a s = Inr (Some pipe_close)"
    using assms(1,4,8,9) n by (auto simp: driver_entry_def pipe_reader_def pipe_writer_def)
  moreover have "\<exists>s'. pipe_close a s = Inr (0, s') \<and> files s' a = None"
    using assms n by (auto simp: pipe_close_def Let_def free_obj_def split: if_splits)
  ultimately show ?thesis using n by (auto simp: fs_close_def fs_put_def)
qed

theorem pipe_last_close_use_after_free_witness:
  "\<exists>s r w s'. pipe example_fsys = Inr (r, w, s) \<and> bindR (pipe_open w 0 s) (\<lambda>(_, s). fs_close example_drivers w s) = Inr (0, s')
     \<and> fs_put w s' = Inl UseAfterFree"
proof -
  let ?r = "KERNEL_HEAP_S + 64" and ?w = "KERNEL_HEAP_S + 128" and ?d = "KERNEL_HEAP_S + 192"
  define s where "s = example_fsys\<lparr>avail := [], files := (files example_fsys)(
        ?r \<mapsto> \<lparr>refs = 0, ftype = 0, driver = PipeReader, fdata = ?d\<rparr>, ?w \<mapsto> \<lparr>refs = 0, ftype = 0, driver = PipeWriter, fdata = ?d\<rparr>),
      pipes := [?d \<mapsto> pipe_new ?r ?w]\<rparr>"
  have p: "pipe example_fsys = Inr (?r, ?w, s)" by (simp add: pipe_def new_addr_def s_def example_fsys_def)
  define s1 where "s1 = s\<lparr>pipes := [?d \<mapsto> (pipe_new ?r ?w)\<lparr>pwriters := 1\<rparr>]\<rparr>"
  have ne: "?w \<noteq> ?r" "?w \<noteq> 0" "?d \<noteq> 0" by (simp_all add: KERNEL_HEAP_S_def)
  have o: "pipe_open ?w 0 s = Inr (0, s1)"
    using ne by (simp add: pipe_open_def s_def s1_def pipe_new_def Let_def)
  have "\<exists>s'. fs_close example_drivers ?w s1 = Inr (0, s') \<and> files s' ?w = None \<and> fs_put ?w s' = Inl UseAfterFree"
    by (rule pipe_last_close_use_after_free [where f = "\<lparr>refs = 0, ftype = 0, driver = PipeWriter, fdata = ?d\<rparr>" and d = ?d
          and p = "(pipe_new ?r ?w)\<lparr>pwriters := 1\<rparr>"])
      (use ne in \<open>simp_all add: s_def s1_def pipe_new_def example_drivers_def, simp_all add: KERNEL_HEAP_S_def\<close>)
  then show ?thesis using p o by auto
qed

end
