(* ===== verification/Console.thy ===== *)
theory Console
  imports KString
begin

text \<open>
  The kernel's console: \<^verbatim>\<open>kernel/drivers/vga.c\<close>, \<^verbatim>\<open>kernel/drivers/serial.c\<close>
  and the formatted output of \<^verbatim>\<open>kernel/boot/debug.c\<close>. The machine's I/O ports are not
  code of the kernel: a \<open>device\<close> gives the effect of \<^verbatim>\<open>inb\<close>, \<^verbatim>\<open>outb\<close>,
  \<^verbatim>\<open>inw\<close> and \<^verbatim>\<open>outw\<close> on a hardware state of any type, and is an argument of
  every routine that does port I/O. Format strings and string arguments are in byte memory; the
  screen buffer and the video memory are arrays of 16-bit cells.
\<close>

section \<open>Ports\<close>

record 'd device =
  inb :: "u16 \<Rightarrow> 'd \<Rightarrow> u8 \<times> 'd"
  outb :: "u16 \<Rightarrow> u8 \<Rightarrow> 'd \<Rightarrow> 'd"
  inw :: "u16 \<Rightarrow> 'd \<Rightarrow> u16 \<times> 'd"
  outw :: "u16 \<Rightarrow> u16 \<Rightarrow> 'd \<Rightarrow> 'd"

section \<open>vga.c\<close>

abbreviation (input) VGA_WIDTH :: nat where "VGA_WIDTH \<equiv> 80"
abbreviation (input) VGA_LINES :: nat where "VGA_LINES \<equiv> 25"
abbreviation (input) VGA_SIZE :: nat where "VGA_SIZE \<equiv> 2000"

record 'd console =
  hw :: 'd
  vbuffer :: "u16 list"
  vidmem :: "u16 list"
  cursor_x :: u32
  cursor_y :: u32
  style :: u8

definition sync :: "'d console \<Rightarrow> 'd console" where
  "sync s = s\<lparr>vidmem := vbuffer s\<rparr>"

definition setcursor :: "'d device \<Rightarrow> 'd console \<Rightarrow> 'd console" where
  "setcursor dev s =
     (let position = (ucast (cursor_y s * 80 + cursor_x s) :: u16) in
      s\<lparr>hw := (outb dev 0x3D5 (ucast (drop_bit 8 position AND 0xF)) \<circ> outb dev 0x3D4 0x0E
             \<circ> outb dev 0x3D5 (ucast (position AND 0xFF)) \<circ> outb dev 0x3D4 0x0F) (hw s)\<rparr>)"

text \<open>
  The overlapping \<^verbatim>\<open>memmove\<close> copies towards lower addresses, where it is right
  (\<open>memmove_correct_iff\<close>).
\<close>

function vga_scroll :: "'d console \<Rightarrow> 'd console" where
  "vga_scroll s =
     (if 25 \<le> cursor_y s then
        let s = s\<lparr>vbuffer := drop VGA_WIDTH (vbuffer s) @ drop (VGA_SIZE - VGA_WIDTH) (vbuffer s)\<rparr>;
            s = s\<lparr>vbuffer := take (VGA_SIZE - VGA_WIDTH) (vbuffer s) @ replicate VGA_WIDTH 0\<rparr>
        in vga_scroll (s\<lparr>cursor_y := cursor_y s - 1\<rparr>)
      else s)"
  by pat_completeness auto
termination
  by (relation "measure (\<lambda>s. unat (cursor_y s))") (auto simp: word_le_nat_alt unat_sub_if')

declare vga_scroll.simps [simp del]

definition vga_wrap :: "'d console \<Rightarrow> 'd console" where
  "vga_wrap s = (if 80 \<le> cursor_x s then s\<lparr>cursor_x := 0, cursor_y := cursor_y s + 1\<rparr> else s)"

text \<open>\<^verbatim>\<open>char\<close> is signed: it is sign-extended before the style byte is added.\<close>

definition vga_cell :: "u8 \<Rightarrow> u8 \<Rightarrow> u16" where
  "vga_cell c sty = scast c OR push_bit 8 (ucast sty)"

definition vga_printch :: "'d device \<Rightarrow> u8 \<Rightarrow> 'd console \<Rightarrow> 'd console res" where
  "vga_printch dev c s =
     bindR
       (if c = 10 then Inr (s\<lparr>cursor_x := 0, cursor_y := cursor_y s + 1\<rparr>)
        else
          let i = unat (cursor_y s * 80 + cursor_x s) in
          if i < length (vbuffer s)
          then Inr (s\<lparr>vbuffer := (vbuffer s)[i := vga_cell c (style s)], cursor_x := cursor_x s + 1\<rparr>)
          else Inl OutOfBounds)
       (\<lambda>s. Inr (setcursor dev (sync (vga_scroll (vga_wrap s)))))"

definition vga_init :: "'d console \<Rightarrow> 'd console" where
  "vga_init s = sync (s\<lparr>cursor_x := 0, cursor_y := 0, style := 0x07, vbuffer := replicate VGA_SIZE 0\<rparr>)"

section \<open>serial.c\<close>

abbreviation (input) PORT_COM1 :: u16 where "PORT_COM1 \<equiv> 0x3F8"

definition serial_init :: "'d device \<Rightarrow> u16 \<Rightarrow> 'd console \<Rightarrow> 'd console" where
  "serial_init dev port s =
     s\<lparr>hw := fold (\<lambda>(p, v). outb dev p v)
       [(port + 1, 0x00), (port + 3, 0x80), (port + 0, 0x03), (port + 1, 0x00), (port + 3, 0x03),
        (port + 2, 0xC7), (port + 4, 0x0B)] (hw s)\<rparr>"

text \<open>Polling the line status ends only if the device becomes ready.\<close>

partial_function (option) serial_wait :: "'d device \<Rightarrow> u16 \<Rightarrow> 'd \<Rightarrow> 'd option" where
  "serial_wait dev port d =
     (let r = inb dev (port + 5) d in
      if fst r AND 0x20 = 0 then serial_wait dev port (snd r) else Some (snd r))"

definition serial_write :: "'d device \<Rightarrow> u16 \<Rightarrow> u8 \<Rightarrow> 'd console \<Rightarrow> 'd console res" where
  "serial_write dev port c s =
     bindR (of_option Diverges (serial_wait dev port (hw s))) (\<lambda>d. Inr (s\<lparr>hw := outb dev port c d\<rparr>))"

section \<open>debug.c\<close>

definition debug_init :: "'d device \<Rightarrow> 'd console \<Rightarrow> 'd console" where
  "debug_init dev s = serial_init dev PORT_COM1 (vga_init s)"

definition buf_write :: "nat \<Rightarrow> u8 \<Rightarrow> u8 list \<Rightarrow> u8 list res" where
  "buf_write i c buf = (if i < length buf then Inr (buf[i := c]) else Inl OutOfBounds)"

definition num_chars :: "u8 list" where
  "num_chars = map (\<lambda>i. if i < 10 then 48 + of_nat i else 55 + of_nat i) [0..<16] @ [0]"

text \<open>
  \<^verbatim>\<open>num2str\<close>: the digits from the least significant one, then the reversal in place.
  The first loop ends because it runs out of buffer if not out of digits.
\<close>

function num2str_digits :: "u64 \<Rightarrow> u64 \<Rightarrow> nat \<Rightarrow> u8 list \<Rightarrow> (nat \<times> u8 list) res" where
  "num2str_digits num base i buf =
     (if 0 < num then
        if base = 0 then Inl DivideError
        else if length num_chars \<le> unat (num mod base) then Inl OutOfBounds
        else bindR (buf_write i (num_chars ! unat (num mod base)) buf)
               (num2str_digits (num div base) base (i + 1))
      else Inr (i, buf))"
  by pat_completeness auto
termination
  by (relation "measure (\<lambda>(_, _, i, buf). length buf - i)") (auto simp: buf_write_def split: if_splits)

declare num2str_digits.simps [simp del]

function num2str_reverse :: "nat \<Rightarrow> nat \<Rightarrow> u8 list \<Rightarrow> nat \<times> nat \<times> u8 list" where
  "num2str_reverse i j buf =
     (if j < i then num2str_reverse (i - 1) (j + 1) (buf[i := buf ! j, j := buf ! i]) else (i, j, buf))"
  by pat_completeness auto
termination
  by (relation "measure (\<lambda>(i, j, _). i - j)") auto

declare num2str_reverse.simps [simp del]

definition num2str :: "u64 \<Rightarrow> u32 \<Rightarrow> u8 list \<Rightarrow> (u64 \<times> u8 list) res" where
  "num2str num base buf =
     (if num = 0 then bindR (buf_write 0 48 buf) (\<lambda>buf. bindR (buf_write 1 0 buf) (\<lambda>buf. Inr (0, buf)))
      else
        bindR (num2str_digits num (ucast base) 0 buf) (\<lambda>(i, buf).
        let (i, j, buf) = num2str_reverse (i - 1) 0 buf in
        bindR (buf_write (i + j + 1) 0 buf) (\<lambda>buf. Inr (of_nat (i + j + 1), buf))))"

definition debug_putch :: "'d device \<Rightarrow> u8 \<Rightarrow> 'd console \<Rightarrow> 'd console res" where
  "debug_putch dev c s = bindR (vga_printch dev c s) (serial_write dev PORT_COM1 c)"

primrec putsn_loop :: "nat \<Rightarrow> 'd device \<Rightarrow> mem \<Rightarrow> addr \<Rightarrow> 'd console \<Rightarrow> 'd console res" where
  "putsn_loop 0 dev m p s = Inr s"
| "putsn_loop (Suc n) dev m p s = bindR (debug_putch dev (m p) s) (putsn_loop n dev m (p + 1))"

definition debug_putsn :: "'d device \<Rightarrow> mem \<Rightarrow> addr \<Rightarrow> u64 \<Rightarrow> 'd console \<Rightarrow> 'd console res" where
  "debug_putsn dev m p n s = putsn_loop (unat n) dev m p s"

definition debug_puts :: "'d device \<Rightarrow> mem \<Rightarrow> addr \<Rightarrow> 'd console \<Rightarrow> 'd console res" where
  "debug_puts dev m p s = bindR (of_option Diverges (strlen m p)) (\<lambda>n. debug_putsn dev m p n s)"

text \<open>\<^verbatim>\<open>debug_puts\<close> of a local array or of a string constant, given by its bytes.\<close>

definition debug_puts_array :: "'d device \<Rightarrow> u8 list \<Rightarrow> 'd console \<Rightarrow> 'd console res" where
  "debug_puts_array dev bs s = foldR (debug_putch dev) (takeWhile (\<lambda>c. c \<noteq> 0) bs) s"

partial_function (option) lit_len :: "mem \<Rightarrow> addr \<Rightarrow> u64 \<Rightarrow> u64 option" where
  "lit_len m str len =
     (if m (str + len) \<noteq> 0 \<and> m (str + len) \<noteq> 37 then lit_len m str (len + 1) else Some len)"

abbreviation (input) DEBUG_VPRINTF_BASE_CHAR :: u32 where "DEBUG_VPRINTF_BASE_CHAR \<equiv> 255"
abbreviation (input) DEBUG_VPRINTF_BASE_STR :: u32 where "DEBUG_VPRINTF_BASE_STR \<equiv> 1024"

text \<open>The \<^verbatim>\<open>switch\<close> on the conversion character: prefix and base.\<close>

definition vprintf_base :: "u8 \<Rightarrow> u8 list \<times> u32" where
  "vprintf_base c =
     (if c = 98 then ([48, 98], 2)
      else if c = 111 then ([48], 8)
      else if c = 100 then ([], 10)
      else if c = 120 then ([48, 120], 16)
      else if c = 99 then ([], DEBUG_VPRINTF_BASE_CHAR)
      else if c = 115 then ([], DEBUG_VPRINTF_BASE_STR)
      else ([], 0))"

definition va_arg :: "u64 list \<Rightarrow> (u64 \<times> u64 list) res" where
  "va_arg args = (case args of [] \<Rightarrow> Inl OutOfBounds | a # as \<Rightarrow> Inr (a, as))"

text \<open>
  One conversion; \<open>num2str\<close> overwrites the array up to a terminator, whatever it held.
\<close>

definition vprintf_conv :: "'d device \<Rightarrow> mem \<Rightarrow> u8 \<Rightarrow> u64 list \<Rightarrow> 'd console \<Rightarrow> (u64 list \<times> 'd console) res" where
  "vprintf_conv dev m c args s =
     (let (prefix, base) = vprintf_base c in
      bindR (if base = 0 then debug_putch dev 37 s else Inr s) (\<lambda>s.
      if base = DEBUG_VPRINTF_BASE_STR then
        bindR (va_arg args) (\<lambda>(a, args). bindR (debug_puts dev m a s) (\<lambda>s. Inr (args, s)))
      else if base = DEBUG_VPRINTF_BASE_CHAR then
        bindR (va_arg args) (\<lambda>(a, args). bindR (debug_putch dev (ucast a) s) (\<lambda>s. Inr (args, s)))
      else if base \<noteq> 0 then
        bindR (va_arg args) (\<lambda>(num, args).
        bindR (num2str num base (replicate 128 0)) (\<lambda>(_, buf).
        bindR (debug_puts_array dev prefix s) (\<lambda>s.
        bindR (debug_puts_array dev buf s) (\<lambda>s. Inr (args, s)))))
      else Inr (args, s)))"

partial_function (option) vprintf_loop ::
  "'d device \<Rightarrow> mem \<Rightarrow> addr \<Rightarrow> u64 list \<Rightarrow> 'd console \<Rightarrow> 'd console res option" where
  "vprintf_loop dev m str args s =
     (if m str = 0 then Some (Inr s)
      else if m str \<noteq> 37 then
        Option.bind (lit_len m str 0) (\<lambda>len.
          case debug_putsn dev m str len s of
            Inl e \<Rightarrow> Some (Inl e)
          | Inr s \<Rightarrow> vprintf_loop dev m (str + len) args s)
      else
        case vprintf_conv dev m (m (str + 1)) args s of
          Inl e \<Rightarrow> Some (Inl e)
        | Inr r \<Rightarrow> vprintf_loop dev m (str + 2) (fst r) (snd r))"

definition debug_vprintf :: "'d device \<Rightarrow> mem \<Rightarrow> addr \<Rightarrow> u64 list \<Rightarrow> 'd console \<Rightarrow> 'd console res" where
  "debug_vprintf dev m str args s = (case vprintf_loop dev m str args s of None \<Rightarrow> Inl Diverges | Some r \<Rightarrow> r)"

section \<open>The screen shows the end of the text\<close>

text \<open>
  What has been printed, as one sequence of cells in rows of 80: a line break pads the row it
  ends. \<open>view k h\<close> is the screen that starts at row \<open>k\<close> of the text \<open>h\<close>, and
  \<open>screen h\<close> the one with its last row at the bottom.
\<close>

definition tty_put :: "u8 \<Rightarrow> u16 list \<Rightarrow> u8 \<Rightarrow> u16 list" where
  "tty_put sty h c = (if c = 10 then h @ replicate (80 - length h mod 80) 0 else h @ [vga_cell c sty])"

definition view :: "nat \<Rightarrow> u16 list \<Rightarrow> u16 list" where
  "view k h = take 2000 (drop (80 * k) h @ replicate 2000 0)"

definition screen :: "u16 list \<Rightarrow> u16 list" where
  "screen h = view (length h div 80 - 24) h"

definition vga_shows :: "'d console \<Rightarrow> u16 list \<Rightarrow> bool" where
  "vga_shows s h \<longleftrightarrow> vbuffer s = screen h \<and> vidmem s = screen h
     \<and> unat (cursor_x s) = length h mod 80 \<and> unat (cursor_y s) = min 24 (length h div 80)"

lemma length_view [simp]: "length (view k h) = 2000"
  by (simp add: view_def)

lemma view_pad: "80 * k \<le> length h \<Longrightarrow> view k (h @ replicate n 0) = view k h"
  by (auto simp: view_def replicate_add [symmetric] min_def)

lemma view_put:
  assumes "80 * k \<le> length h" "length h - 80 * k < 2000"
  shows "(view k h)[length h - 80 * k := c] = view k (h @ [c])"
proof -
  let ?A = "drop (80 * k) h" and ?Z = "replicate 2000 (0 :: u16)"
  have "(view k h)[length h - 80 * k := c] = take 2000 ((?A @ ?Z)[length ?A := c])"
    by (simp only: view_def take_update_swap length_drop)
  also have "(?A @ ?Z)[length ?A := c] = ?A @ c # replicate 1999 0"
    using replicate_Suc [of 1999 "0 :: u16"] by (simp add: list_update_append)
  also have "take 2000 (?A @ c # replicate 1999 0) = take 2000 (?A @ c # ?Z)"
    by (cases "2000 - length ?A") (simp_all add: min_def)
  finally show ?thesis using assms by (simp add: view_def)
qed

lemma view_scroll:
  assumes "80 * Suc k \<le> length h" "length h - 80 * k \<le> 2000"
  shows "take 1920 (drop 80 (view k h) @ drop 1920 (view k h)) @ replicate 80 0 = view (Suc k) h"
proof -
  let ?A = "drop (80 * Suc k) h"
  have "drop 80 (view k h) = take 1920 (?A @ replicate 2000 0)"
    using assms by (simp add: view_def drop_take)
  moreover have "take 2000 (?A @ replicate 2000 0) = take 1920 (?A @ replicate 2000 0) @ replicate 80 0"
    using assms by (auto simp: min_def replicate_add [symmetric])
  ultimately show ?thesis by (simp add: view_def)
qed

lemma vga_scroll_view:
  assumes "vbuffer s = view k h" and "length h div 80 = k + unat (cursor_y s)"
    and "unat (cursor_y s) \<le> 25" and "k = 0 \<or> 24 \<le> unat (cursor_y s)"
    and "unat (cursor_y s) = 25 \<longrightarrow> length h mod 80 = 0"
  shows "vbuffer (vga_scroll s) = screen h \<and> unat (cursor_y (vga_scroll s)) = min 24 (length h div 80)
    \<and> cursor_x (vga_scroll s) = cursor_x s \<and> style (vga_scroll s) = style s"
proof (cases "unat (cursor_y s) = 25")
  case True
  then have y: "25 \<le> cursor_y s" "\<not> 25 \<le> cursor_y s - 1" "unat (cursor_y s - 1) = 24"
    by (simp_all add: word_le_nat_alt unat_sub_if')
  have l: "length h = 80 * (k + 25)"
    using assms(2,5) True mult_div_mod_eq [of 80 "length h"] by simp
  define t where "t = s\<lparr>vbuffer := view (Suc k) h, cursor_y := cursor_y s - 1\<rparr>"
  have "vga_scroll s = vga_scroll t"
    using y(1) view_scroll [of k h] l assms(1) by (subst vga_scroll.simps) (simp add: t_def Let_def)
  moreover have "vga_scroll t = t" using y(2) by (subst vga_scroll.simps) (simp add: t_def)
  ultimately show ?thesis using y(3) l by (simp add: t_def screen_def)
next
  case False
  then have "\<not> 25 \<le> cursor_y s" using assms(3) by (simp add: word_le_nat_alt)
  then have "vga_scroll s = s" by (subst vga_scroll.simps) simp
  moreover have "k = length h div 80 - 24" using assms False by auto
  ultimately show ?thesis using assms False by (auto simp: screen_def)
qed

lemma setcursor_fields [simp]:
  "vbuffer (setcursor dev s) = vbuffer s" "vidmem (setcursor dev s) = vidmem s"
  "cursor_x (setcursor dev s) = cursor_x s" "cursor_y (setcursor dev s) = cursor_y s" "style (setcursor dev s) = style s"
  by (simp_all add: setcursor_def Let_def)

lemma serial_write_fields:
  "serial_write dev port c s = Inr s' \<Longrightarrow> vbuffer s' = vbuffer s \<and> vidmem s' = vidmem s \<and> cursor_x s' = cursor_x s
     \<and> cursor_y s' = cursor_y s \<and> style s' = style s"
  by (auto simp: serial_write_def res_simps)

lemma vga_finish:
  assumes "vbuffer s = view k h" and "length h div 80 = k + unat (cursor_y s)" and "unat (cursor_x s) = length h mod 80"
    and "unat (cursor_y s) \<le> 25" and "k = 0 \<or> 24 \<le> unat (cursor_y s)"
    and "unat (cursor_y s) = 25 \<longrightarrow> length h mod 80 = 0"
  shows "vga_shows (setcursor dev (sync (vga_scroll s))) h \<and> style (setcursor dev (sync (vga_scroll s))) = style s"
  using vga_scroll_view [OF assms(1,2,4,5,6)] assms(3) by (simp add: vga_shows_def sync_def)

lemma unat_succ32: "unat (w :: u32) < 4294967295 \<Longrightarrow> unat (w + 1) = Suc (unat w)"
  using unat_plus_if' [of w 1] by simp

lemma vga_printch_shows:
  assumes "vga_shows s h"
  shows "\<exists>s'. vga_printch dev c s = Inr s' \<and> vga_shows s' (tty_put (style s) h c) \<and> style s' = style s"
proof -
  let ?r = "length h div 80" and ?x = "length h mod 80"
  define k where "k = ?r - 24"
  have S: "vbuffer s = view k h" "unat (cursor_x s) = ?x" "unat (cursor_y s) = min 24 ?r" "?r = k + unat (cursor_y s)"
    using assms by (auto simp: vga_shows_def screen_def k_def)
  have L: "length h = 80 * ?r + ?x" "?x < 80" by simp_all
  have k: "k = 0 \<or> unat (cursor_y s) = 24" using S(3) by (auto simp: k_def)
  have K: "unat (cursor_y s) \<le> 24" "k = 0 \<or> 24 \<le> Suc (unat (cursor_y s))" using S(3) k by auto
  have le: "80 * k \<le> length h" "length h - 80 * k = 80 * unat (cursor_y s) + ?x"
    using L(1) S(4) by (simp_all add: algebra_simps)
  have y1: "unat (cursor_y s + 1) = Suc (unat (cursor_y s))" using S(3) by (intro unat_succ32) simp
  have x1: "unat (cursor_x s + 1) = Suc (unat (cursor_x s))" using S(2) L(2) by (intro unat_succ32) simp
  show ?thesis
  proof (cases "c = 10")
    case True
    define t where "t = s\<lparr>cursor_x := 0, cursor_y := cursor_y s + 1\<rparr>"
    define h' where "h' = h @ replicate (80 - ?x) 0"
    have "length h' = 80 * Suc ?r" using L unfolding h'_def length_append length_replicate by presburger
    then have "length h' div 80 = k + unat (cursor_y t)" "length h' mod 80 = 0"
      using S(4) y1 by (simp_all add: t_def)
    moreover have "vga_wrap t = t" by (simp add: vga_wrap_def t_def)
    moreover have "vbuffer t = view k h'" using view_pad [OF le(1)] S(1) by (simp add: t_def h'_def)
    ultimately have "vga_shows (setcursor dev (sync (vga_scroll (vga_wrap t)))) h' \<and> style (setcursor dev (sync (vga_scroll (vga_wrap t)))) = style t"
      using vga_finish [of t k h' dev] K y1 by (simp add: t_def)
    then show ?thesis using True by (simp add: vga_printch_def tty_put_def t_def h'_def)
  next
    case False
    define h' where "h' = h @ [vga_cell c (style s)]"
    define t where "t = s\<lparr>vbuffer := view k h', cursor_x := cursor_x s + 1\<rparr>"
    have i: "unat (cursor_y s * 80 + cursor_x s) = length h - 80 * k"
      using S(2) K(1) L(2) le(2) unfolding le(2) by (simp add: unat_word_ariths)
    have lt: "length h - 80 * k < 2000" using le(2) S(3) L(2) by simp
    have p: "vga_printch dev c s = Inr (setcursor dev (sync (vga_scroll (vga_wrap t))))"
      using False i lt S(1) view_put [OF le(1) lt] by (simp add: vga_printch_def t_def h'_def)
    have "vga_shows (setcursor dev (sync (vga_scroll (vga_wrap t)))) h' \<and> style (setcursor dev (sync (vga_scroll (vga_wrap t)))) = style s"
    proof (cases "?x = 79")
      case True
      define u where "u = t\<lparr>cursor_x := 0, cursor_y := cursor_y s + 1\<rparr>"
      have "vga_wrap t = u" using True S(2) x1 by (simp add: vga_wrap_def t_def u_def word_le_nat_alt)
      moreover have "length h' = 80 * Suc ?r" using L True by (simp add: h'_def)
      then have "length h' div 80 = k + unat (cursor_y u)" "length h' mod 80 = 0"
        using S(4) y1 by (simp_all add: u_def)
      ultimately show ?thesis using vga_finish [of u k h' dev] K y1 by (simp add: u_def t_def)
    next
      case False
      then have x: "?x < 79" using L(2) by simp
      then have "vga_wrap t = t" using S(2) x1 by (simp add: vga_wrap_def t_def word_le_nat_alt)
      moreover have "length h' div 80 = ?r" "length h' mod 80 = Suc ?x"
        using x by (simp_all add: h'_def div_Suc mod_Suc)
      moreover have "k = 0 \<or> 24 \<le> unat (cursor_y t)" "unat (cursor_y t) \<le> 24" using k K(1) by (auto simp: t_def)
      ultimately show ?thesis using vga_finish [of t k h' dev] S(2,4) x1 by (simp add: t_def)
    qed
    then show ?thesis using p False by (simp add: tty_put_def h'_def)
  qed
qed

lemma vga_init_shows: "vga_shows (vga_init s) []"
  by (simp add: vga_shows_def vga_init_def sync_def screen_def view_def)

lemma vga_print_text:
  assumes "vga_shows s h"
  shows "\<exists>s'. foldR (vga_printch dev) cs s = Inr s' \<and> vga_shows s' (foldl (tty_put (style s)) h cs)"
  using assms
proof (induction cs arbitrary: s h)
  case Nil
  then show ?case by simp
next
  case (Cons c cs)
  from vga_printch_shows [OF Cons.prems] obtain s1 where
    s1: "vga_printch dev c s = Inr s1" "vga_shows s1 (tty_put (style s) h c)" "style s1 = style s" by blast
  from Cons.IH [OF s1(2)] s1 show ?case by simp
qed

text \<open>
  C20. The screen shows the end of what was printed: after \<^verbatim>\<open>vga_init\<close> and any sequence of
  characters, no write left the buffer, video memory equals the buffer, and it holds the last 25
  rows of the printed text laid out in rows of 80 cells, with the cursor behind the last character.
\<close>

theorem vga_shows_text:
  "\<exists>s'. foldR (vga_printch dev) cs (vga_init s) = Inr s' \<and> vga_shows s' (foldl (tty_put 7) [] cs)"
  using vga_print_text [OF vga_init_shows] by (simp add: vga_init_def sync_def)

section \<open>Numerals\<close>

text \<open>The digits of a number, least significant first, and the value of a printed numeral.\<close>

fun digits :: "nat \<Rightarrow> nat \<Rightarrow> nat list" where
  "digits b n = (if n = 0 \<or> b < 2 then [] else n mod b # digits b (n div b))"

declare digits.simps [simp del]

definition digit_char :: "nat \<Rightarrow> u8" where
  "digit_char d = (if d < 10 then 48 + of_nat d else 55 + of_nat d)"

definition char_digit :: "u8 \<Rightarrow> nat" where
  "char_digit c = (if unat c < 58 then unat c - 48 else unat c - 55)"

definition num_text :: "nat \<Rightarrow> nat \<Rightarrow> u8 list" where
  "num_text b n = (if n = 0 then [48] else rev (map digit_char (digits b n)))"

definition num_value :: "nat \<Rightarrow> u8 list \<Rightarrow> nat" where
  "num_value b cs = foldl (\<lambda>a c. a * b + char_digit c) 0 cs"

lemma unat_digit_char: "d < 16 \<Longrightarrow> unat (digit_char d) = (if d < 10 then 48 + d else 55 + d)"
  by (simp add: digit_char_def unat_word_ariths unat_of_nat)

lemma char_digit_char: "d < 16 \<Longrightarrow> char_digit (digit_char d) = d"
  by (simp add: char_digit_def unat_digit_char)

lemma digit_char_nonzero: "d < 16 \<Longrightarrow> digit_char d \<noteq> 0"
  using unat_digit_char [of d] by (metis add_is_0 unat_0 zero_neq_numeral)

lemma num_chars_nth: "d < 16 \<Longrightarrow> num_chars ! d = digit_char d"
  by (simp add: num_chars_def digit_char_def nth_append del: upt_rec_numeral)

lemma digits_less: "2 \<le> b \<Longrightarrow> d \<in> set (digits b n) \<Longrightarrow> d < b"
  by (induction b n rule: digits.induct) (subst (asm) (2) digits.simps, auto split: if_splits)

lemma digits_value: "2 \<le> b \<Longrightarrow> foldr (\<lambda>d a. a * b + d) (digits b n) 0 = n"
  by (induction b n rule: digits.induct) (subst digits.simps, simp)

lemma digits_length: "2 \<le> b \<Longrightarrow> n < 2 ^ k \<Longrightarrow> length (digits b n) \<le> k"
proof (induction k arbitrary: n)
  case 0
  then show ?case by (simp add: digits.simps)
next
  case (Suc k)
  have "n div b \<le> n div 2" using Suc.prems(1) by (intro div_le_mono2) auto
  also have "n div 2 < 2 ^ k" using Suc.prems(2) by auto
  finally show ?case using Suc by (subst digits.simps) simp
qed

lemma digits_nonempty: "2 \<le> b \<Longrightarrow> digits b n = [] \<longleftrightarrow> n = 0"
  by (subst digits.simps) simp

lemma digits_last: "2 \<le> b \<Longrightarrow> n \<noteq> 0 \<Longrightarrow> last (digits b n) \<noteq> 0"
proof (induction b n rule: digits.induct)
  case (1 b n)
  show ?case
  proof (cases "n div b = 0")
    case True
    then have "digits b n = [n mod b]" using 1 by (simp add: digits.simps)
    then show ?thesis using 1(3) True mult_div_mod_eq [of b n] by auto
  next
    case False
    then show ?thesis using 1 by (subst digits.simps) (simp add: digits_nonempty)
  qed
qed

lemma num_value_text:
  assumes "2 \<le> b" "b \<le> 16"
  shows "num_value b (num_text b n) = n"
proof -
  have "foldr (\<lambda>c a. a * b + char_digit c) (map digit_char ds) 0 = foldr (\<lambda>d a. a * b + d) ds 0"
    if "\<And>d. d \<in> set ds \<Longrightarrow> d < 16" for ds
    using that by (induction ds) (auto simp: char_digit_char)
  moreover have "d < 16" if "d \<in> set (digits b n)" for d using digits_less [OF assms(1) that] assms(2) by simp
  ultimately show ?thesis
    using digits_value [OF assms(1), of n]
    by (simp add: num_value_def num_text_def foldl_conv_foldr char_digit_def)
qed

lemma num2str_digits_eq:
  assumes "2 \<le> unat base" "unat base \<le> 16" "i + length (digits (unat base) (unat num)) \<le> length buf"
  shows "num2str_digits num base i buf = Inr (i + length (digits (unat base) (unat num)),
     take i buf @ map digit_char (digits (unat base) (unat num)) @ drop (i + length (digits (unat base) (unat num))) buf)"
  using assms
proof (induction num base i buf rule: num2str_digits.induct)
  case (1 num base i buf)
  show ?case
  proof (cases "num = 0")
    case True
    then show ?thesis by (subst num2str_digits.simps) (simp add: digits.simps)
  next
    case False
    then have n: "0 < num" "unat num \<noteq> 0" by (simp_all add: word_neq_0_conv unat_eq_0)
    have b: "base \<noteq> 0" using 1(2) by auto
    let ?d = "unat num mod unat base" and ?ds = "digits (unat base) (unat (num div base))"
    have dg: "digits (unat base) (unat num) = ?d # ?ds"
      using n 1(2) by (subst digits.simps) (simp add: unat_div)
    have d: "?d < 16" "unat (num mod base) = ?d"
      using 1(2,3) mod_less_divisor [of "unat base" "unat num"] by (linarith, simp add: unat_mod)
    have w: "buf_write i (num_chars ! unat (num mod base)) buf = Inr (buf[i := digit_char ?d])"
      using 1(4) d by (simp add: dg buf_write_def num_chars_nth)
    have l: "\<not> length num_chars \<le> unat (num mod base)" using d by (simp add: num_chars_def)
    have "num2str_digits (num div base) base (i + 1) (buf[i := digit_char ?d]) = Inr (i + 1 + length ?ds,
        take (i + 1) (buf[i := digit_char ?d]) @ map digit_char ?ds @ drop (i + 1 + length ?ds) (buf[i := digit_char ?d]))"
      using 1(1) [OF n(1) b l w] 1(2-4) by (simp add: dg)
    moreover have "take (i + 1) (buf[i := digit_char ?d]) = take i buf @ [digit_char ?d]"
      using 1(4) by (simp add: dg take_Suc_conv_app_nth)
    ultimately show ?thesis
      using n(1) b l w by (subst num2str_digits.simps) (simp add: dg drop_update_cancel)
  qed
qed

lemma num2str_reverse_nth:
  assumes "i < length buf"
  shows "\<exists>i' j' buf'. num2str_reverse i j buf = (i', j', buf') \<and> i' + j' = i + j \<and> length buf' = length buf
    \<and> (\<forall>n < length buf. buf' ! n = (if j \<le> n \<and> n \<le> i then buf ! (i + j - n) else buf ! n))"
  using assms
proof (induction i j buf rule: num2str_reverse.induct)
  case (1 i j buf)
  show ?case
  proof (cases "j < i")
    case False
    moreover have "i + j - n = n" if "j \<le> n" "n \<le> i" for n using False that by simp
    ultimately show ?thesis by (subst num2str_reverse.simps) auto
  next
    case True
    let ?b = "buf[i := buf ! j, j := buf ! i]"
    have li: "i - 1 < length ?b" using 1(2) by simp
    from 1(1) [OF True li] obtain i' j' buf' where
      r: "num2str_reverse (i - 1) (j + 1) ?b = (i', j', buf')" "i' + j' = i - 1 + (j + 1)" "length buf' = length buf"
      and n: "\<And>n. n < length buf \<Longrightarrow> buf' ! n = (if j + 1 \<le> n \<and> n \<le> i - 1 then ?b ! (i - 1 + (j + 1) - n) else ?b ! n)"
      unfolding length_list_update by blast
    have "buf' ! n = (if j \<le> n \<and> n \<le> i then buf ! (i + j - n) else buf ! n)" if "n < length buf" for n
      using n [OF that] True 1(2) that by (auto simp: nth_list_update)
    then show ?thesis using r True by (subst num2str_reverse.simps) simp
  qed
qed

lemma unat_ucast32: "unat (ucast (w :: u32) :: u64) = unat w"
proof -
  have "unat w < 2 ^ 32" using unsigned_less [of w, where ?'a = nat] by simp
  then show ?thesis by (simp add: unsigned_ucast_eq take_bit_nat_eq_self_iff)
qed

lemma num2str_eq:
  assumes "2 \<le> unat base" "unat base \<le> 16" "length (num_text (unat base) (unat num)) < length buf"
  obtains rest where "num2str num base buf =
     Inr (if num = 0 then 0 else of_nat (length (num_text (unat base) (unat num))), num_text (unat base) (unat num) @ 0 # rest)"
proof (cases "num = 0")
  case True
  then have "Suc 0 < length buf" using assms(3) by (simp add: num_text_def)
  then obtain x y rest where "buf = x # y # rest" by (cases buf; cases "tl buf") auto
  then show thesis using that True by (simp add: num2str_def num_text_def buf_write_def)
next
  case False
  let ?ds = "digits (unat base) (unat num)"
  define n where "n = length ?ds"
  have ub: "unat (ucast base :: u64) = unat base" by (rule unat_ucast32)
  have l: "n < length buf" "0 < n"
    using assms(1,3) False digits_nonempty [OF assms(1)] by (simp_all add: n_def num_text_def unat_eq_0)
  define b1 where "b1 = map digit_char ?ds @ drop n buf"
  have d: "num2str_digits num (ucast base) 0 buf = Inr (n, b1)"
    using num2str_digits_eq [of "ucast base" 0 num buf] assms(1,2) l by (simp add: ub n_def b1_def)
  have lb: "length b1 = length buf" using l by (simp add: b1_def n_def)
  have "n - 1 < length b1" using l lb by simp
  from num2str_reverse_nth [OF this, of 0, unfolded lb]
  obtain i' j' b2 where r: "num2str_reverse (n - 1) 0 b1 = (i', j', b2)" "i' + j' = n - 1 + 0" "length b2 = length buf"
    and nth: "\<And>k. k < length buf \<Longrightarrow> b2 ! k = (if 0 \<le> k \<and> k \<le> n - 1 then b1 ! (n - 1 + 0 - k) else b1 ! k)"
    by blast
  have t: "take n b2 = rev (map digit_char ?ds)"
    by (rule nth_equalityI) (use l r(3) nth in \<open>auto simp: b1_def n_def nth_append rev_nth\<close>)
  have "b2[n := 0] = take n b2 @ 0 # drop (Suc n) b2" using l r(3) by (simp add: upd_conv_take_nth_drop)
  moreover have "Suc (i' + j') = n" using r(2) l by simp
  ultimately have "num2str num base buf = Inr (of_nat n, rev (map digit_char ?ds) @ 0 # drop (Suc n) b2)"
    using False d r l t by (simp add: num2str_def buf_write_def del: of_nat_add of_nat_Suc)
  then show thesis using that [of "drop (Suc n) b2"] False by (simp add: num_text_def n_def unat_eq_0)
qed

lemma num_text_length: "2 \<le> b \<Longrightarrow> length (num_text b (unat (n :: u64))) \<le> 64"
  using digits_length [of b "unat n" 64] unat_less64 [of n] by (simp add: num_text_def)

lemma num_text_nonzero: "2 \<le> b \<Longrightarrow> b \<le> 16 \<Longrightarrow> 0 \<notin> set (num_text b n)"
  using digits_less [of b _ n] digit_char_nonzero by (auto simp: num_text_def) (metis order_less_le_trans)

text \<open>
  \<^verbatim>\<open>num2str\<close> for a base from 2 to 16 and a buffer of at least 65 bytes stays inside
  the buffer and leaves in it a terminated numeral of at most 64 digits whose value is the number,
  without leading zeros; the result is the number of digits, except that it is 0 for the number 0.
\<close>

theorem num2str_roundtrip:
  assumes "2 \<le> unat base" and "unat base \<le> 16" and "65 \<le> length buf"
  shows "\<exists>n cs rest. num2str num base buf = Inr (n, cs @ 0 # rest) \<and> 0 \<notin> set cs
    \<and> num_value (unat base) cs = unat num \<and> length cs \<le> 64
    \<and> (num \<noteq> 0 \<longrightarrow> hd cs \<noteq> 48 \<and> unat n = length cs) \<and> (num = 0 \<longrightarrow> cs = [48] \<and> n = 0)"
proof -
  let ?cs = "num_text (unat base) (unat num)"
  have l: "length ?cs \<le> 64" by (rule num_text_length [OF assms(1)])
  obtain rest where r: "num2str num base buf = Inr (if num = 0 then 0 else of_nat (length ?cs), ?cs @ 0 # rest)"
    by (rule num2str_eq [of base num buf]) (use assms l in auto)
  have "hd ?cs \<noteq> 48" if "num \<noteq> 0"
  proof -
    have u: "unat num \<noteq> 0" using that by (simp add: unat_eq_0)
    let ?d = "last (digits (unat base) (unat num))"
    have "digits (unat base) (unat num) \<noteq> []" using u assms(1) by (simp add: digits_nonempty)
    then have "?d \<in> set (digits (unat base) (unat num))" "hd ?cs = digit_char ?d"
      using u by (auto simp: num_text_def hd_rev last_map)
    moreover from this have "?d < 16" "?d \<noteq> 0"
      using digits_less [OF assms(1)] digits_last [OF assms(1) u] assms(2) order_less_le_trans by blast+
    ultimately show ?thesis using char_digit_char [of ?d] by (auto simp: char_digit_def)
  qed
  moreover have "unat (of_nat (length ?cs) :: u64) = length ?cs" using l by (simp add: unat_of_nat_eq)
  ultimately show ?thesis
    using r num_text_nonzero [OF assms(1,2)] num_value_text [OF assms(1,2)] l
    by (intro exI conjI) (auto simp: num_text_def)
qed

theorem num2str_roundtrip_witness:
  "\<exists>n cs rest. num2str 255 16 (replicate 128 0) = Inr (n, cs @ 0 # rest) \<and> num_value 16 cs = 255"
  using num2str_roundtrip [of 16 "replicate 128 0" 255] by auto

section \<open>Formatted output\<close>

text \<open>A format as a sequence of literal text and conversions, its bytes, and the output it stands for.\<close>

datatype fmt_item = Lit "u8 list" | Bin | Oct | Dec | Hex | Chr | Str | Percent

fun conv_char :: "fmt_item \<Rightarrow> u8" where
  "conv_char Bin = 98"
| "conv_char Oct = 111"
| "conv_char Dec = 100"
| "conv_char Hex = 120"
| "conv_char Chr = 99"
| "conv_char Str = 115"
| "conv_char _ = 37"

fun item_bytes :: "fmt_item \<Rightarrow> u8 list" where
  "item_bytes (Lit cs) = cs"
| "item_bytes i = [37, conv_char i]"

definition fmt_bytes :: "fmt_item list \<Rightarrow> u8 list" where
  "fmt_bytes is = concat (map item_bytes is)"

fun fmt_ok :: "fmt_item list \<Rightarrow> bool" where
  "fmt_ok [] \<longleftrightarrow> True"
| "fmt_ok (Lit cs # Lit ds # is) \<longleftrightarrow> False"
| "fmt_ok (Lit cs # is) \<longleftrightarrow> cs \<noteq> [] \<and> 0 \<notin> set cs \<and> 37 \<notin> set cs \<and> fmt_ok is"
| "fmt_ok (i # is) \<longleftrightarrow> fmt_ok is"

text \<open>
  What an item prints, and the arguments it leaves: \<open>None\<close> when an argument is missing or is
  not the address of a string. \<open>strings a\<close> is the string at address \<open>a\<close>.
\<close>

fun item_out :: "(addr \<rightharpoonup> u8 list) \<Rightarrow> fmt_item \<Rightarrow> u64 list \<Rightarrow> (u8 list \<times> u64 list) option" where
  "item_out strings (Lit cs) args = Some (cs, args)"
| "item_out strings Percent args = Some ([37], args)"
| "item_out strings i [] = None"
| "item_out strings Bin (a # args) = Some ([48, 98] @ num_text 2 (unat a), args)"
| "item_out strings Oct (a # args) = Some ([48] @ num_text 8 (unat a), args)"
| "item_out strings Dec (a # args) = Some (num_text 10 (unat a), args)"
| "item_out strings Hex (a # args) = Some ([48, 120] @ num_text 16 (unat a), args)"
| "item_out strings Chr (a # args) = Some ([ucast a], args)"
| "item_out strings Str (a # args) = map_option (\<lambda>cs. (cs, args)) (strings a)"

fun render :: "(addr \<rightharpoonup> u8 list) \<Rightarrow> fmt_item list \<Rightarrow> u64 list \<Rightarrow> u8 list option" where
  "render strings [] args = Some []"
| "render strings (i # is) args =
     (case item_out strings i args of
        None \<Rightarrow> None
      | Some (out, args) \<Rightarrow> map_option (\<lambda>r. out @ r) (render strings is args))"

abbreviation put_all :: "'d device \<Rightarrow> u8 list \<Rightarrow> 'd console \<Rightarrow> 'd console res" where
  "put_all dev \<equiv> foldR (debug_putch dev)"

lemma putsn_loop_eq:
  "(\<And>k. k < n \<Longrightarrow> m (p + of_nat k) = cs ! k) \<Longrightarrow> length cs = n \<Longrightarrow> putsn_loop n dev m p s = put_all dev cs s"
proof (induction n arbitrary: p cs s)
  case 0
  then show ?case by simp
next
  case (Suc n)
  obtain c cs' where cs: "cs = c # cs'" using Suc.prems(2) by (cases cs) auto
  have "m p = c" using Suc.prems(1) [of 0] by (simp add: cs)
  moreover have "m (p + 1 + of_nat k) = cs' ! k" if "k < n" for k
    using Suc.prems(1) [of "Suc k"] that by (simp add: cs add.assoc)
  then have "putsn_loop n dev m (p + 1) s' = put_all dev cs' s'" for s'
    using Suc.prems(2) by (intro Suc.IH) (auto simp: cs)
  ultimately show ?case by (simp add: cs) (rule bindR_cong; simp)
qed

lemma debug_puts_eq:
  assumes "cstr m p cs" and "length cs < 2 ^ 64"
  shows "debug_puts dev m p s = put_all dev cs s"
  using strlen_cstr [OF assms(1)] cstr_nth [OF assms(1)] assms(2)
  by (auto simp: debug_puts_def debug_putsn_def unat_of_nat_eq intro!: putsn_loop_eq)

lemma debug_puts_array_eq: "0 \<notin> set cs \<Longrightarrow> debug_puts_array dev (cs @ 0 # rest) s = put_all dev cs s"
  by (auto simp: debug_puts_array_def takeWhile_append)

lemma debug_puts_array_const: "0 \<notin> set cs \<Longrightarrow> debug_puts_array dev cs s = put_all dev cs s"
proof -
  assume "0 \<notin> set cs"
  then have "takeWhile (\<lambda>c. c \<noteq> 0) cs = cs" by (induction cs) auto
  then show ?thesis by (simp only: debug_puts_array_def)
qed

lemma vprintf_conv_num:
  assumes "vprintf_base c = (prefix, base)" "0 \<notin> set prefix" "2 \<le> unat base" "unat base \<le> 16"
  shows "vprintf_conv dev m c (a # args) s
    = bindR (put_all dev (prefix @ num_text (unat base) (unat a)) s) (\<lambda>s. Inr (args, s))"
proof -
  let ?t = "num_text (unat base) (unat a)"
  have "length ?t < length (replicate 128 (0 :: u8))" using num_text_length [OF assms(3), of a] by simp
  then obtain n rest where "num2str a base (replicate 128 0) = Inr (n, ?t @ 0 # rest)"
    using num2str_eq [OF assms(3,4)] by metis
  moreover have "base \<noteq> 0" "base \<noteq> 255" "base \<noteq> 1024" using assms(3,4) by auto
  ultimately show ?thesis
    using assms num_text_nonzero [OF assms(3,4)]
    by (simp add: vprintf_conv_def va_arg_def debug_puts_array_eq debug_puts_array_const foldR_append bindR_assoc)
qed

lemma lit_len_eq:
  assumes "\<And>k. i \<le> k \<Longrightarrow> k < n \<Longrightarrow> m (str + of_nat k) \<noteq> 0 \<and> m (str + of_nat k) \<noteq> 37"
    and "m (str + of_nat n) = 0 \<or> m (str + of_nat n) = 37" and "i \<le> n"
  shows "lit_len m str (of_nat i) = Some (of_nat n)"
  using assms
proof (induction "n - i" arbitrary: i)
  case 0
  then have "i = n" by simp
  with 0 show ?case by (subst lit_len.simps) auto
next
  case (Suc d)
  have "lit_len m str (of_nat (Suc i)) = Some (of_nat n)"
    using Suc(2) Suc.prems by (intro Suc(1)) auto
  then show ?case using Suc(2) Suc.prems(1) [of i] by (subst lit_len.simps) (simp add: add.commute)
qed

lemma cstr_append: "cstr m p (xs @ ys) \<longleftrightarrow> 0 \<notin> set xs \<and> (\<forall>k < length xs. m (p + of_nat k) = xs ! k) \<and> cstr m (p + of_nat (length xs)) ys"
proof (induction xs arbitrary: p)
  case Nil
  then show ?case by simp
next
  case (Cons x xs)
  have "(\<forall>k < Suc (length xs). m (p + of_nat k) = (x # xs) ! k) \<longleftrightarrow> m p = x \<and> (\<forall>k < length xs. m (p + 1 + of_nat k) = xs ! k)"
    by (auto simp: less_Suc_eq_0_disj add.assoc)
  then show ?case by (auto simp: Cons algebra_simps)
qed


lemma fmt_bytes_next: "fmt_ok (Lit cs # is) \<Longrightarrow> cstr m p (fmt_bytes is) \<Longrightarrow> m p = 0 \<or> m p = 37"
  by (cases "is" rule: fmt_ok.cases) (simp_all add: fmt_bytes_def)

lemma vprintf_lit:
  assumes "cstr m str (cs @ rest)" "cs \<noteq> []" "37 \<notin> set cs" "m (str + of_nat (length cs)) = 0 \<or> m (str + of_nat (length cs)) = 37"
    and "length cs < 2 ^ 64"
  shows "vprintf_loop dev m str args s =
    (case put_all dev cs s of Inl e \<Rightarrow> Some (Inl e) | Inr s \<Rightarrow> vprintf_loop dev m (str + of_nat (length cs)) args s)"
proof -
  have n: "m (str + of_nat k) = cs ! k" "m (str + of_nat k) \<noteq> 0 \<and> m (str + of_nat k) \<noteq> 37" if "k < length cs" for k
    using assms(1,3) that nth_mem [OF that] by (auto simp: cstr_append simp del: nth_mem)
  have "lit_len m str 0 = Some (of_nat (length cs))"
    using lit_len_eq [of 0 "length cs" m str] n assms(4) by simp
  moreover have "debug_putsn dev m str (of_nat (length cs)) s = put_all dev cs s"
    using n(1) assms(5) by (simp add: debug_putsn_def unat_of_nat_eq putsn_loop_eq)
  ultimately show ?thesis using n(2) [of 0] assms(2) by (subst vprintf_loop.simps) simp
qed

lemma vprintf_item:
  assumes "m str = 37" "m (str + 1) = c" "vprintf_conv dev m c args s = bindR (put_all dev out s) (\<lambda>s. Inr (args', s))"
  shows "vprintf_loop dev m str args s =
    (case put_all dev out s of Inl e \<Rightarrow> Some (Inl e) | Inr s \<Rightarrow> vprintf_loop dev m (str + 2) args' s)"
  using assms by (subst vprintf_loop.simps) (cases "put_all dev out s"; simp)

lemma vprintf_conv_item:
  assumes "item_out strings i args = Some (out, args')" and "\<And>cs. i \<noteq> Lit cs"
    and "\<And>a cs. strings a = Some cs \<Longrightarrow> cstr m a cs \<and> length cs < 2 ^ 64"
  shows "vprintf_conv dev m (conv_char i) args s = bindR (put_all dev out s) (\<lambda>s. Inr (args', s))"
proof -
  show ?thesis
  proof (cases args)
    case Nil
    with assms(1,2) have "i = Percent" "out = [37]" "args' = []" by (cases i; simp)+
    then show ?thesis by (simp add: Nil vprintf_conv_def vprintf_base_def bindR_assoc)
  next
    case (Cons a as)
    have num: "vprintf_conv dev m (conv_char i) args s = bindR (put_all dev (prefix @ num_text (unat base) (unat a)) s) (\<lambda>s. Inr (as, s))"
      if "vprintf_base (conv_char i) = (prefix, base)" "0 \<notin> set prefix" "2 \<le> unat base" "unat base \<le> 16" for prefix base
      using vprintf_conv_num [OF that] by (simp add: Cons)
    show ?thesis
    proof (cases i)
      case Bin
      with num [of "[48, 98]" 2] assms(1) show ?thesis by (auto simp: Cons vprintf_base_def simp del: foldR.simps)
    next
      case Oct
      with num [of "[48]" 8] assms(1) show ?thesis by (auto simp: Cons vprintf_base_def simp del: foldR.simps)
    next
      case Dec
      with num [of "[]" 10] assms(1) show ?thesis by (auto simp: Cons vprintf_base_def simp del: foldR.simps)
    next
      case Hex
      with num [of "[48, 120]" 16] assms(1) show ?thesis by (auto simp: Cons vprintf_base_def simp del: foldR.simps)
    next
      case Str
      with assms(1) Cons have "strings a = Some out" "as = args'" by auto
      with Str show ?thesis
        using debug_puts_eq [of m a out dev s] assms(3) by (simp add: Cons vprintf_conv_def vprintf_base_def va_arg_def)
    qed (use assms(1,2) in \<open>auto simp: Cons vprintf_conv_def vprintf_base_def va_arg_def bindR_assoc\<close>)
  qed
qed

lemma vprintf_render:
  assumes "\<And>a cs. strings a = Some cs \<Longrightarrow> cstr m a cs \<and> length cs < 2 ^ 64"
    and "cstr m str (fmt_bytes is)" "fmt_ok is" "length (fmt_bytes is) < 2 ^ 64"
    and "render strings is args = Some out"
  shows "vprintf_loop dev m str args s = Some (put_all dev out s)"
  using assms(2-)
proof (induction "is" arbitrary: str args s out)
  case Nil
  then show ?case by (subst vprintf_loop.simps) (simp add: fmt_bytes_def)
next
  case (Cons i "is")
  from Cons.prems(4) obtain o1 args' o2 where o: "item_out strings i args = Some (o1, args')"
    "render strings is args' = Some o2" "out = o1 @ o2"
    by (auto split: option.splits)
  have fb: "fmt_bytes (i # is) = item_bytes i @ fmt_bytes is" by (simp add: fmt_bytes_def)
  have ok: "fmt_ok is" using Cons.prems(2) by (cases "i # is" rule: fmt_ok.cases) auto
  have rest: "cstr m (str + of_nat (length (item_bytes i))) (fmt_bytes is)"
    using Cons.prems(1) by (simp add: fb cstr_append)
  have IH: "vprintf_loop dev m (str + of_nat (length (item_bytes i))) args' s' = Some (put_all dev o2 s')" for s'
    using Cons.IH [OF rest ok _ o(2)] Cons.prems(3) by (simp add: fb)
  have "vprintf_loop dev m str args s =
    (case put_all dev o1 s of Inl e \<Rightarrow> Some (Inl e)
     | Inr s \<Rightarrow> vprintf_loop dev m (str + of_nat (length (item_bytes i))) args' s)"
  proof (cases "\<exists>cs. i = Lit cs")
    case True
    then obtain cs where i: "i = Lit cs" by blast
    have "cs \<noteq> [] \<and> 37 \<notin> set cs" using Cons.prems(2) by (cases "i # is" rule: fmt_ok.cases) (auto simp: i)
    then show ?thesis
      using vprintf_lit [of m str cs "fmt_bytes is" dev args s] Cons.prems(1,2,3) rest o(1) fmt_bytes_next [of cs "is" m] fb unfolding i item_bytes.simps by auto
  next
    case False
    then have "item_bytes i = [37, conv_char i]" by (cases i) auto
    then have "of_nat (length (item_bytes i)) = (2 :: addr)" "m str = 37" "m (str + 1) = conv_char i"
      using Cons.prems(1) by (simp_all add: fb)
    then show ?thesis
      using vprintf_item [OF _ _ vprintf_conv_item [OF o(1) _ assms(1)], of str dev s] False by metis
  qed
  then show ?case using IH by (auto simp: o(3) foldR_append split: sum.splits)
qed

text \<open>
  C19. \<^verbatim>\<open>debug_vprintf\<close> prints what its format says: for a format of literal text and
  the conversions b, o, d, x, c, s and a doubled percent sign, with the arguments they need, it returns (as
  far as the ports do) after printing exactly the literal text and the rendered arguments in
  order, numbers as numerals in the base of the conversion behind its prefix.
\<close>

theorem debug_vprintf_renders:
  assumes "\<And>a cs. strings a = Some cs \<Longrightarrow> cstr m a cs \<and> length cs < 2 ^ 64"
    and "cstr m str (fmt_bytes is)" and "fmt_ok is" and "length (fmt_bytes is) < 2 ^ 64"
    and "render strings is args = Some out"
  shows "debug_vprintf dev m str args s = foldR (debug_putch dev) out s"
  using vprintf_render [OF assms, of dev s] by (simp add: debug_vprintf_def)

definition null_device :: "unit device" where
  "null_device = \<lparr>inb = (\<lambda>_ d. (0xFF, d)), outb = (\<lambda>_ _ d. d), inw = (\<lambda>_ d. (0, d)), outw = (\<lambda>_ _ d. d)\<rparr>"

definition null_console :: "unit console" where
  "null_console = vga_init \<lparr>hw = (), vbuffer = [], vidmem = [], cursor_x = 0, cursor_y = 0, style = 0\<rparr>"

theorem debug_vprintf_renders_witness:
  "debug_vprintf null_device ((\<lambda>_. 0)(0x10 := 97, 0x11 := 37, 0x12 := 120)) 0x10 [0x1F] null_console
     = foldR (debug_putch null_device) [97, 48, 120, 49, 70] null_console"
proof -
  have "num_text 16 31 = [49, 70]" by (simp add: num_text_def digits.simps digit_char_def)
  then show ?thesis
    using debug_vprintf_renders [of Map.empty "(\<lambda>_. 0)(0x10 := 97, 0x11 := 37, 0x12 := 120)" "0x10" "[Lit [97], Hex]" "[0x1F]"
        "[97, 48, 120, 49, 70]" null_device null_console]
    by (simp add: fmt_bytes_def)
qed

text \<open>
  A percent sign at the end of a format makes \<^verbatim>\<open>debug_vprintf\<close> step over the
  terminator: it prints the sign and goes on with the bytes behind the string.
\<close>

theorem debug_vprintf_runs_past_end:
  assumes "cstr m str [37]" and "debug_putch dev 37 s = Inr s'"
  shows "debug_vprintf dev m str args s = debug_vprintf dev m (str + 2) args s'"
proof -
  have "vprintf_conv dev m 0 args s = Inr (args, s')"
    using assms(2) by (simp add: vprintf_conv_def vprintf_base_def)
  then have "vprintf_loop dev m str args s = vprintf_loop dev m (str + 2) args s'"
    using assms(1) by (subst vprintf_loop.simps) simp
  then show ?thesis by (simp add: debug_vprintf_def)
qed

theorem debug_vprintf_runs_past_end_witness:
  "\<exists>s'. debug_putch null_device 37 null_console = Inr s'
     \<and> debug_vprintf null_device ((\<lambda>_. 0)(0x10 := 37, 0x12 := 97)) 0x10 [] null_console
       = debug_vprintf null_device ((\<lambda>_. 0)(0x10 := 37, 0x12 := 97)) 0x12 [] s'"
proof -
  obtain s1 where "vga_printch null_device 37 null_console = Inr s1"
    using vga_printch_shows [of null_console "[]" null_device 37] vga_init_shows unfolding null_console_def by blast
  moreover have "serial_wait null_device PORT_COM1 d = Some d" for d
    by (subst serial_wait.simps) (simp add: null_device_def)
  ultimately have "\<exists>s'. debug_putch null_device 37 null_console = Inr s'"
    by (simp add: debug_putch_def serial_write_def)
  then show ?thesis using debug_vprintf_runs_past_end [of "(\<lambda>_. 0)(0x10 := 37, 0x12 := 97)" "0x10" null_device null_console] by auto
qed

end
