(* ===== verification/Procmm.thy ===== *)
theory Procmm
  imports Vfs KList
begin

text \<open>
  The memory areas of a process: \<^verbatim>\<open>kernel/proc/procmm.c\<close>. A map owns a page table root
  and a list of areas; the list pointers are kept as the C code has them (theory \<open>KList\<close>),
  because \<^verbatim>\<open>procmm_map\<close> uses the insertion macro inside a traversal. Pages come from the
  page allocator and go into the page tables of theory \<open>Vmm\<close>; the state extends the one of
  the file layer by the map and area objects and the link fields of the areas.
\<close>

record procmm_area_t =
  area_start :: addr
  area_end :: addr
  area_flags :: u64
  area_map :: addr

record procmm_mmap_t =
  mm_proc :: addr
  mm_P4 :: addr
  mm_areas :: list_head
  mm_brk :: addr
  mm_stack :: addr

record procmm = fsys +
  mmaps :: "addr \<rightharpoonup> procmm_mmap_t"
  mareas :: "addr \<rightharpoonup> procmm_area_t"
  alinks :: links

section \<open>procmm.c\<close>

text \<open>
  The loop \<^verbatim>\<open>while(p < end) { ...; p += PAGE_SIZE; }\<close>, which does not end when
  \<^verbatim>\<open>end\<close> is in the last page of the address space and every step succeeds.
\<close>

partial_function (option) page_loop :: "(addr \<Rightarrow> 's \<Rightarrow> 's res) \<Rightarrow> addr \<Rightarrow> addr \<Rightarrow> 's \<Rightarrow> 's res option" where
  "page_loop body p e s =
     (if p < e then
        (case body p s of Inl x \<Rightarrow> Some (Inl x) | Inr s \<Rightarrow> page_loop body (p + PAGE_SIZE) e s)
      else Some (Inr s))"

definition while_pages :: "(addr \<Rightarrow> 's \<Rightarrow> 's res) \<Rightarrow> addr \<Rightarrow> addr \<Rightarrow> 's \<Rightarrow> 's res" where
  "while_pages body p e s = (case page_loop body p e s of None \<Rightarrow> Inl Diverges | Some r \<Rightarrow> r)"

definition map_page :: "addr \<Rightarrow> addr \<Rightarrow> 'z vmm_scheme \<Rightarrow> 'z vmm_scheme res" where
  "map_page P4 p s =
     bindR (pmm_alloc s) (\<lambda>(ph, s).
     bindR (vmm_set_page P4 p ph (PAGE_PRESENT OR PAGE_WRITE OR PAGE_USER) s) (\<lambda>(_, s). Inr s))"

definition unmap_page :: "addr \<Rightarrow> addr \<Rightarrow> 'z vmm_scheme \<Rightarrow> 'z vmm_scheme res" where
  "unmap_page P4 p s =
     bindR (vmm_get_page P4 p s) (\<lambda>ph.
     bindR (vmm_set_page P4 p 0 0 (pmm_free ph s)) (\<lambda>(_, s). Inr s))"

text \<open>A list macro applied to the areas of a map.\<close>

definition on_areas :: "addr \<Rightarrow> (klist \<Rightarrow> klist) \<Rightarrow> 'z procmm_scheme \<Rightarrow> 'z procmm_scheme res" where
  "on_areas mp f s =
     bindR (obj (mmaps s) mp) (\<lambda>m.
       let q = f (mm_areas m, alinks s) in
       Inr (s\<lparr>mmaps := (mmaps s)(mp \<mapsto> m\<lparr>mm_areas := fst q\<rparr>), alinks := snd q\<rparr>))"

text \<open>The traversal of \<^verbatim>\<open>procmm_map\<close>; the result says if an area overlaps.\<close>

partial_function (option) map_scan ::
  "addr \<Rightarrow> addr \<Rightarrow> addr \<Rightarrow> addr \<Rightarrow> addr \<Rightarrow> 'z procmm_scheme \<Rightarrow> (bool \<times> 'z procmm_scheme) res option" where
  "map_scan mp a start e ob s =
     (if ob = 0 then Some (Inr (False, s))
      else case obj (mareas s) ob of
        Inl x \<Rightarrow> Some (Inl x)
      | Inr ar \<Rightarrow>
          if \<not> (area_end ar < start \<or> area_start ar > e) then Some (Inr (True, s))
          else if area_start ar > e then
            (case on_areas mp (\<lambda>q. LIST_INSERT_BEFORE q a ob) s of
               Inl x \<Rightarrow> Some (Inl x)
             | Inr s \<Rightarrow> map_scan mp a start e (lnext (alinks s) ob) s)
          else map_scan mp a start e (lnext (alinks s) ob) s)"

definition procmm_map :: "addr \<Rightarrow> addr \<Rightarrow> addr \<Rightarrow> u64 \<Rightarrow> 'z procmm_scheme \<Rightarrow> (addr \<times> 'z procmm_scheme) res" where
  "procmm_map mp start e flags s =
     bindR (new_addr s) (\<lambda>(a, s).
     let s = s\<lparr>mareas := (mareas s)(a \<mapsto> \<lparr>area_start = start, area_end = e, area_flags = flags, area_map = mp\<rparr>),
               alinks := LIST_INIT a (alinks s)\<rparr> in
     bindR (obj (mmaps s) mp) (\<lambda>m.
     bindR (case map_scan mp a start e (LIST_FIRST (mm_areas m)) s of None \<Rightarrow> Inl Diverges | Some r \<Rightarrow> r) (\<lambda>(overlap, s).
     if overlap then bindR (free_obj (mareas s) a) (\<lambda>ars. Inr (0, s\<lparr>mareas := ars\<rparr>))
     else
       bindR (if lnext (alinks s) a = 0 then on_areas mp (\<lambda>q. LIST_APPEND q a) s else Inr s) (\<lambda>s.
       bindR (while_pages (map_page (mm_P4 m)) start e s) (\<lambda>s. Inr (a, s))))))"

definition procmm_unmap :: "addr \<Rightarrow> 'z procmm_scheme \<Rightarrow> 'z procmm_scheme res" where
  "procmm_unmap a s =
     bindR (obj (mareas s) a) (\<lambda>ar.
     bindR (obj (mmaps s) (area_map ar)) (\<lambda>m.
     bindR (while_pages (unmap_page (mm_P4 m)) (area_start ar) (area_end ar) s) (\<lambda>s.
     bindR (on_areas (area_map ar) (\<lambda>q. LIST_REMOVE q a) s) (\<lambda>s.
     bindR (free_obj (mareas s) a) (\<lambda>ars. Inr (s\<lparr>mareas := ars\<rparr>))))))"

text \<open>The copying loop of \<^verbatim>\<open>procmm_new_map\<close> over the areas of the source map.\<close>

partial_function (option) copy_areas :: "addr \<Rightarrow> addr \<Rightarrow> addr \<Rightarrow> 'z procmm_scheme \<Rightarrow> 'z procmm_scheme res option" where
  "copy_areas mp src ob s =
     (if ob = 0 then Some (Inr s)
      else case
        bindR (obj (mareas s) ob) (\<lambda>ar.
        bindR (procmm_map mp (area_start ar) (area_end ar) (area_flags ar) s) (\<lambda>(_, s).
        bindR (obj (mmaps s) mp) (\<lambda>m. bindR (obj (mmaps s) src) (\<lambda>n.
        bindR (vmm_p4_memcpy (mm_P4 m) (area_start ar) (mm_P4 n) (area_start ar) (area_end ar - area_start ar) s) (\<lambda>(_, s).
          Inr s))))) of
        Inl x \<Rightarrow> Some (Inl x)
      | Inr s \<Rightarrow> copy_areas mp src (lnext (alinks s) ob) s)"

definition procmm_new_map :: "addr \<Rightarrow> addr \<Rightarrow> 'z procmm_scheme \<Rightarrow> (addr \<times> 'z procmm_scheme) res" where
  "procmm_new_map proc src s =
     bindR (new_addr s) (\<lambda>(mp, s).
     bindR (vmm_new_P4 s) (\<lambda>(P4, s).
     let s = s\<lparr>mmaps := (mmaps s)(mp \<mapsto> \<lparr>mm_proc = proc, mm_P4 = P4, mm_areas = LIST_HEAD_INIT, mm_brk = 0, mm_stack = 0\<rparr>)\<rparr> in
     if src \<noteq> 0 then
       bindR (obj (mmaps s) src) (\<lambda>n.
       bindR (case copy_areas mp src (LIST_FIRST (mm_areas n)) s of None \<Rightarrow> Inl Diverges | Some r \<Rightarrow> r) (\<lambda>s. Inr (mp, s)))
     else Inr (mp, s)))"

partial_function (option) unmap_areas :: "addr \<Rightarrow> 'z procmm_scheme \<Rightarrow> 'z procmm_scheme res option" where
  "unmap_areas ob s =
     (if ob = 0 then Some (Inr s)
      else
        let next = lnext (alinks s) ob in
        case procmm_unmap ob s of Inl x \<Rightarrow> Some (Inl x) | Inr s \<Rightarrow> unmap_areas next s)"

text \<open>\<^verbatim>\<open>procmm_free_map\<close>, given the map of the process.\<close>

definition procmm_free_map :: "addr \<Rightarrow> 'z procmm_scheme \<Rightarrow> 'z procmm_scheme res" where
  "procmm_free_map mp s =
     bindR (obj (mmaps s) mp) (\<lambda>m.
     bindR (case unmap_areas (LIST_FIRST (mm_areas m)) s of None \<Rightarrow> Inl Diverges | Some r \<Rightarrow> r) (\<lambda>s.
     bindR (obj (mmaps s) mp) (\<lambda>m.
     let s = s\<lparr>mmaps := (mmaps s)(mp \<mapsto> m\<lparr>mm_brk := 0, mm_stack := 0\<rparr>)\<rparr>;
         s = vmm_free_P4 (mm_P4 m) s
     in bindR (free_obj (mmaps s) mp) (\<lambda>ms. Inr (s\<lparr>mmaps := ms\<rparr>)))))"

text \<open>\<^verbatim>\<open>procmm_resize\<close>, given the map of the process. The next area is read without a test.\<close>

definition procmm_resize :: "addr \<Rightarrow> addr \<Rightarrow> u64 \<Rightarrow> 'z procmm_scheme \<Rightarrow> (u64 \<times> 'z procmm_scheme) res" where
  "procmm_resize mp a len s =
     bindR (obj (mmaps s) mp) (\<lambda>m.
     bindR (obj (mareas s) a) (\<lambda>ar.
     let old_len = area_end ar - area_start ar; old_end = area_end ar in
     if old_len < len then
       bindR (obj (mareas s) (lnext (alinks s) a)) (\<lambda>nx.
       let mx = area_start nx;
           mx = (if mx < area_start ar then KERNEL_OFFSET else mx);
           len = (if area_start ar + len > mx then mx - area_start ar else len);
           s = s\<lparr>mareas := (mareas s)(a \<mapsto> ar\<lparr>area_end := area_start ar + len\<rparr>)\<rparr>;
           page = (old_end + PAGE_SIZE) AND NOT (PAGE_SIZE - 1)
       in bindR (while_pages (map_page (mm_P4 m)) page (area_start ar + len) s) (\<lambda>s. Inr (len, s)))
     else Inl (Panic ''Decreasing memory area size'')))"

text \<open>\<^verbatim>\<open>procmm_setup\<close>; the address it returns is cut to an \<^verbatim>\<open>int\<close>.\<close>

definition procmm_setup :: "addr \<Rightarrow> u64 \<Rightarrow> 'z procmm_scheme \<Rightarrow> (int \<times> 'z procmm_scheme) res" where
  "procmm_setup mp brk_size s =
     bindR (obj (mmaps s) mp) (\<lambda>m.
     bindR (obj (mareas s) (hprev (mm_areas m))) (\<lambda>last_a.
     let brk_start = (area_end last_a + PAGE_SIZE) AND NOT (PAGE_SIZE - 1) in
     bindR (procmm_map mp brk_start (brk_start + brk_size) 0 s) (\<lambda>(b, s).
     bindR (obj (mmaps s) mp) (\<lambda>m.
     let s = s\<lparr>mmaps := (mmaps s)(mp \<mapsto> m\<lparr>mm_brk := b\<rparr>)\<rparr> in
     bindR (procmm_map mp USERSPACE_TOP USERSPACE_TOP 0 s) (\<lambda>(st, s).
     bindR (obj (mmaps s) mp) (\<lambda>m.
       Inr (sint (ucast brk_start :: u32), s\<lparr>mmaps := (mmaps s)(mp \<mapsto> m\<lparr>mm_stack := st\<rparr>)\<rparr>)))))))"

text \<open>\<^verbatim>\<open>procmm_page_fault\<close>, given the current map and the faulting address; false is its null result.\<close>

definition procmm_page_fault :: "addr \<Rightarrow> addr \<Rightarrow> 'z procmm_scheme \<Rightarrow> (bool \<times> 'z procmm_scheme) res" where
  "procmm_page_fault mp cr2 s =
     bindR (obj (mmaps s) mp) (\<lambda>m.
     if cr2 \<ge> KERNEL_OFFSET then Inr (False, s)
     else if mm_stack m \<noteq> 0 then
       bindR (obj (mareas s) (mm_stack m)) (\<lambda>st.
       if area_start st \<le> cr2 + PAGE_SIZE then
         let start = area_start st - PAGE_SIZE;
             s = s\<lparr>mareas := (mareas s)(mm_stack m \<mapsto> st\<lparr>area_start := start\<rparr>)\<rparr>
         in bindR (map_page (mm_P4 m) start s) (\<lambda>s. Inr (True, s))
       else Inr (False, s))
     else Inr (False, s))"

section \<open>Page loops\<close>

definition pages :: "addr \<Rightarrow> nat \<Rightarrow> addr list" where
  "pages p n = map (\<lambda>i. p + of_nat (4096 * i)) [0..<n]"

definition npages :: "addr \<Rightarrow> addr \<Rightarrow> nat" where
  "npages p e = (unat e - unat p + 4095) div 4096"

lemma pages_Suc: "pages p (Suc n) = p # pages (p + PAGE_SIZE) n"
proof -
  have "map (\<lambda>i. p + of_nat (4096 * i)) (map Suc [0..<n]) = map (\<lambda>i. p + PAGE_SIZE + of_nat (4096 * i)) [0..<n]"
    by (simp add: algebra_simps)
  then show ?thesis by (simp add: pages_def upt_conv_Cons map_Suc_upt [symmetric] del: upt_Suc)
qed

lemma length_pages [simp]: "length (pages p n) = n"
  by (simp add: pages_def)

lemma page_loop_pages:
  assumes "unat e + 4096 \<le> 2 ^ 64"
  shows "page_loop body p e s = Some (foldR body (pages p (npages p e)) s)"
proof (induction "npages p e" arbitrary: p s)
  case 0
  then have "\<not> p < e" by (auto simp: npages_def word_less_nat_alt)
  moreover have "npages p e = 0" using 0 by simp
  ultimately show ?case by (subst page_loop.simps) (simp add: pages_def)
next
  case (Suc n)
  have lt: "unat p < unat e" using Suc(2) by (auto simp: npages_def intro: ccontr)
  then have u: "unat (p + 0x1000) = unat p + 4096" using assms by (subst unat_add_eq) auto
  have "npages (p + 0x1000) e = n" using Suc(2) lt by (simp add: npages_def u)
  then have "page_loop body (p + 0x1000) e s' = Some (foldR body (pages (p + 0x1000) n) s')" for s'
    using Suc(1) by metis
  then show ?case
    using lt Suc(2) [symmetric] by (subst page_loop.simps) (auto simp: pages_Suc word_less_nat_alt split: sum.splits)
qed

lemma while_pages_eq: "unat e + 4096 \<le> 2 ^ 64 \<Longrightarrow> while_pages body p e s = foldR body (pages p (npages p e)) s"
  by (simp add: while_pages_def page_loop_pages)

section \<open>User addresses\<close>

lemma unat_P_OFFSET_eq:
  "unat (P1_OFFSET a) = unat a div 2 ^ 12 mod 512" "unat (P2_OFFSET a) = unat a div 2 ^ 21 mod 512"
  "unat (P3_OFFSET a) = unat a div 2 ^ 30 mod 512" "unat (P4_OFFSET a) = unat a div 2 ^ 39 mod 512"
  using unat_and_mask [of "drop_bit 12 a" 9] unat_and_mask [of "drop_bit 21 a" 9]
    unat_and_mask [of "drop_bit 30 a" 9] unat_and_mask [of "drop_bit 39 a" 9]
  by (simp_all add: P1_OFFSET_def P2_OFFSET_def P3_OFFSET_def P4_OFFSET_def mask9 unat_drop_bit)

lemma user_P4: "va < USERSPACE_TOP \<Longrightarrow> P4_OFFSET va \<noteq> 511"
proof
  assume "va < USERSPACE_TOP" "P4_OFFSET va = 511"
  then have "unat va < 2 ^ 47" "unat va div 2 ^ 39 mod 512 = 511"
    using unat_P_OFFSET_eq(4) [of va] by (simp_all add: USERSPACE_TOP_def word_less_nat_alt)
  then show False by simp
qed

lemma page_number_split:
  "(u :: nat) < 2 ^ 48 \<Longrightarrow> u div 4096 =
     u div 2 ^ 12 mod 512 + 512 * (u div 2 ^ 21 mod 512) + 512 * 512 * (u div 2 ^ 30 mod 512) + 512 * 512 * 512 * (u div 2 ^ 39 mod 512)"
proof -
  assume u: "u < 2 ^ 48"
  have 1: "u div 2 ^ 21 = u div 2 ^ 12 div 512" "u div 2 ^ 30 = u div 2 ^ 21 div 512" "u div 2 ^ 39 = u div 2 ^ 30 div 512"
    by (simp_all add: div_mult2_eq [symmetric])
  have "u div 2 ^ 39 mod 512 = u div 2 ^ 39" using u by (simp add: less_mult_imp_div_less)
  moreover have "u div 2 ^ 12 = 512 * (u div 2 ^ 21) + u div 2 ^ 12 mod 512"
    "u div 2 ^ 21 = 512 * (u div 2 ^ 30) + u div 2 ^ 21 mod 512" "u div 2 ^ 30 = 512 * (u div 2 ^ 39) + u div 2 ^ 30 mod 512"
    unfolding 1 by simp_all
  ultimately show ?thesis by simp
qed

lemma vkey_user_inject:
  assumes "va < USERSPACE_TOP" "vb < USERSPACE_TOP"
  shows "vkey va = vkey vb \<longleftrightarrow> STRIP_FLAGS va = STRIP_FLAGS vb"
proof
  assume k: "vkey va = vkey vb"
  have u: "unat va < 2 ^ 48" "unat vb < 2 ^ 48" using assms by (simp_all add: USERSPACE_TOP_def word_less_nat_alt)
  have "P1_OFFSET va = P1_OFFSET vb" "P2_OFFSET va = P2_OFFSET vb" "P3_OFFSET va = P3_OFFSET vb" "P4_OFFSET va = P4_OFFSET vb"
    using k by (simp_all add: vkey_def vpath_def)
  then have "unat va div 4096 = unat vb div 4096"
    unfolding page_number_split [OF u(1)] page_number_split [OF u(2)] unat_P_OFFSET_eq [symmetric] by simp
  then show "STRIP_FLAGS va = STRIP_FLAGS vb"
    by (intro unat_inject64) (simp add: unat_STRIP_FLAGS)
qed (rule vkey_STRIP)

lemma unat_page_at:
  "i < n \<Longrightarrow> unat (p :: addr) + 4096 * n < 2 ^ 64 \<Longrightarrow> unat (p + of_nat (4096 * i)) = unat p + 4096 * i"
  by (subst unat_add_eq) (auto simp: unat_of_nat_eq simp del: of_nat_mult)

lemma npages_less: "i < npages p e \<Longrightarrow> unat p + 4096 * i < unat e"
  by (auto simp: npages_def)

lemma pages_user:
  assumes "e \<le> USERSPACE_TOP" "va \<in> set (pages p (npages p e))"
  shows "va < e" and "va < USERSPACE_TOP" and "p \<le> va"
proof -
  obtain i where i: "i < npages p e" "va = p + of_nat (4096 * i)" using assms(2) by (auto simp: pages_def)
  have e: "unat e \<le> 2 ^ 47" using assms(1) by (simp add: USERSPACE_TOP_def word_le_nat_alt)
  have "unat va = unat p + 4096 * i"
    unfolding i(2) using npages_less [OF i(1)] e by (intro unat_page_at [of i "Suc i"]) auto
  then show "va < e" "p \<le> va" using npages_less [OF i(1)] by (simp_all add: word_less_nat_alt word_le_nat_alt)
  then show "va < USERSPACE_TOP" using assms(1) by (rule_tac order_less_le_trans)
qed

lemma distinct_pages:
  assumes "e \<le> USERSPACE_TOP"
  shows "distinct (map vkey (pages p (npages p e)))"
proof -
  have e: "unat e \<le> 2 ^ 47" using assms by (simp add: USERSPACE_TOP_def word_le_nat_alt)
  have "i = j" if "i < npages p e" "j < npages p e" "vkey (p + of_nat (4096 * i)) = vkey (p + of_nat (4096 * j))" for i j
  proof -
    have u: "unat (p + of_nat (4096 * k)) = unat p + 4096 * k" if "k < npages p e" for k
      using npages_less [OF that] e by (intro unat_page_at [of k "Suc k"]) auto
    have "p + of_nat (4096 * k) \<in> set (pages p (npages p e))" if "k < npages p e" for k
      using that by (auto simp: pages_def)
    then have "STRIP_FLAGS (p + of_nat (4096 * i)) = STRIP_FLAGS (p + of_nat (4096 * j))"
      using that vkey_user_inject pages_user(2) [OF assms] by metis
    then have "unat (p + of_nat (4096 * i)) div 4096 = unat (p + of_nat (4096 * j)) div 4096"
      by (metis unat_STRIP_FLAGS div_mult_self_is_m zero_less_numeral)
    then show ?thesis using u that by simp
  qed
  then show ?thesis by (auto simp: distinct_conv_nth pages_def simp del: of_nat_mult)
qed


section \<open>Mapping a run of pages\<close>

abbreviation user_page :: "addr \<Rightarrow> addr" where
  "user_page f \<equiv> ADD_FLAGS (V2P f) 7"

lemma map_page_spec:
  assumes inv: "vmm_inv D (P2V P4) s (f # fs)" and "P4 \<noteq> 0" "vpath p \<in> D" "3 \<le> length fs"
  obtains s' k where "map_page P4 p s = Inr s'" "k \<le> 3" "vmm_inv D (P2V P4) s' (drop k fs)"
    "\<And>va. vpath va \<in> D \<Longrightarrow> pte (kmem s') (P2V P4) va = (if vkey va = vkey p then user_page f else pte (kmem s) (P2V P4) va)"
    "tables D (kmem s') (P2V P4) = tables D (kmem s) (P2V P4) \<union> set (take k fs)" "f \<notin> tables D (kmem s') (P2V P4)"
    "\<And>b. STRIP_FLAGS b \<notin> tables D (kmem s') (P2V P4) \<Longrightarrow> kmem s' b = kmem s b"
    "s' = s\<lparr>kmem := kmem s', pmm_stack := pmm_stack s'\<rparr>"
proof -
  obtain s1 where s1: "pmm_alloc s = Inr (V2P f, s1)" "s1 = s\<lparr>pmm_stack := load64 (kmem s) f\<rparr>" "pmm_inv s1 fs"
    using pmm_alloc_pop [of s f fs] inv by (auto simp: vmm_inv_def)
  then have inv1: "vmm_inv D (P2V P4) s1 fs" using inv by (auto simp: vmm_inv_def)
  have f: "f \<notin> set fs" "f \<notin> tables D (kmem s) (P2V P4)"
    using inv pmm_inv_distinct [of s "f # fs"] by (auto simp: vmm_inv_def)
  obtain s' k where k: "vmm_set_page P4 p (V2P f) 7 s1 = Inr (user_page f, s')" "k \<le> 3"
    "vmm_inv D (P2V P4) s' (drop k fs)"
    "\<And>va. vpath va \<in> D \<Longrightarrow> pte (kmem s') (P2V P4) va = (if vkey va = vkey p then user_page f else pte (kmem s1) (P2V P4) va)"
    "tables D (kmem s') (P2V P4) = tables D (kmem s1) (P2V P4) \<union> set (take k fs)"
    "\<And>b. STRIP_FLAGS b \<notin> tables D (kmem s') (P2V P4) \<Longrightarrow> kmem s' b = kmem s1 b"
    "s' = s1\<lparr>kmem := kmem s', pmm_stack := pmm_stack s'\<rparr>"
    using vmm_set_page_spec [OF inv1 assms(2,3,4)] by blast
  have "s1 = s\<lparr>kmem := kmem s1, pmm_stack := pmm_stack s1\<rparr>" using s1(2) by simp
  from grow_state [OF this k(7)] have "s' = s\<lparr>kmem := kmem s', pmm_stack := pmm_stack s'\<rparr>" .
  moreover have "f \<notin> tables D (kmem s') (P2V P4)" using f k(5) s1(2) by (auto dest: in_set_takeD)
  moreover have "map_page P4 p s = Inr s'" using s1(1) k(1) by (simp add: map_page_def)
  ultimately show thesis using k(2-6) s1(2) by (intro that) auto
qed

text \<open>
  What mapping the pages \<open>ps\<close> does: they get the distinct frames \<open>gs\<close>, taken with the new
  tables from the first \<open>k\<close> free pages; every other page keeps its entry, and memory outside
  the old tables and the taken pages its contents.
\<close>

definition mapped :: "addr list set \<Rightarrow> addr \<Rightarrow> 'z vmm_scheme \<Rightarrow> addr list \<Rightarrow> addr list \<Rightarrow> addr list \<Rightarrow> nat \<Rightarrow> 'z vmm_scheme \<Rightarrow> bool" where
  "mapped D t s fs ps gs k s' \<longleftrightarrow>
     vmm_inv D t s' (drop k fs) \<and> k \<le> 4 * length ps \<and> length gs = length ps \<and> distinct gs
     \<and> set gs \<subseteq> set (take k fs) \<and> set gs \<inter> tables D (kmem s') t = {}
     \<and> tables D (kmem s) t \<subseteq> tables D (kmem s') t \<and> tables D (kmem s') t \<subseteq> tables D (kmem s) t \<union> set (take k fs)
     \<and> (\<forall>va. vpath va \<in> D \<longrightarrow> pte (kmem s') t va =
          (case map_of (zip (map vkey ps) gs) (vkey va) of None \<Rightarrow> pte (kmem s) t va | Some g \<Rightarrow> user_page g))
     \<and> (\<forall>b. STRIP_FLAGS b \<notin> tables D (kmem s) t \<union> set (take k fs) \<longrightarrow> kmem s' b = kmem s b)
     \<and> s' = s\<lparr>kmem := kmem s', pmm_stack := pmm_stack s'\<rparr>"

lemma map_of_zip_None: "length xs = length ys \<Longrightarrow> x \<notin> set xs \<Longrightarrow> map_of (zip xs ys) x = None"
  by (induction xs ys rule: list_induct2) auto

lemma mapped_Cons:
  assumes s1: "k1 \<le> 3" "pt1 = (\<lambda>va. if vkey va = vkey p then user_page f else pte (kmem s) t va)"
    "\<And>va. vpath va \<in> D \<Longrightarrow> pte (kmem s1) t va = pt1 va"
    "tables D (kmem s1) t = tables D (kmem s) t \<union> set (take k1 fs)" "f \<notin> tables D (kmem s1) t"
    "\<And>b. STRIP_FLAGS b \<notin> tables D (kmem s1) t \<Longrightarrow> kmem s1 b = kmem s b"
    "s1 = s\<lparr>kmem := kmem s1, pmm_stack := pmm_stack s1\<rparr>"
    and m: "mapped D t s1 (drop k1 fs) ps gs k s'" and d: "vkey p \<notin> vkey ` set ps" "distinct (f # fs)"
  shows "mapped D t s (f # fs) (p # ps) (f # gs) (Suc (k1 + k)) s'"
proof -
  have tk: "take (Suc (k1 + k)) (f # fs) = f # take k1 fs @ take k (drop k1 fs)" by (simp add: take_add)
  have dk: "drop (Suc (k1 + k)) (f # fs) = drop k (drop k1 fs)" by (simp add: add.commute)
  have fr: "f \<notin> set (take k (drop k1 fs))" using d(2) by (auto dest!: in_set_takeD in_set_dropD)
  have g: "set gs \<subseteq> set (take k (drop k1 fs))" "length gs = length ps" using m by (auto simp: mapped_def)
  have mpte: "pte (kmem s') t va = (case map_of (zip (map vkey ps) gs) (vkey va) of
      None \<Rightarrow> pte (kmem s1) t va | Some g \<Rightarrow> user_page g)" if "vpath va \<in> D" for va
    using m that by (simp add: mapped_def)
  have pte: "pte (kmem s') t va = (case map_of (zip (map vkey (p # ps)) (f # gs)) (vkey va) of
      None \<Rightarrow> pte (kmem s) t va | Some g \<Rightarrow> user_page g)" if va: "vpath va \<in> D" for va
  proof (cases "vkey va = vkey p")
    case True
    then have "map_of (zip (map vkey ps) gs) (vkey va) = None"
      using d(1) g(2) by (intro map_of_zip_None) auto
    then show ?thesis using mpte [OF va] va s1(2,3) True by simp
  next
    case False
    then show ?thesis using mpte [OF va] va s1(2,3) by (simp split: option.splits)
  qed
  have "s' = s1\<lparr>kmem := kmem s', pmm_stack := pmm_stack s'\<rparr>" using m by (simp add: mapped_def)
  note st = grow_state [OF s1(7) this]
  show ?thesis
    unfolding mapped_def tk dk
    using m s1(1,4,5,6) g fr pte st by (auto simp: mapped_def)
qed

lemma map_pages_spec:
  assumes "vmm_inv D (P2V P4) s fs" "P4 \<noteq> 0" "\<And>p. p \<in> set ps \<Longrightarrow> vpath p \<in> D" "distinct (map vkey ps)" "4 * length ps \<le> length fs"
  shows "\<exists>s' gs k. foldR (map_page P4) ps s = Inr s' \<and> mapped D (P2V P4) s fs ps gs k s'"
  using assms
proof (induction ps arbitrary: s fs)
  case Nil
  then have "mapped D (P2V P4) s fs [] [] 0 s" by (simp add: mapped_def)
  then show ?case by auto
next
  case (Cons p ps)
  obtain f fs' where fs: "fs = f # fs'" using Cons.prems(5) by (cases fs) auto
  have l: "3 \<le> length fs'" "4 * length ps + 3 \<le> length fs'" using Cons.prems(5) by (simp_all add: fs)
  obtain s1 k1 where s1: "map_page P4 p s = Inr s1" "k1 \<le> 3" "vmm_inv D (P2V P4) s1 (drop k1 fs')"
    "\<And>va. vpath va \<in> D \<Longrightarrow> pte (kmem s1) (P2V P4) va = (if vkey va = vkey p then user_page f else pte (kmem s) (P2V P4) va)"
    "tables D (kmem s1) (P2V P4) = tables D (kmem s) (P2V P4) \<union> set (take k1 fs')" "f \<notin> tables D (kmem s1) (P2V P4)"
    "\<And>b. STRIP_FLAGS b \<notin> tables D (kmem s1) (P2V P4) \<Longrightarrow> kmem s1 b = kmem s b"
    "s1 = s\<lparr>kmem := kmem s1, pmm_stack := pmm_stack s1\<rparr>"
    using map_page_spec [OF Cons.prems(1) [unfolded fs] Cons.prems(2) Cons.prems(3) [of p] l(1)] by (metis list.set_intros(1))
  obtain s' gs k where s': "foldR (map_page P4) ps s1 = Inr s'" "mapped D (P2V P4) s1 (drop k1 fs') ps gs k s'"
    using Cons.IH [OF s1(3) Cons.prems(2)] Cons.prems(3,4) s1(2) l(2) by fastforce
  have "mapped D (P2V P4) s fs (p # ps) (f # gs) (Suc (k1 + k)) s'"
    unfolding fs using s1 s'(2) Cons.prems(1,4) pmm_inv_distinct [of s fs]
    by (intro mapped_Cons [OF _ refl]) (auto simp: fs vmm_inv_def)
  then show ?case using s1(1) s'(1) by auto
qed

section \<open>Areas of a map\<close>

definition mmap_ok :: "'z procmm_scheme \<Rightarrow> addr \<Rightarrow> procmm_mmap_t \<Rightarrow> addr list \<Rightarrow> addr list \<Rightarrow> bool" where
  "mmap_ok s mp m xs fs \<longleftrightarrow> mp \<noteq> 0 \<and> mmaps s mp = Some m \<and> mm_P4 m \<noteq> 0 \<and> dlist (mm_areas m, alinks s) xs
     \<and> (\<forall>x \<in> set xs. \<exists>ar. mareas s x = Some ar \<and> area_map ar = mp) \<and> vmm_inv user_dom (P2V (mm_P4 m)) s fs"

definition below :: "'z procmm_scheme \<Rightarrow> addr list \<Rightarrow> addr \<Rightarrow> bool" where
  "below s xs start \<longleftrightarrow> (\<forall>x \<in> set xs. \<exists>ar. mareas s x = Some ar \<and> area_start ar \<le> area_end ar \<and> area_end ar < start)"

lemma map_scan_below:
  assumes "seg (alinks s) p (ys @ zs) 0" "below s ys start" "start \<le> e"
  shows "map_scan mp a start e (first0 (ys @ zs) 0) s = map_scan mp a start e (first0 zs 0) s"
  using assms
proof (induction ys arbitrary: p)
  case Nil
  then show ?case by simp
next
  case (Cons y ys)
  obtain ar where ar: "mareas s y = Some ar" "area_start ar \<le> area_end ar" "area_end ar < start"
    using Cons.prems(2) by (auto simp: below_def)
  have y: "y \<noteq> 0" "lnext (alinks s) y = first0 (ys @ zs) 0" "seg (alinks s) y (ys @ zs) 0"
    using Cons.prems(1) by auto
  have "\<not> area_start ar > e" using ar(2,3) assms(3) by (auto simp: word_less_nat_alt word_le_nat_alt)
  then have "map_scan mp a start e y s = map_scan mp a start e (first0 (ys @ zs) 0) s"
    using ar y by (subst map_scan.simps) (simp add: obj_def)
  also have "\<dots> = map_scan mp a start e (first0 zs 0) s"
    using Cons.prems(2,3) y(3) by (intro Cons.IH) (auto simp: below_def)
  finally show ?case by simp
qed

lemma map_scan_end: "map_scan mp a start e 0 s = Some (Inr (False, s))"
  by (subst map_scan.simps) simp

lemma map_scan_overlap:
  "x \<noteq> 0 \<Longrightarrow> mareas s x = Some ar \<Longrightarrow> \<not> (area_end ar < start \<or> area_start ar > e) \<Longrightarrow>
   map_scan mp a start e x s = Some (Inr (True, s))"
  by (subst map_scan.simps) (simp add: obj_def)

lemma dlist_LIST_INIT: "dlist (h, l) xs \<Longrightarrow> a \<notin> set xs \<Longrightarrow> dlist (h, LIST_INIT a l) xs"
  by (auto simp: dlist_def LIST_INIT_def intro: seg_frame [THEN iffD2])

text \<open>The state in which \<^verbatim>\<open>procmm_map\<close> starts its traversal.\<close>

definition add_area :: "addr \<Rightarrow> procmm_area_t \<Rightarrow> addr list \<Rightarrow> 'z procmm_scheme \<Rightarrow> 'z procmm_scheme" where
  "add_area a ar as s = s\<lparr>avail := as, mareas := (mareas s)(a \<mapsto> ar), alinks := LIST_INIT a (alinks s)\<rparr>"

lemma add_area_fields [simp]:
  "kmem (add_area a ar as s) = kmem s" "mmaps (add_area a ar as s) = mmaps s"
  "mareas (add_area a ar as s) = (mareas s)(a \<mapsto> ar)" "alinks (add_area a ar as s) = LIST_INIT a (alinks s)"
  "avail (add_area a ar as s) = as"
  by (simp_all add: add_area_def)

lemma while_map_pages:
  assumes "vmm_inv user_dom (P2V P4) s fs" "P4 \<noteq> 0" "e \<le> USERSPACE_TOP" "4 * npages start e \<le> length fs"
  obtains s' gs k where "while_pages (map_page P4) start e s = Inr s'"
    "mapped user_dom (P2V P4) s fs (pages start (npages start e)) gs k s'"
proof -
  have "unat e + 4096 \<le> 2 ^ 64" using assms(3) by (simp add: USERSPACE_TOP_def word_le_nat_alt)
  then have "while_pages (map_page P4) start e s = foldR (map_page P4) (pages start (npages start e)) s"
    by (rule while_pages_eq)
  moreover have "vpath p \<in> user_dom" if "p \<in> set (pages start (npages start e))" for p
    using pages_user(2) [OF assms(3) that] user_P4 vpath_user by blast
  ultimately show thesis
    using that map_pages_spec [OF assms(1,2) _ distinct_pages [OF assms(3)]] assms(4) by fastforce
qed

text \<open>The pages of an area, read back.\<close>

definition area_mapped :: "addr \<Rightarrow> addr \<Rightarrow> addr \<Rightarrow> addr list \<Rightarrow> 'z vmm_scheme \<Rightarrow> 'y vmm_scheme \<Rightarrow> bool" where
  "area_mapped P4 start e gs s s' \<longleftrightarrow> length gs = npages start e \<and> distinct gs
     \<and> (\<forall>i < npages start e. \<forall>va. va < USERSPACE_TOP \<longrightarrow> STRIP_FLAGS va = STRIP_FLAGS (start + of_nat (4096 * i)) \<longrightarrow>
          vmm_get_page P4 va s' = Inr (user_page (gs ! i)))
     \<and> (\<forall>va. va < USERSPACE_TOP \<longrightarrow> (\<forall>i < npages start e. STRIP_FLAGS va \<noteq> STRIP_FLAGS (start + of_nat (4096 * i))) \<longrightarrow>
          vmm_get_page P4 va s' = vmm_get_page P4 va s)"

lemma mapped_area:
  assumes m: "mapped user_dom (P2V P4) s fs (pages start (npages start e)) gs k s'" and "e \<le> USERSPACE_TOP" "P4 \<noteq> 0"
    and wf: "pt_wf user_dom (kmem s) (P2V P4)"
  shows "area_mapped P4 start e gs s s'"
proof -
  let ?ps = "pages start (npages start e)"
  have wf': "pt_wf user_dom (kmem s') (P2V P4)" using m by (simp add: mapped_def vmm_inv_def)
  have g: "length gs = npages start e" "distinct gs" using m by (auto simp: mapped_def)
  have nth: "?ps ! i = start + of_nat (4096 * i)" if "i < npages start e" for i using that by (simp add: pages_def)
  have pte: "vmm_get_page P4 va s' = (case map_of (zip (map vkey ?ps) gs) (vkey va) of
      None \<Rightarrow> vmm_get_page P4 va s | Some g \<Rightarrow> Inr (user_page g))" if "va < USERSPACE_TOP" for va
  proof -
    have v: "vpath va \<in> user_dom" using vpath_user [OF user_P4 [OF that]] .
    with m have "pte (kmem s') (P2V P4) va = (case map_of (zip (map vkey ?ps) gs) (vkey va) of
      None \<Rightarrow> pte (kmem s) (P2V P4) va | Some g \<Rightarrow> user_page g)" by (simp only: mapped_def)
    then show ?thesis
      unfolding vmm_get_page_pte [OF wf v assms(3)] vmm_get_page_pte [OF wf' v assms(3)]
      by (cases "map_of (zip (map vkey ?ps) gs) (vkey va)") simp_all
  qed
  have key: "vkey va = vkey (?ps ! i) \<longleftrightarrow> STRIP_FLAGS va = STRIP_FLAGS (start + of_nat (4096 * i))"
    if "va < USERSPACE_TOP" "i < npages start e" for va i
    using vkey_user_inject [OF that(1) pages_user(2) [OF assms(2) nth_mem, where p = start, of i]] that(2) by (simp add: nth del: of_nat_mult)
  have "vmm_get_page P4 va s' = Inr (user_page (gs ! i))"
    if "i < npages start e" "va < USERSPACE_TOP" "STRIP_FLAGS va = STRIP_FLAGS (start + of_nat (4096 * i))" for va i
  proof -
    have "vkey va = map vkey ?ps ! i" using key [OF that(2,1)] that(1,3) by simp
    then have "map_of (zip (map vkey ?ps) gs) (vkey va) = Some (gs ! i)"
      using map_of_zip_nth [of "map vkey ?ps" gs i] distinct_pages [OF assms(2)] g(1) that(1) by simp
    then show ?thesis using pte [OF that(2)] by simp
  qed
  moreover have "vmm_get_page P4 va s' = vmm_get_page P4 va s"
    if "va < USERSPACE_TOP" "\<And>i. i < npages start e \<Longrightarrow> STRIP_FLAGS va \<noteq> STRIP_FLAGS (start + of_nat (4096 * i))" for va
  proof -
    have "vkey va \<notin> set (map vkey ?ps)" using that key by (auto simp: in_set_conv_nth)
    then have "map_of (zip (map vkey ?ps) gs) (vkey va) = None" using g(1) by (intro map_of_zip_None) auto
    then show ?thesis using pte [OF that(1)] by simp
  qed
  ultimately show ?thesis using g by (simp add: area_mapped_def)
qed

text \<open>An aligned area is covered by the pages that are mapped.\<close>

lemma area_covered:
  assumes "page_aligned start" "start \<le> va" "va < e" "e \<le> USERSPACE_TOP"
  shows "\<exists>i < npages start e. STRIP_FLAGS va = STRIP_FLAGS (start + of_nat (4096 * i))"
proof -
  obtain c where c: "unat start = 4096 * c" using assms(1) by (auto simp: page_aligned_unat elim!: dvdE)
  define i where "i = unat va div 4096 - c"
  have u: "4096 * c \<le> unat va" "unat va < unat e" "unat e \<le> 2 ^ 47"
    using assms c by (simp_all add: word_less_nat_alt word_le_nat_alt USERSPACE_TOP_def)
  then have i: "c + i = unat va div 4096" by (simp add: i_def less_eq_div_iff_mult_less_eq mult.commute)
  then have "unat va = 4096 * (c + i) + unat va mod 4096" by simp
  then have "i < npages start e" using u c unfolding npages_def by simp
  moreover have "unat (start + of_nat (4096 * i)) = 4096 * (c + i)"
    using unat_page_at [of i "Suc i" start] c i u by simp
  then have "unat (STRIP_FLAGS (start + of_nat (4096 * i))) = unat (STRIP_FLAGS va)" using i by (simp add: unat_STRIP_FLAGS)
  ultimately show ?thesis by (metis unat_inject64)
qed


lemma vmm_get_page_kmem:
  assumes "kmem (s' :: 'y vmm_scheme) = kmem (s :: 'z vmm_scheme)" "P4 \<noteq> 0"
  shows "vmm_get_page P4 va s' = vmm_get_page P4 va s"
  using assms by (simp add: vmm_get_page_def vmm_find_page_no_touch)

lemma area_mapped_kmem: "kmem s0 = kmem s \<Longrightarrow> P4 \<noteq> 0 \<Longrightarrow> area_mapped P4 start e gs s0 s' = area_mapped P4 start e gs s s'"
  by (simp add: area_mapped_def vmm_get_page_kmem [of s0 s])

lemma procmm_map_run:
  assumes ok: "mmap_ok s mp m xs fs" and a: "avail s = a # as" "a \<noteq> 0" "a \<notin> set xs"
    and b: "below s xs start" and e: "start \<le> e" "e \<le> USERSPACE_TOP" and fs: "4 * npages start e \<le> length fs"
  obtains s' m' s2 gs k where "procmm_map mp start e flags s = Inr (a, s')" "mmap_ok s' mp m' (xs @ [a]) (drop k fs)"
    "mm_P4 m' = mm_P4 m" "mareas s' = (mareas s)(a \<mapsto> \<lparr>area_start = start, area_end = e, area_flags = flags, area_map = mp\<rparr>)"
    "avail s' = as" "kmem s2 = kmem s" "mapped user_dom (P2V (mm_P4 m)) s2 fs (pages start (npages start e)) gs k s'"
    "BootP4 s' = BootP4 s" "procmm.more s' = procmm.more s" "m' = m\<lparr>mm_areas := mm_areas m'\<rparr>"
proof -
  let ?ar = "\<lparr>area_start = start, area_end = e, area_flags = flags, area_map = mp\<rparr>" and ?P4 = "mm_P4 m"
  define s1 where "s1 = add_area a ?ar as s"
  define m' where "m' = m\<lparr>mm_areas := fst (LIST_APPEND (mm_areas m, alinks s1) a)\<rparr>"
  define s2 where "s2 = s1\<lparr>mmaps := (mmaps s1)(mp \<mapsto> m'), alinks := snd (LIST_APPEND (mm_areas m, alinks s1) a)\<rparr>"
  have M: "mp \<noteq> 0" "mmaps s mp = Some m" "?P4 \<noteq> 0" and D: "dlist (mm_areas m, alinks s) xs"
    and V: "vmm_inv user_dom (P2V ?P4) s fs" and AR: "\<forall>x \<in> set xs. \<exists>ar. mareas s x = Some ar \<and> area_map ar = mp"
    using ok by (auto simp: mmap_ok_def)
  have D1: "dlist (mm_areas m, alinks s1) xs" using dlist_LIST_INIT [OF D a(3)] by (simp add: s1_def)
  have b1: "below s1 xs start" using b a(3) by (auto simp: below_def s1_def)
  have "map_scan mp a start e (LIST_FIRST (mm_areas m)) s1 = Some (Inr (False, s1))"
    using map_scan_below [of s1 0 xs "[]" start e mp a] D1 b1 e(1) by (simp add: dlist_def LIST_FIRST_def map_scan_end)
  moreover have "lnext (alinks s1) a = 0" by (simp add: s1_def LIST_INIT_def)
  moreover have "on_areas mp (\<lambda>q. LIST_APPEND q a) s1 = Inr s2"
    using M by (simp add: on_areas_def s2_def m'_def s1_def Let_def)
  moreover have V2: "vmm_inv user_dom (P2V ?P4) s2 fs"
    using V by (simp add: vmm_inv_def pmm_inv_def s2_def s1_def add_area_def)
  moreover obtain s' gs k where w: "while_pages (map_page ?P4) start e s2 = Inr s'"
    and mp: "mapped user_dom (P2V ?P4) s2 fs (pages start (npages start e)) gs k s'"
    using while_map_pages [of ?P4 s2 fs e start] V2 M(3) e(2) fs by blast
  ultimately have run: "procmm_map mp start e flags s = Inr (a, s')"
    using M a(1) by (simp add: procmm_map_def new_addr_def s1_def add_area_def)
  have st: "s' = s2\<lparr>kmem := kmem s', pmm_stack := pmm_stack s'\<rparr>" using mp by (simp add: mapped_def)
  have fld: "mmaps s' = mmaps s2" "mareas s' = mareas s2" "alinks s' = alinks s2" "avail s' = as" "BootP4 s' = BootP4 s" "procmm.more s' = procmm.more s"
    by (subst st, simp add: s2_def s1_def add_area_def)+
  have "dlist (mm_areas m', alinks s2) (xs @ [a])"
    using klist.abs_append [OF D1 a(2,3)] by (simp add: m'_def s2_def)
  then have "mmap_ok s' mp m' (xs @ [a]) (drop k fs)"
    using M AR mp by (auto simp: mmap_ok_def fld mapped_def s2_def s1_def m'_def)
  moreover have "kmem s2 = kmem s" "mm_P4 m' = ?P4" by (simp_all add: s2_def s1_def m'_def)
  moreover have "m' = m\<lparr>mm_areas := mm_areas m'\<rparr>" by (simp add: m'_def)
  ultimately show thesis using that [OF run _ _ _ _ _ mp] by (simp add: fld s2_def s1_def)
qed

text \<open>
  C21. \<^verbatim>\<open>procmm_map\<close> of an area above all others: with enough free pages it appends the new
  area to the list, maps a page of its own to every address from the start in steps of a page,
  leaves every other user page of the process and every other area alone and keeps the tables well
  formed; when the start is page aligned, every byte of the area is mapped.
\<close>

theorem procmm_map_maps:
  assumes ok: "mmap_ok s mp m xs fs" and a: "avail s = a # as" "a \<noteq> 0" "a \<notin> set xs"
    and b: "below s xs start" and e: "start \<le> e" "e \<le> USERSPACE_TOP" and fs: "4 * npages start e \<le> length fs"
  shows "\<exists>s' m' gs k. procmm_map mp start e flags s = Inr (a, s') \<and> mmap_ok s' mp m' (xs @ [a]) (drop k fs)
    \<and> mareas s' = (mareas s)(a \<mapsto> \<lparr>area_start = start, area_end = e, area_flags = flags, area_map = mp\<rparr>) \<and> avail s' = as
    \<and> set gs \<subseteq> set fs \<and> area_mapped (mm_P4 m) start e gs s s'
    \<and> (page_aligned start \<longrightarrow> (\<forall>va. start \<le> va \<longrightarrow> va < e \<longrightarrow> (\<exists>g \<in> set gs. vmm_get_page (mm_P4 m) va s' = Inr (user_page g))))"
proof -
  let ?P4 = "mm_P4 m"
  obtain s' m' s2 gs k where r: "procmm_map mp start e flags s = Inr (a, s')" "mmap_ok s' mp m' (xs @ [a]) (drop k fs)"
    "mareas s' = (mareas s)(a \<mapsto> \<lparr>area_start = start, area_end = e, area_flags = flags, area_map = mp\<rparr>)" "avail s' = as"
    and k2: "kmem s2 = kmem s" and mp: "mapped user_dom (P2V ?P4) s2 fs (pages start (npages start e)) gs k s'"
    using procmm_map_run [OF assms, of flags] by metis
  have M: "?P4 \<noteq> 0" "pt_wf user_dom (kmem s2) (P2V ?P4)" using ok k2 by (simp_all add: mmap_ok_def vmm_inv_def)
  have am: "area_mapped ?P4 start e gs s s'"
    using mapped_area [OF mp e(2) M] unfolding area_mapped_kmem [OF k2 M(1)] .
  have "\<exists>g \<in> set gs. vmm_get_page ?P4 va s' = Inr (user_page g)"
    if al: "page_aligned start" "start \<le> va" "va < e" for va
  proof -
    obtain i where i: "i < npages start e" "STRIP_FLAGS va = STRIP_FLAGS (start + of_nat (4096 * i))"
      using area_covered [OF al e(2)] by blast
    have "vmm_get_page ?P4 va s' = Inr (user_page (gs ! i))" "length gs = npages start e"
      using am i order_less_le_trans [OF al(3) e(2)] unfolding area_mapped_def by blast+
    then show ?thesis using i(1) by (metis nth_mem)
  qed
  moreover have "set gs \<subseteq> set fs" using mp by (auto simp: mapped_def dest: in_set_takeD)
  ultimately show ?thesis using r am by blast
qed

text \<open>
  \<^verbatim>\<open>procmm_map\<close> refuses an area that overlaps another: when the first area that does not
  lie below the new one overlaps it, the call returns the null pointer, and maps, areas, page
  tables and free pages are as before.
\<close>

theorem procmm_map_overlap:
  assumes ok: "mmap_ok s mp m (ys @ x # zs) fs" and a: "avail s = a # as" "KERNEL_HEAP_S \<le> a" "a \<notin> set (ys @ x # zs)"
    and b: "below s ys start" "start \<le> e"
    and x: "mareas s x = Some ar" "start \<le> area_end ar" "area_start ar \<le> e"
  shows "\<exists>s'. procmm_map mp start e flags s = Inr (0, s') \<and> kmem s' = kmem s \<and> mmaps s' = mmaps s
    \<and> mareas s' = (mareas s)(a := None) \<and> mmap_ok s' mp m (ys @ x # zs) fs"
proof -
  let ?ar = "\<lparr>area_start = start, area_end = e, area_flags = flags, area_map = mp\<rparr>"
  define s1 where "s1 = add_area a ?ar as s"
  have M: "mp \<noteq> 0" "mmaps s mp = Some m" and D: "dlist (mm_areas m, alinks s) (ys @ x # zs)" using ok by (auto simp: mmap_ok_def)
  have D1: "dlist (mm_areas m, alinks s1) (ys @ x # zs)" using dlist_LIST_INIT [OF D a(3)] by (simp add: s1_def)
  have "x \<noteq> 0" using dlist_nonzero [OF D] by auto
  moreover have "mareas s1 x = Some ar" using x(1) a(3) by (auto simp: s1_def)
  ultimately have "map_scan mp a start e x s1 = Some (Inr (True, s1))"
    using x(2,3) by (intro map_scan_overlap) (auto simp: not_less)
  moreover have "below s1 ys start" using b(1) a(3) by (auto simp: below_def s1_def)
  ultimately have "map_scan mp a start e (LIST_FIRST (mm_areas m)) s1 = Some (Inr (True, s1))"
    using map_scan_below [of s1 0 ys "x # zs" start e mp a] D1 b(2) by (simp add: dlist_def LIST_FIRST_def)
  moreover have "free_obj (mareas s1) a = Inr ((mareas s)(a := None))"
    using a(2) by (simp add: free_obj_def s1_def not_le [symmetric])
  ultimately have "procmm_map mp start e flags s = Inr (0, s1\<lparr>mareas := (mareas s)(a := None)\<rparr>)"
    using M a(1) by (simp add: procmm_map_def new_addr_def s1_def add_area_def)
  moreover have "mmap_ok (s1\<lparr>mareas := (mareas s)(a := None)\<rparr>) mp m (ys @ x # zs) fs"
  proof -
    have "\<forall>y \<in> set (ys @ x # zs). \<exists>ar. ((mareas s)(a := None)) y = Some ar \<and> area_map ar = mp"
      using ok a(3) unfolding mmap_ok_def by (metis fun_upd_other)
    moreover have "vmm_inv user_dom (P2V (mm_P4 m)) s1 fs"
      using ok by (simp add: mmap_ok_def vmm_inv_def pmm_inv_def s1_def add_area_def)
    ultimately show ?thesis using ok D1 by (simp add: mmap_ok_def vmm_inv_def pmm_inv_def s1_def add_area_def)
  qed
  ultimately show ?thesis by (auto simp: s1_def)
qed

definition example_procmm :: procmm where
  "example_procmm = \<lparr>kmem = kmem example_vmm, pmm_running = True, pmm_pos = 0, pmm_stack = pmm_stack example_vmm,
     BootP4 = BootP4 example_vmm, cr3 = 0, files = Map.empty, pipes = Map.empty, mountpoints = [],
     avail = [KERNEL_HEAP_S + 64, KERNEL_HEAP_S + 128, KERNEL_HEAP_S + 192],
     mmaps = [KERNEL_HEAP_S \<mapsto> \<lparr>mm_proc = 0, mm_P4 = 0x4000, mm_areas = LIST_HEAD_INIT, mm_brk = 0, mm_stack = KERNEL_HEAP_S + 64\<rparr>],
     mareas = Map.empty, alinks = \<lparr>lprev = (\<lambda>_. 0), lnext = (\<lambda>_. 0)\<rparr>\<rparr>"

abbreviation example_mmap :: procmm_mmap_t where
  "example_mmap \<equiv> \<lparr>mm_proc = 0, mm_P4 = 0x4000, mm_areas = LIST_HEAD_INIT, mm_brk = 0, mm_stack = KERNEL_HEAP_S + 64\<rparr>"

lemma example_procmm_ok: "mmap_ok example_procmm KERNEL_HEAP_S example_mmap [] example_frames"
proof -
  have "KERNEL_HEAP_S \<noteq> 0" by (simp add: KERNEL_HEAP_S_def)
  moreover have "vmm_inv user_dom (P2V 0x4000) example_procmm example_frames"
    using example_vmm_inv(1) by (simp add: vmm_inv_def pmm_inv_def example_procmm_def)
  ultimately show ?thesis using dlist_empty by (simp add: mmap_ok_def example_procmm_def)
qed


lemma example_area_hyps:
  "below example_procmm [] 0x400000" "(0x400000 :: addr) \<le> 0x400800" "0x400800 \<le> USERSPACE_TOP"
  "4 * npages 0x400000 0x400800 \<le> length example_frames" "page_aligned 0x400000" "(0x400000 :: addr) \<le> 0x400123" "(0x400123 :: addr) < 0x400800"
  "avail example_procmm = (KERNEL_HEAP_S + 64) # [KERNEL_HEAP_S + 128, KERNEL_HEAP_S + 192]" "KERNEL_HEAP_S + 64 \<noteq> 0" "KERNEL_HEAP_S + 64 \<notin> set []"
  by (simp_all add: below_def npages_def USERSPACE_TOP_def page_aligned_def word_le_nat_alt word_less_nat_alt example_frames_def
      example_procmm_def KERNEL_HEAP_S_def)

theorem procmm_map_maps_witness:
  "\<exists>s' g. procmm_map KERNEL_HEAP_S 0x400000 0x400800 0 example_procmm = Inr (KERNEL_HEAP_S + 64, s')
     \<and> vmm_get_page 0x4000 0x400123 s' = Inr (user_page g)"
proof -
  note h = example_area_hyps
  obtain s' gs where s': "procmm_map KERNEL_HEAP_S 0x400000 0x400800 0 example_procmm = Inr (KERNEL_HEAP_S + 64, s')"
    "\<And>va. 0x400000 \<le> va \<Longrightarrow> va < 0x400800 \<Longrightarrow> \<exists>g \<in> set gs. vmm_get_page (mm_P4 example_mmap) va s' = Inr (user_page g)"
    using procmm_map_maps [OF example_procmm_ok h(8,9,10,1,2,3,4), of 0] h(5) by blast
  obtain g where "vmm_get_page 0x4000 0x400123 s' = Inr (user_page g)" using s'(2) [OF h(6,7)] by auto
  with s'(1) show ?thesis by blast
qed

theorem procmm_map_overlap_witness:
  "\<exists>s s'. procmm_map KERNEL_HEAP_S 0x400000 0x400800 0 example_procmm = Inr (KERNEL_HEAP_S + 64, s)
     \<and> procmm_map KERNEL_HEAP_S 0x400400 0x401000 0 s = Inr (0, s') \<and> kmem s' = kmem s"
proof -
  note h = example_area_hyps
  obtain s m' k where s: "procmm_map KERNEL_HEAP_S 0x400000 0x400800 0 example_procmm = Inr (KERNEL_HEAP_S + 64, s)"
    "mmap_ok s KERNEL_HEAP_S m' ([] @ (KERNEL_HEAP_S + 64) # []) (drop k example_frames)"
    "mareas s = (mareas example_procmm)(KERNEL_HEAP_S + 64 \<mapsto> \<lparr>area_start = 0x400000, area_end = 0x400800, area_flags = 0, area_map = KERNEL_HEAP_S\<rparr>)"
    "avail s = [KERNEL_HEAP_S + 128, KERNEL_HEAP_S + 192]"
    using procmm_map_maps [OF example_procmm_ok h(8,9,10,1,2,3,4), of 0] unfolding append_Nil by blast
  have "KERNEL_HEAP_S \<le> KERNEL_HEAP_S + 128" "KERNEL_HEAP_S + 128 \<noteq> KERNEL_HEAP_S + 64" "(0x400400 :: addr) \<le> 0x400800" "(0x400400 :: addr) \<le> 0x401000"
    "(0x400000 :: addr) \<le> 0x401000"
    by (simp_all add: KERNEL_HEAP_S_def word_le_nat_alt)
  then show ?thesis
    using procmm_map_overlap [OF s(2) s(4), of "0x400400" "0x401000" _ 0] s(1,3) by (auto simp: below_def)
qed

section \<open>Page faults\<close>

lemma mmap_ok_areas:
  assumes "mmap_ok s mp m xs fs" "mareas s x = Some ar" "area_map ar' = area_map ar"
  shows "mmap_ok (s\<lparr>mareas := (mareas s)(x \<mapsto> ar')\<rparr>) mp m xs fs"
  using assms by (auto simp: mmap_ok_def vmm_inv_def pmm_inv_def)

lemma mmap_ok_pages:
  assumes "mmap_ok s mp m xs fs" "vmm_inv user_dom (P2V (mm_P4 m)) s' fs'" "s' = s\<lparr>kmem := kmem s', pmm_stack := pmm_stack s'\<rparr>"
  shows "mmap_ok s' mp m xs fs'"
proof -
  have "mmaps s' = mmaps s" "mareas s' = mareas s" "alinks s' = alinks s" by (subst assms(3), simp)+
  with assms(1,2) show ?thesis by (simp add: mmap_ok_def)
qed

lemma page_below:
  fixes start :: addr
  assumes "PAGE_SIZE \<le> start" "start \<le> USERSPACE_TOP"
  shows "unat (start - PAGE_SIZE) = unat start - 4096" and "start - PAGE_SIZE < USERSPACE_TOP"
  using assms by (simp_all add: unat_sub word_le_nat_alt word_less_nat_alt USERSPACE_TOP_def)

lemma page_fault_step:
  assumes ok: "mmap_ok s mp m xs fs" and st: "mm_stack m \<noteq> 0" "mareas s (mm_stack m) = Some ar"
    and start: "PAGE_SIZE \<le> area_start ar" "area_start ar \<le> USERSPACE_TOP" and fs: "fs = f # fs'" "3 \<le> length fs'"
    and "\<not> (cr2 \<ge> KERNEL_OFFSET \<or> cr2 + PAGE_SIZE < area_start ar)"
  shows "\<exists>s' k. procmm_page_fault mp cr2 s = Inr (True, s') \<and> mmap_ok s' mp m xs (drop k fs)
      \<and> mareas s' = (mareas s)(mm_stack m \<mapsto> ar\<lparr>area_start := area_start ar - PAGE_SIZE\<rparr>)
      \<and> (\<forall>va. va < USERSPACE_TOP \<longrightarrow> vmm_get_page (mm_P4 m) va s' =
           (if STRIP_FLAGS va = STRIP_FLAGS (area_start ar - PAGE_SIZE) then Inr (user_page f) else vmm_get_page (mm_P4 m) va s))"
proof -
  let ?p = "area_start ar - PAGE_SIZE" and ?P4 = "mm_P4 m"
  define s1 where "s1 = s\<lparr>mareas := (mareas s)(mm_stack m \<mapsto> ar\<lparr>area_start := ?p\<rparr>)\<rparr>"
  have M: "mp \<noteq> 0" "mmaps s mp = Some m" "?P4 \<noteq> 0" using ok by (auto simp: mmap_ok_def)
  have ok1: "mmap_ok s1 mp m xs fs" unfolding s1_def by (rule mmap_ok_areas [OF ok st(2)]) simp
  have V1: "vmm_inv user_dom (P2V ?P4) s1 (f # fs')" using ok1 fs by (simp add: mmap_ok_def)
  have p: "?p < USERSPACE_TOP" by (rule page_below [OF start])
  obtain s' k where k: "map_page ?P4 ?p s1 = Inr s'" "k \<le> 3" "vmm_inv user_dom (P2V ?P4) s' (drop k fs')"
    "\<And>va. vpath va \<in> user_dom \<Longrightarrow> pte (kmem s') (P2V ?P4) va = (if vkey va = vkey ?p then user_page f else pte (kmem s1) (P2V ?P4) va)"
    "s' = s1\<lparr>kmem := kmem s', pmm_stack := pmm_stack s'\<rparr>"
    using map_page_spec [OF V1 M(3) vpath_user [OF user_P4 [OF p]] fs(2)] by metis
  have "procmm_page_fault mp cr2 s = Inr (True, s')"
    using assms(8) M st k(1) by (simp add: procmm_page_fault_def Let_def s1_def not_le not_less)
  moreover have "mareas s' = mareas s1" by (subst k(5)) simp
  moreover have "mmap_ok s' mp m xs (drop (Suc k) fs)" using mmap_ok_pages [OF ok1 _ k(5)] k(3) fs by simp
  moreover have "vmm_get_page ?P4 va s' = (if STRIP_FLAGS va = STRIP_FLAGS ?p then Inr (user_page f) else vmm_get_page ?P4 va s)"
    if "va < USERSPACE_TOP" for va
  proof -
    have v: "vpath va \<in> user_dom" by (rule vpath_user [OF user_P4 [OF that]])
    have wf: "pt_wf user_dom (kmem s) (P2V ?P4)" "pt_wf user_dom (kmem s') (P2V ?P4)"
      using ok k(3) by (auto simp: mmap_ok_def vmm_inv_def)
    have "kmem s1 = kmem s" by (simp add: s1_def)
    then show ?thesis
      using vmm_get_page_pte [OF wf(1) v M(3)] vmm_get_page_pte [OF wf(2) v M(3)] k(4) [OF v] vkey_user_inject [OF that p] by simp
  qed
  ultimately show ?thesis by (auto simp: s1_def)
qed


text \<open>
  \<^verbatim>\<open>procmm_page_fault\<close> leaves faults at kernel addresses and faults more than a page
  below the stack area alone; otherwise it moves the start of the stack area down by a page and maps
  exactly the page at the new start to a free frame, so that a fault in the page below an aligned
  stack is resolved.
\<close>

theorem procmm_page_fault_grows:
  assumes ok: "mmap_ok s mp m xs fs" and st: "mm_stack m \<noteq> 0" "mareas s (mm_stack m) = Some ar"
    and start: "PAGE_SIZE \<le> area_start ar" "area_start ar \<le> USERSPACE_TOP" and fs: "fs = f # fs'" "3 \<le> length fs'"
  shows "if cr2 \<ge> KERNEL_OFFSET \<or> cr2 + PAGE_SIZE < area_start ar then procmm_page_fault mp cr2 s = Inr (False, s)
    else \<exists>s' k. procmm_page_fault mp cr2 s = Inr (True, s') \<and> mmap_ok s' mp m xs (drop k fs)
      \<and> mareas s' = (mareas s)(mm_stack m \<mapsto> ar\<lparr>area_start := area_start ar - PAGE_SIZE\<rparr>)
      \<and> (\<forall>va. va < USERSPACE_TOP \<longrightarrow> vmm_get_page (mm_P4 m) va s' =
           (if STRIP_FLAGS va = STRIP_FLAGS (area_start ar - PAGE_SIZE) then Inr (user_page f) else vmm_get_page (mm_P4 m) va s))"
proof (cases "cr2 \<ge> KERNEL_OFFSET \<or> cr2 + PAGE_SIZE < area_start ar")
  case True
  then show ?thesis using ok st by (auto simp: procmm_page_fault_def mmap_ok_def obj_def)
next
  case False
  from page_fault_step [OF assms False] False show ?thesis by simp
qed

definition example_stack :: procmm where
  "example_stack = example_procmm\<lparr>mareas := [KERNEL_HEAP_S + 64 \<mapsto>
     \<lparr>area_start = USERSPACE_TOP, area_end = USERSPACE_TOP, area_flags = 0, area_map = KERNEL_HEAP_S\<rparr>]\<rparr>"

lemma example_stack_facts:
  "mmap_ok example_stack KERNEL_HEAP_S example_mmap [] example_frames" "mm_stack example_mmap \<noteq> 0"
  "mareas example_stack (mm_stack example_mmap) = Some \<lparr>area_start = USERSPACE_TOP, area_end = USERSPACE_TOP, area_flags = 0, area_map = KERNEL_HEAP_S\<rparr>"
  "PAGE_SIZE \<le> USERSPACE_TOP" "USERSPACE_TOP \<le> USERSPACE_TOP" "example_frames = hd example_frames # tl example_frames" "3 \<le> length (tl example_frames)"
proof -
  show "mmap_ok example_stack KERNEL_HEAP_S example_mmap [] example_frames"
    using example_procmm_ok by (simp add: mmap_ok_def vmm_inv_def pmm_inv_def example_stack_def)
qed (simp_all add: example_stack_def USERSPACE_TOP_def KERNEL_HEAP_S_def example_frames_def word_le_nat_alt)

theorem procmm_page_fault_grows_witness:
  "\<exists>s'. procmm_page_fault KERNEL_HEAP_S (USERSPACE_TOP - 8) example_stack = Inr (True, s')
     \<and> vmm_get_page 0x4000 (USERSPACE_TOP - 8) s' = Inr (user_page (hd example_frames))"
proof -
  note h = example_stack_facts
  have c: "\<not> (KERNEL_OFFSET \<le> USERSPACE_TOP - 8 \<or> USERSPACE_TOP - 8 + PAGE_SIZE < USERSPACE_TOP)" "USERSPACE_TOP - 8 < USERSPACE_TOP"
    "STRIP_FLAGS (USERSPACE_TOP - 8) = STRIP_FLAGS (USERSPACE_TOP - PAGE_SIZE)"
    by (simp_all add: KERNEL_OFFSET_def USERSPACE_TOP_def STRIP_FLAGS_def word_le_nat_alt word_less_nat_alt)
  show ?thesis
    using procmm_page_fault_grows [OF h(1,2,3) _ _ h(6,7), of "USERSPACE_TOP - 8"] h(4,5) c by auto
qed

text \<open>
  A fault at an address above the stack area, such as a missing page there, is reported as handled although
  nothing is done about it: the page of the faulting address stays as it was, and every
  repetition of the fault takes another page.
\<close>

theorem procmm_page_fault_above_stack:
  assumes ok: "mmap_ok s mp m xs (f # fs)" and st: "mm_stack m \<noteq> 0" "mareas s (mm_stack m) = Some ar"
    and start: "PAGE_SIZE \<le> area_start ar" "page_aligned (area_start ar)" and fs: "3 \<le> length fs"
    and cr2: "area_start ar \<le> cr2" "cr2 < USERSPACE_TOP"
  shows "\<exists>s'. procmm_page_fault mp cr2 s = Inr (True, s') \<and> vmm_get_page (mm_P4 m) cr2 s' = vmm_get_page (mm_P4 m) cr2 s
    \<and> mareas s' = (mareas s)(mm_stack m \<mapsto> ar\<lparr>area_start := area_start ar - PAGE_SIZE\<rparr>)"
proof -
  have u: "unat (area_start ar) \<le> unat cr2" "unat cr2 < 2 ^ 47" "4096 \<le> unat (area_start ar)"
    using cr2 start(1) by (simp_all add: word_le_nat_alt word_less_nat_alt USERSPACE_TOP_def)
  then have le: "area_start ar \<le> USERSPACE_TOP" by (simp add: word_le_nat_alt USERSPACE_TOP_def)
  have c: "\<not> (cr2 \<ge> KERNEL_OFFSET \<or> cr2 + PAGE_SIZE < area_start ar)"
    using u unat_add_eq [of cr2 PAGE_SIZE] by (simp add: word_le_nat_alt word_less_nat_alt KERNEL_OFFSET_def)
  have "unat (area_start ar - PAGE_SIZE) = unat (area_start ar) - 4096" by (rule page_below(1) [OF start(1) le])
  moreover obtain q where "unat (area_start ar) = 4096 * q" using start(2) by (auto simp: page_aligned_unat)
  ultimately have "unat (STRIP_FLAGS (area_start ar - PAGE_SIZE)) < unat (STRIP_FLAGS cr2)"
    using u unfolding unat_STRIP_FLAGS by (cases q) auto
  then have ne: "STRIP_FLAGS cr2 \<noteq> STRIP_FLAGS (area_start ar - PAGE_SIZE)" by auto
  obtain s' where s': "procmm_page_fault mp cr2 s = Inr (True, s')"
     "mareas s' = (mareas s)(mm_stack m \<mapsto> ar\<lparr>area_start := area_start ar - PAGE_SIZE\<rparr>)"
     "\<And>va. va < USERSPACE_TOP \<Longrightarrow> vmm_get_page (mm_P4 m) va s' =
           (if STRIP_FLAGS va = STRIP_FLAGS (area_start ar - PAGE_SIZE) then Inr (user_page f) else vmm_get_page (mm_P4 m) va s)"
    using page_fault_step [OF ok st start(1) le refl fs c] by blast
  then show ?thesis using s'(3) [OF cr2(2)] ne by auto
qed

theorem procmm_page_fault_above_stack_witness:
  "\<exists>s'. procmm_page_fault KERNEL_HEAP_S 0x7FFFFFFFF000 (example_stack\<lparr>mareas := (mareas example_stack)(KERNEL_HEAP_S + 64 \<mapsto>
        \<lparr>area_start = 0x7FFFFFFFE000, area_end = USERSPACE_TOP, area_flags = 0, area_map = KERNEL_HEAP_S\<rparr>)\<rparr>) = Inr (True, s')
     \<and> vmm_get_page 0x4000 0x7FFFFFFFF000 s' = vmm_get_page 0x4000 0x7FFFFFFFF000 (example_stack\<lparr>mareas := (mareas example_stack)(KERNEL_HEAP_S + 64 \<mapsto>
        \<lparr>area_start = 0x7FFFFFFFE000, area_end = USERSPACE_TOP, area_flags = 0, area_map = KERNEL_HEAP_S\<rparr>)\<rparr>)"
proof -
  let ?ar = "\<lparr>area_start = 0x7FFFFFFFE000, area_end = USERSPACE_TOP, area_flags = 0, area_map = KERNEL_HEAP_S\<rparr>"
  let ?s = "example_stack\<lparr>mareas := (mareas example_stack)(KERNEL_HEAP_S + 64 \<mapsto> ?ar)\<rparr>"
  note h = example_stack_facts
  have ok: "mmap_ok ?s KERNEL_HEAP_S example_mmap [] (hd example_frames # tl example_frames)"
    using mmap_ok_areas [OF h(1) h(3), of ?ar] h(6) by simp
  have c: "mareas ?s (mm_stack example_mmap) = Some ?ar" "PAGE_SIZE \<le> area_start ?ar" "page_aligned (area_start ?ar)"
    "area_start ?ar \<le> 0x7FFFFFFFF000" "0x7FFFFFFFF000 < USERSPACE_TOP"
    by (simp_all add: word_le_nat_alt word_less_nat_alt page_aligned_def USERSPACE_TOP_def)
  show ?thesis using procmm_page_fault_above_stack [OF ok h(2) c(1,2,3) h(7) c(4,5)] by auto
qed

section \<open>Resizing\<close>

lemma next_page_eq: "(a + 0x1000) AND NOT (0x1000 - 1) = STRIP_FLAGS (a + 0x1000 :: addr)"
  by (simp add: STRIP_FLAGS_def)

lemma procmm_resize_eq:
  assumes ok: "mmap_ok s mp m xs fs" and a: "a \<noteq> 0" "mareas s a = Some ar"
    and nx: "lnext (alinks s) a \<noteq> 0" "mareas s (lnext (alinks s) a) = Some nx" "area_start ar \<le> area_start nx"
    and len: "area_end ar - area_start ar < len"
    and len': "len' = (if area_start nx < area_start ar + len then area_start nx - area_start ar else len)"
    and top: "area_start ar + len' \<le> USERSPACE_TOP"
    and fs: "4 * npages (STRIP_FLAGS (area_end ar + PAGE_SIZE)) (area_start ar + len') \<le> length fs"
  shows "\<exists>s' gs k. procmm_resize mp a len s = Inr (len', s') \<and> mmap_ok s' mp m xs (drop k fs) \<and> set gs \<subseteq> set fs
    \<and> mareas s' = (mareas s)(a \<mapsto> ar\<lparr>area_end := area_start ar + len'\<rparr>)
    \<and> area_mapped (mm_P4 m) (STRIP_FLAGS (area_end ar + PAGE_SIZE)) (area_start ar + len') gs s s'"
proof -
  let ?P4 = "mm_P4 m" and ?p = "STRIP_FLAGS (area_end ar + PAGE_SIZE)" and ?e = "area_start ar + len'"
  define s1 where "s1 = s\<lparr>mareas := (mareas s)(a \<mapsto> ar\<lparr>area_end := ?e\<rparr>)\<rparr>"
  have M: "mp \<noteq> 0" "mmaps s mp = Some m" "?P4 \<noteq> 0" using ok by (auto simp: mmap_ok_def)
  have ok1: "mmap_ok s1 mp m xs fs" unfolding s1_def by (rule mmap_ok_areas [OF ok a(2)]) simp
  then have V1: "vmm_inv user_dom (P2V ?P4) s1 fs" by (simp add: mmap_ok_def)
  obtain s' gs k where w: "while_pages (map_page ?P4) ?p ?e s1 = Inr s'"
    and mp: "mapped user_dom (P2V ?P4) s1 fs (pages ?p (npages ?p ?e)) gs k s'"
    using while_map_pages [OF V1 M(3) top fs] by blast
  have "\<not> area_start nx < area_start ar" using nx(3) by simp
  then have "procmm_resize mp a len s = Inr (len', s')"
    using M a nx(1,2) len w unfolding procmm_resize_def next_page_eq len'
    by (auto simp: Let_def s1_def len' split: if_splits)
  moreover have st: "s' = s1\<lparr>kmem := kmem s', pmm_stack := pmm_stack s'\<rparr>" using mp by (simp add: mapped_def)
  moreover have "mareas s' = mareas s1" by (subst st) simp
  moreover have "mmap_ok s' mp m xs (drop k fs)" using mmap_ok_pages [OF ok1 _ st] mp by (simp add: mapped_def)
  moreover have "set gs \<subseteq> set fs" using mp by (auto simp: mapped_def dest: in_set_takeD)
  moreover have "area_mapped ?P4 ?p ?e gs s s'"
  proof -
    have k1: "kmem s1 = kmem s" by (simp add: s1_def)
    have "pt_wf user_dom (kmem s1) (P2V ?P4)" using V1 by (simp add: vmm_inv_def)
    from mapped_area [OF mp top M(3) this] show ?thesis unfolding area_mapped_kmem [OF k1 M(3)] .
  qed
  ultimately show ?thesis by (auto simp: s1_def)
qed

text \<open>A map with two areas, the first one from 4 MiB to a given end.\<close>

definition example_list :: klist where
  "example_list = LIST_APPEND (LIST_APPEND (LIST_HEAD_INIT, \<lparr>lprev = (\<lambda>_. 0), lnext = (\<lambda>_. 0)\<rparr>) (KERNEL_HEAP_S + 64)) (KERNEL_HEAP_S + 128)"

abbreviation example_area :: "addr \<Rightarrow> addr \<Rightarrow> procmm_area_t" where
  "example_area start e \<equiv> \<lparr>area_start = start, area_end = e, area_flags = 0, area_map = KERNEL_HEAP_S\<rparr>"

abbreviation example_mmap2 :: procmm_mmap_t where
  "example_mmap2 \<equiv> example_mmap\<lparr>mm_areas := fst example_list\<rparr>"

definition example_two :: "addr \<Rightarrow> procmm" where
  "example_two e = example_procmm\<lparr>mmaps := [KERNEL_HEAP_S \<mapsto> example_mmap2], alinks := snd example_list,
     mareas := [KERNEL_HEAP_S + 64 \<mapsto> example_area 0x400000 e, KERNEL_HEAP_S + 128 \<mapsto> example_area 0x600000 0x600000]\<rparr>"

lemma example_addrs: "KERNEL_HEAP_S + 64 \<noteq> 0" "KERNEL_HEAP_S + 128 \<noteq> 0" "KERNEL_HEAP_S + 128 \<noteq> KERNEL_HEAP_S + 64"
  by (simp_all add: KERNEL_HEAP_S_def)

lemma example_two_facts:
  "mmap_ok (example_two e) KERNEL_HEAP_S example_mmap2 [KERNEL_HEAP_S + 64, KERNEL_HEAP_S + 128] example_frames"
  "mareas (example_two e) (KERNEL_HEAP_S + 64) = Some (example_area 0x400000 e)"
  "lnext (alinks (example_two e)) (KERNEL_HEAP_S + 64) = KERNEL_HEAP_S + 128"
  "mareas (example_two e) (KERNEL_HEAP_S + 128) = Some (example_area 0x600000 0x600000)"
proof -
  note h = example_addrs
  have "dlist (fst example_list, snd example_list) [KERNEL_HEAP_S + 64, KERNEL_HEAP_S + 128]"
    using klist.abs_append [OF klist.abs_append [OF dlist_empty h(1)] h(2)] h(3) by (simp add: example_list_def)
  then show "mmap_ok (example_two e) KERNEL_HEAP_S example_mmap2 [KERNEL_HEAP_S + 64, KERNEL_HEAP_S + 128] example_frames"
    "lnext (alinks (example_two e)) (KERNEL_HEAP_S + 64) = KERNEL_HEAP_S + 128"
    using example_procmm_ok by (simp_all add: mmap_ok_def vmm_inv_def pmm_inv_def example_two_def dlist_def)
qed (simp_all add: example_two_def KERNEL_HEAP_S_def)



text \<open>
  When the old end is page aligned, \<^verbatim>\<open>procmm_resize\<close> leaves out the first new page: the
  area now covers the page at its old end, but that page keeps the entry it had.
\<close>

theorem procmm_resize_skips_page:
  assumes "mmap_ok s mp m xs fs" and "a \<noteq> 0" and "mareas s a = Some ar"
    and "lnext (alinks s) a \<noteq> 0" and "mareas s (lnext (alinks s) a) = Some nx" and "area_start ar \<le> area_start nx"
    and "area_end ar - area_start ar < len"
    and "len' = (if area_start nx < area_start ar + len then area_start nx - area_start ar else len)"
    and "area_start ar + len' \<le> USERSPACE_TOP" and "page_aligned (area_end ar)" and "area_end ar < area_start ar + len'"
    and "4 * npages (STRIP_FLAGS (area_end ar + PAGE_SIZE)) (area_start ar + len') \<le> length fs"
  shows "\<exists>s'. procmm_resize mp a len s = Inr (len', s') \<and> mareas s' a = Some (ar\<lparr>area_end := area_start ar + len'\<rparr>)
    \<and> vmm_get_page (mm_P4 m) (area_end ar) s' = vmm_get_page (mm_P4 m) (area_end ar) s"
proof -
  let ?p = "STRIP_FLAGS (area_end ar + PAGE_SIZE)" and ?e = "area_start ar + len'"
  obtain s' gs where s': "procmm_resize mp a len s = Inr (len', s')"
    "mareas s' = (mareas s)(a \<mapsto> ar\<lparr>area_end := ?e\<rparr>)" "area_mapped (mm_P4 m) ?p ?e gs s s'"
    using procmm_resize_eq [OF assms(1-9) assms(12)] by blast
  have lt: "area_end ar < USERSPACE_TOP" using assms(9,11) by (rule_tac order_less_le_trans)
  then have u: "unat (area_end ar) < 2 ^ 47" "unat (area_end ar + PAGE_SIZE) = unat (area_end ar) + 4096"
    by (simp_all add: word_less_nat_alt USERSPACE_TOP_def unat_add_eq)
  have "STRIP_FLAGS (area_end ar) \<noteq> STRIP_FLAGS (?p + of_nat (4096 * i))" if "i < npages ?p ?e" for i
  proof -
    have "?p + of_nat (4096 * i) \<in> set (pages ?p (npages ?p ?e))" using that by (auto simp: pages_def)
    then have "unat ?p \<le> unat (?p + of_nat (4096 * i))" using pages_user(3) [OF assms(9)] by (simp add: word_le_nat_alt)
    then have "unat ?p \<le> unat (STRIP_FLAGS (?p + of_nat (4096 * i)))"
      using div_le_mono [of "unat ?p" _ 4096] by (simp add: unat_STRIP_FLAGS)
    moreover have "unat (STRIP_FLAGS (area_end ar)) < unat ?p" using u by (simp add: unat_STRIP_FLAGS)
    ultimately show ?thesis by auto
  qed
  then have "vmm_get_page (mm_P4 m) (area_end ar) s' = vmm_get_page (mm_P4 m) (area_end ar) s"
    using s'(3) lt unfolding area_mapped_def by blast
  with s' show ?thesis by auto
qed


theorem procmm_resize_skips_page_witness:
  "\<exists>s'. procmm_resize KERNEL_HEAP_S (KERNEL_HEAP_S + 64) 0x2000 (example_two 0x401000) = Inr (0x2000, s')
     \<and> vmm_get_page 0x4000 0x401000 s' = vmm_get_page 0x4000 0x401000 (example_two 0x401000)"
proof -
  note h = example_two_facts [of "0x401000"]
  have c: "area_start (example_area 0x400000 0x401000) \<le> area_start (example_area 0x600000 0x600000)"
    "area_end (example_area 0x400000 0x401000) - area_start (example_area 0x400000 0x401000) < 0x2000"
    "0x2000 = (if area_start (example_area 0x600000 0x600000) < area_start (example_area 0x400000 0x401000) + 0x2000
       then area_start (example_area 0x600000 0x600000) - area_start (example_area 0x400000 0x401000) else 0x2000)"
    "area_start (example_area 0x400000 0x401000) + 0x2000 \<le> USERSPACE_TOP" "page_aligned (area_end (example_area 0x400000 0x401000))"
    "area_end (example_area 0x400000 0x401000) < area_start (example_area 0x400000 0x401000) + 0x2000"
    "4 * npages (STRIP_FLAGS (area_end (example_area 0x400000 0x401000) + PAGE_SIZE)) (area_start (example_area 0x400000 0x401000) + 0x2000) \<le> length example_frames"
    by (simp_all add: word_le_nat_alt word_less_nat_alt USERSPACE_TOP_def npages_def STRIP_FLAGS_def example_frames_def page_aligned_def)
  show ?thesis using procmm_resize_skips_page [OF h(1) example_addrs(1) h(2) _ _ c] h(3,4) example_addrs(2) by fastforce
qed

section \<open>Unmapping\<close>

lemma vmm_next_table_present:
  "load64 (kmem s) (a + 8 * i) \<noteq> 0 \<Longrightarrow>
   vmm_next_table a i touch s = Inr (Some (P2V (STRIP_FLAGS (load64 (kmem s) (a + 8 * i)))), s)"
  by (simp add: vmm_next_table_def Let_def)

lemma vmm_find_page_present:
  assumes "tab (kmem s) (P2V P4) (vpath va) = Some a"
  shows "vmm_find_page P4 va True s = Inr (a, s)"
  using assms unfolding vmm_find_page_alt vpath_def
  by (simp add: Let_def vmm_next_table_present split: if_splits)

lemma vmm_inv_free:
  assumes inv: "vmm_inv D t s fs" and g: "page_aligned g" "g \<noteq> 0" "g \<notin> set fs" "g \<notin> tables D (kmem s) t"
  shows "vmm_inv D t (pmm_free (V2P g) s) (g # fs)" and "tables D (kmem (pmm_free (V2P g) s)) t = tables D (kmem s) t"
    and "q \<in> D \<Longrightarrow> tab (kmem (pmm_free (V2P g) s)) t q = tab (kmem s) t q"
    and "vpath va \<in> D \<Longrightarrow> pte (kmem (pmm_free (V2P g) s)) t va = pte (kmem s) t va"
proof -
  let ?s = "pmm_free (V2P g) s"
  have I: "path_dom D" "pmm_inv s fs" "pt_wf D (kmem s) t" "tables D (kmem s) t \<inter> set fs = {}"
    using inv by (auto simp: vmm_inv_def)
  have al: "page_aligned t" using I(3) by (simp add: pt_wf_def)
  have "STRIP_FLAGS (V2P g) = V2P g" using g(1) by simp
  then have same: "kmem ?s b = kmem s b" if "STRIP_FLAGS b \<in> tables D (kmem s) t" for b
    using pmm_free_outside [of b "V2P g" s] that g(4) by auto
  note fr = ent_frame [OF I(1) al same]
  show tb: "tab (kmem ?s) t q = tab (kmem s) t q" if "q \<in> D" for q by (rule fr(2) [OF _ that])
  show "pte (kmem ?s) t va = pte (kmem s) t va" if "vpath va \<in> D" for va
    unfolding pte_def by (rule fr(1) [OF _ that unat_P_OFFSET(1)])
  show T: "tables D (kmem ?s) t = tables D (kmem s) t" using tb by (auto simp: tables_def)
  have "pmm_inv ?s (g # fs)" using pmm.release_push [OF I(2) g(2,1,3)] .
  moreover have "pt_wf D (kmem ?s) t" using I(3) T tb by (simp add: pt_wf_def)
  ultimately show "vmm_inv D t ?s (g # fs)" using I(1,4) g(4) T by (simp add: vmm_inv_def)
qed

lemma unmap_page_spec:
  assumes inv: "vmm_inv D (P2V P4) s fs" and P4: "P4 \<noteq> 0" and p: "vpath p \<in> D" "pte (kmem s) (P2V P4) p = user_page g"
    and g: "page_aligned g" "g \<noteq> 0" "g \<notin> set fs" "g \<notin> tables D (kmem s) (P2V P4)"
  shows "\<exists>s'. unmap_page P4 p s = Inr s' \<and> vmm_inv D (P2V P4) s' (g # fs) \<and> tables D (kmem s') (P2V P4) = tables D (kmem s) (P2V P4)
    \<and> (\<forall>va. vpath va \<in> D \<longrightarrow> pte (kmem s') (P2V P4) va = (if vkey va = vkey p then 0 else pte (kmem s) (P2V P4) va))
    \<and> s' = s\<lparr>kmem := kmem s', pmm_stack := pmm_stack s'\<rparr>"
proof -
  let ?t = "P2V P4"
  define s1 where "s1 = pmm_free (user_page g) s"
  have "STRIP_FLAGS (user_page g) = V2P g" using g(1) by simp
  then have s1: "s1 = pmm_free (V2P g) s" using g(1) by (simp add: s1_def pmm_free_alt)
  note fr = vmm_inv_free [OF inv g, folded s1]
  have get: "vmm_get_page P4 p s = Inr (user_page g)"
    using vmm_get_page_pte [of D s P4 p] inv p P4 by (simp add: vmm_inv_def)
  have "user_page g \<noteq> 0" by (simp add: ADD_FLAGS_def or_eq_0_iff)
  then obtain a where a: "tab (kmem s) ?t (vpath p) = Some a"
    using p(2) by (auto simp: pte_def ent_def split: option.splits)
  then have a1: "tab (kmem s1) ?t (vpath p) = Some a" using fr(3) [OF p(1)] by simp
  have "a \<noteq> 0" using pt_wf_table [OF _ p(1) a] inv by (simp add: vmm_inv_def)
  define s' where "s' = s1\<lparr>kmem := store64 (kmem s1) (a + 8 * P1_OFFSET p) 0\<rparr>"
  have "vmm_set_page P4 p 0 0 s1 = Inr (0, s')"
    using vmm_find_page_present [OF a1] P4 \<open>a \<noteq> 0\<close> by (simp add: vmm_set_page_def s'_def Let_def ADD_FLAGS_def)
  then have "unmap_page P4 p s = Inr s'" using get by (simp add: unmap_page_def s1_def)
  moreover note leaf = set_leaf [OF fr(1) p(1) a1, where v = 0, folded s'_def]
  moreover have "pmm_running s" using inv by (simp add: vmm_inv_def)
  then have "s' = s\<lparr>kmem := kmem s', pmm_stack := pmm_stack s'\<rparr>" by (simp add: s'_def s1 pmm_free_alt)
  ultimately show ?thesis using fr(2,4) by auto
qed

lemma unmap_pages_spec:
  assumes "vmm_inv D (P2V P4) s fs" "P4 \<noteq> 0" "\<And>p. p \<in> set ps \<Longrightarrow> vpath p \<in> D" "distinct (map vkey ps)"
    and "length gs = length ps" "distinct gs" "set gs \<inter> (set fs \<union> tables D (kmem s) (P2V P4)) = {}"
    and "\<And>g. g \<in> set gs \<Longrightarrow> page_aligned g \<and> g \<noteq> 0"
    and "\<And>i. i < length ps \<Longrightarrow> pte (kmem s) (P2V P4) (ps ! i) = user_page (gs ! i)"
  shows "\<exists>s'. foldR (unmap_page P4) ps s = Inr s' \<and> vmm_inv D (P2V P4) s' (rev gs @ fs)
    \<and> tables D (kmem s') (P2V P4) = tables D (kmem s) (P2V P4)
    \<and> (\<forall>va. vpath va \<in> D \<longrightarrow> pte (kmem s') (P2V P4) va = (if vkey va \<in> vkey ` set ps then 0 else pte (kmem s) (P2V P4) va))
    \<and> s' = s\<lparr>kmem := kmem s', pmm_stack := pmm_stack s'\<rparr>"
  using assms
proof (induction ps arbitrary: s fs gs)
  case Nil
  then show ?case by simp
next
  case (Cons p ps)
  obtain g gs' where gs: "gs = g # gs'" using Cons.prems(5) by (cases gs) auto
  have p0: "pte (kmem s) (P2V P4) p = user_page g" using Cons.prems(9) [of 0] by (simp add: gs)
  obtain s1 where s1: "unmap_page P4 p s = Inr s1" "vmm_inv D (P2V P4) s1 (g # fs)"
    "tables D (kmem s1) (P2V P4) = tables D (kmem s) (P2V P4)"
    "\<And>va. vpath va \<in> D \<Longrightarrow> pte (kmem s1) (P2V P4) va = (if vkey va = vkey p then 0 else pte (kmem s) (P2V P4) va)"
    "s1 = s\<lparr>kmem := kmem s1, pmm_stack := pmm_stack s1\<rparr>"
    using unmap_page_spec [OF Cons.prems(1,2) Cons.prems(3) [of p] p0] Cons.prems(7,8) by (auto simp: gs)
  have "pte (kmem s1) (P2V P4) (ps ! i) = user_page (gs' ! i)" if "i < length ps" for i
  proof -
    have "ps ! i \<in> set ps" using that by simp
    then have "vkey (ps ! i) \<noteq> vkey p" "vpath (ps ! i) \<in> D" using Cons.prems(3,4) by (auto simp: image_iff)
    then show ?thesis using s1(4) Cons.prems(9) [of "Suc i"] that by (simp add: gs)
  qed
  then obtain s' where s': "foldR (unmap_page P4) ps s1 = Inr s'" "vmm_inv D (P2V P4) s' (rev gs' @ g # fs)"
    "tables D (kmem s') (P2V P4) = tables D (kmem s1) (P2V P4)"
    "\<And>va. vpath va \<in> D \<Longrightarrow> pte (kmem s') (P2V P4) va = (if vkey va \<in> vkey ` set ps then 0 else pte (kmem s1) (P2V P4) va)"
    "s' = s1\<lparr>kmem := kmem s', pmm_stack := pmm_stack s'\<rparr>"
    using Cons.IH [OF s1(2) Cons.prems(2), of gs'] Cons.prems(3-8) s1(3) by (auto simp: gs)
  note st = grow_state [OF s1(5) s'(5)]
  then show ?case using s1 s' by (intro exI [of _ s']) (auto simp: gs)
qed

lemma mapped_frames:
  assumes m: "mapped D t s fs ps gs k s'" and d: "distinct (map vkey ps)" "\<And>p. p \<in> set ps \<Longrightarrow> vpath p \<in> D"
    and fs: "distinct fs" "\<And>f. f \<in> set fs \<Longrightarrow> page_aligned f \<and> f \<noteq> 0"
  shows "length gs = length ps" and "distinct gs" and "set gs \<inter> (set (drop k fs) \<union> tables D (kmem s') t) = {}"
    and "g \<in> set gs \<Longrightarrow> page_aligned g \<and> g \<noteq> 0"
    and "i < length ps \<Longrightarrow> pte (kmem s') t (ps ! i) = user_page (gs ! i)"
proof -
  show g: "length gs = length ps" "distinct gs" using m by (auto simp: mapped_def)
  have sub: "set gs \<subseteq> set (take k fs)" and tb: "set gs \<inter> tables D (kmem s') t = {}" using m by (auto simp: mapped_def)
  have "set (take k fs) \<inter> set (drop k fs) = {}" by (rule set_take_disj_set_drop_if_distinct [OF fs(1)]) simp
  with sub tb show "set gs \<inter> (set (drop k fs) \<union> tables D (kmem s') t) = {}" by blast
  show "page_aligned g \<and> g \<noteq> 0" if "g \<in> set gs" for g using fs(2) sub that by (auto dest: in_set_takeD)
  show "pte (kmem s') t (ps ! i) = user_page (gs ! i)" if "i < length ps" for i
  proof -
    have "map_of (zip (map vkey ps) gs) (map vkey ps ! i) = Some (gs ! i)"
      using that d(1) g(1) by (intro map_of_zip_nth) auto
    then show ?thesis using m d(2) [OF nth_mem [OF that]] that by (simp add: mapped_def)
  qed
qed

lemma procmm_unmap_eq:
  assumes "a \<noteq> 0" "KERNEL_HEAP_S \<le> a" "mareas s a = Some ar" "area_map ar = mp" "mp \<noteq> 0" "mmaps s mp = Some m"
    and "while_pages (unmap_page (mm_P4 m)) (area_start ar) (area_end ar) s = Inr s1"
    and "mareas s1 = mareas s" "mmaps s1 = mmaps s"
  shows "procmm_unmap a s = Inr (s1\<lparr>mmaps := (mmaps s)(mp \<mapsto> m\<lparr>mm_areas := fst (LIST_REMOVE (mm_areas m, alinks s1) a)\<rparr>),
     alinks := snd (LIST_REMOVE (mm_areas m, alinks s1) a), mareas := (mareas s)(a := None)\<rparr>)"
  using assms by (simp add: procmm_unmap_def on_areas_def Let_def free_obj_def not_le [symmetric])

text \<open>
  C22. Mapping an area and unmapping it again: \<^verbatim>\<open>procmm_unmap\<close> right after
  \<^verbatim>\<open>procmm_map\<close> takes the area off the list and frees its object, gives back exactly the
  frames that the area had got, and leaves all pages of the area unmapped and all others as they were.
\<close>

theorem procmm_map_unmap:
  assumes ok: "mmap_ok s mp m xs fs" and a: "avail s = a # as" "KERNEL_HEAP_S \<le> a" "a \<notin> set xs"
    and b: "below s xs start" and e: "start \<le> e" "e \<le> USERSPACE_TOP" and fs: "4 * npages start e \<le> length fs"
  shows "\<exists>s1 s' m' gs k. procmm_map mp start e flags s = Inr (a, s1) \<and> procmm_unmap a s1 = Inr s'
    \<and> mmap_ok s' mp m' xs (rev gs @ drop k fs) \<and> area_mapped (mm_P4 m) start e gs s s1 \<and> mareas s' = (mareas s)(a := None)
    \<and> (\<forall>va. va < USERSPACE_TOP \<longrightarrow> vmm_get_page (mm_P4 m) va s' =
         (if \<exists>i < npages start e. STRIP_FLAGS va = STRIP_FLAGS (start + of_nat (4096 * i)) then Inr 0 else vmm_get_page (mm_P4 m) va s))"
proof -
  let ?P4 = "mm_P4 m" and ?ps = "pages start (npages start e)" and ?ar = "\<lparr>area_start = start, area_end = e, area_flags = flags, area_map = mp\<rparr>"
  have a0: "a \<noteq> 0" using a(2) by (auto simp: KERNEL_HEAP_S_def)
  obtain s1 m' s2 gs k where r: "procmm_map mp start e flags s = Inr (a, s1)" "mmap_ok s1 mp m' (xs @ [a]) (drop k fs)"
    "mm_P4 m' = ?P4" "mareas s1 = (mareas s)(a \<mapsto> ?ar)"
    and k2: "kmem s2 = kmem s" and mp: "mapped user_dom (P2V ?P4) s2 fs ?ps gs k s1"
    using procmm_map_run [OF ok a(1) a0 a(3) b e fs, of flags] by metis
  have P4: "?P4 \<noteq> 0" and V: "vmm_inv user_dom (P2V ?P4) s fs" using ok by (auto simp: mmap_ok_def)
  have M1: "mp \<noteq> 0" "mmaps s1 mp = Some m'" "vmm_inv user_dom (P2V ?P4) s1 (drop k fs)" using r(2,3) by (auto simp: mmap_ok_def)
  have vp: "vpath p \<in> user_dom" if "p \<in> set ?ps" for p using pages_user(2) [OF e(2) that] user_P4 vpath_user by blast
  have fr: "distinct fs" "\<And>f. f \<in> set fs \<Longrightarrow> page_aligned f \<and> f \<noteq> 0"
    using V pmm_inv_distinct [of s fs] pmm_inv_aligned [of s fs] by (auto simp: vmm_inv_def)
  note fs' = mapped_frames [OF mp distinct_pages [OF e(2)] vp fr]
  obtain s3 where s3: "foldR (unmap_page ?P4) ?ps s1 = Inr s3" "vmm_inv user_dom (P2V ?P4) s3 (rev gs @ drop k fs)"
    "\<And>va. vpath va \<in> user_dom \<Longrightarrow> pte (kmem s3) (P2V ?P4) va = (if vkey va \<in> vkey ` set ?ps then 0 else pte (kmem s1) (P2V ?P4) va)"
    "s3 = s1\<lparr>kmem := kmem s3, pmm_stack := pmm_stack s3\<rparr>"
    using unmap_pages_spec [OF M1(3) P4 vp distinct_pages [OF e(2)] fs'(1,2,3,4,5)] by blast
  have fld: "mmaps s3 = mmaps s1" "mareas s3 = mareas s1" "alinks s3 = alinks s1" by (subst s3(4), simp)+
  have "unat e + 4096 \<le> 2 ^ 64" using e(2) by (simp add: USERSPACE_TOP_def word_le_nat_alt)
  then have w: "while_pages (unmap_page (mm_P4 m')) (area_start ?ar) (area_end ?ar) s1 = Inr s3"
    using s3(1) r(3) by (simp add: while_pages_eq)
  define q where "q = LIST_REMOVE (mm_areas m', alinks s1) a"
  define s' where "s' = s3\<lparr>mmaps := (mmaps s1)(mp \<mapsto> m'\<lparr>mm_areas := fst q\<rparr>), alinks := snd q, mareas := (mareas s1)(a := None)\<rparr>"
  have un: "procmm_unmap a s1 = Inr s'"
    using procmm_unmap_eq [OF a0 a(2) _ _ M1(1,2) w] r(4) fld by (simp add: s'_def q_def)
  have D: "dlist q xs" using klist.abs_remove [of "(mm_areas m', alinks s1)" xs a "[]"] r(2) by (simp add: q_def mmap_ok_def)
  have mar: "mareas s' = (mareas s)(a := None)" by (simp add: s'_def r(4))
  have ok': "mmap_ok s' mp (m'\<lparr>mm_areas := fst q\<rparr>) xs (rev gs @ drop k fs)"
  proof -
    have "\<forall>x \<in> set xs. \<exists>ar. mareas s' x = Some ar \<and> area_map ar = mp"
      using ok a(3) unfolding mar mmap_ok_def by (metis fun_upd_other)
    moreover have "vmm_inv user_dom (P2V ?P4) s' (rev gs @ drop k fs)" using s3(2) by (simp add: s'_def vmm_inv_def pmm_inv_def)
    ultimately show ?thesis using M1(1) D r(3) P4 by (simp add: mmap_ok_def s'_def)
  qed
  have wf: "pt_wf user_dom (kmem s2) (P2V ?P4)" using V k2 by (simp add: vmm_inv_def)
  have am: "area_mapped ?P4 start e gs s s1" using mapped_area [OF mp e(2) P4 wf] unfolding area_mapped_kmem [OF k2 P4] .
  have pg: "vmm_get_page ?P4 va s' = (if \<exists>i < npages start e. STRIP_FLAGS va = STRIP_FLAGS (start + of_nat (4096 * i)) then Inr 0 else vmm_get_page ?P4 va s)"
    if va: "va < USERSPACE_TOP" for va
  proof -
    have v: "vpath va \<in> user_dom" by (rule vpath_user [OF user_P4 [OF va]])
    have key: "vkey va \<in> vkey ` set ?ps \<longleftrightarrow> (\<exists>i < npages start e. STRIP_FLAGS va = STRIP_FLAGS (start + of_nat (4096 * i)))"
      using vkey_user_inject [OF va] pages_user(2) [OF e(2), of _ start] by (auto simp: pages_def image_iff simp del: of_nat_mult)
    have "vmm_get_page ?P4 va s' = Inr (pte (kmem s3) (P2V ?P4) va)" "vmm_get_page ?P4 va s1 = Inr (pte (kmem s1) (P2V ?P4) va)"
      using vmm_get_page_pte [of user_dom s' ?P4 va] vmm_get_page_pte [of user_dom s1 ?P4 va] s3(2) M1(3) v P4 by (auto simp: vmm_inv_def s'_def)
    then show ?thesis using s3(3) [OF v] key am va by (auto simp: area_mapped_def)
  qed
  from r(1) un ok' am mar pg show ?thesis by blast
qed

theorem procmm_map_unmap_witness:
  "\<exists>s1 s'. procmm_map KERNEL_HEAP_S 0x400000 0x400800 0 example_procmm = Inr (KERNEL_HEAP_S + 64, s1)
     \<and> procmm_unmap (KERNEL_HEAP_S + 64) s1 = Inr s' \<and> mareas s' (KERNEL_HEAP_S + 64) = None"
proof -
  note h = example_area_hyps
  have "KERNEL_HEAP_S \<le> KERNEL_HEAP_S + 64" by (simp add: KERNEL_HEAP_S_def word_le_nat_alt)
  from procmm_map_unmap [OF example_procmm_ok h(8) this h(10,1,2,3,4), of 0] show ?thesis by fastforce
qed

end
