(* ===== verification/Process.thy ===== *)
theory Process
  imports Procmm
begin

text \<open>
  Threads and processes: \<^verbatim>\<open>kernel/proc/thread.c\<close> and \<^verbatim>\<open>kernel/proc/process.c\<close>.
  The state extends the one of the memory areas by the thread and process objects, the link
  fields of their lists, the counters and the fields of the executing CPU's \<^verbatim>\<open>cpu_t\<close> that
  the two files use. The stack switch of \<^verbatim>\<open>swtch.S\<close> is kept as its effect on stack pointers.
  Waiting in \<^verbatim>\<open>while(...) schedule();\<close> is the value \<open>Waiting\<close> (theory \<open>Pipe\<close>).
\<close>

section \<open>State\<close>

record registers_t =
  rax :: u64  rbx :: u64  rcx :: u64  rdx :: u64  rsi :: u64  rdi :: u64  rbp :: u64
  r8 :: u64  r9 :: u64  r10 :: u64  r11 :: u64  r12 :: u64  r13 :: u64  r14 :: u64  r15 :: u64
  int_no :: u64  err_code :: u64  rip :: u64  cs :: u64  rflags :: u64  rsp :: u64  ss :: u64

definition zero_registers :: registers_t where
  "zero_registers = \<lparr>rax = 0, rbx = 0, rcx = 0, rdx = 0, rsi = 0, rdi = 0, rbp = 0, r8 = 0, r9 = 0, r10 = 0, r11 = 0,
     r12 = 0, r13 = 0, r14 = 0, r15 = 0, int_no = 0, err_code = 0, rip = 0, cs = 0, rflags = 0, rsp = 0, ss = 0\<rparr>"

text \<open>A thread with the frame that \<^verbatim>\<open>new_thread\<close> prepares below it on its stack.\<close>

record thread_t =
  frame_RBP :: addr
  frame_thread :: addr
  frame_function :: addr
  tregs :: registers_t
  stack_pointer :: addr
  tid :: u64
  tstate :: u64
  tprocess :: addr

abbreviation (input) THREAD_STATE_WAITING :: u64 where "THREAD_STATE_WAITING \<equiv> 1"
abbreviation (input) THREAD_STATE_READY :: u64 where "THREAD_STATE_READY \<equiv> 2"
abbreviation (input) THREAD_STATE_RUNNING :: u64 where "THREAD_STATE_RUNNING \<equiv> 3"
abbreviation (input) THREAD_STATE_FINISHED :: u64 where "THREAD_STATE_FINISHED \<equiv> 4"

abbreviation (input) PROC_STATE_READY :: u64 where "PROC_STATE_READY \<equiv> 1"
abbreviation (input) PROC_STATE_RUNNING :: u64 where "PROC_STATE_RUNNING \<equiv> 2"
abbreviation (input) PROC_STATE_ZOMBIE :: u64 where "PROC_STATE_ZOMBIE \<equiv> 3"

abbreviation (input) PROC_NUMFP :: nat where "PROC_NUMFP \<equiv> 20"

record fp_t =
  fp_file :: addr
  fp_flags :: u64
  fp_pos :: u64

record process_t =
  pid :: u64
  pstate :: u64
  pstatus :: u64
  pparent :: addr
  pmmap :: addr
  pchildren :: list_head
  pthreads :: list_head
  pfp :: "fp_t list"

record cpu_t =
  current_thread :: addr
  last_thread :: addr
  current_process :: addr
  cpu_scheduler :: addr
  tss_rsp0 :: addr
  kernel_stack :: addr
  cpu_rsp :: addr  \<comment> \<open>the register, at the call of \<^verbatim>\<open>swtch\<close>\<close>

record kernel = procmm +
  procs :: "addr \<rightharpoonup> process_t"
  threads :: "addr \<rightharpoonup> thread_t"
  siblings :: links
  process_threads :: links
  ready_queue :: list_head
  ready_links :: links
  next_pid :: u64
  next_tid :: u64
  init_proc :: addr
  scheduler_started :: bool
  cpu :: cpu_t

definition upd_thread :: "addr \<Rightarrow> (thread_t \<Rightarrow> thread_t) \<Rightarrow> 'z kernel_scheme \<Rightarrow> 'z kernel_scheme res" where
  "upd_thread th f s = bindR (obj (threads s) th) (\<lambda>t. Inr (s\<lparr>threads := (threads s)(th \<mapsto> f t)\<rparr>))"

definition upd_proc :: "addr \<Rightarrow> (process_t \<Rightarrow> process_t) \<Rightarrow> 'z kernel_scheme \<Rightarrow> 'z kernel_scheme res" where
  "upd_proc p f s = bindR (obj (procs s) p) (\<lambda>pr. Inr (s\<lparr>procs := (procs s)(p \<mapsto> f pr)\<rparr>))"

abbreviation upd_cpu :: "(cpu_t \<Rightarrow> cpu_t) \<Rightarrow> 'z kernel_scheme \<Rightarrow> 'z kernel_scheme" where
  "upd_cpu f s \<equiv> s\<lparr>cpu := f (cpu s)\<rparr>"

section \<open>thread.c\<close>

text \<open>Offsets in \<^verbatim>\<open>thread_stack_t\<close> of \<^verbatim>\<open>RBP\<close>, \<^verbatim>\<open>zero_frame\<close> and \<^verbatim>\<open>tcb\<close>, and of the stack pointer in \<^verbatim>\<open>thread_t\<close>.\<close>

abbreviation (input) RBP_OFFSET :: addr where "RBP_OFFSET \<equiv> 3280"
abbreviation (input) ZERO_FRAME_OFFSET :: addr where "ZERO_FRAME_OFFSET \<equiv> 3336"
abbreviation (input) TCB_OFFSET :: addr where "TCB_OFFSET \<equiv> 3352"
abbreviation (input) SP_OFFSET :: addr where "SP_OFFSET \<equiv> 176"

abbreviation (input) SEG_KCODE :: u64 where "SEG_KCODE \<equiv> 0x08"
abbreviation (input) SEG_KDATA :: u64 where "SEG_KDATA \<equiv> 0x10"
abbreviation (input) SEG_UDATA :: u64 where "SEG_UDATA \<equiv> 0x18"
abbreviation (input) SEG_UCODE :: u64 where "SEG_UCODE \<equiv> 0x20"
abbreviation (input) RFLAGS_IF :: u64 where "RFLAGS_IF \<equiv> 0x200"
abbreviation (input) RFLAGS_IOPL3 :: u64 where "RFLAGS_IOPL3 \<equiv> 0x3000"

text \<open>\<open>isr_return\<close> is the address of the assembly routine that returns to user mode.\<close>

definition new_thread :: "addr \<Rightarrow> addr \<Rightarrow> bool \<Rightarrow> 'z kernel_scheme \<Rightarrow> (addr \<times> 'z kernel_scheme) res" where
  "new_thread isr_return func user s =
     bindR (new_addr s) (\<lambda>(stack, s).
     let th = stack + TCB_OFFSET;
         t = \<lparr>frame_RBP = stack + ZERO_FRAME_OFFSET, frame_thread = th, frame_function = 0,
              tregs = zero_registers\<lparr>rflags := RFLAGS_IF\<rparr>, stack_pointer = 0, tid = 0, tstate = 0, tprocess = 0\<rparr>;
         t = (if user then
                t\<lparr>frame_function := isr_return,
                  tregs := (tregs t)\<lparr>rip := func, cs := SEG_UCODE OR 3, ss := SEG_UDATA OR 3,
                    rflags := rflags (tregs t) OR RFLAGS_IOPL3, rsp := USERSPACE_TOP\<rparr>\<rparr>
              else
                t\<lparr>frame_function := func,
                  tregs := (tregs t)\<lparr>cs := SEG_KCODE, ss := SEG_KDATA, rsp := th + SP_OFFSET\<rparr>\<rparr>);
         t = t\<lparr>tid := next_tid s, tstate := THREAD_STATE_READY, stack_pointer := stack + RBP_OFFSET\<rparr>
     in Inr (th, s\<lparr>threads := (threads s)(th \<mapsto> t), next_tid := next_tid s + 1,
                   ready_links := LIST_INIT th (ready_links s), process_threads := LIST_INIT th (process_threads s)\<rparr>))"

text \<open>
  \<^verbatim>\<open>swtch\<close> pushes nine words, return address included, before it stores the stack pointer,
  and pops as many after it has loaded the new one.
\<close>

definition swtch :: "addr \<Rightarrow> addr \<Rightarrow> 'z kernel_scheme \<Rightarrow> 'z kernel_scheme res" where
  "swtch old new s =
     bindR (if old \<noteq> 0 then upd_thread old (\<lambda>t. t\<lparr>stack_pointer := cpu_rsp (cpu s) - 72\<rparr>) s else Inr s) (\<lambda>s.
     bindR (obj (threads s) new) (\<lambda>t. Inr (upd_cpu (\<lambda>c. c\<lparr>cpu_rsp := stack_pointer t + 72\<rparr>) s)))"

definition switch_thread :: "addr \<Rightarrow> addr \<Rightarrow> 'z kernel_scheme \<Rightarrow> 'z kernel_scheme res" where
  "switch_thread old new s =
     (let s = upd_cpu (\<lambda>c. c\<lparr>current_thread := new\<rparr>) s;
          s = upd_cpu (\<lambda>c. c\<lparr>tss_rsp0 := new + SP_OFFSET\<rparr>) s;
          s = upd_cpu (\<lambda>c. c\<lparr>kernel_stack := new + SP_OFFSET\<rparr>) s
      in swtch old new s)"

definition free_thread :: "addr \<Rightarrow> 'z kernel_scheme \<Rightarrow> 'z kernel_scheme res" where
  "free_thread th s =
     bindR (obj (threads s) th) (\<lambda>t.
     if tstate t = THREAD_STATE_RUNNING \<or> tstate t = THREAD_STATE_READY then Inl (Panic ''Trying to free a live thread'')
     else
       bindR (if lnext (process_threads s) th \<noteq> 0 then
                bindR (obj (procs s) (tprocess t)) (\<lambda>p.
                  let q = LIST_REMOVE (pthreads p, process_threads s) th in
                  Inr (s\<lparr>procs := (procs s)(tprocess t \<mapsto> p\<lparr>pthreads := fst q\<rparr>), process_threads := snd q\<rparr>))
              else Inr s) (\<lambda>s.
       if th - TCB_OFFSET < KERNEL_HEAP_S then Inl (Panic ''kfree'')
       else Inr (s\<lparr>threads := (threads s)(th := None)\<rparr>)))"

section \<open>process.c\<close>

definition process_alive :: "addr \<Rightarrow> 'z kernel_scheme \<Rightarrow> bool res" where
  "process_alive p s = bindR (obj (procs s) p) (\<lambda>pr. Inr (pstate pr = PROC_STATE_READY \<or> pstate pr = PROC_STATE_RUNNING))"

text \<open>One round of the loop of \<^verbatim>\<open>process_spawn\<close> over the file descriptors.\<close>

definition inherit_fp :: "(drvref \<Rightarrow> 'z kernel_scheme fs_driver) \<Rightarrow> addr \<Rightarrow> addr \<Rightarrow> nat \<Rightarrow> 'z kernel_scheme \<Rightarrow> 'z kernel_scheme res" where
  "inherit_fp drv parent proc i s =
     bindR (obj (procs s) parent) (\<lambda>pp.
     let fp = pfp pp ! i in
     if fp_file fp \<noteq> 0 then
       bindR (fs_get (fp_file fp) s) (\<lambda>(f, s).
       bindR (upd_proc proc (\<lambda>pr. pr\<lparr>pfp := (pfp pr)[i := \<lparr>fp_file = f, fp_flags = fp_flags fp, fp_pos = fp_pos fp\<rparr>]\<rparr>) s) (\<lambda>s.
       bindR (fs_open drv f (fp_flags fp) s) (\<lambda>(_, s). Inr s)))
     else Inr s)"

definition process_spawn :: "(drvref \<Rightarrow> 'z kernel_scheme fs_driver) \<Rightarrow> addr \<Rightarrow> 'z kernel_scheme \<Rightarrow> (addr \<times> 'z kernel_scheme) res" where
  "process_spawn drv parent s =
     bindR (new_addr s) (\<lambda>(proc, s).
     let n = next_pid s;
         pr = \<lparr>pid = n, pstate = PROC_STATE_READY, pstatus = 0, pparent = parent, pmmap = 0, pchildren = LIST_HEAD_INIT,
               pthreads = LIST_HEAD_INIT, pfp = replicate PROC_NUMFP \<lparr>fp_file = 0, fp_flags = 0, fp_pos = 0\<rparr>\<rparr>;
         s = s\<lparr>procs := (procs s)(proc \<mapsto> pr), next_pid := n + 1, siblings := LIST_INIT proc (siblings s)\<rparr>
     in
     bindR (if parent \<noteq> 0 then
              bindR (obj (procs s) parent) (\<lambda>pp.
              let q = LIST_APPEND (pchildren pp, siblings s) proc;
                  s = s\<lparr>procs := (procs s)(parent \<mapsto> pp\<lparr>pchildren := fst q\<rparr>), siblings := snd q\<rparr>
              in
              bindR (procmm_new_map proc (pmmap pp) s) (\<lambda>(m, s).
              bindR (upd_proc proc (\<lambda>pr. pr\<lparr>pmmap := m\<rparr>) s) (\<lambda>s.
                foldR (inherit_fp drv parent proc) [0..<PROC_NUMFP] s)))
            else
              bindR (procmm_new_map proc 0 s) (\<lambda>(m, s). upd_proc proc (\<lambda>pr. pr\<lparr>pmmap := m\<rparr>) s)) (\<lambda>s.
     Inr (proc, if n = 1 then s\<lparr>init_proc := proc\<rparr> else s)))"

definition process_attach :: "addr \<Rightarrow> addr \<Rightarrow> 'z kernel_scheme \<Rightarrow> 'z kernel_scheme res" where
  "process_attach proc th s =
     bindR (obj (procs s) proc) (\<lambda>p.
     let q = LIST_APPEND (pthreads p, process_threads s) th;
         s = s\<lparr>procs := (procs s)(proc \<mapsto> p\<lparr>pthreads := fst q\<rparr>), process_threads := snd q\<rparr>
     in upd_thread th (\<lambda>t. t\<lparr>tprocess := proc\<rparr>) s)"

definition switch_process :: "addr \<Rightarrow> 'z kernel_scheme \<Rightarrow> 'z kernel_scheme res" where
  "switch_process proc s =
     (let old = current_process (cpu s) in
      if old \<noteq> 0 \<and> old = proc then Inr s
      else
        bindR (if old \<noteq> 0 then
                 upd_proc old (\<lambda>p. if pstate p = PROC_STATE_RUNNING then p\<lparr>pstate := PROC_STATE_READY\<rparr> else p) s
               else Inr s) (\<lambda>s.
        let s = upd_cpu (\<lambda>c. c\<lparr>current_process := proc\<rparr>) s in
        if proc \<noteq> 0 then
          bindR (upd_proc proc (\<lambda>p. p\<lparr>pstate := PROC_STATE_RUNNING\<rparr>) s) (\<lambda>s.
          bindR (obj (procs s) proc) (\<lambda>p.
          bindR (obj (mmaps s) (pmmap p)) (\<lambda>m. Inr (vmm_set_P4 (mm_P4 m) s))))
        else Inr (vmm_set_P4 0 s)))"

text \<open>
  The loop of \<^verbatim>\<open>process_exit\<close> over the children: its body removes the child from the
  list that it traverses and appends it to the one of the init process.
\<close>

partial_function (option) adopt_children :: "addr \<Rightarrow> addr \<Rightarrow> 'z kernel_scheme \<Rightarrow> 'z kernel_scheme res option" where
  "adopt_children proc c s =
     (if c = 0 then Some (Inr s)
      else case
        bindR (obj (procs s) proc) (\<lambda>p.
        bindR (obj (procs s) c) (\<lambda>_.
        let q = LIST_REMOVE (pchildren p, siblings s) c;
            s = s\<lparr>procs := (procs s)(proc \<mapsto> p\<lparr>pchildren := fst q\<rparr>), siblings := snd q\<rparr>
        in
        bindR (upd_proc c (\<lambda>ch. ch\<lparr>pparent := init_proc s\<rparr>) s) (\<lambda>s.
        bindR (obj (procs s) (init_proc s)) (\<lambda>ip.
        let q = LIST_APPEND (pchildren ip, siblings s) c in
        Inr (s\<lparr>procs := (procs s)(init_proc s \<mapsto> ip\<lparr>pchildren := fst q\<rparr>), siblings := snd q\<rparr>))))) of
        Inl e \<Rightarrow> Some (Inl e)
      | Inr s \<Rightarrow> adopt_children proc (lnext (siblings s) c) s)"

definition close_fp :: "(drvref \<Rightarrow> 'z kernel_scheme fs_driver) \<Rightarrow> addr \<Rightarrow> nat \<Rightarrow> 'z kernel_scheme \<Rightarrow> 'z kernel_scheme res" where
  "close_fp drv proc i s =
     bindR (obj (procs s) proc) (\<lambda>p.
     let f = fp_file (pfp p ! i) in
     if f \<noteq> 0 then
       bindR (fs_close drv f s) (\<lambda>(_, s). bindR (fs_put f s) (\<lambda>(_, s). Inr s))
     else Inr s)"

definition process_exit :: "(drvref \<Rightarrow> 'z kernel_scheme fs_driver) \<Rightarrow> addr \<Rightarrow> u64 \<Rightarrow> 'z kernel_scheme \<Rightarrow> 'z kernel_scheme res" where
  "process_exit drv proc status s =
     bindR (upd_proc proc (\<lambda>p. p\<lparr>pstatus := status\<rparr>) s) (\<lambda>s.
     bindR (obj (procs s) proc) (\<lambda>p.
     bindR (case adopt_children proc (LIST_FIRST (pchildren p)) s of None \<Rightarrow> Inl Diverges | Some r \<Rightarrow> r) (\<lambda>s.
     bindR (foldR (close_fp drv proc) [0..<PROC_NUMFP] s) (\<lambda>s.
       upd_proc proc (\<lambda>p. p\<lparr>pstate := PROC_STATE_ZOMBIE\<rparr>) s))))"

text \<open>
  The loop of \<^verbatim>\<open>process_free\<close> over the threads: after \<^verbatim>\<open>free_thread\<close> the step of
  the loop reads the link of the freed thread.
\<close>

partial_function (option) free_threads :: "addr \<Rightarrow> 'z kernel_scheme \<Rightarrow> 'z kernel_scheme atomic res option" where
  "free_threads th s =
     (if th = 0 then Some (Inr (Returned s))
      else case obj (threads s) th of
        Inl e \<Rightarrow> Some (Inl e)
      | Inr t \<Rightarrow>
          if tstate t = THREAD_STATE_RUNNING \<or> tstate t = THREAD_STATE_READY then Some (Inr (Waiting s))
          else (case free_thread th s of
            Inl e \<Rightarrow> Some (Inl e)
          | Inr s \<Rightarrow>
              (case obj (threads s) th of
                 Inl e \<Rightarrow> Some (Inl e)
               | Inr _ \<Rightarrow> free_threads (lnext (process_threads s) th) s)))"

definition process_free :: "addr \<Rightarrow> 'z kernel_scheme \<Rightarrow> 'z kernel_scheme atomic res" where
  "process_free proc s =
     bindR (obj (procs s) proc) (\<lambda>p.
     if pstate p \<noteq> PROC_STATE_ZOMBIE then Inl (Panic ''Trying to free an unfinished process'')
     else
       bindR (case free_threads (LIST_FIRST (pthreads p)) s of None \<Rightarrow> Inl Diverges | Some r \<Rightarrow> r) (\<lambda>r.
       case r of
         Waiting s \<Rightarrow> Inr (Waiting s)
       | Returned s \<Rightarrow>
           bindR (obj (procs s) proc) (\<lambda>p.
           bindR (obj (procs s) (pparent p)) (\<lambda>pp.
           let q = LIST_REMOVE (pchildren pp, siblings s) proc;
               s = s\<lparr>procs := (procs s)(pparent p \<mapsto> pp\<lparr>pchildren := fst q\<rparr>), siblings := snd q\<rparr>
           in
           bindR (procmm_free_map (pmmap p) s) (\<lambda>s.
           bindR (free_obj (procs s) proc) (\<lambda>ps. Inr (Returned (s\<lparr>procs := ps\<rparr>))))))))"

section \<open>Examples\<close>

definition example_thread :: "addr \<Rightarrow> thread_t" where
  "example_thread p = \<lparr>frame_RBP = 0, frame_thread = 0, frame_function = 0, tregs = zero_registers, stack_pointer = 0, tid = 0,
     tstate = THREAD_STATE_READY, tprocess = p\<rparr>"

definition example_process :: "u64 \<Rightarrow> process_t" where
  "example_process st = \<lparr>pid = 1, pstate = st, pstatus = 0, pparent = 0, pmmap = KERNEL_HEAP_S, pchildren = LIST_HEAD_INIT,
     pthreads = LIST_HEAD_INIT, pfp = replicate PROC_NUMFP \<lparr>fp_file = 0, fp_flags = 0, fp_pos = 0\<rparr>\<rparr>"

abbreviation example_queue :: klist where
  "example_queue \<equiv> LIST_APPEND (LIST_HEAD_INIT, \<lparr>lprev = (\<lambda>_. 0), lnext = (\<lambda>_. 0)\<rparr>) 0x300"

definition example_kernel :: "u64 \<Rightarrow> kernel" where
  "example_kernel st = procmm.extend example_procmm \<lparr>procs = [0x500 \<mapsto> example_process PROC_STATE_READY, 0x600 \<mapsto> example_process st],
     threads = [0x100 \<mapsto> example_thread 0, 0x200 \<mapsto> example_thread 0x500, 0x300 \<mapsto> example_thread 0x600],
     siblings = \<lparr>lprev = (\<lambda>_. 0), lnext = (\<lambda>_. 0)\<rparr>, process_threads = \<lparr>lprev = (\<lambda>_. 0), lnext = (\<lambda>_. 0)\<rparr>,
     ready_queue = fst example_queue, ready_links = snd example_queue, next_pid = 2, next_tid = 4, init_proc = 0x500, scheduler_started = True,
     cpu = \<lparr>current_thread = 0x100, last_thread = 0x200, current_process = 0, cpu_scheduler = 0x100, tss_rsp0 = 0, kernel_stack = 0, cpu_rsp = 0\<rparr>\<rparr>"

section \<open>Inheriting descriptors\<close>

text \<open>A file that can be opened: its driver has no \<^verbatim>\<open>open\<close>, or it is an end of an existing pipe.\<close>

definition openable :: "(drvref \<Rightarrow> 'z fsys_scheme fs_driver) \<Rightarrow> 'z fsys_scheme \<Rightarrow> file_t \<Rightarrow> bool" where
  "openable drv s f \<longleftrightarrow> driver f = NullDrv \<or> open_fn (drv (driver f)) = None
     \<or> open_fn (drv (driver f)) = Some pipe_open \<and> fdata f \<noteq> 0 \<and> pipes s (fdata f) \<noteq> None"

lemma fs_open_openable:
  fixes s :: "'z kernel_scheme"
  assumes "a \<noteq> 0" "files s a = Some f" "openable drv s f"
  shows "\<exists>r s'. fs_open drv a fl s = Inr (r, s') \<and> files s' = files s \<and> procs s' = procs s \<and> dom (pipes s') = dom (pipes s)"
  using assms unfolding openable_def
  by (elim disjE) (auto simp: fs_open_def driver_entry_def obj_def pipe_open_def Let_def)

definition fp_count :: "addr \<Rightarrow> fp_t list \<Rightarrow> nat" where
  "fp_count a fps = length (filter (\<lambda>fp. fp_file fp = a) fps)"

definition inherited :: "fp_t \<Rightarrow> fp_t" where
  "inherited fp = (if fp_file fp \<noteq> 0 then fp else \<lparr>fp_file = 0, fp_flags = 0, fp_pos = 0\<rparr>)"

abbreviation add_refs :: "nat \<Rightarrow> file_t \<Rightarrow> file_t" where
  "add_refs n f \<equiv> f\<lparr>refs := refs f + of_nat n\<rparr>"

lemma fp_count_Suc: "k < length fps \<Longrightarrow> fp_count a (take (Suc k) fps) = fp_count a (take k fps) + (if fp_file (fps ! k) = a then 1 else 0)"
  by (simp add: take_Suc_conv_app_nth fp_count_def)

lemma openable_refs: "openable drv s (add_refs n f) = openable drv s f"
  by (simp add: openable_def)

lemma inherit_loop:
  fixes s :: "'z kernel_scheme"
  assumes p: "parent \<noteq> 0" "proc \<noteq> 0" "parent \<noteq> proc" "procs s parent = Some pp" "length (pfp pp) = PROC_NUMFP"
    and c: "procs s proc = Some pr" "pfp pr = replicate PROC_NUMFP \<lparr>fp_file = 0, fp_flags = 0, fp_pos = 0\<rparr>"
    and f: "\<And>fp. fp \<in> set (pfp pp) \<Longrightarrow> fp_file fp \<noteq> 0 \<Longrightarrow> \<exists>f. files s (fp_file fp) = Some f \<and> openable drv s f"
    and k: "k \<le> PROC_NUMFP"
  shows "\<exists>s'. foldR (inherit_fp drv parent proc) [0..<k] s = Inr s' \<and> dom (pipes s') = dom (pipes s)
    \<and> procs s' = (procs s)(proc \<mapsto> pr\<lparr>pfp := map inherited (take k (pfp pp)) @ drop k (pfp pr)\<rparr>)
    \<and> (\<forall>a. a \<noteq> 0 \<longrightarrow> files s' a = map_option (add_refs (fp_count a (take k (pfp pp)))) (files s a))"
  using k
proof (induction k)
  case 0
  have "procs s = (procs s)(proc \<mapsto> pr)" using c(1) by auto
  then show ?case by (auto simp: fp_count_def map_option.id [unfolded id_def])
next
  case (Suc k)
  let ?fp = "pfp pp ! k" and ?prk = "pr\<lparr>pfp := map inherited (take k (pfp pp)) @ drop k (pfp pr)\<rparr>"
  from Suc.IH [OF Suc_leD [OF Suc.prems]] obtain s1 where s1: "foldR (inherit_fp drv parent proc) [0..<k] s = Inr s1"
      "dom (pipes s1) = dom (pipes s)" "procs s1 = (procs s)(proc \<mapsto> ?prk)"
    and fl': "\<forall>a. a \<noteq> 0 \<longrightarrow> files s1 a = map_option (add_refs (fp_count a (take k (pfp pp)))) (files s a)"
    by (elim exE conjE) (rule that)
  have fl: "files s1 a = map_option (add_refs (fp_count a (take k (pfp pp)))) (files s a)" if "a \<noteq> 0" for a
    using fl' that by blast
  have kl: "k < length (pfp pp)" "k < PROC_NUMFP" using Suc.prems p(5) by simp_all
  have par: "obj (procs s1) parent = Inr pp" using p s1(3) by simp
  have lenk: "length (map inherited (take k (pfp pp))) = k" using kl by simp
  have drk: "drop k (pfp pr) = \<lparr>fp_file = 0, fp_flags = 0, fp_pos = 0\<rparr> # drop (Suc k) (pfp pr)"
    using kl(2) by (subst Cons_nth_drop_Suc [symmetric]) (simp_all add: c(2))
  have tk: "map inherited (take (Suc k) (pfp pp)) = map inherited (take k (pfp pp)) @ [inherited ?fp]" using kl by (simp add: take_Suc_conv_app_nth)
  show ?case
  proof (cases "fp_file ?fp = 0")
    case True
    then have "inherit_fp drv parent proc k s1 = Inr s1" using par by (simp add: inherit_fp_def)
    moreover have "inherited ?fp = \<lparr>fp_file = 0, fp_flags = 0, fp_pos = 0\<rparr>" using True by (simp add: inherited_def)
    ultimately show ?thesis
      using s1 fl True kl by (intro exI [of _ s1]) (simp add: foldR_append tk drk fp_count_Suc)
  next
    case False
    let ?a = "fp_file ?fp"
    obtain f where f0: "files s ?a = Some f" "openable drv s f" using f [of ?fp] False kl by auto
    let ?n = "fp_count ?a (take k (pfp pp))"
    define s2 where "s2 = s1\<lparr>files := (files s1)(?a \<mapsto> add_refs (Suc ?n) f)\<rparr>"
    have g: "fs_get ?a s1 = Inr (?a, s2)" using False fl [OF False] f0(1) by (simp add: fs_get_def s2_def algebra_simps)
    have fp_eta: "\<lparr>fp_file = ?a, fp_flags = fp_flags ?fp, fp_pos = fp_pos ?fp\<rparr> = ?fp" by simp
    define s3 where "s3 = s2\<lparr>procs := (procs s2)(proc \<mapsto> ?prk\<lparr>pfp := (pfp ?prk)[k := ?fp]\<rparr>)\<rparr>"
    have u: "upd_proc proc (\<lambda>pr. pr\<lparr>pfp := (pfp pr)[k := \<lparr>fp_file = ?a, fp_flags = fp_flags ?fp, fp_pos = fp_pos ?fp\<rparr>]\<rparr>) s2 = Inr s3"
      using p(2) s1(3) unfolding fp_eta by (simp add: upd_proc_def s3_def s2_def)
    have "openable drv s3 (add_refs (Suc ?n) f)"
      using f0(2) s1(2) by (auto simp: openable_def s3_def s2_def)
    moreover have "files s3 ?a = Some (add_refs (Suc ?n) f)" by (simp add: s3_def s2_def)
    ultimately obtain r s4 where s4: "fs_open drv ?a (fp_flags ?fp) s3 = Inr (r, s4)" "files s4 = files s3" "procs s4 = procs s3" "dom (pipes s4) = dom (pipes s3)"
      using fs_open_openable [OF False] by blast
    have "inherit_fp drv parent proc k s1 = Inr s4"
      using par False g u s4(1) by (simp add: inherit_fp_def Let_def)
    moreover have "procs s4 = (procs s)(proc \<mapsto> pr\<lparr>pfp := map inherited (take (Suc k) (pfp pp)) @ drop (Suc k) (pfp pr)\<rparr>)"
      using s4(3) s1(3) False lenk by (simp add: s3_def s2_def tk drk list_update_append inherited_def)
    moreover have "files s4 a = map_option (add_refs (fp_count a (take (Suc k) (pfp pp)))) (files s a)" if "a \<noteq> 0" for a
      using s4(2) fl [OF that] f0(1) kl by (auto simp: s3_def s2_def fp_count_Suc)
    moreover have "dom (pipes s4) = dom (pipes s)" using s4(4) s1(2) by (simp add: s3_def s2_def)
    ultimately show ?thesis using s1(1) by (auto simp: foldR_append)
  qed
qed

text \<open>
  C28. The descriptors of a new process: the loop of \<^verbatim>\<open>process_spawn\<close> gives the child every
  open descriptor of its parent with the same file, flags and position, leaves the others free,
  and counts exactly one more reference to a file for each descriptor that names it.
\<close>

theorem process_spawn_inherits:
  fixes s :: "'z kernel_scheme"
  assumes "parent \<noteq> 0" and "proc \<noteq> 0" and "parent \<noteq> proc" and "procs s parent = Some pp" and "length (pfp pp) = PROC_NUMFP"
    and "procs s proc = Some pr" and "pfp pr = replicate PROC_NUMFP \<lparr>fp_file = 0, fp_flags = 0, fp_pos = 0\<rparr>"
    and "\<And>fp. fp \<in> set (pfp pp) \<Longrightarrow> fp_file fp \<noteq> 0 \<Longrightarrow> \<exists>f. files s (fp_file fp) = Some f \<and> openable drv s f"
  shows "\<exists>s'. foldR (inherit_fp drv parent proc) [0..<PROC_NUMFP] s = Inr s'
    \<and> procs s' = (procs s)(proc \<mapsto> pr\<lparr>pfp := map inherited (pfp pp)\<rparr>)
    \<and> (\<forall>a. a \<noteq> 0 \<longrightarrow> files s' a = map_option (add_refs (fp_count a (pfp pp))) (files s a))"
  using inherit_loop [OF assms, of PROC_NUMFP] assms(5,7) by auto

definition example_file :: file_t where
  "example_file = \<lparr>refs = 1, ftype = 1, driver = NullDrv, fdata = 0\<rparr>"

definition no_drivers :: "drvref \<Rightarrow> kernel fs_driver" where
  "no_drivers r = \<lparr>open_fn = None, close_fn = None, read_fn = None, write_fn = None, readdir_fn = None\<rparr>"

definition example_parent :: kernel where
  "example_parent = (example_kernel PROC_STATE_READY)
     \<lparr>files := [KERNEL_HEAP_S \<mapsto> example_file],
      procs := [0x500 \<mapsto> (example_process PROC_STATE_READY)\<lparr>pfp := (replicate PROC_NUMFP \<lparr>fp_file = 0, fp_flags = 0, fp_pos = 0\<rparr>)
                  [0 := \<lparr>fp_file = KERNEL_HEAP_S, fp_flags = 1, fp_pos = 7\<rparr>]\<rparr>,
                0x600 \<mapsto> example_process PROC_STATE_READY]\<rparr>"

theorem process_spawn_inherits_witness:
  "\<exists>s'. foldR (inherit_fp no_drivers 0x500 0x600) [0..<PROC_NUMFP] example_parent = Inr s'
     \<and> map_option refs (files s' KERNEL_HEAP_S) = Some 2
     \<and> map_option (\<lambda>p. pfp p ! 0) (procs s' 0x600) = Some \<lparr>fp_file = KERNEL_HEAP_S, fp_flags = 1, fp_pos = 7\<rparr>"
proof -
  let ?p = "(example_process PROC_STATE_READY)\<lparr>pfp := (replicate PROC_NUMFP \<lparr>fp_file = 0, fp_flags = 0, fp_pos = 0\<rparr>)
    [0 := \<lparr>fp_file = KERNEL_HEAP_S, fp_flags = 1, fp_pos = 7\<rparr>]\<rparr>"
  have f: "\<exists>f. files example_parent (fp_file fp) = Some f \<and> openable no_drivers example_parent f"
    if "fp \<in> set (pfp ?p)" "fp_file fp \<noteq> 0" for fp
  proof -
    have "fp = \<lparr>fp_file = KERNEL_HEAP_S, fp_flags = 1, fp_pos = 7\<rparr> \<or> fp = \<lparr>fp_file = 0, fp_flags = 0, fp_pos = 0\<rparr>"
      using that(1) set_update_subset_insert [of "replicate PROC_NUMFP \<lparr>fp_file = 0, fp_flags = 0, fp_pos = 0\<rparr>" 0] by fastforce
    then show ?thesis using that(2) by (auto simp: example_parent_def openable_def example_file_def)
  qed
  have "\<exists>s'. foldR (inherit_fp no_drivers 0x500 0x600) [0..<PROC_NUMFP] example_parent = Inr s'
    \<and> procs s' = (procs example_parent)(0x600 \<mapsto> (example_process PROC_STATE_READY)\<lparr>pfp := map inherited (pfp ?p)\<rparr>)
    \<and> (\<forall>a. a \<noteq> 0 \<longrightarrow> files s' a = map_option (add_refs (fp_count a (pfp ?p))) (files example_parent a))"
    using f by (intro process_spawn_inherits) (simp_all add: example_parent_def example_process_def)
  moreover have r: "replicate PROC_NUMFP e = e # replicate 19 e" for e :: fp_t using replicate_Suc [of 19 e] by simp
  moreover have "fp_count KERNEL_HEAP_S (pfp ?p) = 1" "pfp ?p ! 0 = \<lparr>fp_file = KERNEL_HEAP_S, fp_flags = 1, fp_pos = 7\<rparr>" "KERNEL_HEAP_S \<noteq> 0"
    by (simp_all add: fp_count_def r KERNEL_HEAP_S_def)
  ultimately show ?thesis
    by (auto simp: inherited_def example_parent_def example_file_def)
qed

section \<open>Leaving children behind\<close>

lemma dlist_frame:
  assumes "dlist (h, l) zs" "\<And>z. z \<in> set zs \<Longrightarrow> lnext l' z = lnext l z \<and> lprev l' z = lprev l z"
  shows "dlist (h, l') zs"
  using assms seg_frame [of zs l' l] by (auto simp: dlist_def)

lemma dlist_append_other:
  assumes "dlist (h, l) zs" "dlist (h', l) xs" "x \<notin> set zs" "set xs \<inter> set zs = {}"
  shows "dlist (h, snd (LIST_APPEND (h', l) x)) zs"
proof (rule dlist_frame [OF assms(1)])
  fix z assume z: "z \<in> set zs"
  have "hprev h' \<in> insert 0 (set xs)" using assms(2) last0_in [of 0 xs] by (simp add: dlist_def)
  then have "z \<noteq> hprev h'" "z \<noteq> x" using z assms dlist_nonzero [OF assms(1)] by auto
  then show "lnext (snd (LIST_APPEND (h', l) x)) z = lnext l z \<and> lprev (snd (LIST_APPEND (h', l) x)) z = lprev l z"
    by (simp add: LIST_APPEND_def Let_def)
qed

lemma dlist_pop_other:
  assumes "dlist (h, l) zs" "dlist (h', l) (x # xs)" "set (x # xs) \<inter> set zs = {}"
  shows "dlist (h, snd (LIST_REMOVE (h', l) x)) zs"
proof (rule dlist_frame [OF assms(1)])
  fix z assume z: "z \<in> set zs"
  have "lprev l x = 0" "lnext l x \<in> insert 0 (set xs)" using assms(2) first0_in [of xs 0] by (auto simp: dlist_def)
  then have "z \<noteq> lnext l x" "z \<noteq> lprev l x" "z \<noteq> x" using z assms dlist_nonzero [OF assms(1)] by auto
  then show "lnext (snd (LIST_REMOVE (h', l) x)) z = lnext l z \<and> lprev (snd (LIST_REMOVE (h', l) x)) z = lprev l z"
    by (simp add: LIST_REMOVE_def Let_def)
qed

lemma LIST_APPEND_next: "hprev (fst q) \<noteq> self \<Longrightarrow> lnext (snd (LIST_APPEND q self)) self = 0"
  by (simp add: LIST_APPEND_def Let_def)

lemma adopt_children_first:
  fixes s :: "'z kernel_scheme"
  assumes p: "procs s proc = Some p" "procs s c = Some pc" "procs s (init_proc s) = Some ip"
    and n: "proc \<noteq> 0" "init_proc s \<noteq> 0" "proc \<noteq> c" "init_proc s \<noteq> c" "proc \<noteq> init_proc s"
    and d: "dlist (pchildren p, siblings s) (c # os)" "dlist (pchildren ip, siblings s) ys" "set (c # os) \<inter> set ys = {}"
  shows "\<exists>s' hc hi. adopt_children proc c s = Some (Inr s') \<and> dlist (hc, siblings s') os \<and> dlist (hi, siblings s') (ys @ [c])
    \<and> s' = s\<lparr>procs := (procs s)(proc \<mapsto> p\<lparr>pchildren := hc\<rparr>, c \<mapsto> pc\<lparr>pparent := init_proc s\<rparr>, init_proc s \<mapsto> ip\<lparr>pchildren := hi\<rparr>),
            siblings := siblings s'\<rparr>"
proof -
  obtain hc l1 where q1: "LIST_REMOVE (pchildren p, siblings s) c = (hc, l1)" by fastforce
  obtain hi l2 where q2: "LIST_APPEND (pchildren ip, l1) c = (hi, l2)" by fastforce
  have c0: "c \<noteq> 0" "c \<notin> set os" "c \<notin> set ys" using dlist_nonzero [OF d(1)] dlist_distinct [OF d(1)] d(3) by auto
  have d1: "dlist (hc, l1) os" using klist.abs_remove [of "(pchildren p, siblings s)" "[]" c os] d(1) q1 by simp
  have d2: "dlist (pchildren ip, l1) ys" using dlist_pop_other [OF d(2,1,3)] q1 by simp
  have d3: "dlist (hi, l2) (ys @ [c])" using klist.abs_append [OF d2 c0(1,3)] q2 by simp
  have d4: "dlist (hc, l2) os" using dlist_append_other [OF d1 d2 c0(2)] d(3) q2 by auto
  have "hprev (pchildren ip) \<noteq> c" using d2 last0_in [of 0 ys] c0 by (auto simp: dlist_def)
  then have nx: "lnext l2 c = 0" using LIST_APPEND_next [of "(pchildren ip, l1)" c] q2 by simp
  define s' where "s' = s\<lparr>procs := (procs s)(proc \<mapsto> p\<lparr>pchildren := hc\<rparr>, c \<mapsto> pc\<lparr>pparent := init_proc s\<rparr>, init_proc s \<mapsto> ip\<lparr>pchildren := hi\<rparr>), siblings := l2\<rparr>"
  have "adopt_children proc c s = adopt_children proc (lnext l2 c) s'"
    by (subst adopt_children.simps) (use p n c0(1) q1 q2 in \<open>simp add: Let_def upd_proc_def s'_def\<close>)
  also have "\<dots> = Some (Inr s')" by (simp add: nx adopt_children.simps)
  finally show ?thesis using d3 d4 by (intro exI [of _ s'] exI [of _ hc] exI [of _ hi]) (simp add: s'_def)
qed

lemma close_fps_none:
  assumes "procs s proc = Some p" "proc \<noteq> 0" "\<And>fp. fp \<in> set (pfp p) \<Longrightarrow> fp_file fp = 0" "k \<le> length (pfp p)"
  shows "foldR (close_fp drv proc) [0..<k] s = Inr s"
  using assms(4) by (induction k) (simp_all add: foldR_append close_fp_def Let_def assms(1-3))

text \<open>
  When a process with children exits, only its first child gets a new parent: that child is
  appended to the children of the init process, and the loop ends there, because the removal has
  cleared the link it follows. The other children stay in the list of the zombie and keep it as
  their parent.
\<close>

theorem process_exit_adopts_first:
  fixes s :: "'z kernel_scheme"
  assumes p: "procs s proc = Some p" "procs s c = Some pc" "procs s (init_proc s) = Some ip"
    and n: "proc \<noteq> 0" "init_proc s \<noteq> 0" "proc \<noteq> c" "init_proc s \<noteq> c" "proc \<noteq> init_proc s"
    and d: "dlist (pchildren p, siblings s) (c # os)" "dlist (pchildren ip, siblings s) ys" "set (c # os) \<inter> set ys = {}"
    and f: "\<And>fp. fp \<in> set (pfp p) \<Longrightarrow> fp_file fp = 0" "length (pfp p) = PROC_NUMFP"
  shows "\<exists>s' hc hi. process_exit drv proc status s = Inr s' \<and> dlist (hc, siblings s') os \<and> dlist (hi, siblings s') (ys @ [c])
    \<and> procs s' = (procs s)(c \<mapsto> pc\<lparr>pparent := init_proc s\<rparr>, init_proc s \<mapsto> ip\<lparr>pchildren := hi\<rparr>,
         proc \<mapsto> p\<lparr>pstatus := status, pchildren := hc, pstate := PROC_STATE_ZOMBIE\<rparr>)"
proof -
  let ?p = "p\<lparr>pstatus := status\<rparr>"
  define s1 where "s1 = s\<lparr>procs := (procs s)(proc \<mapsto> ?p)\<rparr>"
  have h: "procs s1 proc = Some ?p" "procs s1 c = Some pc" "procs s1 (init_proc s1) = Some ip"
      "init_proc s1 = init_proc s" "siblings s1 = siblings s" "pchildren ?p = pchildren p"
    using p n by (simp_all add: s1_def)
  have "\<exists>s' hc hi. adopt_children proc c s1 = Some (Inr s') \<and> dlist (hc, siblings s') os \<and> dlist (hi, siblings s') (ys @ [c])
    \<and> s' = s1\<lparr>procs := (procs s1)(proc \<mapsto> ?p\<lparr>pchildren := hc\<rparr>, c \<mapsto> pc\<lparr>pparent := init_proc s1\<rparr>, init_proc s1 \<mapsto> ip\<lparr>pchildren := hi\<rparr>),
            siblings := siblings s'\<rparr>"
    using d n by (intro adopt_children_first [OF h(1-3)]) (simp_all only: h not_False_eq_True)
  then obtain s2 hc hi where s2: "adopt_children proc c s1 = Some (Inr s2)" "dlist (hc, siblings s2) os" "dlist (hi, siblings s2) (ys @ [c])"
    "s2 = s1\<lparr>procs := (procs s1)(proc \<mapsto> ?p\<lparr>pchildren := hc\<rparr>, c \<mapsto> pc\<lparr>pparent := init_proc s1\<rparr>, init_proc s1 \<mapsto> ip\<lparr>pchildren := hi\<rparr>),
            siblings := siblings s2\<rparr>" by blast
  have pr2: "procs s2 = (procs s)(proc \<mapsto> ?p\<lparr>pchildren := hc\<rparr>, c \<mapsto> pc\<lparr>pparent := init_proc s\<rparr>, init_proc s \<mapsto> ip\<lparr>pchildren := hi\<rparr>)"
    by (subst s2(4)) (simp add: s1_def)
  then have pp2: "procs s2 proc = Some (?p\<lparr>pchildren := hc\<rparr>)" using n by simp
  have cl: "foldR (close_fp drv proc) [0..<PROC_NUMFP] s2 = Inr s2"
    by (rule close_fps_none [OF pp2 n(1)]) (use f in auto)
  have fc: "LIST_FIRST (pchildren p) = c" using LIST_FIRST_eq [OF d(1)] by simp
  define s3 where "s3 = s2\<lparr>procs := (procs s2)(proc \<mapsto> p\<lparr>pstatus := status, pchildren := hc, pstate := PROC_STATE_ZOMBIE\<rparr>)\<rparr>"
  have u1: "upd_proc proc (\<lambda>p. p\<lparr>pstatus := status\<rparr>) s = Inr s1" using p n by (simp add: upd_proc_def s1_def)
  have u3: "upd_proc proc (\<lambda>p. p\<lparr>pstate := PROC_STATE_ZOMBIE\<rparr>) s2 = Inr s3" using pp2 n by (simp add: upd_proc_def s3_def)
  have "process_exit drv proc status s = Inr s3"
    using n(1) fc s2(1) by (simp add: process_exit_def u1 u3 cl h(1) del: upt_conv_Cons)
  moreover have "procs s3 = (procs s)(c \<mapsto> pc\<lparr>pparent := init_proc s\<rparr>, init_proc s \<mapsto> ip\<lparr>pchildren := hi\<rparr>,
         proc \<mapsto> p\<lparr>pstatus := status, pchildren := hc, pstate := PROC_STATE_ZOMBIE\<rparr>)"
    using n by (auto simp: s3_def pr2)
  moreover have "siblings s3 = siblings s2" by (simp add: s3_def)
  ultimately show ?thesis using s2(2,3) by metis
qed

abbreviation no_links :: links where
  "no_links \<equiv> \<lparr>lprev = (\<lambda>_. 0), lnext = (\<lambda>_. 0)\<rparr>"

abbreviation example_children :: klist where
  "example_children \<equiv> LIST_APPEND (LIST_APPEND (LIST_HEAD_INIT, no_links) 0x700) 0x800"

definition example_family :: kernel where
  "example_family = (example_kernel PROC_STATE_READY)\<lparr>siblings := snd example_children,
     procs := [0x500 \<mapsto> example_process PROC_STATE_READY, 0x600 \<mapsto> (example_process PROC_STATE_READY)\<lparr>pchildren := fst example_children\<rparr>,
               0x700 \<mapsto> (example_process PROC_STATE_READY)\<lparr>pparent := 0x600\<rparr>, 0x800 \<mapsto> (example_process PROC_STATE_READY)\<lparr>pparent := 0x600\<rparr>]\<rparr>"

theorem process_exit_adopts_first_witness:
  "\<exists>s'. process_exit no_drivers 0x600 3 example_family = Inr s' \<and> map_option pparent (procs s' 0x700) = Some 0x500
     \<and> map_option pparent (procs s' 0x800) = Some 0x600 \<and> map_option pstate (procs s' 0x600) = Some PROC_STATE_ZOMBIE"
proof -
  let ?p = "(example_process PROC_STATE_READY)\<lparr>pchildren := fst example_children\<rparr>"
  have "dlist example_children ([] @ [0x700] @ [0x800])"
    using klist.abs_append [OF klist.abs_append [OF dlist_empty, of "0x700"], of "0x800"] by simp
  then have d: "dlist (fst example_children, snd example_children) [0x700, 0x800]" by simp
  have "\<exists>s' hc hi. process_exit no_drivers 0x600 3 example_family = Inr s' \<and> dlist (hc, siblings s') [0x800] \<and> dlist (hi, siblings s') ([] @ [0x700])
    \<and> procs s' = (procs example_family)(0x700 \<mapsto> (example_process PROC_STATE_READY)\<lparr>pparent := 0x600, pparent := init_proc example_family\<rparr>,
         init_proc example_family \<mapsto> (example_process PROC_STATE_READY)\<lparr>pchildren := hi\<rparr>,
         0x600 \<mapsto> ?p\<lparr>pstatus := 3, pchildren := hc, pstate := PROC_STATE_ZOMBIE\<rparr>)"
    by (rule process_exit_adopts_first [of example_family "0x600" ?p "0x700" "(example_process PROC_STATE_READY)\<lparr>pparent := 0x600\<rparr>"
        "example_process PROC_STATE_READY" "[0x800]" "[]" no_drivers 3])
      (use d dlist_empty [of "snd example_children"] in
        \<open>simp_all add: example_family_def example_kernel_def procmm.defs example_process_def split: if_splits\<close>)
  then show ?thesis by (auto simp: example_family_def example_kernel_def procmm.defs)
qed

text \<open>
  Freeing a zombie whose threads have finished fails: \<^verbatim>\<open>free_thread\<close> releases the first thread,
  and the step of the loop in \<^verbatim>\<open>process_free\<close> then reads the list link inside the released object.
\<close>

theorem process_free_use_after_free:
  fixes s :: "'z kernel_scheme"
  assumes "procs s proc = Some p" and "proc \<noteq> 0" and "pstate p = PROC_STATE_ZOMBIE"
    and "dlist (pthreads p, process_threads s) (th # ts)" and "threads s th = Some t" and "tprocess t = proc"
    and "tstate t = THREAD_STATE_FINISHED" and "KERNEL_HEAP_S \<le> th - TCB_OFFSET"
  shows "process_free proc s = Inl UseAfterFree"
proof -
  have th: "th \<noteq> 0" "LIST_FIRST (pthreads p) = th"
    using dlist_nonzero [OF assms(4)] LIST_FIRST_eq [OF assms(4)] by auto
  have "\<exists>s'. free_thread th s = Inr s' \<and> threads s' th = None"
    using assms th by (auto simp: free_thread_def Let_def not_less)
  then have "free_threads th s = Some (Inl UseAfterFree)"
    using th(1) assms(5,7) by (subst free_threads.simps) (auto simp: obj_def)
  then show ?thesis using assms(1-3) th(2) by (simp add: process_free_def)
qed

definition example_zombie :: kernel where
  "example_zombie =
     (let th = KERNEL_HEAP_S + TCB_OFFSET; q = LIST_APPEND (LIST_HEAD_INIT, no_links) th in
      (example_kernel PROC_STATE_READY)\<lparr>procs := [0x600 \<mapsto> (example_process PROC_STATE_ZOMBIE)\<lparr>pthreads := fst q\<rparr>],
        process_threads := snd q, threads := [th \<mapsto> (example_thread 0x600)\<lparr>tstate := THREAD_STATE_FINISHED\<rparr>]\<rparr>)"

theorem process_free_use_after_free_witness: "process_free 0x600 example_zombie = Inl UseAfterFree"
proof -
  let ?th = "KERNEL_HEAP_S + TCB_OFFSET" and ?q = "LIST_APPEND (LIST_HEAD_INIT, no_links) (KERNEL_HEAP_S + TCB_OFFSET)"
  have "dlist (fst ?q, snd ?q) [?th]" using klist.abs_append [OF dlist_empty, of ?th no_links] by (simp add: KERNEL_HEAP_S_def)
  then show ?thesis
    by (intro process_free_use_after_free [of example_zombie "0x600" "(example_process PROC_STATE_ZOMBIE)\<lparr>pthreads := fst ?q\<rparr>" ?th "[]"
          "(example_thread 0x600)\<lparr>tstate := THREAD_STATE_FINISHED\<rparr>"])
      (simp_all add: example_zombie_def Let_def example_process_def example_thread_def KERNEL_HEAP_S_def)
qed

end
