(* ===== verification/Scheduler.thy ===== *)
theory Scheduler
  imports Process
begin

text \<open>
  The scheduler: \<^verbatim>\<open>kernel/proc/scheduler.c\<close>. The body of its endless loop is split where
  it can wait: \<open>sched_requeue\<close> puts the last thread back, \<open>sched_pick\<close> takes the next one
  and switches to it, or finds the queue empty or the thread's process dead. The sections between
  taking and releasing \<^verbatim>\<open>scheduler_lock\<close> are atomic. The timer, the interrupt flag and
  the SSE registers are not modelled.
\<close>

section \<open>scheduler.c\<close>

definition scheduler_insert :: "addr \<Rightarrow> 'z kernel_scheme \<Rightarrow> 'z kernel_scheme res" where
  "scheduler_insert th s =
     (if th = 0 then Inl NullDeref
      else
        let q = LIST_APPEND (ready_queue s, ready_links s) th in
        upd_thread th (\<lambda>t. t\<lparr>tstate := THREAD_STATE_READY\<rparr>) (s\<lparr>ready_queue := fst q, ready_links := snd q\<rparr>))"

definition scheduler_remove :: "addr \<Rightarrow> 'z kernel_scheme \<Rightarrow> 'z kernel_scheme" where
  "scheduler_remove th s =
     (let q = LIST_REMOVE (ready_queue s, ready_links s) th in s\<lparr>ready_queue := fst q, ready_links := snd q\<rparr>)"

definition scheduler_next :: "'z kernel_scheme \<Rightarrow> addr \<times> 'z kernel_scheme" where
  "scheduler_next s =
     (if \<not> LIST_EMPTY (ready_queue s) then
        let th = LIST_FIRST (ready_queue s); q = LIST_REMOVE (ready_queue s, ready_links s) th
        in (th, s\<lparr>ready_queue := fst q, ready_links := snd q\<rparr>)
      else (0, s))"

definition sched_requeue :: "'z kernel_scheme \<Rightarrow> 'z kernel_scheme res" where
  "sched_requeue s =
     (let old = last_thread (cpu s) in
      if old \<noteq> 0 then
        bindR (obj (threads s) old) (\<lambda>t.
        bindR (if tstate t \<noteq> THREAD_STATE_FINISHED then process_alive (tprocess t) s else Inr False) (\<lambda>alive.
        if alive then
          bindR (upd_thread old (\<lambda>t. t\<lparr>tstate := THREAD_STATE_READY\<rparr>) s) (scheduler_insert old)
        else upd_thread old (\<lambda>t. t\<lparr>tstate := THREAD_STATE_FINISHED\<rparr>) s))
      else Inr s)"

datatype sched_out = Empty | Dead | Switched

definition sched_pick :: "'z kernel_scheme \<Rightarrow> (sched_out \<times> 'z kernel_scheme) res" where
  "sched_pick s =
     (let (new, s) = scheduler_next s in
      if new = 0 then Inr (Empty, s)
      else
        bindR (obj (threads s) new) (\<lambda>t.
        bindR (process_alive (tprocess t) s) (\<lambda>alive.
        if \<not> alive then bindR (upd_thread new (\<lambda>t. t\<lparr>tstate := THREAD_STATE_FINISHED\<rparr>) s) (\<lambda>s. Inr (Dead, s))
        else
          bindR (upd_thread new (\<lambda>t. t\<lparr>tstate := THREAD_STATE_RUNNING\<rparr>) s) (\<lambda>s.
          let s = upd_cpu (\<lambda>c. c\<lparr>last_thread := new\<rparr>) s in
          bindR (switch_process (tprocess t) s) (\<lambda>s.
          bindR (switch_thread (cpu_scheduler (cpu s)) new s) (\<lambda>s. Inr (Switched, s)))))))"

text \<open>One pass of the loop; \<open>Dead\<close> is its \<^verbatim>\<open>continue\<close>.\<close>

definition scheduler_pass :: "'z kernel_scheme \<Rightarrow> (sched_out \<times> 'z kernel_scheme) res" where
  "scheduler_pass s = bindR (sched_requeue s) sched_pick"

definition schedule :: "'z kernel_scheme \<Rightarrow> 'z kernel_scheme res" where
  "schedule s =
     (let old = current_thread (cpu s) in
      if old = cpu_scheduler (cpu s) then Inr s
      else bindR (switch_process 0 s) (switch_thread old (cpu_scheduler (cpu s))))"

text \<open>\<open>scheduler_fn\<close> is the address of \<^verbatim>\<open>scheduler\<close>.\<close>

definition scheduler_init :: "addr \<Rightarrow> addr \<Rightarrow> 'z kernel_scheme \<Rightarrow> 'z kernel_scheme res" where
  "scheduler_init isr_return scheduler_fn s =
     (let s = (if \<not> scheduler_started s then s\<lparr>ready_queue := LIST_HEAD_INIT, scheduler_started := True\<rparr> else s) in
      bindR (new_thread isr_return scheduler_fn False s) (\<lambda>(th, s). Inr (upd_cpu (\<lambda>c. c\<lparr>cpu_scheduler := th\<rparr>) s)))"

section \<open>What a pass keeps\<close>

definition alive :: "process_t \<Rightarrow> bool" where
  "alive p \<longleftrightarrow> pstate p = PROC_STATE_READY \<or> pstate p = PROC_STATE_RUNNING"

text \<open>A thread that the scheduler can run.\<close>

definition runnable :: "'z kernel_scheme \<Rightarrow> addr \<Rightarrow> bool" where
  "runnable s z \<longleftrightarrow> z \<noteq> 0 \<and> (\<exists>t p m. threads s z = Some t \<and> tstate t \<noteq> THREAD_STATE_FINISHED \<and> tprocess t \<noteq> 0
     \<and> procs s (tprocess t) = Some p \<and> alive p \<and> pmmap p \<noteq> 0 \<and> mmaps s (pmmap p) = Some m)"

definition keeps :: "'z kernel_scheme \<Rightarrow> 'z kernel_scheme \<Rightarrow> bool" where
  "keeps s s' \<longleftrightarrow>
     (\<forall>z t. threads s z = Some t \<longrightarrow> (\<exists>t'. threads s' z = Some t' \<and> tprocess t' = tprocess t
        \<and> (tstate t \<noteq> THREAD_STATE_FINISHED \<longrightarrow> tstate t' \<noteq> THREAD_STATE_FINISHED)))
     \<and> (\<forall>q p. procs s q = Some p \<longrightarrow> (\<exists>p'. procs s' q = Some p' \<and> pmmap p' = pmmap p \<and> (alive p \<longrightarrow> alive p')))
     \<and> mmaps s' = mmaps s"

lemma keeps_refl: "keeps s s"
  by (simp add: keeps_def)

lemma keeps_threadD:
  "keeps s s' \<Longrightarrow> threads s z = Some t \<Longrightarrow> \<exists>t'. threads s' z = Some t' \<and> tprocess t' = tprocess t
     \<and> (tstate t \<noteq> THREAD_STATE_FINISHED \<longrightarrow> tstate t' \<noteq> THREAD_STATE_FINISHED)"
  by (simp add: keeps_def)

lemma keeps_procD:
  "keeps s s' \<Longrightarrow> procs s q = Some p \<Longrightarrow> \<exists>p'. procs s' q = Some p' \<and> pmmap p' = pmmap p \<and> (alive p \<longrightarrow> alive p')"
  by (simp add: keeps_def)

lemma keeps_trans:
  assumes "keeps s s1" "keeps s1 s2"
  shows "keeps s s2"
  unfolding keeps_def
proof (intro conjI allI impI)
  fix z t
  assume "threads s z = Some t"
  from keeps_threadD [OF assms(1) this] keeps_threadD [OF assms(2)]
  show "\<exists>t'. threads s2 z = Some t' \<and> tprocess t' = tprocess t
     \<and> (tstate t \<noteq> THREAD_STATE_FINISHED \<longrightarrow> tstate t' \<noteq> THREAD_STATE_FINISHED)" by fastforce
next
  fix q p
  assume "procs s q = Some p"
  from keeps_procD [OF assms(1) this] keeps_procD [OF assms(2)]
  show "\<exists>p'. procs s2 q = Some p' \<and> pmmap p' = pmmap p \<and> (alive p \<longrightarrow> alive p')" by fastforce
next
  show "mmaps s2 = mmaps s" using assms by (simp add: keeps_def)
qed

lemma runnable_keeps:
  assumes "keeps s s'" "runnable s z"
  shows "runnable s' z"
proof -
  obtain t p m where t: "z \<noteq> 0" "threads s z = Some t" "tstate t \<noteq> THREAD_STATE_FINISHED" "tprocess t \<noteq> 0"
    "procs s (tprocess t) = Some p" "alive p" "pmmap p \<noteq> 0" "mmaps s (pmmap p) = Some m"
    using assms(2) by (auto simp: runnable_def)
  from keeps_threadD [OF assms(1) t(2)] keeps_procD [OF assms(1) t(5)] t assms(1)
  show ?thesis by (auto simp: runnable_def keeps_def)
qed

lemma keeps_thread:
  assumes "upd_thread th f s = Inr s'" "\<And>t. tprocess (f t) = tprocess t"
    and "\<And>t. tstate t \<noteq> THREAD_STATE_FINISHED \<Longrightarrow> tstate (f t) \<noteq> THREAD_STATE_FINISHED"
  shows "keeps s s'"
  using assms by (auto simp: keeps_def upd_thread_def res_simps)

lemma keeps_proc:
  assumes "upd_proc q f s = Inr s'" "\<And>p. pmmap (f p) = pmmap p" "\<And>p. alive p \<Longrightarrow> alive (f p)"
  shows "keeps s s'"
  using assms by (auto simp: keeps_def upd_proc_def res_simps)

lemma keeps_fields:
  "threads s' = threads s \<Longrightarrow> procs s' = procs s \<Longrightarrow> mmaps s' = mmaps s \<Longrightarrow> keeps s s'"
  by (simp add: keeps_def)

lemma keeps_switch_thread:
  assumes "switch_thread old new s = Inr s'"
  shows "keeps s s'"
  using assms by (auto simp: switch_thread_def swtch_def upd_thread_def res_simps keeps_def Let_def split: if_splits)

section \<open>Successful steps\<close>

lemma upd_thread_ok: "runnable s th \<Longrightarrow> \<exists>s'. upd_thread th f s = Inr s'"
  by (auto simp: runnable_def upd_thread_def obj_def)

lemma process_alive_ok: "runnable s th \<Longrightarrow> threads s th = Some t \<Longrightarrow> process_alive (tprocess t) s = Inr True"
  by (auto simp: runnable_def process_alive_def obj_def alive_def)

lemma vmm_set_P4_kernel [simp]:
  "threads (vmm_set_P4 P s) = threads s" "procs (vmm_set_P4 P s) = procs s" "mmaps (vmm_set_P4 P s) = mmaps s"
  "cpu (vmm_set_P4 P s) = cpu s" "ready_queue (vmm_set_P4 P s) = ready_queue s" "ready_links (vmm_set_P4 P s) = ready_links s"
  by (simp_all add: vmm_set_P4_def)

definition same_sched :: "'z kernel_scheme \<Rightarrow> 'z kernel_scheme \<Rightarrow> bool" where
  "same_sched s s' \<longleftrightarrow> ready_queue s' = ready_queue s \<and> ready_links s' = ready_links s \<and> last_thread (cpu s') = last_thread (cpu s)
     \<and> cpu_scheduler (cpu s') = cpu_scheduler (cpu s)"

lemma same_sched_trans: "same_sched s s1 \<Longrightarrow> same_sched s1 s2 \<Longrightarrow> same_sched s s2"
  by (simp add: same_sched_def)

lemma upd_thread_fields:
  "upd_thread th f s = Inr s' \<Longrightarrow> same_sched s s' \<and> cpu s' = cpu s \<and> procs s' = procs s \<and> mmaps s' = mmaps s \<and> cr3 s' = cr3 s"
  by (auto simp: upd_thread_def res_simps same_sched_def)

lemma switch_thread_ok:
  assumes "threads s old \<noteq> None" "threads s new \<noteq> None" "old \<noteq> 0" "new \<noteq> 0"
  shows "\<exists>s'. switch_thread old new s = Inr s' \<and> keeps s s' \<and> same_sched s s' \<and> current_thread (cpu s') = new
    \<and> current_process (cpu s') = current_process (cpu s) \<and> cr3 s' = cr3 s \<and> procs s' = procs s \<and> mmaps s' = mmaps s
    \<and> tss_rsp0 (cpu s') = new + SP_OFFSET \<and> kernel_stack (cpu s') = new + SP_OFFSET
    \<and> map_option tstate (threads s' new) = map_option tstate (threads s new)"
proof -
  obtain to tn where "threads s old = Some to" "threads s new = Some tn" using assms by auto
  with assms(3,4) obtain s' where "switch_thread old new s = Inr s'"
    by (cases "new = old") (auto simp: switch_thread_def swtch_def upd_thread_def obj_def)
  with keeps_switch_thread [OF this] show ?thesis
    by (auto simp: switch_thread_def swtch_def upd_thread_def res_simps same_sched_def Let_def split: if_splits)
qed

lemma switch_process_ok:
  assumes "current_process (cpu s) = 0" "proc \<noteq> 0" "procs s proc = Some p" "pmmap p \<noteq> 0" "mmaps s (pmmap p) = Some m"
  shows "\<exists>s'. switch_process proc s = Inr s' \<and> keeps s s' \<and> same_sched s s' \<and> current_process (cpu s') = proc
    \<and> threads s' = threads s \<and> mmaps s' = mmaps s \<and> (mm_P4 m \<noteq> 0 \<longrightarrow> cr3 s' = mm_P4 m)
    \<and> procs s' = (procs s)(proc \<mapsto> p\<lparr>pstate := PROC_STATE_RUNNING\<rparr>)"
  using assms
  by (auto simp: switch_process_def Let_def upd_proc_def obj_def keeps_def same_sched_def vmm_set_P4_def alive_def)

lemma switch_process_0_ok:
  assumes "current_process (cpu s) \<noteq> 0" "procs s (current_process (cpu s)) \<noteq> None"
  shows "\<exists>s'. switch_process 0 s = Inr s' \<and> keeps s s' \<and> same_sched s s' \<and> current_process (cpu s') = 0
    \<and> current_thread (cpu s') = current_thread (cpu s) \<and> threads s' = threads s"
  using assms
  by (auto simp: switch_process_def Let_def upd_proc_def obj_def keeps_def same_sched_def vmm_set_P4_def alive_def split: option.splits)

lemma scheduler_insert_ok:
  assumes "runnable s th" "dlist (ready_queue s, ready_links s) xs" "th \<notin> set xs"
  shows "\<exists>s'. scheduler_insert th s = Inr s' \<and> keeps s s' \<and> dlist (ready_queue s', ready_links s') (xs @ [th]) \<and> cpu s' = cpu s"
proof -
  obtain t where t: "th \<noteq> 0" "threads s th = Some t" using assms(1) by (auto simp: runnable_def)
  have "dlist (LIST_APPEND (ready_queue s, ready_links s) th) (xs @ [th])"
    using klist.abs_append [OF assms(2) t(1) assms(3)] .
  then show ?thesis using t by (auto simp: scheduler_insert_def Let_def upd_thread_def obj_def keeps_def)
qed

lemma scheduler_next_ok:
  assumes "dlist (ready_queue s, ready_links s) (y # ys)"
  shows "\<exists>s'. scheduler_next s = (y, s') \<and> keeps s s' \<and> dlist (ready_queue s', ready_links s') ys \<and> cpu s' = cpu s
    \<and> threads s' = threads s \<and> procs s' = procs s \<and> mmaps s' = mmaps s"
  using klist.pop [OF assms] LIST_EMPTY_iff [OF assms]
  by (simp add: scheduler_next_def Let_def keeps_def)

section \<open>Round robin\<close>

text \<open>
  The state in which the scheduler starts a pass: \<open>zs\<close> are the ready threads with the last
  thread, which still has to be put back, at the end.
\<close>

definition sched_ok :: "'z kernel_scheme \<Rightarrow> addr list \<Rightarrow> bool" where
  "sched_ok s zs \<longleftrightarrow> current_process (cpu s) = 0 \<and> cpu_scheduler (cpu s) \<noteq> 0 \<and> threads s (cpu_scheduler (cpu s)) \<noteq> None
     \<and> cpu_scheduler (cpu s) \<notin> set zs \<and> distinct zs \<and> (\<forall>z \<in> set zs. runnable s z)
     \<and> (\<exists>xs. zs = xs @ (if last_thread (cpu s) = 0 then [] else [last_thread (cpu s)]) \<and> dlist (ready_queue s, ready_links s) xs)"

lemma sched_requeue_ok:
  assumes "sched_ok s zs"
  shows "\<exists>s'. sched_requeue s = Inr s' \<and> keeps s s' \<and> dlist (ready_queue s', ready_links s') zs \<and> cpu s' = cpu s"
proof (cases "last_thread (cpu s) = 0")
  case True
  then show ?thesis using assms by (auto simp: sched_ok_def sched_requeue_def keeps_refl)
next
  case False
  let ?l = "last_thread (cpu s)"
  obtain xs where xs: "zs = xs @ [?l]" "dlist (ready_queue s, ready_links s) xs" using assms False by (auto simp: sched_ok_def)
  have r: "runnable s ?l" and n: "?l \<notin> set xs" using assms xs(1) by (auto simp: sched_ok_def)
  obtain t where t: "threads s ?l = Some t" "tstate t \<noteq> THREAD_STATE_FINISHED" using r by (auto simp: runnable_def)
  obtain s1 where s1: "upd_thread ?l (\<lambda>t. t\<lparr>tstate := THREAD_STATE_READY\<rparr>) s = Inr s1" using upd_thread_ok [OF r] by blast
  have k1: "keeps s s1" by (rule keeps_thread [OF s1]) simp_all
  have f1: "same_sched s s1" "cpu s1 = cpu s" using upd_thread_fields [OF s1] by auto
  obtain s2 where s2: "scheduler_insert ?l s1 = Inr s2" "keeps s1 s2" "dlist (ready_queue s2, ready_links s2) (xs @ [?l])" "cpu s2 = cpu s1"
    using scheduler_insert_ok [OF runnable_keeps [OF k1 r], of xs] xs(2) n f1(1) by (auto simp: same_sched_def)
  have "sched_requeue s = Inr s2"
    using False t s1 s2(1) process_alive_ok [OF r t(1)] by (simp add: sched_requeue_def Let_def)
  then show ?thesis using s2 keeps_trans [OF k1 s2(2)] f1(2) xs(1) by auto
qed

lemma scheduler_next_fields:
  assumes "scheduler_next s = (y, s1)"
  shows "keeps s s1" and "cpu s1 = cpu s" and "threads s1 = threads s" and "procs s1 = procs s" and "mmaps s1 = mmaps s"
  using assms by (auto simp: scheduler_next_def Let_def keeps_def split: if_splits)

lemma sched_pick_run:
  assumes nx: "scheduler_next s = (y, s1)" and r: "runnable s y" and c: "current_process (cpu s) = 0"
    and sc: "cpu_scheduler (cpu s) \<noteq> 0" "threads s (cpu_scheduler (cpu s)) \<noteq> None"
  shows "\<exists>s'. sched_pick s = Inr (Switched, s') \<and> keeps s s' \<and> ready_queue s' = ready_queue s1 \<and> ready_links s' = ready_links s1
    \<and> current_thread (cpu s') = y \<and> last_thread (cpu s') = y \<and> cpu_scheduler (cpu s') = cpu_scheduler (cpu s)
    \<and> (\<forall>t. threads s y = Some t \<longrightarrow> current_process (cpu s') = tprocess t)
    \<and> (\<exists>t. threads s' y = Some t \<and> tstate t = THREAD_STATE_RUNNING)"
proof -
  note s1 = scheduler_next_fields [OF nx]
  have r1: "runnable s1 y" by (rule runnable_keeps [OF s1(1) r])
  obtain t p m where t: "y \<noteq> 0" "threads s1 y = Some t" "tprocess t \<noteq> 0" "procs s1 (tprocess t) = Some p" "pmmap p \<noteq> 0" "mmaps s1 (pmmap p) = Some m"
    using r1 by (auto simp: runnable_def)
  obtain s2 where s2: "upd_thread y (\<lambda>t. t\<lparr>tstate := THREAD_STATE_RUNNING\<rparr>) s1 = Inr s2" using upd_thread_ok [OF r1] by blast
  have k2: "keeps s1 s2" by (rule keeps_thread [OF s2]) simp_all
  have f2: "same_sched s1 s2" "cpu s2 = cpu s1" "procs s2 = procs s1" "mmaps s2 = mmaps s1" using upd_thread_fields [OF s2] by auto
  have t2: "threads s2 y = Some (t\<lparr>tstate := THREAD_STATE_RUNNING\<rparr>)" using s2 t by (auto simp: upd_thread_def obj_def)
  define s3 where "s3 = upd_cpu (\<lambda>c. c\<lparr>last_thread := y\<rparr>) s2"
  have k3: "keeps s2 s3" by (rule keeps_fields) (simp_all add: s3_def)
  obtain s4 where s4: "switch_process (tprocess t) s3 = Inr s4" "keeps s3 s4" "same_sched s3 s4" "current_process (cpu s4) = tprocess t" "threads s4 = threads s3"
    using switch_process_ok [of s3 "tprocess t" p m] t(3-6) f2 s1(2) c by (auto simp: s3_def)
  have sc4: "cpu_scheduler (cpu s4) = cpu_scheduler (cpu s)" using s4(3) f2(2) s1(2) by (simp add: same_sched_def s3_def)
  have k23: "keeps s s4" using keeps_trans [OF s1(1) keeps_trans [OF k2 keeps_trans [OF k3 s4(2)]]] .
  have "threads s4 (cpu_scheduler (cpu s4)) \<noteq> None" using keeps_threadD [OF k23] sc(2) sc4 by fastforce
  moreover have y4: "threads s4 y = Some (t\<lparr>tstate := THREAD_STATE_RUNNING\<rparr>)" using t2 s4(5) by (simp add: s3_def)
  ultimately obtain s5 where s5: "switch_thread (cpu_scheduler (cpu s4)) y s4 = Inr s5" "keeps s4 s5" "same_sched s4 s5" "current_thread (cpu s5) = y"
    "current_process (cpu s5) = current_process (cpu s4)" "map_option tstate (threads s5 y) = map_option tstate (threads s4 y)"
    using switch_thread_ok [of s4 "cpu_scheduler (cpu s4)" y] sc(1) sc4 t(1) by auto
  have "sched_pick s = Inr (Switched, s5)"
    using nx t process_alive_ok [OF r1 t(2)] s2 s4(1) s5(1) by (simp add: sched_pick_def Let_def s3_def)
  moreover have "ready_queue s5 = ready_queue s1" "ready_links s5 = ready_links s1" "last_thread (cpu s5) = y" "cpu_scheduler (cpu s5) = cpu_scheduler (cpu s)"
    using f2(1) s4(3) s5(3) sc4 by (auto simp: same_sched_def s3_def)
  ultimately show ?thesis using s5 s4(4) y4 keeps_trans [OF k23 s5(2)] t(2) s1(3) by auto
qed

lemma sched_pick_ok:
  assumes d: "dlist (ready_queue s, ready_links s) (y # ys)" and r: "runnable s y" and c: "current_process (cpu s) = 0"
    and sc: "cpu_scheduler (cpu s) \<noteq> 0" "threads s (cpu_scheduler (cpu s)) \<noteq> None"
  shows "\<exists>s'. sched_pick s = Inr (Switched, s') \<and> keeps s s' \<and> dlist (ready_queue s', ready_links s') ys
    \<and> current_thread (cpu s') = y \<and> last_thread (cpu s') = y \<and> cpu_scheduler (cpu s') = cpu_scheduler (cpu s)
    \<and> (\<forall>t. threads s y = Some t \<longrightarrow> current_process (cpu s') = tprocess t)
    \<and> (\<exists>t. threads s' y = Some t \<and> tstate t = THREAD_STATE_RUNNING)"
proof -
  obtain s1 where s1: "scheduler_next s = (y, s1)" "dlist (ready_queue s1, ready_links s1) ys" using scheduler_next_ok [OF d] by blast
  from sched_pick_run [OF s1(1) r c sc] s1(2) show ?thesis by auto
qed

lemma schedule_ok:
  assumes "current_thread (cpu s) = y" "y \<noteq> cpu_scheduler (cpu s)" "y \<noteq> 0" "threads s y \<noteq> None"
    and "cpu_scheduler (cpu s) \<noteq> 0" "threads s (cpu_scheduler (cpu s)) \<noteq> None"
    and "current_process (cpu s) \<noteq> 0" "procs s (current_process (cpu s)) \<noteq> None"
  shows "\<exists>s'. schedule s = Inr s' \<and> keeps s s' \<and> same_sched s s' \<and> current_thread (cpu s') = cpu_scheduler (cpu s) \<and> current_process (cpu s') = 0"
proof -
  obtain s1 where s1: "switch_process 0 s = Inr s1" "keeps s s1" "same_sched s s1" "current_process (cpu s1) = 0"
    "current_thread (cpu s1) = current_thread (cpu s)" "threads s1 = threads s"
    using switch_process_0_ok [OF assms(7,8)] by blast
  obtain s2 where s2: "switch_thread y (cpu_scheduler (cpu s)) s1 = Inr s2" "keeps s1 s2" "same_sched s1 s2"
    "current_thread (cpu s2) = cpu_scheduler (cpu s)" "current_process (cpu s2) = current_process (cpu s1)"
    using switch_thread_ok [of s1 y "cpu_scheduler (cpu s)"] assms(3-6) s1(6) by auto
  have "schedule s = Inr s2" using s1(1) s2(1) assms(1,2) by (simp add: schedule_def Let_def)
  then show ?thesis using s1 s2 keeps_trans [OF s1(2) s2(2)] same_sched_trans [OF s1(3) s2(3)] by auto
qed

lemma sched_turn:
  assumes ok: "sched_ok s (y # ys)"
  shows "\<exists>s1 s'. scheduler_pass s = Inr (Switched, s1) \<and> current_thread (cpu s1) = y \<and> schedule s1 = Inr s' \<and> sched_ok s' (ys @ [y])"
proof -
  have S: "current_process (cpu s) = 0" "cpu_scheduler (cpu s) \<noteq> 0" "threads s (cpu_scheduler (cpu s)) \<noteq> None"
    "cpu_scheduler (cpu s) \<notin> set (y # ys)" "distinct (y # ys)" and R: "\<And>z. z \<in> set (y # ys) \<Longrightarrow> runnable s z"
    using ok by (auto simp: sched_ok_def)
  obtain s0 where s0: "sched_requeue s = Inr s0" "keeps s s0" "dlist (ready_queue s0, ready_links s0) (y # ys)" "cpu s0 = cpu s"
    using sched_requeue_ok [OF ok] by blast
  have ry: "runnable s0 y" by (rule runnable_keeps [OF s0(2) R]) simp
  then obtain t where t: "threads s0 y = Some t" "tprocess t \<noteq> 0" "procs s0 (tprocess t) \<noteq> None" "y \<noteq> 0" by (auto simp: runnable_def)
  have sc0: "threads s0 (cpu_scheduler (cpu s0)) \<noteq> None" using keeps_threadD [OF s0(2)] S(3) s0(4) by fastforce
  obtain s1 where s1: "sched_pick s0 = Inr (Switched, s1)" "keeps s0 s1" "dlist (ready_queue s1, ready_links s1) ys"
    "current_thread (cpu s1) = y" "last_thread (cpu s1) = y" "cpu_scheduler (cpu s1) = cpu_scheduler (cpu s0)" "current_process (cpu s1) = tprocess t"
    using sched_pick_ok [OF s0(3) ry] S(1,2) sc0 s0(4) t(1) by auto
  have "threads s1 (cpu_scheduler (cpu s1)) \<noteq> None" "threads s1 y \<noteq> None" "procs s1 (tprocess t) \<noteq> None"
    using keeps_threadD [OF s1(2)] keeps_procD [OF s1(2)] sc0 t s1(6) by fastforce+
  then obtain s2 where s2: "schedule s1 = Inr s2" "keeps s1 s2" "same_sched s1 s2" "current_thread (cpu s2) = cpu_scheduler (cpu s1)" "current_process (cpu s2) = 0"
    using schedule_ok [of s1 y] s1(4,6,7) S(2,4) s0(4) t(2,4) by auto
  have K: "keeps s s2" using keeps_trans [OF s0(2) keeps_trans [OF s1(2) s2(2)]] .
  have "cpu_scheduler (cpu s2) = cpu_scheduler (cpu s)" using s2(3) s1(6) s0(4) by (simp add: same_sched_def)
  moreover have "threads s2 (cpu_scheduler (cpu s2)) \<noteq> None" using keeps_threadD [OF K] S(3) calculation by fastforce
  ultimately have "sched_ok s2 (ys @ [y])"
    using s2(3,5) s1(3,5) S(2,4,5) t(4) runnable_keeps [OF K R] by (auto simp: sched_ok_def same_sched_def)
  moreover have "scheduler_pass s = Inr (Switched, s1)" using s0(1) s1(1) by (simp add: scheduler_pass_def)
  ultimately show ?thesis using s1(4) s2(1) by blast
qed


text \<open>The threads that run in \<open>n\<close> turns, each of which ends with \<^verbatim>\<open>schedule\<close>.\<close>

fun sched_turns :: "nat \<Rightarrow> 'z kernel_scheme \<Rightarrow> (addr list \<times> 'z kernel_scheme) res" where
  "sched_turns 0 s = Inr ([], s)"
| "sched_turns (Suc n) s =
     bindR (scheduler_pass s) (\<lambda>(_, s1). bindR (schedule s1) (\<lambda>s2.
     bindR (sched_turns n s2) (\<lambda>(ts, s'). Inr (current_thread (cpu s1) # ts, s'))))"

lemma sched_turns_cycle:
  "sched_ok s zs \<Longrightarrow> zs \<noteq> [] \<Longrightarrow> \<exists>s'. sched_turns n s = Inr (map (\<lambda>i. zs ! (i mod length zs)) [0..<n], s')"
proof (induction n arbitrary: s zs)
  case 0
  then show ?case by simp
next
  case (Suc n)
  obtain y ys where zs: "zs = y # ys" using Suc.prems(2) by (cases zs) auto
  obtain s1 s2 where t: "scheduler_pass s = Inr (Switched, s1)" "current_thread (cpu s1) = y" "schedule s1 = Inr s2" "sched_ok s2 (ys @ [y])"
    using sched_turn Suc.prems(1) zs by blast
  let ?L = "length zs"
  obtain s' where s': "sched_turns n s2 = Inr (map (\<lambda>i. (ys @ [y]) ! (i mod length (ys @ [y]))) [0..<n], s')"
    using Suc.IH [OF t(4)] by auto
  have "(ys @ [y]) ! (i mod ?L) = zs ! (Suc i mod ?L)" for i
    using nth_rotate1 [of "i mod ?L" zs] by (simp add: zs mod_Suc_eq)
  then have "map (\<lambda>i. zs ! (i mod ?L)) [0..<Suc n] = y # map (\<lambda>i. (ys @ [y]) ! (i mod length (ys @ [y]))) [0..<n]"
    by (simp add: zs upt_conv_Cons map_Suc_upt [symmetric] del: upt_Suc)
  then show ?case using t s' by simp
qed

lemma cycle_window:
  assumes "j < L"
  shows "\<exists>i. k \<le> i \<and> i < k + L \<and> i mod L = (j :: nat)"
proof -
  let ?d = "(j + L - k mod L) mod L"
  have "k mod L \<le> j + L" using assms mod_less_divisor [of L k] by linarith
  then have "(k + ?d) mod L = (k mod L + (j + L - k mod L)) mod L" by (metis mod_add_left_eq mod_add_right_eq)
  also have "\<dots> = j" using \<open>k mod L \<le> j + L\<close> assms by simp
  finally show ?thesis using assms by (intro exI [of _ "k + ?d"]) auto
qed

text \<open>
  C24. Round robin: while the processes of all threads stay alive, the threads run in turn: the
  thread of turn \<open>i\<close> is the one at position \<open>i\<close> modulo the number of threads, so that every
  thread runs within any as many consecutive turns as there are threads.
\<close>

theorem scheduler_round_robin:
  assumes "sched_ok s zs" and "zs \<noteq> []"
  shows "\<exists>ts s'. sched_turns n s = Inr (ts, s') \<and> length ts = n \<and> (\<forall>i < n. ts ! i = zs ! (i mod length zs))
    \<and> (\<forall>z \<in> set zs. \<forall>k. k + length zs \<le> n \<longrightarrow> z \<in> set (take (length zs) (drop k ts)))"
proof -
  let ?L = "length zs" and ?ts = "map (\<lambda>i. zs ! (i mod length zs)) [0..<n]"
  have "z \<in> set (take ?L (drop k ?ts))" if z: "z \<in> set zs" "k + ?L \<le> n" for z k
  proof -
    obtain j where j: "j < ?L" "z = zs ! j" using z(1) by (auto simp: in_set_conv_nth)
    obtain i where i: "k \<le> i" "i < k + ?L" "i mod ?L = j" using cycle_window [OF j(1)] by blast
    have "take ?L (drop k ?ts) ! (i - k) = z" using i j z(2) by simp
    moreover have "i - k < length (take ?L (drop k ?ts))" using i z(2) by simp
    ultimately show ?thesis by (metis nth_mem)
  qed
  then show ?thesis using sched_turns_cycle [OF assms, of n] by fastforce
qed

text \<open>A machine with a scheduler thread and two threads of two processes, the second one of which may be a zombie.\<close>

lemma example_kernel_facts:
  "dlist (ready_queue (example_kernel st), ready_links (example_kernel st)) [0x300]"
  "runnable (example_kernel st) 0x200" "st = PROC_STATE_READY \<Longrightarrow> runnable (example_kernel st) 0x300"
  "last_thread (cpu (example_kernel st)) = 0x200" "current_process (cpu (example_kernel st)) = 0"
  "cpu_scheduler (cpu (example_kernel st)) = 0x100" "threads (example_kernel st) 0x100 = Some (example_thread 0)"
  "threads (example_kernel st) 0x300 = Some (example_thread 0x600)" "procs (example_kernel st) 0x600 = Some (example_process st)"
proof -
  show "dlist (ready_queue (example_kernel st), ready_links (example_kernel st)) [0x300]"
    using klist.abs_append [OF dlist_empty, of "0x300"] by (simp add: example_kernel_def procmm.defs)
qed (auto simp: example_kernel_def procmm.defs example_procmm_def runnable_def alive_def example_thread_def example_process_def KERNEL_HEAP_S_def)

theorem scheduler_round_robin_witness:
  "\<exists>ts s'. sched_turns 3 (example_kernel PROC_STATE_READY) = Inr (ts, s') \<and> ts ! 0 = 0x300 \<and> ts ! 1 = 0x200 \<and> ts ! 2 = 0x300"
proof -
  note k = example_kernel_facts [of PROC_STATE_READY]
  have "sched_ok (example_kernel PROC_STATE_READY) [0x300, 0x200]"
    using k by (simp add: sched_ok_def)
  then obtain ts s' where t: "sched_turns 3 (example_kernel PROC_STATE_READY) = Inr (ts, s')"
    "\<And>i. i < 3 \<Longrightarrow> ts ! i = [0x300, 0x200] ! (i mod length [0x300, 0x200 :: addr])"
    using scheduler_round_robin [of _ "[0x300, 0x200]" 3] by blast
  show ?thesis using t(1) t(2) [of 0] t(2) [of 1] t(2) [of 2] by (simp add: eval_nat_numeral)
qed

section \<open>A dead thread in the queue\<close>

lemma LIST_APPEND_twice:
  assumes "dlist q [x]"
  shows "hnext (fst (LIST_APPEND q x)) = x" and "hnext (fst (LIST_REMOVE (LIST_APPEND q x) x)) = x"
  using assms by (auto simp: dlist_def LIST_APPEND_def LIST_REMOVE_def Let_def)

lemma sched_pick_dead:
  assumes d: "dlist (ready_queue s, ready_links s) (y # ys)" and t: "y \<noteq> 0" "threads s y = Some t" "tprocess t \<noteq> 0" "procs s (tprocess t) = Some p" "\<not> alive p"
  shows "\<exists>s'. sched_pick s = Inr (Dead, s') \<and> dlist (ready_queue s', ready_links s') ys \<and> cpu s' = cpu s
    \<and> threads s' = (threads s)(y \<mapsto> t\<lparr>tstate := THREAD_STATE_FINISHED\<rparr>) \<and> procs s' = procs s \<and> mmaps s' = mmaps s"
proof -
  obtain s1 where s1: "scheduler_next s = (y, s1)" "dlist (ready_queue s1, ready_links s1) ys" "cpu s1 = cpu s" "threads s1 = threads s" "procs s1 = procs s" "mmaps s1 = mmaps s"
    using scheduler_next_ok [OF d] by blast
  have "process_alive (tprocess t) s1 = Inr False" using t s1(5) by (simp add: process_alive_def alive_def)
  then show ?thesis using s1 t by (simp add: sched_pick_def Let_def upd_thread_def)
qed

text \<open>
  When the scheduler meets a thread of a dead process right after it has put back the last
  thread, its \<^verbatim>\<open>continue\<close> puts that thread back a second time; it then runs the thread, and
  the queue still offers the same thread to the next CPU that asks.
\<close>

theorem scheduler_offers_thread_twice:
  assumes q: "dlist (ready_queue s, ready_links s) [d]" and x: "last_thread (cpu s) = x" "runnable s x" "x \<noteq> d"
    and dead: "threads s d = Some t" "tprocess t \<noteq> 0" "procs s (tprocess t) = Some p" "pstate p = PROC_STATE_ZOMBIE"
    and c: "current_process (cpu s) = 0" "cpu_scheduler (cpu s) \<noteq> 0" "threads s (cpu_scheduler (cpu s)) \<noteq> None"
  shows "\<exists>s1 s2 s3. scheduler_pass s = Inr (Dead, s1) \<and> scheduler_pass s1 = Inr (Switched, s2)
    \<and> current_thread (cpu s2) = x \<and> scheduler_next s2 = (x, s3)"
proof -
  have x0: "x \<noteq> 0" and d0: "d \<noteq> 0" using x(2) dlist_nonzero [OF q] by (auto simp: runnable_def)
  have requeue: "sched_requeue s = bindR (upd_thread x (\<lambda>t. t\<lparr>tstate := THREAD_STATE_READY\<rparr>) s) (scheduler_insert x)"
    if "last_thread (cpu s) = x" "runnable s x" for s
    using that x0 process_alive_ok [OF that(2)] by (auto simp: sched_requeue_def Let_def runnable_def)
  obtain u where u: "threads s x = Some u" using x(2) by (auto simp: runnable_def)
  obtain s0 where s0: "sched_requeue s = Inr s0" "keeps s s0" "dlist (ready_queue s0, ready_links s0) [d, x]" "cpu s0 = cpu s"
    "threads s0 d = threads s d" "procs s0 = procs s" "mmaps s0 = mmaps s"
  proof -
    obtain v where v: "upd_thread x (\<lambda>t. t\<lparr>tstate := THREAD_STATE_READY\<rparr>) s = Inr v" using upd_thread_ok [OF x(2)] by blast
    have kv: "keeps s v" by (rule keeps_thread [OF v]) simp_all
    have fv: "same_sched s v" "cpu v = cpu s" using upd_thread_fields [OF v] by auto
    have rv: "runnable v x" by (rule runnable_keeps [OF kv x(2)])
    obtain w where w: "scheduler_insert x v = Inr w" "keeps v w" "dlist (ready_queue w, ready_links w) ([d] @ [x])" "cpu w = cpu v"
      using scheduler_insert_ok [OF rv, of "[d]"] q x(3) fv(1) by (auto simp: same_sched_def)
    moreover have "threads w d = threads s d" "procs w = procs s" "mmaps w = mmaps s"
      using v w(1) x(3) by (auto simp: upd_thread_def scheduler_insert_def res_simps Let_def split: if_splits)
    ultimately show thesis using that requeue [OF x(1,2)] v keeps_trans [OF kv w(2)] fv(2) by auto
  qed
  obtain s1 where s1: "sched_pick s0 = Inr (Dead, s1)" "dlist (ready_queue s1, ready_links s1) [x]" "cpu s1 = cpu s0"
    "threads s1 = (threads s0)(d \<mapsto> t\<lparr>tstate := THREAD_STATE_FINISHED\<rparr>)" "procs s1 = procs s0" "mmaps s1 = mmaps s0"
    using sched_pick_dead [OF s0(3) d0, of t p] dead s0(5,6) by (auto simp: alive_def)
  have r1: "runnable s1 x" using runnable_keeps [OF s0(2) x(2)] s1(4,5,6) x(3) by (auto simp: runnable_def)
  have "threads s1 (cpu_scheduler (cpu s1)) \<noteq> None" using keeps_threadD [OF s0(2)] c(3) s1(3,4) s0(4) by fastforce
  obtain s2 where s2: "sched_requeue s1 = Inr s2" "keeps s1 s2" "cpu s2 = cpu s1"
    "(ready_queue s2, ready_links s2) = LIST_APPEND (ready_queue s1, ready_links s1) x"
  proof -
    obtain v where v: "threads s1 x = Some v" using r1 by (auto simp: runnable_def)
    define w where "w = s1\<lparr>threads := (threads s1)(x \<mapsto> v\<lparr>tstate := THREAD_STATE_READY\<rparr>),
       ready_queue := fst (LIST_APPEND (ready_queue s1, ready_links s1) x), ready_links := snd (LIST_APPEND (ready_queue s1, ready_links s1) x)\<rparr>"
    have "sched_requeue s1 = Inr w"
      using requeue [of s1] s1(3) s0(4) x(1) r1 v x0 by (simp add: upd_thread_def scheduler_insert_def Let_def w_def)
    moreover have "keeps s1 w" using v by (simp add: keeps_def w_def)
    ultimately show thesis using that [of w] by (simp add: w_def)
  qed
  note tw = LIST_APPEND_twice [OF s1(2), folded s2(4)]
  define s3 where "s3 = scheduler_remove x s2"
  have n2: "scheduler_next s2 = (x, s3)"
    using tw(1) x0 by (simp add: scheduler_next_def LIST_EMPTY_def LIST_FIRST_def s3_def scheduler_remove_def Let_def)
  have h3: "hnext (ready_queue s3) = x" using tw(2) by (simp add: s3_def scheduler_remove_def Let_def)
  have "current_process (cpu s2) = 0" "cpu_scheduler (cpu s2) \<noteq> 0" "threads s2 (cpu_scheduler (cpu s2)) \<noteq> None"
    using c(1,2) s2(3) s1(3) s0(4) keeps_threadD [OF s2(2)] \<open>threads s1 (cpu_scheduler (cpu s1)) \<noteq> None\<close> by fastforce+
  then obtain s4 where s4: "sched_pick s2 = Inr (Switched, s4)" "ready_queue s4 = ready_queue s3" "current_thread (cpu s4) = x"
    using sched_pick_run [OF n2 runnable_keeps [OF s2(2) r1]] by blast
  have "\<exists>s5. scheduler_next s4 = (x, s5)"
    using h3 x0 s4(2) by (simp add: scheduler_next_def LIST_EMPTY_def LIST_FIRST_def Let_def)
  then show ?thesis using s0(1) s1(1) s2(1) s4 by (auto simp: scheduler_pass_def)
qed


theorem scheduler_offers_thread_twice_witness:
  "\<exists>s1 s2 s3. scheduler_pass (example_kernel PROC_STATE_ZOMBIE) = Inr (Dead, s1) \<and> scheduler_pass s1 = Inr (Switched, s2)
     \<and> current_thread (cpu s2) = 0x200 \<and> scheduler_next s2 = (0x200, s3)"
proof -
  note k = example_kernel_facts [of PROC_STATE_ZOMBIE]
  show ?thesis
    using scheduler_offers_thread_twice [OF k(1) k(4) k(2) _ k(8)] k by (simp add: example_thread_def example_process_def)
qed

end
