(* ===== verification/Syscall.thy ===== *)
theory Syscall
  imports Scheduler
begin

text \<open>
  System calls: \<^verbatim>\<open>kernel/syscall/syscall.c\<close>, \<^verbatim>\<open>sys_fs.c\<close>, \<^verbatim>\<open>sys_mem.c\<close> and
  \<^verbatim>\<open>sys_proc.c\<close>. Strings and buffers that user code passes are byte lists; what a call
  writes back to user memory is part of its result. A descriptor is an index into an array of 20
  entries that the code never checks, so one outside is an access out of bounds. Calls that wait
  (\<^verbatim>\<open>read\<close>, \<^verbatim>\<open>write\<close>, \<^verbatim>\<open>wait\<close>) have an atomic section as their result.
\<close>

section \<open>sys_fs.c\<close>

abbreviation cur :: "'z kernel_scheme \<Rightarrow> addr" where
  "cur s \<equiv> current_process (cpu s)"

definition get_fp :: "int \<Rightarrow> 'z kernel_scheme \<Rightarrow> fp_t res" where
  "get_fp fd s = bindR (obj (procs s) (cur s)) (\<lambda>p. if 0 \<le> fd \<and> nat fd < length (pfp p) then Inr (pfp p ! nat fd) else Inl OutOfBounds)"

definition upd_fp :: "int \<Rightarrow> (fp_t \<Rightarrow> fp_t) \<Rightarrow> 'z kernel_scheme \<Rightarrow> 'z kernel_scheme res" where
  "upd_fp fd f s =
     bindR (get_fp fd s) (\<lambda>fp. upd_proc (cur s) (\<lambda>p. p\<lparr>pfp := (pfp p)[nat fd := f fp]\<rparr>) s)"

fun free_fp :: "nat \<Rightarrow> fp_t list \<Rightarrow> nat option" where
  "free_fp i [] = None"
| "free_fp i (f # fs) = (if fp_file f = 0 then Some i else free_fp (Suc i) fs)"

text \<open>Conversion of an \<^verbatim>\<open>int\<close> to the 64-bit types it is assigned to.\<close>

abbreviation (input) of_int64 :: "int \<Rightarrow> u64" where "of_int64 \<equiv> of_int"

definition syscall_open :: "(drvref \<Rightarrow> 'z kernel_scheme fs_driver) \<Rightarrow> u8 list \<Rightarrow> int \<Rightarrow> 'z kernel_scheme \<Rightarrow> (int \<times> 'z kernel_scheme) res" where
  "syscall_open drv path flags s =
     bindR (obj (procs s) (cur s)) (\<lambda>p.
     case free_fp 0 (pfp p) of
       None \<Rightarrow> Inr (-1, s)
     | Some i \<Rightarrow>
         bindR (fs_namef drv path s) (\<lambda>(f, s).
         bindR (upd_fp (int i) (\<lambda>fp. fp\<lparr>fp_file := f, fp_flags := of_int64 flags\<rparr>) s) (\<lambda>s.
         bindR (fs_open drv f (of_int64 flags) s) (\<lambda>(_, s).
         bindR (upd_fp (int i) (\<lambda>fp. fp\<lparr>fp_pos := 0\<rparr>) s) (\<lambda>s.
         bindR (get_fp (int i) s) (\<lambda>fp.
           Inr (if fp_file fp \<noteq> 0 then int i else -1, s)))))))"

definition syscall_close :: "(drvref \<Rightarrow> 'z kernel_scheme fs_driver) \<Rightarrow> int \<Rightarrow> 'z kernel_scheme \<Rightarrow> (int \<times> 'z kernel_scheme) res" where
  "syscall_close drv fd s =
     bindR (get_fp fd s) (\<lambda>fp.
     bindR (fs_close drv (fp_file fp) s) (\<lambda>(retval, s).
     bindR (get_fp fd s) (\<lambda>fp.
     bindR (fs_put (fp_file fp) s) (\<lambda>(_, s).
     bindR (upd_fp fd (\<lambda>fp. fp\<lparr>fp_file := 0\<rparr>) s) (\<lambda>s. Inr (retval, s))))))"

abbreviation (input) FS_TTY :: u64 where "FS_TTY \<equiv> 4"

definition syscall_isatty :: "int \<Rightarrow> 'z kernel_scheme \<Rightarrow> int res" where
  "syscall_isatty fd s =
     bindR (get_fp fd s) (\<lambda>fp.
     if fp_file fp \<noteq> 0 then bindR (obj (files s) (fp_file fp)) (\<lambda>f. Inr (if ftype f AND FS_TTY = FS_TTY then 1 else 0))
     else Inr 0)"

text \<open>A read or write that has returned moves the position by its result, also when that is \<open>-1\<close>.\<close>

definition advance :: "int \<Rightarrow> u64 \<Rightarrow> 'z kernel_scheme \<Rightarrow> 'z kernel_scheme res" where
  "advance fd bytes s = upd_fp fd (\<lambda>fp. fp\<lparr>fp_pos := fp_pos fp + bytes\<rparr>) s"

definition syscall_read :: "(drvref \<Rightarrow> 'z kernel_scheme fs_driver) \<Rightarrow> int \<Rightarrow> u64 \<Rightarrow> 'z kernel_scheme
    \<Rightarrow> (u8 list \<times> u64 \<times> 'z kernel_scheme) atomic res" where
  "syscall_read drv fd nbyte s =
     bindR (get_fp fd s) (\<lambda>fp.
     bindR (fs_read drv (fp_file fp) nbyte (fp_pos fp) s) (\<lambda>r.
     case r of
       Waiting x \<Rightarrow> Inr (Waiting x)
     | Returned (out, bytes, s) \<Rightarrow> bindR (advance fd bytes s) (\<lambda>s. Inr (Returned (out, bytes, s)))))"

definition syscall_write :: "(drvref \<Rightarrow> 'z kernel_scheme fs_driver) \<Rightarrow> int \<Rightarrow> u8 list \<Rightarrow> u64 \<Rightarrow> 'z kernel_scheme
    \<Rightarrow> (u64 \<times> u64 \<times> 'z kernel_scheme) atomic res" where
  "syscall_write drv fd buffer nbyte s =
     bindR (get_fp fd s) (\<lambda>fp.
     bindR (fs_write drv (fp_file fp) buffer nbyte (fp_pos fp) s) (\<lambda>r.
     case r of
       Waiting x \<Rightarrow> Inr (Waiting x)
     | Returned (rest, bytes, s) \<Rightarrow> bindR (advance fd bytes s) (\<lambda>s. Inr (Returned (rest, bytes, s)))))"

definition syscall_seek :: "int \<Rightarrow> u64 \<Rightarrow> int \<Rightarrow> 'z kernel_scheme \<Rightarrow> (u64 \<times> 'z kernel_scheme) res" where
  "syscall_seek fd offset whence s =
     bindR (get_fp fd s) (\<lambda>fp.
     if fp_file fp = 0 then Inr (-1, s)
     else
       bindR (if whence = 0 then upd_fp fd (\<lambda>fp. fp\<lparr>fp_pos := offset\<rparr>) s
              else if whence = 1 then upd_fp fd (\<lambda>fp. fp\<lparr>fp_pos := fp_pos fp + offset\<rparr>) s
              else Inr s) (\<lambda>s.
       bindR (get_fp fd s) (\<lambda>fp. Inr (fp_pos fp, s))))"

text \<open>One of the two searches of \<^verbatim>\<open>pipe\<close> for a free descriptor; \<open>-1\<close> when there is none.\<close>

definition install_fp :: "(drvref \<Rightarrow> 'z kernel_scheme fs_driver) \<Rightarrow> addr \<Rightarrow> 'z kernel_scheme \<Rightarrow> (int \<times> 'z kernel_scheme) res" where
  "install_fp drv file s =
     bindR (obj (procs s) (cur s)) (\<lambda>p.
     case free_fp 0 (pfp p) of
       None \<Rightarrow> Inr (-1, s)
     | Some i \<Rightarrow>
         bindR (fs_get file s) (\<lambda>(f, s).
         bindR (upd_fp (int i) (\<lambda>fp. fp\<lparr>fp_file := f\<rparr>) s) (\<lambda>s.
         bindR (fs_open drv file 0 s) (\<lambda>(_, s). Inr (int i, s)))))"

definition drop_fp :: "int \<Rightarrow> 'z kernel_scheme \<Rightarrow> 'z kernel_scheme res" where
  "drop_fp fd s =
     (if fd \<noteq> -1 then
        bindR (get_fp fd s) (\<lambda>fp. bindR (fs_put (fp_file fp) s) (\<lambda>(_, s). upd_fp fd (\<lambda>fp. fp\<lparr>fp_file := 0\<rparr>) s))
      else Inr s)"

text \<open>\<^verbatim>\<open>pipe\<close> with the two descriptors it stores: the writing end first.\<close>

definition syscall_pipe :: "(drvref \<Rightarrow> 'z kernel_scheme fs_driver) \<Rightarrow> 'z kernel_scheme \<Rightarrow> (int \<times> (int \<times> int) \<times> 'z kernel_scheme) res" where
  "syscall_pipe drv s =
     bindR (pipe s) (\<lambda>(r, w, s).
     bindR (install_fp drv w s) (\<lambda>(fd0, s).
     bindR (if fd0 \<noteq> -1 then install_fp drv r s else Inr (-1, s)) (\<lambda>(fd1, s).
     if fd0 \<noteq> -1 \<and> fd1 \<noteq> -1 then Inr (0, (fd0, fd1), s)
     else
       bindR (if r \<noteq> 0 then free_obj (files s) r else Inr (files s)) (\<lambda>fl.
       let s = s\<lparr>files := fl\<rparr> in
       bindR (if w \<noteq> 0 then free_obj (files s) w else Inr (files s)) (\<lambda>fl.
       let s = s\<lparr>files := fl\<rparr> in
       bindR (drop_fp fd0 s) (\<lambda>s. bindR (drop_fp fd1 s) (\<lambda>s. Inr (-1, (fd0, fd1), s))))))))"

section \<open>sys_mem.c\<close>

definition syscall_brk :: "u64 \<Rightarrow> 'z kernel_scheme \<Rightarrow> (u64 \<times> 'z kernel_scheme) res" where
  "syscall_brk addr s =
     bindR (obj (procs s) (cur s)) (\<lambda>p.
     bindR (obj (mmaps s) (pmmap p)) (\<lambda>m.
     bindR (obj (mareas s) (mm_brk m)) (\<lambda>b.
     if addr \<noteq> 0 then
       bindR (procmm_resize (pmmap p) (mm_brk m) (addr - area_start b) s) (\<lambda>(_, s).
       bindR (obj (mareas s) (mm_brk m)) (\<lambda>b. Inr (area_end b, s)))
     else Inr (area_end b, s))))"

section \<open>sys_proc.c\<close>

definition syscall_fork :: "(drvref \<Rightarrow> 'z kernel_scheme fs_driver) \<Rightarrow> addr \<Rightarrow> 'z kernel_scheme \<Rightarrow> (u64 \<times> 'z kernel_scheme) res" where
  "syscall_fork drv isr_return s =
     bindR (process_spawn drv (cur s) s) (\<lambda>(new, s).
     bindR (new_thread isr_return 0 True s) (\<lambda>(th, s).
     bindR (obj (threads s) (current_thread (cpu s))) (\<lambda>t.
     bindR (upd_thread th (\<lambda>u. u\<lparr>tregs := (tregs t)\<lparr>rax := 0\<rparr>\<rparr>) s) (\<lambda>s.
     bindR (process_attach new th s) (\<lambda>s.
     bindR (scheduler_insert th s) (\<lambda>s.
     bindR (obj (procs s) new) (\<lambda>p. Inr (pid p, s))))))))"

text \<open>\<^verbatim>\<open>exit\<close> up to the switch to the scheduler, from which it does not return.\<close>

definition syscall_exit :: "(drvref \<Rightarrow> 'z kernel_scheme fs_driver) \<Rightarrow> int \<Rightarrow> 'z kernel_scheme \<Rightarrow> 'z kernel_scheme res" where
  "syscall_exit drv status s = bindR (process_exit drv (cur s) (of_int64 status) s) schedule"

text \<open>The search of \<^verbatim>\<open>wait\<close> for the first zombie among the children.\<close>

partial_function (option) find_zombie :: "addr \<Rightarrow> 'z kernel_scheme \<Rightarrow> (addr \<times> process_t) option res option" where
  "find_zombie ob s =
     (if ob = 0 then Some (Inr None)
      else case obj (procs s) ob of
        Inl e \<Rightarrow> Some (Inl e)
      | Inr p \<Rightarrow> if pstate p = PROC_STATE_ZOMBIE then Some (Inr (Some (ob, p))) else find_zombie (lnext (siblings s) ob) s)"

text \<open>
  One round of \<^verbatim>\<open>wait\<close>, up to its call of \<^verbatim>\<open>schedule\<close>: the pid and the status of
  a child that has been freed, both cut to an \<^verbatim>\<open>int\<close>; without one the loop goes on.
\<close>

definition int32 :: "u64 \<Rightarrow> int" where
  "int32 w = sint (ucast w :: u32)"

definition syscall_wait_round :: "'z kernel_scheme \<Rightarrow> ((int \<times> int) option \<times> 'z kernel_scheme) atomic res" where
  "syscall_wait_round s =
     bindR (obj (procs s) (cur s)) (\<lambda>p.
     bindR (case find_zombie (LIST_FIRST (pchildren p)) s of None \<Rightarrow> Inl Diverges | Some r \<Rightarrow> r) (\<lambda>z.
     case z of
       None \<Rightarrow> Inr (Waiting (None, s))
     | Some (c, pr) \<Rightarrow>
         bindR (process_free c s) (\<lambda>r.
         case r of
           Waiting s \<Rightarrow> Inr (Waiting (None, s))
         | Returned s \<Rightarrow> Inr (if int32 (pid pr) = 0 then Waiting (None, s) else Returned (Some (int32 (pid pr), int32 (pstatus pr)), s)))))"

section \<open>syscall.c\<close>

text \<open>
  The handler table: 1024 entries, null where no call is registered. The index of the caller is
  not checked.
\<close>

type_synonym 's handler = "u64 \<Rightarrow> u64 \<Rightarrow> u64 \<Rightarrow> u64 \<Rightarrow> u64 \<Rightarrow> u64 \<Rightarrow> u64 \<Rightarrow> 's \<Rightarrow> (u64 \<times> 's) res"

record 's syscalls =
  sys_debug :: "'s handler"
  sys_open :: "'s handler"
  sys_close :: "'s handler"
  sys_read :: "'s handler"
  sys_write :: "'s handler"
  sys_isatty :: "'s handler"
  sys_seek :: "'s handler"
  sys_pipe :: "'s handler"
  sys_brk :: "'s handler"
  sys_fork :: "'s handler"
  sys_exit :: "'s handler"
  sys_wait :: "'s handler"

text \<open>The table that \<^verbatim>\<open>syscall_init\<close> builds, with the numbers of \<^verbatim>\<open>libc/syscall_num.h\<close>.\<close>

definition syscall_init_handlers :: "'s syscalls \<Rightarrow> 's handler option list" where
  "syscall_init_handlers c =
     (replicate 1024 None)
       [0x3FF := Some (sys_debug c), 0x001 := Some (sys_open c), 0x002 := Some (sys_close c), 0x003 := Some (sys_read c),
        0x004 := Some (sys_write c), 0x005 := Some (sys_isatty c), 0x006 := Some (sys_seek c), 0x00B := Some (sys_pipe c),
        0x007 := Some (sys_brk c), 0x008 := Some (sys_fork c), 0x009 := Some (sys_exit c), 0x00A := Some (sys_wait c)]"

definition syscall_handler :: "'s handler option list \<Rightarrow> registers_t \<Rightarrow> 's \<Rightarrow> (registers_t \<times> 's) res" where
  "syscall_handler syscall_handlers r s =
     (if unat (rax r) < length syscall_handlers then
        case syscall_handlers ! unat (rax r) of
          Some h \<Rightarrow> bindR (h (rax r) (rdi r) (rsi r) (rdx r) (r10 r) (r8 r) (r9 r) s) (\<lambda>(ret, s). Inr (r\<lparr>rax := ret\<rparr>, s))
        | None \<Rightarrow> Inl (Panic ''Unknown syscall'')
      else Inl OutOfBounds)"

text \<open>The selectors that \<^verbatim>\<open>syscall_init\<close> stores for the \<^verbatim>\<open>syscall\<close> and \<^verbatim>\<open>sysret\<close> instructions.\<close>

definition MSR_STAR_value :: u64 where
  "MSR_STAR_value = push_bit 48 (SEG_KDATA OR 3) OR push_bit 32 SEG_KCODE"

section \<open>Dispatch\<close>

text \<open>The numbers of \<^verbatim>\<open>libc/syscall_num.h\<close> and the calls that they mean.\<close>

definition sys_numbers :: "'s syscalls \<Rightarrow> (nat \<times> 's handler) list" where
  "sys_numbers c = [(1, sys_open c), (2, sys_close c), (3, sys_read c), (4, sys_write c), (5, sys_isatty c), (6, sys_seek c),
     (7, sys_brk c), (8, sys_fork c), (9, sys_exit c), (10, sys_wait c), (11, sys_pipe c), (0x3FF, sys_debug c)]"

lemma length_handlers [simp]: "length (syscall_init_handlers c) = 1024"
  by (simp add: syscall_init_handlers_def)

lemma handlers_nth: "n < 1024 \<Longrightarrow> syscall_init_handlers c ! n = map_of (sys_numbers c) n"
proof -
  define e :: "'a handler option list" where "e = replicate 1024 None"
  have "length e = 1024" "n < 1024 \<Longrightarrow> e ! n = None" by (simp_all add: e_def)
  then show "n < 1024 \<Longrightarrow> ?thesis"
    unfolding syscall_init_handlers_def sys_numbers_def e_def [symmetric] by (simp add: nth_list_update)
qed

text \<open>
  Dispatch by number: with the table of \<^verbatim>\<open>syscall_init\<close>, a call number runs exactly the
  handler that the numbers shared with user code assign to it, on the six argument registers, and
  leaves its result in \<^verbatim>\<open>rax\<close> and the other registers unchanged; any other number below 1024
  ends in the panic loop, and one from 1024 on is an access outside the table.
\<close>

theorem syscall_dispatch:
  "syscall_handler (syscall_init_handlers c) r s =
     (case map_of (sys_numbers c) (unat (rax r)) of
        Some h \<Rightarrow> bindR (h (rax r) (rdi r) (rsi r) (rdx r) (r10 r) (r8 r) (r9 r) s) (\<lambda>(ret, s). Inr (r\<lparr>rax := ret\<rparr>, s))
      | None \<Rightarrow> if unat (rax r) < 1024 then Inl (Panic ''Unknown syscall'') else Inl OutOfBounds)"
proof (cases "unat (rax r) < 1024")
  case True
  then show ?thesis by (simp add: syscall_handler_def handlers_nth)
next
  case False
  then have "map_of (sys_numbers c) (unat (rax r)) = None" by (auto simp: sys_numbers_def)
  with False show ?thesis by (simp add: syscall_handler_def)
qed

text \<open>What the processor adds to the stored selector on \<^verbatim>\<open>sysret\<close> gives the user segments.\<close>

lemma MSR_STAR_selectors:
  "drop_bit 48 MSR_STAR_value + 16 = SEG_UCODE OR 3" "drop_bit 48 MSR_STAR_value + 8 = SEG_UDATA OR 3"
  "drop_bit 32 MSR_STAR_value AND 0xFFFF = SEG_KCODE" "(drop_bit 32 MSR_STAR_value AND 0xFFFF) + 8 = SEG_KDATA"
  by (simp_all add: MSR_STAR_value_def)

section \<open>Opening files\<close>

lemma free_fp_SomeD:
  "free_fp k fps = Some i \<Longrightarrow> k \<le> i \<and> i - k < length fps \<and> fp_file (fps ! (i - k)) = 0 \<and> (\<forall>j < i - k. fp_file (fps ! j) \<noteq> 0)"
proof (induction fps arbitrary: k)
  case Nil
  then show ?case by simp
next
  case (Cons f fps)
  show ?case
  proof (cases "fp_file f = 0")
    case True
    then show ?thesis using Cons.prems by simp
  next
    case False
    then have IH: "Suc k \<le> i" "i - Suc k < length fps" "fp_file (fps ! (i - Suc k)) = 0" "\<forall>j < i - Suc k. fp_file (fps ! j) \<noteq> 0"
      using Cons.IH [of "Suc k"] Cons.prems by auto
    then have s: "i - k = Suc (i - Suc k)" by simp
    have "fp_file ((f # fps) ! j) \<noteq> 0" if "j < i - k" for j using that IH(4) False s by (cases j) auto
    then show ?thesis using IH s by simp
  qed
qed

lemma free_fp_None: "free_fp k fps = None \<longleftrightarrow> (\<forall>f \<in> set fps. fp_file f \<noteq> 0)"
  by (induction fps arbitrary: k) auto


text \<open>None of the kernel's drivers has directories; a plain file has no \<^verbatim>\<open>open\<close> and \<^verbatim>\<open>close\<close> either.\<close>

definition no_dirs :: "(drvref \<Rightarrow> 's fs_driver) \<Rightarrow> bool" where
  "no_dirs drv \<longleftrightarrow> (\<forall>r. readdir_fn (drv r) = None)"

definition plain :: "(drvref \<Rightarrow> 's fs_driver) \<Rightarrow> file_t \<Rightarrow> bool" where
  "plain drv f \<longleftrightarrow> driver f = NullDrv \<or> open_fn (drv (driver f)) = None \<and> close_fn (drv (driver f)) = None"

lemma fs_finddir_no_dirs:
  assumes "no_dirs drv" "r \<noteq> 0" "files s r = Some f"
  shows "fs_finddir drv r name s = Inr (0, s)"
  using assms
  by (simp add: fs_finddir_def finddir_loop.simps fs_readdir_def driver_entry_def no_dirs_def obj_def)

lemma fs_namef_no_dirs:
  assumes "no_dirs drv" "avail s = q # as" "fs_closest_mp path s = Some mp" "mp_root mp = r" "r \<noteq> 0" "files s r = Some f"
  shows "fs_namef drv path s = Inr (if drop (unat (path_len mp)) path = [] then r else 0,
    s\<lparr>avail := as, files := (files s)(r \<mapsto> f\<lparr>refs := refs f + 1\<rparr>)\<rparr>)"
proof -
  let ?s = "s\<lparr>avail := as, files := (files s)(r \<mapsto> f\<lparr>refs := refs f + 1\<rparr>)\<rparr>" and ?rest = "drop (unat (path_len mp)) path"
  have c: "fs_closest_mp path (s\<lparr>avail := as\<rparr>) = Some mp" using assms(3) by (simp add: fs_closest_mp_def)
  have g: "fs_get r (s\<lparr>avail := as\<rparr>) = Inr (r, ?s)" using assms(5,6) by (simp add: fs_get_def)
  have "namef_loop drv r ?rest ?s = Inr (if ?rest = [] then r else 0, ?s)"
  proof (cases "pathtok ?rest")
    case None
    then have "?rest = []" by (auto simp: pathtok_def Let_def split: if_splits)
    with None show ?thesis by (simp add: namef_loop.simps)
  next
    case (Some x)
    then have ne: "?rest \<noteq> []" by (auto simp: pathtok_def)
    have "fs_finddir drv r (fst x) ?s = Inr (0, ?s)" using fs_finddir_no_dirs [OF assms(1,5), of ?s] by simp
    with Some ne show ?thesis by (cases x) (simp add: namef_loop.simps)
  qed
  then show ?thesis using assms(2,4) c g by (simp add: fs_namef_def new_addr_def)
qed

lemma fs_open_plain:
  "plain drv f \<Longrightarrow> r \<noteq> 0 \<Longrightarrow> files s r = Some f \<Longrightarrow> fs_open drv r fl s = Inr (-1, s)"
  "plain drv f \<Longrightarrow> r \<noteq> 0 \<Longrightarrow> files s r = Some f \<Longrightarrow> fs_close drv r s = Inr (-1, s)"
  "fs_open drv 0 fl s = Inr (-1, s)"
  by (auto simp: fs_open_def fs_close_def driver_entry_def plain_def obj_def)

lemma upd_fp_eq:
  assumes "procs s (cur s) = Some p" "cur s \<noteq> 0" "i < length (pfp p)"
  shows "upd_fp (int i) g s = Inr (s\<lparr>procs := (procs s)(cur s \<mapsto> p\<lparr>pfp := (pfp p)[i := g (pfp p ! i)]\<rparr>)\<rparr>)"
    and "get_fp (int i) s = Inr (pfp p ! i)"
  using assms by (simp_all add: upd_fp_def get_fp_def upd_proc_def obj_def)

lemma fp_t_all [simp]: "(x :: fp_t)\<lparr>fp_file := a, fp_flags := b, fp_pos := c\<rparr> = \<lparr>fp_file = a, fp_flags = b, fp_pos = c\<rparr>"
  by (cases x) simp

lemma syscall_open_eq:
  assumes nd: "no_dirs drv" and p: "cur s \<noteq> 0" "procs s (cur s) = Some p" and i: "free_fp 0 (pfp p) = Some i"
    and mp: "avail s = q # as" "fs_closest_mp path s = Some mp" "mp_root mp = r" "r \<noteq> 0" "files s r = Some f" "plain drv f"
  defines "rest \<equiv> drop (unat (path_len mp)) path"
  shows "syscall_open drv path flags s = Inr (if rest = [] then int i else -1,
    s\<lparr>avail := as, files := (files s)(r \<mapsto> f\<lparr>refs := refs f + 1\<rparr>),
      procs := (procs s)(cur s \<mapsto> p\<lparr>pfp := (pfp p)[i := \<lparr>fp_file = if rest = [] then r else 0, fp_flags = of_int64 flags, fp_pos = 0\<rparr>]\<rparr>)\<rparr>)"
proof -
  let ?g = "if rest = [] then r else 0"
  define s1 where "s1 = s\<lparr>avail := as, files := (files s)(r \<mapsto> f\<lparr>refs := refs f + 1\<rparr>)\<rparr>"
  have il: "i < length (pfp p)" using free_fp_SomeD [OF i] by simp
  have nm: "fs_namef drv path s = Inr (?g, s1)"
    using fs_namef_no_dirs [OF nd mp(1-5)] by (simp add: rest_def s1_def)
  define p1 where "p1 = p\<lparr>pfp := (pfp p)[i := (pfp p ! i)\<lparr>fp_file := ?g, fp_flags := of_int64 flags\<rparr>]\<rparr>"
  define s2 where "s2 = s1\<lparr>procs := (procs s)(cur s \<mapsto> p1)\<rparr>"
  have u1: "upd_fp (int i) (\<lambda>fp. fp\<lparr>fp_file := ?g, fp_flags := of_int64 flags\<rparr>) s1 = Inr s2"
    using upd_fp_eq(1) [of s1 p i] p il by (simp add: s1_def s2_def p1_def)
  have op: "fs_open drv ?g (of_int64 flags) s2 = Inr (-1, s2)"
    using fs_open_plain(1) [of drv "f\<lparr>refs := refs f + 1\<rparr>" r s2] fs_open_plain(3) mp(4,6)
    by (auto simp: s2_def s1_def plain_def)
  have l1: "i < length (pfp p1)" "procs s2 (cur s2) = Some p1" "cur s2 = cur s" using il by (simp_all add: p1_def s2_def s1_def)
  define p2 where "p2 = p1\<lparr>pfp := (pfp p1)[i := (pfp p1 ! i)\<lparr>fp_pos := 0\<rparr>]\<rparr>"
  define s3 where "s3 = s2\<lparr>procs := (procs s2)(cur s \<mapsto> p2)\<rparr>"
  have u2: "upd_fp (int i) (\<lambda>fp. fp\<lparr>fp_pos := 0\<rparr>) s2 = Inr s3"
    using upd_fp_eq(1) [of s2 p1 i] l1 p(1) by (simp add: s3_def p2_def)
  have gf: "get_fp (int i) s3 = Inr (pfp p2 ! i)"
    using upd_fp_eq(2) [of s3 p2 i] l1 p(1) by (simp add: s3_def p2_def s2_def s1_def)
  have pe: "pfp p2 = (pfp p)[i := \<lparr>fp_file = ?g, fp_flags = of_int64 flags, fp_pos = 0\<rparr>]" "fp_file (pfp p2 ! i) = ?g"
    using il by (simp_all add: p2_def p1_def)
  have p2: "p2 = p\<lparr>pfp := (pfp p)[i := \<lparr>fp_file = ?g, fp_flags = of_int64 flags, fp_pos = 0\<rparr>]\<rparr>"
    using il by (simp add: p2_def p1_def)
  have "syscall_open drv path flags s = Inr (if ?g \<noteq> 0 then int i else -1, s3)"
    using p i nm u1 op u2 gf pe(2) by (simp add: syscall_open_def)
  moreover have "s3 = s1\<lparr>procs := (procs s)(cur s \<mapsto> p2)\<rparr>" by (simp add: s3_def s2_def)
  ultimately show ?thesis using mp(4) by (simp add: p2 s1_def)
qed

text \<open>
  C26. \<^verbatim>\<open>open\<close> takes the lowest free descriptor and never another one: for the path of a mount
  point it enters the mounted file there, with position 0 and one more reference; for a path below
  a mount point it returns -1 with the descriptor still free, but the reference to the mounted file
  that the search took is never given back. With no free descriptor it returns -1 and changes nothing.
\<close>

theorem syscall_open_lowest:
  assumes "no_dirs drv" and "cur s \<noteq> 0" and "procs s (cur s) = Some p"
    and "avail s = q # as" and "fs_closest_mp path s = Some mp" and "mp_root mp = r" and "r \<noteq> 0" and "files s r = Some f" and "plain drv f"
  shows "case syscall_open drv path flags s of
      Inl e \<Rightarrow> False
    | Inr (fd, s') \<Rightarrow>
        if \<forall>fp \<in> set (pfp p). fp_file fp \<noteq> 0 then fd = -1 \<and> s' = s
        else \<exists>i < length (pfp p). fp_file (pfp p ! i) = 0 \<and> (\<forall>j < i. fp_file (pfp p ! j) \<noteq> 0)
          \<and> files s' = (files s)(r \<mapsto> f\<lparr>refs := refs f + 1\<rparr>)
          \<and> (if path = take (unat (path_len mp)) path
             then fd = int i \<and> procs s' (cur s) = Some (p\<lparr>pfp := (pfp p)[i := \<lparr>fp_file = r, fp_flags = of_int64 flags, fp_pos = 0\<rparr>]\<rparr>)
             else fd = -1 \<and> procs s' (cur s) = Some (p\<lparr>pfp := (pfp p)[i := \<lparr>fp_file = 0, fp_flags = of_int64 flags, fp_pos = 0\<rparr>]\<rparr>))"
proof (cases "free_fp 0 (pfp p)")
  case None
  then have "syscall_open drv path flags s = Inr (-1, s)" using assms(2,3) by (simp add: syscall_open_def)
  moreover have "\<forall>fp \<in> set (pfp p). fp_file fp \<noteq> 0" using None free_fp_None [of 0 "pfp p"] by simp
  ultimately show ?thesis by simp
next
  case (Some i)
  have "drop (unat (path_len mp)) path = [] \<longleftrightarrow> path = take (unat (path_len mp)) path" by (metis drop_eq_Nil take_all_iff)
  moreover have "\<not> (\<forall>fp \<in> set (pfp p). fp_file fp \<noteq> 0)" using Some free_fp_None [of 0 "pfp p"] by auto
  ultimately show ?thesis
    using syscall_open_eq [OF assms(1,2,3) Some assms(4-9), of flags] free_fp_SomeD [OF Some] by auto
qed


text \<open>The example machine inside a system call, with one file mounted at \<^verbatim>\<open>/dev\<close>.\<close>

definition example_sys :: kernel where
  "example_sys = upd_cpu (\<lambda>c. c\<lparr>current_process := 0x500\<rparr>) (example_kernel PROC_STATE_READY)
     \<lparr>files := [KERNEL_HEAP_S \<mapsto> example_file], avail := [KERNEL_HEAP_S + 64],
      mountpoints := [\<lparr>mp_root = KERNEL_HEAP_S, path_len = 4, mp_path = [slash, 100, 101, 118]\<rparr>]\<rparr>"

lemma free_fp_replicate: "0 < n \<Longrightarrow> fp_file e = 0 \<Longrightarrow> free_fp k (replicate n e) = Some k"
  by (cases n) simp_all

lemma example_sys_facts:
  "no_dirs no_drivers" "cur example_sys = 0x500" "procs example_sys 0x500 = Some (example_process PROC_STATE_READY)"
  "free_fp 0 (pfp (example_process PROC_STATE_READY)) = Some 0" "avail example_sys = (KERNEL_HEAP_S + 64) # []"
  "files example_sys KERNEL_HEAP_S = Some example_file" "plain no_drivers example_file" "KERNEL_HEAP_S \<noteq> 0" "refs example_file \<noteq> 0"
  by (simp_all add: no_dirs_def no_drivers_def example_sys_def example_kernel_def procmm.defs example_process_def plain_def
      example_file_def KERNEL_HEAP_S_def free_fp_replicate)

lemma example_sys_mp:
  assumes "path \<in> {[slash, 100, 101, 118], [slash, 100, 101, 118, slash, 97]}"
  shows "fs_closest_mp path example_sys = Some \<lparr>mp_root = KERNEL_HEAP_S, path_len = 4, mp_path = [slash, 100, 101, 118]\<rparr>"
  using assms by (auto simp: fs_closest_mp_def example_sys_def strncmp_chars_def Let_def)

theorem syscall_open_lowest_witness:
  "\<exists>fd s'. syscall_open no_drivers [slash, 100, 101, 118] 0 example_sys = Inr (fd, s') \<and> fd = 0
     \<and> map_option refs (files s' KERNEL_HEAP_S) = Some 2"
proof -
  note h = example_sys_facts
  have c: "cur example_sys \<noteq> 0" "procs example_sys (cur example_sys) = Some (example_process PROC_STATE_READY)" using h by simp_all
  have ex: "\<not> (\<forall>fp \<in> set (pfp (example_process PROC_STATE_READY)). fp_file fp \<noteq> 0)" by (simp add: example_process_def)
  have i0: "i = 0" if "\<forall>j < i. fp_file (pfp (example_process PROC_STATE_READY) ! j) \<noteq> 0" "i < length (pfp (example_process PROC_STATE_READY))" for i
    using that by (cases i) (auto simp: example_process_def)
  have m: "[slash, 100, 101, 118] = take (unat (path_len \<lparr>mp_root = KERNEL_HEAP_S, path_len = 4, mp_path = [slash, 100, 101, 118]\<rparr>)) [slash, 100, 101, 118]"
    by simp
  obtain fd s' where r: "syscall_open no_drivers [slash, 100, 101, 118] 0 example_sys = Inr (fd, s')"
    using syscall_open_lowest [OF h(1) c h(5) example_sys_mp [of "[slash, 100, 101, 118]"] _ h(8,6,7), of 0] by (auto split: sum.splits)
  obtain i where i: "i < length (pfp (example_process PROC_STATE_READY))" "\<forall>j < i. fp_file (pfp (example_process PROC_STATE_READY) ! j) \<noteq> 0"
    "files s' = (files example_sys)(KERNEL_HEAP_S \<mapsto> example_file\<lparr>refs := refs example_file + 1\<rparr>)" "fd = int i"
    using syscall_open_lowest [OF h(1) c h(5) example_sys_mp [of "[slash, 100, 101, 118]"] _ h(8,6,7), of 0] ex m
    unfolding r by auto
  have "refs example_file + 1 = 2" by (simp add: example_file_def)
  then show ?thesis using r i i0 [OF i(2,1)] by simp
qed

text \<open>
  C27. Opening the path of a mount point and closing the descriptor again gives back the reference
  and the descriptor: the files are as before, and the descriptor is free.
\<close>

theorem syscall_open_close:
  assumes "no_dirs drv" and "cur s \<noteq> 0" and "procs s (cur s) = Some p" and "free_fp 0 (pfp p) = Some i"
    and "avail s = q # as" and "fs_closest_mp path s = Some mp" and "mp_root mp = r" and "r \<noteq> 0" and "files s r = Some f" and "plain drv f"
    and "path = take (unat (path_len mp)) path" and "refs f \<noteq> 0"
  shows "\<exists>s1 s'. syscall_open drv path flags s = Inr (int i, s1) \<and> syscall_close drv (int i) s1 = Inr (-1, s')
    \<and> files s' = files s \<and> procs s' (cur s) = Some (p\<lparr>pfp := (pfp p)[i := \<lparr>fp_file = 0, fp_flags = of_int64 flags, fp_pos = 0\<rparr>]\<rparr>)"
proof -
  let ?f = "f\<lparr>refs := refs f + 1\<rparr>" and ?e = "\<lparr>fp_file = r, fp_flags = of_int64 flags, fp_pos = 0\<rparr>"
  define p1 where "p1 = p\<lparr>pfp := (pfp p)[i := ?e]\<rparr>"
  define s1 where "s1 = s\<lparr>avail := as, files := (files s)(r \<mapsto> ?f), procs := (procs s)(cur s \<mapsto> p1)\<rparr>"
  have "drop (unat (path_len mp)) path = []" using assms(11) by (metis append_take_drop_id append_self_conv)
  then have o: "syscall_open drv path flags s = Inr (int i, s1)"
    using syscall_open_eq [OF assms(1-10), of flags] by (simp add: s1_def p1_def)
  have il: "i < length (pfp p1)" using free_fp_SomeD [OF assms(4)] by (simp add: p1_def)
  have s1: "procs s1 (cur s1) = Some p1" "cur s1 \<noteq> 0" "files s1 r = Some ?f" using assms(2) by (simp_all add: s1_def)
  note g = upd_fp_eq(2) [OF s1(1,2) il]
  have e: "pfp p1 ! i = ?e" using il by (simp add: p1_def)
  have c: "fs_close drv r s1 = Inr (-1, s1)"
    using fs_open_plain(2) [of drv ?f r s1] assms(8,10) s1(3) by (simp add: plain_def)
  define s2 where "s2 = s1\<lparr>files := (files s1)(r \<mapsto> f)\<rparr>"
  have pt: "fs_put r s1 = Inr (r, s2)" using assms(8,12) s1(3) by (simp add: fs_put_def s2_def Let_def)
  have s2: "procs s2 (cur s2) = Some p1" "cur s2 \<noteq> 0" using s1 by (simp_all add: s2_def)
  note u = upd_fp_eq(1) [OF s2 il, of "\<lambda>fp. fp\<lparr>fp_file := 0\<rparr>"]
  have "syscall_close drv (int i) s1 = Inr (-1, s2\<lparr>procs := (procs s2)(cur s2 \<mapsto> p1\<lparr>pfp := (pfp p1)[i := (pfp p1 ! i)\<lparr>fp_file := 0\<rparr>]\<rparr>)\<rparr>)"
    using g e c pt u by (simp add: syscall_close_def)
  moreover have "p1\<lparr>pfp := (pfp p1)[i := (pfp p1 ! i)\<lparr>fp_file := 0\<rparr>]\<rparr> = p\<lparr>pfp := (pfp p)[i := \<lparr>fp_file = 0, fp_flags = of_int64 flags, fp_pos = 0\<rparr>]\<rparr>"
    unfolding e by (simp add: p1_def)
  moreover have "files s2 = files s" using assms(9) by (auto simp: s2_def s1_def)
  ultimately show ?thesis using o by (auto simp: s2_def s1_def)
qed


theorem syscall_open_close_witness:
  "\<exists>s1 s'. syscall_open no_drivers [slash, 100, 101, 118] 0 example_sys = Inr (0, s1) \<and> syscall_close no_drivers 0 s1 = Inr (-1, s')
     \<and> files s' = files example_sys"
proof -
  note h = example_sys_facts
  have c: "cur example_sys \<noteq> 0" "procs example_sys (cur example_sys) = Some (example_process PROC_STATE_READY)" using h by simp_all
  show ?thesis
    using syscall_open_close [OF h(1) c h(4,5) example_sys_mp [of "[slash, 100, 101, 118]"] _ h(8,6,7) _ h(9), of 0] by auto
qed

end
