(* ===== verification/Ata.thy ===== *)
theory Ata
  imports Console Pipe
begin

text \<open>
  The disk driver: \<^verbatim>\<open>kernel/drivers/ata.c\<close> and the block loops of
  \<^verbatim>\<open>kernel/fs/ata_fs.c\<close>. The controller is hardware and so a parameter: the \<open>device\<close>
  of theory \<open>Console\<close>. Its registers are those of the task file of a bus, one command register,
  one status register and a data port. Busy-waiting loops have a value only if they end. The
  sector buffer that \<^verbatim>\<open>ata_read\<close> and \<^verbatim>\<open>ata_write\<close> have on the stack is not initialised
  there, so its old contents are an argument.
\<close>

section \<open>ata.c\<close>

abbreviation (input) ATA_PRIMARY :: u16 where "ATA_PRIMARY \<equiv> 0x1F0"
abbreviation (input) ATA_SECONDARY :: u16 where "ATA_SECONDARY \<equiv> 0x170"
abbreviation (input) ATA_MASTER :: u8 where "ATA_MASTER \<equiv> 0x00"
abbreviation (input) ATA_SLAVE :: u8 where "ATA_SLAVE \<equiv> 0x10"

abbreviation (input) ATA_DATA :: "u16 \<Rightarrow> u16" where "ATA_DATA x \<equiv> x + 0"
abbreviation (input) ATA_ERROR :: "u16 \<Rightarrow> u16" where "ATA_ERROR x \<equiv> x + 1"
abbreviation (input) ATA_COUNT :: "u16 \<Rightarrow> u16" where "ATA_COUNT x \<equiv> x + 2"
abbreviation (input) ATA_LBAL :: "u16 \<Rightarrow> u16" where "ATA_LBAL x \<equiv> x + 3"
abbreviation (input) ATA_LBAM :: "u16 \<Rightarrow> u16" where "ATA_LBAM x \<equiv> x + 4"
abbreviation (input) ATA_LBAH :: "u16 \<Rightarrow> u16" where "ATA_LBAH x \<equiv> x + 5"
abbreviation (input) ATA_DEVICE :: "u16 \<Rightarrow> u16" where "ATA_DEVICE x \<equiv> x + 6"
abbreviation (input) ATA_COMMAND :: "u16 \<Rightarrow> u16" where "ATA_COMMAND x \<equiv> x + 7"
abbreviation (input) ATA_STATUS :: "u16 \<Rightarrow> u16" where "ATA_STATUS x \<equiv> x + 7"
abbreviation (input) ATA_CONTROL :: "u16 \<Rightarrow> u16" where "ATA_CONTROL x \<equiv> x + 0x206"

abbreviation (input) ATA_ERR :: u8 where "ATA_ERR \<equiv> 0x01"
abbreviation (input) ATA_DRQ :: u8 where "ATA_DRQ \<equiv> 0x08"
abbreviation (input) ATA_DF :: u8 where "ATA_DF \<equiv> 0x20"
abbreviation (input) ATA_RDY :: u8 where "ATA_RDY \<equiv> 0x40"
abbreviation (input) ATA_BSY :: u8 where "ATA_BSY \<equiv> 0x80"
abbreviation (input) ATA_SRST :: u8 where "ATA_SRST \<equiv> 0x04"

abbreviation (input) ATA_CMD_IDENTIFY :: u8 where "ATA_CMD_IDENTIFY \<equiv> 0xEC"
abbreviation (input) ATA_CMD_IDENTIFY_PACKET :: u8 where "ATA_CMD_IDENTIFY_PACKET \<equiv> 0xA1"
abbreviation (input) ATA_CMD_READ_SECTORS :: u8 where "ATA_CMD_READ_SECTORS \<equiv> 0x20"
abbreviation (input) ATA_CMD_WRITE_SECTORS :: u8 where "ATA_CMD_WRITE_SECTORS \<equiv> 0x30"
abbreviation (input) ATAPI_LBA_MAGIC :: u64 where "ATAPI_LBA_MAGIC \<equiv> 0xEB1401"

text \<open>A drive; \<open>drive_id\<close> is the identification block, 256 words.\<close>

record ata_drive =
  drive_exists :: bool
  drive_bus :: u16
  drive_ms :: u8
  drive_atapi :: bool
  drive_id :: "u16 list"

definition drives_init :: "ata_drive list" where
  "drives_init = map (\<lambda>(b, m). \<lparr>drive_exists = False, drive_bus = b, drive_ms = m, drive_atapi = False, drive_id = replicate 256 0\<rparr>)
     [(ATA_PRIMARY, ATA_MASTER), (ATA_PRIMARY, ATA_SLAVE), (ATA_SECONDARY, ATA_MASTER), (ATA_SECONDARY, ATA_SLAVE)]"

text \<open>
  A command. The unions of \<^verbatim>\<open>ata_cmd_t\<close> are one field each: \<open>cmd_command\<close> is also the
  \<^verbatim>\<open>status\<close>, \<open>cmd_feature\<close> also the \<^verbatim>\<open>error\<close>, and \<^verbatim>\<open>lba_sep[i]\<close> the byte \<open>i\<close> of \<open>cmd_lba\<close>.
\<close>

record ata_cmd_t =
  cmd_bus :: u16
  cmd_feature :: u8
  cmd_count :: u8
  cmd_lba :: u64
  cmd_device :: u8
  cmd_command :: u8
  cmd_wait_status :: u8

definition lba_sep :: "u64 \<Rightarrow> nat \<Rightarrow> u8" where
  "lba_sep lba i = ucast (drop_bit (8 * i) lba)"

definition set_lba_sep :: "nat \<Rightarrow> u8 \<Rightarrow> u64 \<Rightarrow> u64" where
  "set_lba_sep i b lba = (lba AND NOT (push_bit (8 * i) 0xFF)) OR push_bit (8 * i) (ucast b)"

definition ata_wait_status :: "'d device \<Rightarrow> u16 \<Rightarrow> 'd \<Rightarrow> u8 \<times> 'd" where
  "ata_wait_status dev bus d =
     (let d = snd (inb dev (ATA_STATUS bus) d); d = snd (inb dev (ATA_STATUS bus) d);
          d = snd (inb dev (ATA_STATUS bus) d); d = snd (inb dev (ATA_STATUS bus) d)
      in inb dev (ATA_STATUS bus) d)"

text \<open>\<^verbatim>\<open>while((status = inb(...)) & ATA_BSY);\<close> and \<^verbatim>\<open>while(!(status = inb(...) & mask));\<close>\<close>

partial_function (option) ata_poll_bsy :: "'d device \<Rightarrow> u16 \<Rightarrow> 'd \<Rightarrow> (u8 \<times> 'd) option" where
  "ata_poll_bsy dev bus d =
     (let r = inb dev (ATA_STATUS bus) d in
      if fst r AND ATA_BSY \<noteq> 0 then ata_poll_bsy dev bus (snd r) else Some r)"

partial_function (option) ata_poll_mask :: "'d device \<Rightarrow> u16 \<Rightarrow> u8 \<Rightarrow> 'd \<Rightarrow> (u8 \<times> 'd) option" where
  "ata_poll_mask dev bus msk d =
     (let r = inb dev (ATA_STATUS bus) d in
      if fst r AND msk = 0 then ata_poll_mask dev bus msk (snd r) else Some (fst r AND msk, snd r))"

definition ata_send_command :: "'d device \<Rightarrow> ata_cmd_t \<Rightarrow> 'd \<Rightarrow> (u8 \<times> ata_cmd_t \<times> 'd) res" where
  "ata_send_command dev cmd d =
     (let b = cmd_bus cmd;
          d = outb dev (ATA_DEVICE b) (cmd_device cmd OR (lba_sep (cmd_lba cmd) 3 AND 0xF)) d;
          d = snd (ata_wait_status dev b d);
          d = outb dev (ATA_COUNT b) (cmd_count cmd) d;
          d = outb dev (ATA_LBAL b) (lba_sep (cmd_lba cmd) 0) d;
          d = outb dev (ATA_LBAM b) (lba_sep (cmd_lba cmd) 1) d;
          d = outb dev (ATA_LBAH b) (lba_sep (cmd_lba cmd) 2) d
      in
      bindR (of_option Diverges (ata_poll_bsy dev b d)) (\<lambda>(_, d).
      let d = outb dev (ATA_COMMAND b) (cmd_command cmd) d;
          r = inb dev (ATA_STATUS b) d; d = snd r
      in
      if fst r = 0 then Inr (0, cmd, d)
      else
        let d = snd (ata_wait_status dev b d) in
        bindR (of_option Diverges (ata_poll_bsy dev b d)) (\<lambda>(st, d).
        bindR (if cmd_wait_status cmd \<noteq> 0 then of_option Diverges (ata_poll_mask dev b (cmd_wait_status cmd OR ATA_ERR) d)
               else Inr (st, d)) (\<lambda>(st, d).
        let (er, d) = inb dev (ATA_ERROR b) d;
            (cn, d) = inb dev (ATA_COUNT b) d;
            (dv, d) = inb dev (ATA_DEVICE b) d;
            (l0, d) = inb dev (ATA_LBAL b) d;
            (l1, d) = inb dev (ATA_LBAM b) d;
            (l2, d) = inb dev (ATA_LBAH b) d
        in Inr (st, cmd\<lparr>cmd_command := st, cmd_feature := er, cmd_count := cn, cmd_device := dv,
             cmd_lba := set_lba_sep 3 0 (set_lba_sep 2 l2 (set_lba_sep 1 l1 (set_lba_sep 0 l0 (cmd_lba cmd))))\<rparr>, d)))))"

text \<open>The loops over the 256 words of a sector.\<close>

fun ata_inw :: "'d device \<Rightarrow> u16 \<Rightarrow> nat \<Rightarrow> 'd \<Rightarrow> u16 list \<times> 'd" where
  "ata_inw dev bus 0 d = ([], d)"
| "ata_inw dev bus (Suc n) d =
     (let (w, d) = inw dev (ATA_DATA bus) d; (ws, d) = ata_inw dev bus n d in (w # ws, d))"

fun ata_outw :: "'d device \<Rightarrow> u16 \<Rightarrow> u16 list \<Rightarrow> 'd \<Rightarrow> 'd" where
  "ata_outw dev bus [] d = d"
| "ata_outw dev bus (w # ws) d = ata_outw dev bus ws (outw dev (ATA_DATA bus) w d)"

text \<open>A buffer of bytes seen as one of words, little endian.\<close>

fun words_to_bytes :: "u16 list \<Rightarrow> u8 list" where
  "words_to_bytes [] = []"
| "words_to_bytes (w # ws) = ucast w # ucast (drop_bit 8 w) # words_to_bytes ws"

fun bytes_to_words :: "u8 list \<Rightarrow> u16 list" where
  "bytes_to_words (a # b # bs) = (ucast a OR push_bit 8 (ucast b)) # bytes_to_words bs"
| "bytes_to_words _ = []"

definition init_drive :: "'d device \<Rightarrow> ata_drive \<Rightarrow> 'd \<Rightarrow> (ata_drive \<times> 'd) res" where
  "init_drive dev drive d =
     (let b = drive_bus drive;
          (v1, d) = inb dev (ATA_LBAL b) d;
          d = outb dev (ATA_LBAL b) (NOT v1) d;
          (v2, d) = inb dev (ATA_LBAL b) d
      in
      if v2 \<noteq> NOT v1 then Inr (drive, d)
      else
        let d = outb dev (ATA_DEVICE b) (0xA0 OR drive_ms drive) d;
            (st, d) = ata_wait_status dev b d
        in
        if st AND ATA_RDY = 0 then Inr (drive, d)
        else
          let d = outb dev (ATA_CONTROL b) ATA_SRST d;
              d = outb dev (ATA_CONTROL b) 0 d;
              (h, d) = inb dev (ATA_LBAH b) d;
              (m, d) = inb dev (ATA_LBAM b) d;
              (l, d) = inb dev (ATA_LBAL b) d;
              lba = push_bit 16 (ucast h) OR push_bit 8 (ucast m) OR ucast l :: u64;
              cmd = \<lparr>cmd_bus = b, cmd_feature = 0, cmd_count = 0, cmd_lba = 0, cmd_device = 0xA0 OR drive_ms drive,
                     cmd_command = ATA_CMD_IDENTIFY, cmd_wait_status = ATA_DRQ\<rparr>;
              atapi = (lba = ATAPI_LBA_MAGIC);
              drive = (if atapi then drive\<lparr>drive_atapi := True\<rparr> else drive);
              cmd = (if atapi then cmd\<lparr>cmd_command := ATA_CMD_IDENTIFY_PACKET\<rparr> else cmd)
          in
          bindR (ata_send_command dev cmd d) (\<lambda>(st, _, d).
          if st = 0 then Inr (drive, d)
          else let (ws, d) = ata_inw dev b 256 d in Inr (drive\<lparr>drive_id := ws, drive_exists := True\<rparr>, d)))"

text \<open>
  \<^verbatim>\<open>ata_read_block\<close> leaves the buffer alone when all tries fail; the result has the return
  value and the 512 bytes that the buffer then holds.
\<close>

definition block_cmd :: "ata_drive \<Rightarrow> u64 \<Rightarrow> u8 \<Rightarrow> ata_cmd_t" where
  "block_cmd drive lba cmd =
     \<lparr>cmd_bus = drive_bus drive, cmd_feature = 0, cmd_count = 1, cmd_lba = lba AND 0xFFFFFF,
      cmd_device = 0xE0 OR drive_ms drive OR ucast (drop_bit 24 lba AND 0xF), cmd_command = cmd, cmd_wait_status = 0\<rparr>"

fun ata_read_tries :: "'d device \<Rightarrow> nat \<Rightarrow> ata_drive \<Rightarrow> u64 \<Rightarrow> u8 list \<Rightarrow> 'd \<Rightarrow> (int \<times> u8 list \<times> 'd) res" where
  "ata_read_tries dev 0 drive lba buf d = Inr (-1, buf, d)"
| "ata_read_tries dev (Suc retries) drive lba buf d =
     bindR (ata_send_command dev (block_cmd drive lba ATA_CMD_READ_SECTORS) d) (\<lambda>(st, _, d).
     if st AND (ATA_DF OR ATA_ERR) \<noteq> 0 \<or> st AND ATA_DRQ = 0 then ata_read_tries dev retries drive lba buf d
     else let (ws, d) = ata_inw dev (drive_bus drive) 256 d in Inr (0, words_to_bytes ws, d))"

definition ata_read_block :: "'d device \<Rightarrow> ata_drive \<Rightarrow> u64 \<Rightarrow> u8 list \<Rightarrow> 'd \<Rightarrow> (int \<times> u8 list \<times> 'd) res" where
  "ata_read_block dev drive lba buf d = ata_read_tries dev 5 drive lba buf d"

definition ata_write_block :: "'d device \<Rightarrow> ata_drive \<Rightarrow> u64 \<Rightarrow> u8 list \<Rightarrow> 'd \<Rightarrow> (int \<times> 'd) res" where
  "ata_write_block dev drive lba buf d =
     bindR (ata_send_command dev (block_cmd drive lba ATA_CMD_WRITE_SECTORS) d) (\<lambda>(st, _, d).
     Inr (0, ata_outw dev (drive_bus drive) (bytes_to_words (take 512 buf)) d))"

definition ata_init :: "'d device \<Rightarrow> ata_drive list \<Rightarrow> 'd \<Rightarrow> (ata_drive list \<times> 'd) res" where
  "ata_init dev drives d =
     foldR (\<lambda>i (drives, d). bindR (init_drive dev (drives ! i) d) (\<lambda>(dr, d). Inr (drives[i := dr], d))) [0, 1, 2, 3] (drives, d)"

section \<open>ata_fs.c\<close>

text \<open>The length of a round: up to the end of the block or of the request.\<close>

definition ata_len :: "u64 \<Rightarrow> u64 \<Rightarrow> u64 \<Rightarrow> u64" where
  "ata_len nbyte count bloff = (if nbyte - count > 512 - bloff then 512 - bloff else nbyte - count)"

lemma ata_round_pos:
  assumes "count < nbyte"
  shows "unat (nbyte - (count + ata_len nbyte count (offset mod 512))) < unat (nbyte - count)"
proof -
  have "offset mod 512 < 512" by (rule word_mod_less_divisor) simp
  then have l: "ata_len nbyte count (offset mod 512) \<noteq> 0" "ata_len nbyte count (offset mod 512) \<le> nbyte - count"
    using assms by (auto simp: ata_len_def)
  then have "unat (nbyte - count - ata_len nbyte count (offset mod 512)) < unat (nbyte - count)"
    by (intro unat_diff_less) (auto simp: word_greater_zero_iff)
  then show ?thesis by (simp add: diff_diff_eq)
qed

lemma ata_round_pos_block:
  "count < nbyte \<Longrightarrow> 512 = ata_len nbyte count (offset mod 512) \<Longrightarrow> unat (nbyte - (count + 512)) < unat (nbyte - count)"
  using ata_round_pos [of count nbyte offset] by simp

function ata_read_loop :: "'d device \<Rightarrow> ata_drive \<Rightarrow> u64 \<Rightarrow> u64 \<Rightarrow> u64 \<Rightarrow> u8 list \<Rightarrow> u8 list \<Rightarrow> 'd \<Rightarrow> (u64 \<times> u8 list \<times> 'd) res" where
  "ata_read_loop dev drv nbyte count offset blk_buf out_buf d =
     (if count < nbyte then
        let block = offset div 512; bloff = offset mod 512; len = ata_len nbyte count bloff in
        if len = 512 then
          bindR (copy_out out_buf count 512) (\<lambda>old.
          bindR (ata_read_block dev drv block old d) (\<lambda>(_, bs, d).
          bindR (copy_in out_buf count bs 0 512) (\<lambda>out_buf.
            ata_read_loop dev drv nbyte (count + len) (offset + len) blk_buf out_buf d)))
        else
          bindR (ata_read_block dev drv block blk_buf d) (\<lambda>(_, blk_buf, d).
          bindR (copy_in out_buf count blk_buf bloff len) (\<lambda>out_buf.
            ata_read_loop dev drv nbyte (count + len) (offset + len) blk_buf out_buf d))
      else Inr (count, out_buf, d))"
  by pat_completeness auto
termination
  by (relation "measure (\<lambda>(_, _, nbyte, count, _). unat (nbyte - count))") (auto simp only: in_measure prod.case wf_measure intro: ata_round_pos ata_round_pos_block)

declare ata_read_loop.simps [simp del]

definition ata_read :: "'d device \<Rightarrow> u8 list \<Rightarrow> ata_drive \<Rightarrow> u8 list \<Rightarrow> u64 \<Rightarrow> u64 \<Rightarrow> 'd \<Rightarrow> (u64 \<times> u8 list \<times> 'd) res" where
  "ata_read dev blk_buf drv buffer nbyte offset d =
     (if \<not> drive_exists drv then Inr (0, buffer, d) else ata_read_loop dev drv nbyte 0 offset blk_buf buffer d)"

function ata_write_loop :: "'d device \<Rightarrow> ata_drive \<Rightarrow> u64 \<Rightarrow> u64 \<Rightarrow> u64 \<Rightarrow> u8 list \<Rightarrow> u8 list \<Rightarrow> 'd \<Rightarrow> (u64 \<times> 'd) res" where
  "ata_write_loop dev drv nbyte count offset blk_buf in_buf d =
     (if count < nbyte then
        let block = offset div 512; bloff = offset mod 512; len = ata_len nbyte count bloff in
        if len = 512 then
          bindR (copy_out in_buf count 512) (\<lambda>bs.
          bindR (ata_write_block dev drv block bs d) (\<lambda>(_, d).
            ata_write_loop dev drv nbyte (count + len) (offset + len) blk_buf in_buf d))
        else
          bindR (ata_read_block dev drv block blk_buf d) (\<lambda>(_, blk_buf, d).
          bindR (copy_in blk_buf bloff in_buf count len) (\<lambda>blk_buf.
          bindR (ata_write_block dev drv block blk_buf d) (\<lambda>(_, d).
            ata_write_loop dev drv nbyte (count + len) (offset + len) blk_buf in_buf d)))
      else Inr (count, d))"
  by pat_completeness auto
termination
  by (relation "measure (\<lambda>(_, _, nbyte, count, _). unat (nbyte - count))") (auto simp only: in_measure prod.case wf_measure intro: ata_round_pos ata_round_pos_block)

declare ata_write_loop.simps [simp del]

definition ata_write :: "'d device \<Rightarrow> u8 list \<Rightarrow> ata_drive \<Rightarrow> u8 list \<Rightarrow> u64 \<Rightarrow> u64 \<Rightarrow> 'd \<Rightarrow> (u64 \<times> 'd) res" where
  "ata_write dev blk_buf drv buffer nbyte offset d =
     (if \<not> drive_exists drv then Inr (0, d) else ata_write_loop dev drv nbyte 0 offset blk_buf buffer d)"

section \<open>A disk behind the ports\<close>

text \<open>Sectors of a disk, which is a sequence of bytes.\<close>

definition sector :: "(nat \<Rightarrow> u8) \<Rightarrow> nat \<Rightarrow> u8 list" where
  "sector m l = map (\<lambda>i. m (512 * l + i)) [0..<512]"

definition put_bytes :: "nat \<Rightarrow> u8 list \<Rightarrow> (nat \<Rightarrow> u8) \<Rightarrow> nat \<Rightarrow> u8" where
  "put_bytes a bs m = (\<lambda>i. if a \<le> i \<and> i < a + length bs then bs ! (i - a) else m i)"

text \<open>What the drive transfers: nothing, the words of a sector to the host, or words from it.\<close>

datatype ata_phase = Idle | Reading "u16 list" | Writing nat "u16 list"

text \<open>The registers select the sector \<open>l\<close> of the drive \<open>ms\<close>, 28-bit addressing, one sector.\<close>

definition selects :: "u8 \<Rightarrow> (u16 \<Rightarrow> u8) \<Rightarrow> nat \<Rightarrow> bool" where
  "selects ms r l \<longleftrightarrow> r 2 = 1 \<and> r 6 AND 0xF0 = 0xE0 OR ms
     \<and> l = unat (r 3) + 256 * unat (r 4) + 65536 * unat (r 5) + 16777216 * unat (r 6 AND 0xF)"

text \<open>
  The behaviour of an ATA disk on a bus, as its standard has it, for single-sector transfers that
  do not fail: it is busy for a while after a command, ignores nothing that is written while it
  is not busy, requests data until a sector is transferred, and has stored a sector once it has
  all of it. \<open>regs\<close> are the task-file registers by their offset, \<open>busy\<close> the number of status
  reads that still see it busy.
\<close>

lemma unat_lba_sep: "unat (lba_sep lba i) = unat lba div 2 ^ (8 * i) mod 256"
  by (simp only: lba_sep_def unsigned_ucast_eq unat_drop_bit_eq) (simp add: take_bit_eq_mod drop_bit_eq_div)

lemma unat_low24: "unat (lba AND 0xFFFFFF :: u64) = unat lba mod 2 ^ 24"
proof -
  have "lba AND 0xFFFFFF = take_bit 24 lba" by (simp add: take_bit_eq_mask mask_eq_exp_minus_1)
  then show ?thesis by (simp only: unsigned_take_bit_eq) (simp add: take_bit_eq_mod)
qed

lemma lba_seps:
  "unat (lba_sep (lba AND 0xFFFFFF) 0) = unat lba mod 16777216 mod 256"
  "unat (lba_sep (lba AND 0xFFFFFF) 1) = unat lba mod 16777216 div 256 mod 256"
  "unat (lba_sep (lba AND 0xFFFFFF) 2) = unat lba mod 16777216 div 65536 mod 256"
  by (simp_all add: unat_lba_sep unat_low24)

lemma lba_digits:
  fixes n :: nat
  assumes "n < 268435456"
  shows "n = n mod 16777216 mod 256 + 256 * (n mod 16777216 div 256 mod 256) + 65536 * (n mod 16777216 div 65536 mod 256) + 16777216 * (n div 16777216 mod 16)"
proof -
  define m where "m = n mod 16777216"
  have m: "m < 16777216" by (simp add: m_def)
  have "m div 65536 mod 256 = m div 65536" "n div 16777216 mod 16 = n div 16777216" using m assms by auto
  moreover have "m div 256 = 256 * (m div 65536) + m div 256 mod 256"
    using div_mult2_eq [of m 256 256] mult_div_mod_eq [of 256 "m div 256"] by simp
  moreover have "m = 256 * (m div 256) + m mod 256" by presburger
  moreover have "n = 16777216 * (n div 16777216) + m" unfolding m_def by presburger
  ultimately show ?thesis unfolding m_def [symmetric] by linarith
qed

lemma device_register:
  fixes ms x :: u8
  assumes "ms = ATA_MASTER \<or> ms = ATA_SLAVE"
  shows "((0xE0 OR ms OR (x AND 0xF)) OR 0) AND 0xF0 = 0xE0 OR ms" "((0xE0 OR ms OR (x AND 0xF)) OR 0) AND 0xF = x AND 0xF"
  using assms by (auto simp: bit.conj_disj_distrib2 and.assoc)

lemma words_bytes: "even (length bs) \<Longrightarrow> words_to_bytes (bytes_to_words bs) = bs"
proof (induction bs rule: bytes_to_words.induct)
  case (1 a b bs)
  have "ucast (ucast a OR push_bit 8 (ucast b) :: u16) = a" "ucast (drop_bit 8 (ucast a OR push_bit 8 (ucast b) :: u16)) = b"
    by (rule bit_word_eqI, auto simp: bit_simps dest: bit_imp_le_length)+
  with 1 show ?case by simp
qed auto

lemma length_bytes_to_words: "length (bytes_to_words bs) = length bs div 2"
  by (induction bs rule: bytes_to_words.induct) auto

lemma length_sector [simp]: "length (sector m l) = 512"
  by (simp add: sector_def)

lemma sector_slice:
  assumes "k + n \<le> 512"
  shows "take n (drop k (sector m l)) = map m [512 * l + k..<512 * l + k + n]"
  using assms by (intro nth_equalityI) (auto simp: sector_def add.assoc)

lemma map_upt_split: "map f [a..<a + m] @ map f [a + m..<a + m + n] = map f [a..<a + (m + n)]"
  by (metis add.assoc le_add1 map_append upt_add_eq_append)

lemma put_bytes_append: "put_bytes (a + length xs) ys (put_bytes a xs m) = put_bytes a (xs @ ys) m"
  by (rule ext) (auto simp: put_bytes_def nth_append)

lemma put_bytes_Nil [simp]: "put_bytes a [] m = m"
  by (rule ext) (auto simp: put_bytes_def)

lemma put_sector_slice:
  assumes "k + length xs \<le> 512"
  shows "put_bytes (512 * l) (take k (sector m l) @ xs @ drop (k + length xs) (sector m l)) m = put_bytes (512 * l + k) xs m"
  using assms by (intro ext) (auto simp: put_bytes_def nth_append sector_def)

text \<open>One round of the loops of \<^verbatim>\<open>ata_read\<close> and \<^verbatim>\<open>ata_write\<close>.\<close>

lemma ata_round:
  fixes nbyte count offset :: u64
  assumes "count < nbyte"
  defines "len \<equiv> ata_len nbyte count (offset mod 512)"
  shows "0 < unat len" "unat (offset mod 512) + unat len \<le> 512" "unat count + unat len \<le> unat nbyte"
    "unat (count + len) = unat count + unat len" "count + len \<le> nbyte"
    "len = 512 \<Longrightarrow> unat (offset mod 512) = 0"
    "unat offset + (unat nbyte - unat count) < 2 ^ 64 \<Longrightarrow> unat (offset + len) = unat offset + unat len"
proof -
  have m: "unat (offset mod 512) < 512" by (simp add: unat_mod)
  have c: "unat (nbyte - count) = unat nbyte - unat count" "unat count < unat nbyte"
    using assms(1) by (simp_all add: unat_sub word_less_nat_alt order_less_imp_le)
  have b: "unat (512 - offset mod 512) = 512 - unat (offset mod 512)"
    using m by (subst unat_sub) (simp_all add: word_le_nat_alt)
  have l: "unat len = min (unat nbyte - unat count) (512 - unat (offset mod 512))"
    using c b by (simp add: len_def ata_len_def word_less_nat_alt min_def)
  show "0 < unat len" "unat (offset mod 512) + unat len \<le> 512" and le: "unat count + unat len \<le> unat nbyte" using l m c by auto
  then show e: "unat (count + len) = unat count + unat len" using unat_less64 [of nbyte] by (simp add: unat_add_eq)
  show "count + len \<le> nbyte" using e le by (simp add: word_le_nat_alt)
  show "unat (offset mod 512) = 0" if "len = 512" using that l m by auto
  show "unat (offset + len) = unat offset + unat len" if "unat offset + (unat nbyte - unat count) < 2 ^ 64"
    using that l by (simp add: unat_add_eq)
qed

locale ata_disk =
  fixes dev :: "'d device" and bus :: u16 and ms :: u8
    and regs :: "'d \<Rightarrow> u16 \<Rightarrow> u8" and phase :: "'d \<Rightarrow> ata_phase" and busy :: "'d \<Rightarrow> nat"
    and disk :: "'d \<Rightarrow> nat \<Rightarrow> u8" and cap :: nat
  assumes cap: "cap \<le> 2 ^ 28" and ms: "ms = ATA_MASTER \<or> ms = ATA_SLAVE"
    and inb_status: "inb dev (ATA_STATUS bus) d = (st, d') \<Longrightarrow>
      regs d' = regs d \<and> phase d' = phase d \<and> disk d' = disk d \<and> busy d' = busy d - 1
      \<and> (st AND ATA_BSY \<noteq> 0 \<longleftrightarrow> 0 < busy d)
      \<and> (busy d = 0 \<longrightarrow> st \<noteq> 0 \<and> st AND (ATA_DF OR ATA_ERR) = 0 \<and> (st AND ATA_DRQ \<noteq> 0 \<longleftrightarrow> phase d \<noteq> Idle))"
    and inb_reg: "i \<in> {1, 2, 3, 4, 5, 6} \<Longrightarrow> inb dev (bus + i) d = (v, d') \<Longrightarrow>
      regs d' = regs d \<and> phase d' = phase d \<and> disk d' = disk d \<and> busy d' = busy d"
    and outb_reg: "i \<in> {2, 3, 4, 5, 6} \<Longrightarrow> busy d = 0 \<Longrightarrow> phase d = Idle \<Longrightarrow> outb dev (bus + i) v d = d' \<Longrightarrow>
      regs d' = (regs d)(i := v) \<and> phase d' = Idle \<and> disk d' = disk d \<and> busy d' = 0"
    and outb_read: "busy d = 0 \<Longrightarrow> phase d = Idle \<Longrightarrow> selects ms (regs d) l \<Longrightarrow> l < cap \<Longrightarrow>
      outb dev (ATA_COMMAND bus) ATA_CMD_READ_SECTORS d = d' \<Longrightarrow>
      phase d' = Reading (bytes_to_words (sector (disk d) l)) \<and> disk d' = disk d"
    and outb_write: "busy d = 0 \<Longrightarrow> phase d = Idle \<Longrightarrow> selects ms (regs d) l \<Longrightarrow> l < cap \<Longrightarrow>
      outb dev (ATA_COMMAND bus) ATA_CMD_WRITE_SECTORS d = d' \<Longrightarrow> phase d' = Writing l [] \<and> disk d' = disk d"
    and inw_data: "busy d = 0 \<Longrightarrow> phase d = Reading (w # ws) \<Longrightarrow> inw dev bus d = (x, d') \<Longrightarrow>
      x = w \<and> phase d' = (if ws = [] then Idle else Reading ws) \<and> disk d' = disk d \<and> busy d' = 0"
    and outw_data: "busy d = 0 \<Longrightarrow> phase d = Writing l ws \<Longrightarrow> outw dev bus x d = d' \<Longrightarrow>
      busy d' = 0 \<and> (if length ws < 255 then phase d' = Writing l (ws @ [x]) \<and> disk d' = disk d
        else phase d' = Idle \<and> disk d' = put_bytes (512 * l) (words_to_bytes (ws @ [x])) (disk d))"
begin

definition same :: "'d \<Rightarrow> 'd \<Rightarrow> bool" where
  "same d d' \<longleftrightarrow> regs d' = regs d \<and> phase d' = phase d \<and> disk d' = disk d"

definition ready :: "'d \<Rightarrow> bool" where
  "ready d \<longleftrightarrow> busy d = 0 \<and> phase d = Idle"

lemma wait_status: "same d (snd (ata_wait_status dev bus d)) \<and> busy (snd (ata_wait_status dev bus d)) = busy d - 5"
proof -
  have "same d (snd (inb dev (ATA_STATUS bus) d)) \<and> busy (snd (inb dev (ATA_STATUS bus) d)) = busy d - 1" for d
    using inb_status [of d "fst (inb dev (ATA_STATUS bus) d)" "snd (inb dev (ATA_STATUS bus) d)"] by (simp add: same_def)
  then show ?thesis by (simp add: ata_wait_status_def Let_def same_def)
qed

lemma poll_bsy:
  "\<exists>st d'. ata_poll_bsy dev bus d = Some (st, d') \<and> same d d' \<and> busy d' = 0
    \<and> st AND (ATA_DF OR ATA_ERR) = 0 \<and> (st AND ATA_DRQ \<noteq> 0 \<longleftrightarrow> phase d \<noteq> Idle)"
proof (induction "busy d" arbitrary: d)
  case 0
  obtain st d' where r: "inb dev (ATA_STATUS bus) d = (st, d')" by fastforce
  with inb_status [OF r] 0 show ?case by (subst ata_poll_bsy.simps) (simp add: same_def)
next
  case (Suc n)
  obtain st d1 where r: "inb dev (ATA_STATUS bus) d = (st, d1)" by fastforce
  note s = inb_status [OF r]
  then have "n = busy d1" "st AND ATA_BSY \<noteq> 0" using Suc(2) by auto
  with Suc(1) [OF this(1)] s r show ?case by (subst ata_poll_bsy.simps) (auto simp: same_def)
qed

lemma block_selects:
  assumes "unat lba < cap" "r = (\<lambda>i. if i = 2 then 1 else if i = 3 then lba_sep (lba AND 0xFFFFFF) 0
     else if i = 4 then lba_sep (lba AND 0xFFFFFF) 1 else if i = 5 then lba_sep (lba AND 0xFFFFFF) 2
     else if i = 6 then (0xE0 OR ms OR ucast (drop_bit 24 lba AND 0xF)) OR (lba_sep (lba AND 0xFFFFFF) 3 AND 0xF) else r0 i)"
  shows "selects ms r (unat lba)"
proof -
  let ?x = "ucast (drop_bit 24 lba) :: u8"
  have small: "unat lba < 268435456" using assms(1) cap by simp
  have x: "ucast (drop_bit 24 lba AND 0xF) = ?x AND 0xF" by (rule bit_word_eqI) (auto simp: bit_simps)
  have "unat (lba_sep (lba AND 0xFFFFFF) 3) = 0" by (simp add: unat_lba_sep unat_low24)
  then have z: "lba_sep (lba AND 0xFFFFFF) 3 = 0" by (simp only: unat_eq_0)
  have "unat (?x AND 0xF) = unat lba div 2 ^ 24 mod 256 mod 16"
  proof -
    have "?x AND 0xF = take_bit 4 ?x" by (simp add: take_bit_eq_mask mask_eq_exp_minus_1)
    then show ?thesis by (simp only: unsigned_take_bit_eq unsigned_ucast_eq unat_drop_bit_eq) (simp add: take_bit_eq_mod drop_bit_eq_div)
  qed
  then have "unat (?x AND 0xF) = unat lba div 16777216 mod 16" by (simp add: mod_mod_cancel)
  then have "unat lba = unat (lba_sep (lba AND 0xFFFFFF) 0) + 256 * unat (lba_sep (lba AND 0xFFFFFF) 1)
      + 65536 * unat (lba_sep (lba AND 0xFFFFFF) 2) + 16777216 * unat (?x AND 0xF)"
    using lba_digits [of "unat lba"] small by (simp only: lba_seps)
  then show ?thesis
    using device_register [OF ms, of ?x] unfolding selects_def assms(2) z x by simp
qed

lemma send_block:
  assumes d: "ready d" and l: "unat lba < cap" and dr: "drive_bus drive = bus" "drive_ms drive = ms"
    and c: "c = ATA_CMD_READ_SECTORS \<or> c = ATA_CMD_WRITE_SECTORS"
  shows "\<exists>st cmd d'. ata_send_command dev (block_cmd drive lba c) d = Inr (st, cmd, d') \<and> busy d' = 0 \<and> disk d' = disk d
    \<and> phase d' = (if c = ATA_CMD_READ_SECTORS then Reading (bytes_to_words (sector (disk d) (unat lba))) else Writing (unat lba) [])
    \<and> st AND (ATA_DF OR ATA_ERR) = 0 \<and> st AND ATA_DRQ \<noteq> 0"
proof -
  let ?m = "lba AND 0xFFFFFF" and ?dv = "(0xE0 OR ms OR ucast (drop_bit 24 lba AND 0xF)) OR (lba_sep (lba AND 0xFFFFFF) 3 AND 0xF)"
  have d0: "busy d = 0" "phase d = Idle" using d by (simp_all add: ready_def)
  define d1 where "d1 = outb dev (ATA_DEVICE bus) ?dv d"
  have s1: "regs d1 = (regs d)(6 := ?dv) \<and> phase d1 = Idle \<and> disk d1 = disk d \<and> busy d1 = 0"
    using outb_reg [of 6 d ?dv d1] d0 by (simp add: d1_def)
  define d2 where "d2 = snd (ata_wait_status dev bus d1)"
  have s2: "regs d2 = regs d1" "phase d2 = Idle" "disk d2 = disk d" "busy d2 = 0"
    using wait_status [of d1] s1 by (simp_all add: d2_def same_def)
  define d3 where "d3 = outb dev (ATA_COUNT bus) 1 d2"
  have s3: "regs d3 = (regs d2)(2 := 1) \<and> phase d3 = Idle \<and> disk d3 = disk d2 \<and> busy d3 = 0"
    using outb_reg [of 2 d2 1 d3] s2 by (simp add: d3_def)
  define d4 where "d4 = outb dev (ATA_LBAL bus) (lba_sep ?m 0) d3"
  have s4: "regs d4 = (regs d3)(3 := lba_sep ?m 0) \<and> phase d4 = Idle \<and> disk d4 = disk d3 \<and> busy d4 = 0"
    using outb_reg [of 3 d3 "lba_sep ?m 0" d4] s3 by (simp add: d4_def)
  define d5 where "d5 = outb dev (ATA_LBAM bus) (lba_sep ?m 1) d4"
  have s5: "regs d5 = (regs d4)(4 := lba_sep ?m 1) \<and> phase d5 = Idle \<and> disk d5 = disk d4 \<and> busy d5 = 0"
    using outb_reg [of 4 d4 "lba_sep ?m 1" d5] s4 by (simp add: d5_def)
  define d6 where "d6 = outb dev (ATA_LBAH bus) (lba_sep ?m 2) d5"
  have s6: "regs d6 = (regs d5)(5 := lba_sep ?m 2) \<and> phase d6 = Idle \<and> disk d6 = disk d5 \<and> busy d6 = 0"
    using outb_reg [of 5 d5 "lba_sep ?m 2" d6] s5 by (simp add: d6_def)
  obtain st7 d7 where p7: "ata_poll_bsy dev bus d6 = Some (st7, d7)" "same d6 d7" "busy d7 = 0" using poll_bsy by blast
  have sel: "selects ms (regs d7) (unat lba)"
    by (rule block_selects [OF l, of _ "regs d"]) (use p7(2) s6 s5 s4 s3 s2 s1 in \<open>auto simp: same_def\<close>)
  define d8 where "d8 = outb dev (ATA_COMMAND bus) c d7"
  define ph where "ph = (if c = ATA_CMD_READ_SECTORS then Reading (bytes_to_words (sector (disk d) (unat lba))) else Writing (unat lba) [])"
  have ph7: "phase d7 = Idle" "disk d7 = disk d" using p7(2) s6 s5 s4 s3 s2 by (simp_all add: same_def)
  have s8: "phase d8 = ph \<and> disk d8 = disk d"
    using c outb_read [OF p7(3) ph7(1) sel l, of d8] outb_write [OF p7(3) ph7(1) sel l, of d8] ph7(2) by (auto simp: d8_def ph_def)
  obtain st9 d9 where i9: "inb dev (ATA_STATUS bus) d8 = (st9, d9)" by fastforce
  have s9: "st9 \<noteq> 0" "phase d9 = ph" "disk d9 = disk d" using inb_status [OF i9] s8 by auto
  have ne: "ph \<noteq> Idle" by (simp add: ph_def)
  define d10 where "d10 = snd (ata_wait_status dev bus d9)"
  have s10: "phase d10 = ph" "disk d10 = disk d" using wait_status [of d9] s9 by (simp_all add: d10_def same_def)
  obtain st d11 where p11: "ata_poll_bsy dev bus d10 = Some (st, d11)" "same d10 d11" "busy d11 = 0"
      "st AND (ATA_DF OR ATA_ERR) = 0" "st AND ATA_DRQ \<noteq> 0 \<longleftrightarrow> phase d10 \<noteq> Idle"
    using poll_bsy [of d10] by blast
  have drq: "st AND ATA_DRQ \<noteq> 0" using p11(5) s10(1) ne by simp
  have keep: "phase (snd (inb dev (bus + i) e)) = phase e \<and> disk (snd (inb dev (bus + i) e)) = disk e \<and> busy (snd (inb dev (bus + i) e)) = busy e"
    if "i \<in> {1, 2, 3, 4, 5, 6}" for i e
    using inb_reg [OF that, of e "fst (inb dev (bus + i) e)" "snd (inb dev (bus + i) e)"] by simp
  have "\<exists>cmd d'. ata_send_command dev (block_cmd drive lba c) d = Inr (st, cmd, d')
      \<and> busy d' = 0 \<and> disk d' = disk d \<and> phase d' = ph"
    using p7(1) i9 s9(1) p11(1-3) s10 dr
    by (simp add: ata_send_command_def block_cmd_def Let_def split_def keep same_def del: One_nat_def
        flip: d1_def d2_def d3_def d4_def d5_def d6_def d8_def d10_def)
  with p11(4) drq show ?thesis unfolding ph_def by blast
qed

lemma inw_all:
  "busy d = 0 \<Longrightarrow> phase d = Reading ws \<Longrightarrow> ws \<noteq> [] \<Longrightarrow>
   \<exists>d'. ata_inw dev bus (length ws) d = (ws, d') \<and> ready d' \<and> disk d' = disk d"
proof (induction ws arbitrary: d)
  case (Cons w ws)
  obtain x d1 where r: "inw dev bus d = (x, d1)" by fastforce
  note s = inw_data [OF Cons.prems(1,2) r]
  show ?case
  proof (cases "ws = []")
    case True
    with s r show ?thesis by (simp add: ready_def)
  next
    case False
    with s have "\<exists>d'. ata_inw dev bus (length ws) d1 = (ws, d') \<and> ready d' \<and> disk d' = disk d1" by (intro Cons.IH) auto
    with s r show ?thesis by auto
  qed
qed simp

lemma outw_all:
  "busy d = 0 \<Longrightarrow> phase d = Writing l ws \<Longrightarrow> vs \<noteq> [] \<Longrightarrow> length ws + length vs = 256 \<Longrightarrow>
   ready (ata_outw dev bus vs d) \<and> disk (ata_outw dev bus vs d) = put_bytes (512 * l) (words_to_bytes (ws @ vs)) (disk d)"
proof (induction vs arbitrary: d ws)
  case (Cons v vs)
  note s = outw_data [OF Cons.prems(1,2) refl, of v]
  show ?case
  proof (cases "vs = []")
    case True
    with s Cons.prems(4) show ?thesis by (simp add: ready_def)
  next
    case False
    then have "length ws < 255" using Cons.prems(4) by (cases vs) auto
    with s False Cons.prems(4) Cons.IH [of "outw dev bus v d" "ws @ [v]"] show ?thesis by simp
  qed
qed simp

lemma tries: "ata_read_tries e 5 drive lba buf d =
     bindR (ata_send_command e (block_cmd drive lba ATA_CMD_READ_SECTORS) d) (\<lambda>(st, _, d).
     if st AND (ATA_DF OR ATA_ERR) \<noteq> 0 \<or> st AND ATA_DRQ = 0 then ata_read_tries e 4 drive lba buf d
     else let (ws, d) = ata_inw e (drive_bus drive) 256 d in Inr (0, words_to_bytes ws, d))"
  using ata_read_tries.simps(2) [of e 4] by simp

lemma read_block:
  assumes "ready d" "unat lba < cap" "drive_bus drive = bus" "drive_ms drive = ms"
  shows "\<exists>d'. (\<forall>buf. ata_read_block dev drive lba buf d = Inr (0, sector (disk d) (unat lba), d')) \<and> ready d' \<and> disk d' = disk d"
proof -
  let ?ws = "bytes_to_words (sector (disk d) (unat lba))"
  obtain st cmd d1 where s: "ata_send_command dev (block_cmd drive lba ATA_CMD_READ_SECTORS) d = Inr (st, cmd, d1)" "busy d1 = 0"
      "disk d1 = disk d" "phase d1 = Reading ?ws" "st AND (ATA_DF OR ATA_ERR) = 0" "st AND ATA_DRQ \<noteq> 0"
    using send_block [OF assms, of ATA_CMD_READ_SECTORS] by auto
  have len: "length ?ws = 256" by (simp add: length_bytes_to_words)
  obtain d2 where "ata_inw dev bus 256 d1 = (?ws, d2)" "ready d2" "disk d2 = disk d1"
    using inw_all [OF s(2,4)] len by (metis length_0_conv zero_neq_numeral)
  moreover have "words_to_bytes ?ws = sector (disk d) (unat lba)" by (rule words_bytes) simp
  ultimately show ?thesis
    using s assms(3) tries [of dev drive lba _ d] by (simp add: ata_read_block_def)
qed

lemma write_block:
  assumes "ready d" "unat lba < cap" "drive_bus drive = bus" "drive_ms drive = ms" "length buf = 512"
  shows "\<exists>d'. ata_write_block dev drive lba buf d = Inr (0, d') \<and> ready d' \<and> disk d' = put_bytes (512 * unat lba) buf (disk d)"
proof -
  obtain st cmd d1 where s: "ata_send_command dev (block_cmd drive lba ATA_CMD_WRITE_SECTORS) d = Inr (st, cmd, d1)" "busy d1 = 0"
      "disk d1 = disk d" "phase d1 = Writing (unat lba) []"
    using send_block [OF assms(1-4), of ATA_CMD_WRITE_SECTORS] by auto
  have "length (bytes_to_words buf) = 256" using assms(5) by (simp add: length_bytes_to_words)
  then have "ready (ata_outw dev bus (bytes_to_words buf) d1)
      \<and> disk (ata_outw dev bus (bytes_to_words buf) d1) = put_bytes (512 * unat lba) (words_to_bytes ([] @ bytes_to_words buf)) (disk d1)"
    by (intro outw_all [OF s(2,4)]) auto
  moreover have "words_to_bytes (bytes_to_words buf) = buf" using assms(5) by (intro words_bytes) simp
  ultimately show ?thesis using s assms(3,5) by (simp add: ata_write_block_def)
qed

lemma read_loop:
  assumes "ready d" "drive_bus drive = bus" "drive_ms drive = ms" "count \<le> nbyte" "unat nbyte \<le> length out" "length blk = 512"
    "unat offset + (unat nbyte - unat count) \<le> 512 * cap"
  shows "\<exists>d'. ata_read_loop dev drive nbyte count offset blk out d = Inr (nbyte,
      take (unat count) out @ map (disk d) [unat offset..<unat offset + (unat nbyte - unat count)] @ drop (unat nbyte) out, d')
    \<and> ready d' \<and> disk d' = disk d"
  using assms
proof (induction "unat nbyte - unat count" arbitrary: count offset blk out d rule: less_induct)
  case less
  show ?case
  proof (cases "count < nbyte")
    case False
    then have "count = nbyte" using less.prems(4) by simp
    then show ?thesis using less.prems(1) by (subst ata_read_loop.simps) simp
  next
    case True
    define len where "len = ata_len nbyte count (offset mod 512)"
    note r = ata_round [OF True, of offset, folded len_def]
    have off: "512 * unat (offset div 512) + unat (offset mod 512) = unat offset" by (simp add: unat_div unat_mod)
    have lt: "unat (offset div 512) < cap"
      using less.prems(7) True off by (simp add: word_less_nat_alt unat_div less_mult_imp_div_less mult.commute)
    obtain d1 where d1: "\<And>buf. ata_read_block dev drive (offset div 512) buf d = Inr (0, sector (disk d) (unat (offset div 512)), d1)"
        "ready d1" "disk d1 = disk d"
      using read_block [OF less.prems(1) lt less.prems(2,3)] by blast
    let ?S = "sector (disk d) (unat (offset div 512))" and ?L = "unat len" and ?c = "unat count"
    let ?xs = "map (disk d) [unat offset..<unat offset + ?L]"
    have xs: "take ?L (drop (unat (offset mod 512)) ?S) = ?xs" using sector_slice [OF r(2)] off by simp
    define out1 where "out1 = take ?c out @ ?xs @ drop (?c + ?L) out"
    have "\<exists>blk1. length blk1 = 512 \<and>
      ata_read_loop dev drive nbyte count offset blk out d = ata_read_loop dev drive nbyte (count + len) (offset + len) blk1 out1 d1"
    proof (cases "len = 512")
      case True
      then have "copy_out out count 512 = Inr (take 512 (drop ?c out))" "copy_in out count ?S 0 512 = Inr out1"
        using r(3,6) less.prems(5) xs by (simp_all add: copy_out_def copy_in_def out1_def)
      with d1(1) \<open>count < nbyte\<close> True less.prems(6) show ?thesis
        by (intro exI [of _ blk], subst ata_read_loop.simps) (simp add: Let_def flip: len_def)
    next
      case False
      then have "copy_in out count ?S (offset mod 512) len = Inr out1"
        using r(2,3) less.prems(5) xs by (simp add: copy_in_def out1_def)
      with d1(1) \<open>count < nbyte\<close> False show ?thesis
        by (intro exI [of _ ?S], subst ata_read_loop.simps) (simp add: Let_def flip: len_def)
    qed
    then obtain blk1 where b: "length blk1 = 512"
      "ata_read_loop dev drive nbyte count offset blk out d = ata_read_loop dev drive nbyte (count + len) (offset + len) blk1 out1 d1" by blast
    have o: "unat (offset + len) = unat offset + ?L" using r(7) less.prems(7) cap by simp
    have lo: "length out1 = length out" using r(3) less.prems(5) by (simp add: out1_def)
    have "\<exists>d'. ata_read_loop dev drive nbyte (count + len) (offset + len) blk1 out1 d1 = Inr (nbyte,
        take (unat (count + len)) out1 @ map (disk d1) [unat (offset + len)..<unat (offset + len) + (unat nbyte - unat (count + len))]
          @ drop (unat nbyte) out1, d') \<and> ready d' \<and> disk d' = disk d1"
      using r o lo less.prems b(1) d1(2) by (intro less.hyps) (auto simp: word_less_nat_alt)
    moreover have "take (unat (count + len)) out1 = take ?c out @ ?xs" "drop (unat nbyte) out1 = drop (unat nbyte) out"
      using r(3,4) less.prems(5) by (simp_all add: out1_def)
    moreover have "?xs @ map (disk d) [unat offset + ?L..<unat offset + ?L + (unat nbyte - (?c + ?L))] = map (disk d) [unat offset..<unat offset + (unat nbyte - ?c)]"
      using r(3) map_upt_split [of "disk d" "unat offset" ?L "unat nbyte - (?c + ?L)"] by simp
    ultimately show ?thesis using b(2) o r(4) d1(3) by (metis append.assoc)
  qed
qed

lemma write_loop:
  assumes "ready d" "drive_bus drive = bus" "drive_ms drive = ms" "count \<le> nbyte" "unat nbyte \<le> length inp" "length blk = 512"
    "unat offset + (unat nbyte - unat count) \<le> 512 * cap"
  shows "\<exists>d'. ata_write_loop dev drive nbyte count offset blk inp d = Inr (nbyte, d') \<and> ready d'
    \<and> disk d' = put_bytes (unat offset) (take (unat nbyte - unat count) (drop (unat count) inp)) (disk d)"
  using assms
proof (induction "unat nbyte - unat count" arbitrary: count offset blk d rule: less_induct)
  case less
  show ?case
  proof (cases "count < nbyte")
    case False
    then have "count = nbyte" using less.prems(4) by simp
    then show ?thesis using less.prems(1) by (subst ata_write_loop.simps) simp
  next
    case True
    define len where "len = ata_len nbyte count (offset mod 512)"
    note r = ata_round [OF True, of offset, folded len_def]
    have off: "512 * unat (offset div 512) + unat (offset mod 512) = unat offset" by (simp add: unat_div unat_mod)
    have lt: "unat (offset div 512) < cap"
      using less.prems(7) True off by (simp add: word_less_nat_alt unat_div less_mult_imp_div_less mult.commute)
    let ?S = "sector (disk d) (unat (offset div 512))" and ?L = "unat len" and ?c = "unat count"
    let ?xs = "take ?L (drop ?c inp)"
    have lx: "length ?xs = ?L" using r(3) less.prems(5) by simp
    have "\<exists>blk1 d1. length blk1 = 512 \<and> ready d1 \<and> disk d1 = put_bytes (unat offset) ?xs (disk d) \<and>
      ata_write_loop dev drive nbyte count offset blk inp d = ata_write_loop dev drive nbyte (count + len) (offset + len) blk1 inp d1"
    proof (cases "len = 512")
      case len: True
      obtain d1 where d1: "ata_write_block dev drive (offset div 512) ?xs d = Inr (0, d1)" "ready d1"
          "disk d1 = put_bytes (512 * unat (offset div 512)) ?xs (disk d)"
        using write_block [OF less.prems(1) lt less.prems(2,3), of ?xs] lx len by auto
      have "copy_out inp count 512 = Inr ?xs"
        using len r(3) less.prems(5) by (simp add: copy_out_def)
      with d1 True len less.prems(6) r(6) off show ?thesis
        by (intro exI [of _ blk] exI [of _ d1], subst ata_write_loop.simps) (simp add: Let_def flip: len_def)
    next
      case len: False
      obtain d0 where d0: "\<And>buf. ata_read_block dev drive (offset div 512) buf d = Inr (0, ?S, d0)" "ready d0" "disk d0 = disk d"
        using read_block [OF less.prems(1) lt less.prems(2,3)] by blast
      define blk1 where "blk1 = take (unat (offset mod 512)) ?S @ ?xs @ drop (unat (offset mod 512) + ?L) ?S"
      have c: "copy_in ?S (offset mod 512) inp count len = Inr blk1"
        using r(2,3) less.prems(5) by (simp add: copy_in_def blk1_def)
      have l1: "length blk1 = 512" using r(2) lx by (simp add: blk1_def)
      obtain d1 where d1: "ata_write_block dev drive (offset div 512) blk1 d0 = Inr (0, d1)" "ready d1"
          "disk d1 = put_bytes (512 * unat (offset div 512)) blk1 (disk d)"
        using write_block [OF d0(2) lt less.prems(2,3) l1] d0(3) by auto
      have "disk d1 = put_bytes (unat offset) ?xs (disk d)"
        using d1(3) put_sector_slice [of "unat (offset mod 512)" ?xs "unat (offset div 512)" "disk d"] r(2) lx off by (simp add: blk1_def)
      with d0(1) d1 c l1 True len show ?thesis
        by (intro exI [of _ blk1] exI [of _ d1], subst ata_write_loop.simps) (simp add: Let_def flip: len_def)
    qed
    then obtain blk1 d1 where b: "length blk1 = 512" "ready d1" "disk d1 = put_bytes (unat offset) ?xs (disk d)"
      "ata_write_loop dev drive nbyte count offset blk inp d = ata_write_loop dev drive nbyte (count + len) (offset + len) blk1 inp d1" by blast
    have o: "unat (offset + len) = unat offset + ?L" using r(7) less.prems(7) cap by simp
    have "\<exists>d'. ata_write_loop dev drive nbyte (count + len) (offset + len) blk1 inp d1 = Inr (nbyte, d') \<and> ready d'
        \<and> disk d' = put_bytes (unat (offset + len)) (take (unat nbyte - unat (count + len)) (drop (unat (count + len)) inp)) (disk d1)"
      using r o less.prems b(1,2) by (intro less.hyps) (auto simp: word_less_nat_alt)
    moreover have "?xs @ take (unat nbyte - (?c + ?L)) (drop (?c + ?L) inp) = take (unat nbyte - ?c) (drop ?c inp)"
      using r(3) take_add [of ?L "unat nbyte - (?c + ?L)" "drop ?c inp"] by (simp add: add.commute)
    ultimately show ?thesis
      using b(3,4) o r(4) lx put_bytes_append [of "unat offset" ?xs _ "disk d"] by auto
  qed
qed

end

section \<open>A simulated disk\<close>

text \<open>
  A drive on the primary bus that has the behaviour asked for, with the largest capacity that 28
  bits address; it stays busy for three status reads after a command.
\<close>

record sim_disk =
  sim_regs :: "u16 \<Rightarrow> u8"
  sim_phase :: ata_phase
  sim_busy :: nat
  sim_data :: "nat \<Rightarrow> u8"

definition sim_lba :: "(u16 \<Rightarrow> u8) \<Rightarrow> nat" where
  "sim_lba r = unat (r 3) + 256 * unat (r 4) + 65536 * unat (r 5) + 16777216 * unat (r 6 AND 0xF)"

definition sim_device :: "sim_disk device" where
  "sim_device = \<lparr>
     inb = (\<lambda>p d. if p = 0x1F7 then (if 0 < sim_busy d then 0x80 else if sim_phase d = Idle then 0x40 else 0x48, d\<lparr>sim_busy := sim_busy d - 1\<rparr>)
                  else (sim_regs d (p - 0x1F0), d)),
     outb = (\<lambda>p v d. if p \<noteq> 0x1F7 then d\<lparr>sim_regs := (sim_regs d)(p - 0x1F0 := v)\<rparr>
                     else if v = 0x20 then d\<lparr>sim_phase := Reading (bytes_to_words (sector (sim_data d) (sim_lba (sim_regs d)))), sim_busy := 3\<rparr>
                     else if v = 0x30 then d\<lparr>sim_phase := Writing (sim_lba (sim_regs d)) [], sim_busy := 3\<rparr> else d),
     inw = (\<lambda>p d. case sim_phase d of Reading (w # ws) \<Rightarrow> (w, d\<lparr>sim_phase := (if ws = [] then Idle else Reading ws)\<rparr>) | _ \<Rightarrow> (0, d)),
     outw = (\<lambda>p w d. case sim_phase d of
               Writing l ws \<Rightarrow>
                 if length ws < 255 then d\<lparr>sim_phase := Writing l (ws @ [w])\<rparr>
                 else d\<lparr>sim_phase := Idle, sim_data := put_bytes (512 * l) (words_to_bytes (ws @ [w])) (sim_data d)\<rparr>
             | _ \<Rightarrow> d)\<rparr>"

interpretation sim: ata_disk sim_device ATA_PRIMARY ATA_MASTER sim_regs sim_phase sim_busy sim_data "2 ^ 28"
  by unfold_locales (auto simp: sim_device_def selects_def sim_lba_def split: if_splits)

section \<open>Properties\<close>

lemma ata_read_buffer:
  assumes "ata_disk dev bus ms regs phase busy disk cap" and "busy d = 0" and "phase d = Idle"
    and "drive_exists drv" and "drive_bus drv = bus" and "drive_ms drv = ms" and "length blk = 512"
    and "unat nbyte \<le> length buf" and "unat offset + unat nbyte \<le> 512 * cap"
  shows "\<exists>d'. ata_read dev blk drv buf nbyte offset d
      = Inr (nbyte, map (disk d) [unat offset..<unat offset + unat nbyte] @ drop (unat nbyte) buf, d')
    \<and> busy d' = 0 \<and> phase d' = Idle \<and> disk d' = disk d"
proof -
  have "ata_disk.ready phase busy d" using assms(1-3) by (simp add: ata_disk.ready_def)
  from ata_disk.read_loop [OF assms(1) this assms(5,6), of 0 nbyte buf blk offset] assms show ?thesis
    by (auto simp: ata_read_def ata_disk.ready_def)
qed

lemma ata_write_buffer:
  assumes "ata_disk dev bus ms regs phase busy disk cap" and "busy d = 0" and "phase d = Idle"
    and "drive_exists drv" and "drive_bus drv = bus" and "drive_ms drv = ms" and "length blk = 512"
    and "unat nbyte \<le> length inp" and "unat offset + unat nbyte \<le> 512 * cap"
  shows "\<exists>d'. ata_write dev blk drv inp nbyte offset d = Inr (nbyte, d') \<and> busy d' = 0 \<and> phase d' = Idle
    \<and> disk d' = put_bytes (unat offset) (take (unat nbyte) inp) (disk d)"
proof -
  have rd: "ata_disk.ready phase busy d" using assms(1-3) by (simp add: ata_disk.ready_def)
  from ata_disk.write_loop [OF assms(1) this assms(5,6), of 0 nbyte inp blk offset] assms show ?thesis
    by (auto simp: ata_write_def ata_disk.ready_def)
qed

text \<open>
  Reading a disk: whatever the offset and the length are, \<^verbatim>\<open>ata_read\<close> fills the buffer with
  exactly the bytes of the disk from the offset on, leaves the rest of the buffer and the disk
  alone, and returns the length.
\<close>

theorem ata_read_reads:
  assumes "ata_disk dev bus ms regs phase busy disk cap" and "busy d = 0" and "phase d = Idle"
    and "drive_exists drv" and "drive_bus drv = bus" and "drive_ms drv = ms" and "length blk = 512"
    and "unat nbyte \<le> length buf" and "unat offset + unat nbyte \<le> 512 * cap"
  shows "\<exists>d'. ata_read dev blk drv buf nbyte offset d
      = Inr (nbyte, map (disk d) [unat offset..<unat offset + unat nbyte] @ drop (unat nbyte) buf, d')
    \<and> busy d' = 0 \<and> phase d' = Idle \<and> disk d' = disk d"
  by (rule ata_read_buffer [OF assms])

definition sim_start :: sim_disk where
  "sim_start = \<lparr>sim_regs = (\<lambda>_. 0), sim_phase = Idle, sim_busy = 0, sim_data = (\<lambda>i. of_nat i)\<rparr>"

definition sim_drive :: ata_drive where
  "sim_drive = \<lparr>drive_exists = True, drive_bus = ATA_PRIMARY, drive_ms = ATA_MASTER, drive_atapi = False, drive_id = []\<rparr>"

theorem ata_read_reads_witness:
  "\<exists>d'. ata_read sim_device (replicate 512 0) sim_drive [9, 9, 9, 9] 3 511 sim_start = Inr (3, [255, 0, 1, 9], d')"
proof -
  have "\<exists>d'. ata_read sim_device (replicate 512 0) sim_drive [9, 9, 9, 9] 3 511 sim_start
      = Inr (3, map (sim_data sim_start) [unat (511 :: u64)..<unat (511 :: u64) + unat (3 :: u64)] @ drop (unat (3 :: u64)) [9, 9, 9, 9], d')
    \<and> sim_busy d' = 0 \<and> sim_phase d' = Idle \<and> sim_data d' = sim_data sim_start"
    by (rule ata_read_reads [OF sim.ata_disk_axioms]) (simp_all add: sim_start_def sim_drive_def)
  then show ?thesis by (auto simp: sim_start_def upt_rec)
qed



lemma read_loop_failing:
  assumes blk: "length blk = 512" and fail: "\<And>lba b d. \<exists>d'. ata_read_block dev drv lba b d = Inr (-1, b, d')"
    and "count \<le> nbyte" and "unat nbyte \<le> length buf"
  shows "\<exists>out d'. ata_read_loop dev drv nbyte count offset blk buf d = Inr (nbyte, out, d')"
  using assms(3,4)
proof (induction "unat nbyte - unat count" arbitrary: count offset buf d rule: less_induct)
  case less
  show ?case
  proof (cases "count < nbyte")
    case False
    then have "count = nbyte" using less.prems(1) by simp
    then show ?thesis by (subst ata_read_loop.simps) simp
  next
    case True
    define len where "len = ata_len nbyte count (offset mod 512)"
    note r = ata_round [OF True, of offset, folded len_def]
    have "\<exists>b1 d1. ata_read_loop dev drv nbyte count offset blk buf d = ata_read_loop dev drv nbyte (count + len) (offset + len) blk b1 d1
        \<and> length b1 = length buf"
    proof (cases "len = 512")
      case len: True
      obtain d1 where "ata_read_block dev drv (offset div 512) (take 512 (drop (unat count) buf)) d = Inr (-1, take 512 (drop (unat count) buf), d1)"
        using fail by blast
      moreover have "copy_out buf count 512 = Inr (take 512 (drop (unat count) buf))"
          "copy_in buf count (take 512 (drop (unat count) buf)) 0 512 = Inr (take (unat count) buf @ take 512 (drop (unat count) buf) @ drop (unat count + 512) buf)"
        using len r(3) less.prems(2) by (simp_all add: copy_out_def copy_in_def)
      ultimately show ?thesis using True len r(3) less.prems(2)
        by (intro exI [of _ "take (unat count) buf @ take 512 (drop (unat count) buf) @ drop (unat count + 512) buf"] exI [of _ d1], subst ata_read_loop.simps)
          (simp add: Let_def flip: len_def)
    next
      case len: False
      obtain d1 where "ata_read_block dev drv (offset div 512) blk d = Inr (-1, blk, d1)" using fail by blast
      moreover have "copy_in buf count blk (offset mod 512) len
          = Inr (take (unat count) buf @ take (unat len) (drop (unat (offset mod 512)) blk) @ drop (unat count + unat len) buf)"
        using r(2,3) less.prems(2) blk by (simp add: copy_in_def)
      ultimately show ?thesis using True len r(2,3) less.prems(2) blk
        by (intro exI [of _ "take (unat count) buf @ take (unat len) (drop (unat (offset mod 512)) blk) @ drop (unat count + unat len) buf"] exI [of _ d1],
            subst ata_read_loop.simps) (simp add: Let_def flip: len_def)
    qed
    then obtain b1 d1 where "ata_read_loop dev drv nbyte count offset blk buf d = ata_read_loop dev drv nbyte (count + len) (offset + len) blk b1 d1"
        "length b1 = length buf" by blast
    then show ?thesis using less.hyps [of "count + len" b1 "offset + len" d1] r less.prems True by (auto simp: word_less_nat_alt)
  qed
qed

text \<open>
  \<^verbatim>\<open>ata_read\<close> hides failures of the disk: when every block read fails, it still returns the
  full length, with bytes in the buffer that no disk has delivered.
\<close>

theorem ata_read_ignores_errors:
  assumes "drive_exists drv" and "length blk = 512" and "unat nbyte \<le> length buf"
    and "\<And>lba b d. \<exists>d'. ata_read_block dev drv lba b d = Inr (-1, b, d')"
  shows "\<exists>out d'. ata_read dev blk drv buf nbyte offset d = Inr (nbyte, out, d')"
  using read_loop_failing [OF assms(2,4), of 0 nbyte buf offset d] assms(1,3) by (simp add: ata_read_def)

definition failing_device :: "unit device" where
  "failing_device = \<lparr>inb = (\<lambda>_ d. (0x41, d)), outb = (\<lambda>_ _ d. d), inw = (\<lambda>_ d. (0, d)), outw = (\<lambda>_ _ d. d)\<rparr>"

theorem ata_read_ignores_errors_witness:
  "ata_read_block failing_device sim_drive 0 [1] () = Inr (-1, [1], ())
   \<and> (\<exists>out d'. ata_read failing_device (replicate 512 0) sim_drive [5, 5] 2 0 () = Inr (2, out, d'))"
proof -
  have poll: "ata_poll_bsy failing_device p d = Some (0x41, d)" for p d
    by (subst ata_poll_bsy.simps) (simp add: failing_device_def)
  have send: "\<exists>cmd. ata_send_command failing_device (block_cmd sim_drive lba c) () = Inr (0x41, cmd, ())" for lba c
    by (simp add: ata_send_command_def block_cmd_def Let_def poll) (simp add: failing_device_def Let_def)
  have "ata_read_tries failing_device n sim_drive lba b () = Inr (-1, b, ())" for n lba b
  proof (induction n)
    case (Suc n)
    obtain cmd where "ata_send_command failing_device (block_cmd sim_drive lba 0x20) () = Inr (0x41, cmd, ())" using send by blast
    with Suc show ?case by simp
  qed simp
  then have fail: "ata_read_block failing_device sim_drive lba b () = Inr (-1, b, ())" for lba b by (simp add: ata_read_block_def)
  then show ?thesis using ata_read_ignores_errors [of sim_drive "replicate 512 0" 2 "[5, 5]" failing_device 0 "()"]
    by (simp add: sim_drive_def)
qed

end
