(* ===== verification/Devfs.thy ===== *)
theory Devfs
  imports Ata Syscall
begin

text \<open>
  The device files: \<^verbatim>\<open>kernel/fs/ata_fs.c\<close> and \<^verbatim>\<open>kernel/fs/debug_fs.c\<close>, and the table of all
  drivers of the kernel. The state is that of the kernel with the console and the drives; the hardware
  is the one of the console. \<open>base\<close> is the address of the array \<^verbatim>\<open>drives\<close>, and \<open>junk\<close> are the bytes
  that an uninitialised buffer holds.
\<close>

section \<open>State\<close>

record 'd machine = kernel +
  con :: "'d console"
  drives :: "ata_drive list"

text \<open>\<^verbatim>\<open>&drives[i]\<close>, with 528 bytes for an \<^verbatim>\<open>ata_drive\<close>, and the drive behind such a pointer.\<close>

definition drive_ptr :: "addr \<Rightarrow> nat \<Rightarrow> addr" where
  "drive_ptr base i = base + 528 * of_nat i"

definition drive_at :: "addr \<Rightarrow> addr \<Rightarrow> ata_drive list \<Rightarrow> ata_drive res" where
  "drive_at base p ds = (case find (\<lambda>i. drive_ptr base i = p) [0..<length ds] of Some i \<Rightarrow> Inr (ds ! i) | None \<Rightarrow> Inl UseAfterFree)"

section \<open>ata_fs.c\<close>

definition ata_read_file :: "'d device \<Rightarrow> addr \<Rightarrow> (nat \<Rightarrow> u8) \<Rightarrow> addr \<Rightarrow> u64 \<Rightarrow> u64 \<Rightarrow> ('d, 'z) machine_scheme
    \<Rightarrow> (u8 list \<times> u64 \<times> ('d, 'z) machine_scheme) atomic res" where
  "ata_read_file dev base junk file nbyte offset s =
     bindR (obj (files s) file) (\<lambda>f.
     bindR (drive_at base (fdata f) (drives s)) (\<lambda>drv.
     bindR (ata_read dev (map junk [0..<512]) drv (map junk [0..<unat nbyte]) nbyte offset (hw (con s))) (\<lambda>(count, out, d).
       Inr (Returned (take (unat count) out, count, s\<lparr>con := (con s)\<lparr>hw := d\<rparr>\<rparr>)))))"

definition ata_write_file :: "'d device \<Rightarrow> addr \<Rightarrow> (nat \<Rightarrow> u8) \<Rightarrow> addr \<Rightarrow> u8 list \<Rightarrow> u64 \<Rightarrow> u64 \<Rightarrow> ('d, 'z) machine_scheme
    \<Rightarrow> (u64 \<times> u64 \<times> ('d, 'z) machine_scheme) atomic res" where
  "ata_write_file dev base junk file buffer nbyte offset s =
     bindR (obj (files s) file) (\<lambda>f.
     bindR (drive_at base (fdata f) (drives s)) (\<lambda>drv.
     bindR (ata_write dev (map junk [0..<512]) drv buffer nbyte offset (hw (con s))) (\<lambda>(count, d).
       Inr (Returned (0, count, s\<lparr>con := (con s)\<lparr>hw := d\<rparr>\<rparr>)))))"

definition ata_fs :: "'d device \<Rightarrow> addr \<Rightarrow> (nat \<Rightarrow> u8) \<Rightarrow> ('d, 'z) machine_scheme fs_driver" where
  "ata_fs dev base junk = \<lparr>open_fn = None, close_fn = None, read_fn = Some (ata_read_file dev base junk),
     write_fn = Some (ata_write_file dev base junk), readdir_fn = None\<rparr>"

text \<open>\<^verbatim>\<open>"/dev/sdX"\<close> with its last character replaced, and the four files, 32 bytes each, in one block of the heap.\<close>

definition sd_path :: "nat \<Rightarrow> u8 list" where
  "sd_path i = map (of_nat \<circ> of_char) ''/dev/sd'' @ [97 + of_nat i]"

abbreviation (input) FS_FILE :: u64 where "FS_FILE \<equiv> 1"

definition ata_fs_mount :: "addr \<Rightarrow> addr \<Rightarrow> nat \<Rightarrow> ('d, 'z) machine_scheme \<Rightarrow> ('d, 'z) machine_scheme res" where
  "ata_fs_mount base files0 i s =
     (let a = files0 + 32 * of_nat i;
          s = s\<lparr>files := (files s)(a \<mapsto> \<lparr>refs = 0, ftype = FS_FILE, driver = AtaFs, fdata = drive_ptr base i\<rparr>)\<rparr>
      in fs_mount a (sd_path i) s)"

definition ata_fs_init :: "'d device \<Rightarrow> addr \<Rightarrow> ('d, 'z) machine_scheme \<Rightarrow> ('d, 'z) machine_scheme res" where
  "ata_fs_init dev base s =
     bindR (ata_init dev (drives s) (hw (con s))) (\<lambda>(ds, d).
     let s = s\<lparr>drives := ds, con := (con s)\<lparr>hw := d\<rparr>\<rparr> in
     bindR (new_addr s) (\<lambda>(files0, s). foldR (ata_fs_mount base files0) [0..<4] s))"

section \<open>debug_fs.c\<close>

text \<open>The buffer of a \<^verbatim>\<open>write\<close> as memory that starts at address 0.\<close>

definition debug_write :: "'d device \<Rightarrow> addr \<Rightarrow> u8 list \<Rightarrow> u64 \<Rightarrow> u64 \<Rightarrow> ('d, 'z) machine_scheme
    \<Rightarrow> (u64 \<times> u64 \<times> ('d, 'z) machine_scheme) atomic res" where
  "debug_write dev file buffer nbyte offset s =
     (if length buffer < unat nbyte then Inl OutOfBounds
      else bindR (debug_putsn dev (\<lambda>a. buffer ! unat a) 0 nbyte (con s)) (\<lambda>c. Inr (Returned (0, nbyte, s\<lparr>con := c\<rparr>))))"

definition debug_fs :: "'d device \<Rightarrow> ('d, 'z) machine_scheme fs_driver" where
  "debug_fs dev = \<lparr>open_fn = None, close_fn = None, read_fn = None, write_fn = Some (debug_write dev), readdir_fn = None\<rparr>"

definition debug_file :: file_t where
  "debug_file = \<lparr>refs = 1, ftype = FS_TTY, driver = DebugFs, fdata = 0\<rparr>"

section \<open>All drivers\<close>

definition kernel_drivers :: "'d device \<Rightarrow> addr \<Rightarrow> (nat \<Rightarrow> u8) \<Rightarrow> drvref \<Rightarrow> ('d, 'z) machine_scheme fs_driver" where
  "kernel_drivers dev base junk r =
     (case r of
        NullDrv \<Rightarrow> \<lparr>open_fn = None, close_fn = None, read_fn = None, write_fn = None, readdir_fn = None\<rparr>
      | PipeReader \<Rightarrow> pipe_reader
      | PipeWriter \<Rightarrow> pipe_writer
      | DebugFs \<Rightarrow> debug_fs dev
      | AtaFs \<Rightarrow> ata_fs dev base junk)"

section \<open>Disk files through system calls\<close>

text \<open>The descriptor \<open>i\<close> of the current process is open on a drive that is a working disk.\<close>

definition disk_fd :: "'d device \<Rightarrow> addr \<Rightarrow> ('d \<Rightarrow> nat) \<Rightarrow> ('d \<Rightarrow> ata_phase) \<Rightarrow> u16 \<Rightarrow> u8 \<Rightarrow> nat \<Rightarrow> ('d, 'z) machine_scheme \<Rightarrow> bool" where
  "disk_fd dev base busy phase bus ms i s \<longleftrightarrow> cur s \<noteq> 0 \<and> busy (hw (con s)) = 0 \<and> phase (hw (con s)) = Idle
     \<and> (\<exists>p f drv. procs s (cur s) = Some p \<and> i < length (pfp p) \<and> fp_file (pfp p ! i) \<noteq> 0
        \<and> files s (fp_file (pfp p ! i)) = Some f \<and> driver f = AtaFs \<and> drive_at base (fdata f) (drives s) = Inr drv
        \<and> drive_exists drv \<and> drive_bus drv = bus \<and> drive_ms drv = ms)"

definition fd_pos :: "nat \<Rightarrow> ('d, 'z) machine_scheme \<Rightarrow> u64" where
  "fd_pos i s = fp_pos (pfp (the (procs s (cur s))) ! i)"

lemma advance_disk:
  fixes s :: "('d, 'z) machine_scheme"
  assumes "disk_fd dev base busy phase bus ms i s" "busy d = 0" "phase d = Idle"
  shows "\<exists>s'. advance (int i) n (s\<lparr>con := (con s)\<lparr>hw := d\<rparr>\<rparr>) = Inr s' \<and> disk_fd dev base busy phase bus ms i s'
    \<and> hw (con s') = d \<and> fd_pos i s' = fd_pos i s + n"
proof -
  obtain p where p: "procs s (cur s) = Some p" "i < length (pfp p)" "cur s \<noteq> 0" using assms(1) by (auto simp: disk_fd_def)
  show ?thesis
    using assms p by (auto simp: advance_def upd_fp_eq disk_fd_def fd_pos_def)
qed

lemma syscall_read_disk:
  fixes s :: "('d, 'z) machine_scheme"
  assumes disk: "ata_disk dev bus ms regs phase busy disk cap" and fd: "disk_fd dev base busy phase bus ms i s"
    and n: "unat (fd_pos i s) + unat n \<le> 512 * cap"
  shows "\<exists>s'. syscall_read (kernel_drivers dev base junk) (int i) n s
      = Inr (Returned (map (disk (hw (con s))) [unat (fd_pos i s)..<unat (fd_pos i s) + unat n], n, s'))
    \<and> disk_fd dev base busy phase bus ms i s' \<and> fd_pos i s' = fd_pos i s + n \<and> disk (hw (con s')) = disk (hw (con s))"
proof -
  obtain p f drv where p: "procs s (cur s) = Some p" "i < length (pfp p)" "fp_file (pfp p ! i) \<noteq> 0" "files s (fp_file (pfp p ! i)) = Some f"
      "driver f = AtaFs" "drive_at base (fdata f) (drives s) = Inr drv" "drive_exists drv" "drive_bus drv = bus" "drive_ms drv = ms"
      and st: "cur s \<noteq> 0" "busy (hw (con s)) = 0" "phase (hw (con s)) = Idle"
    using fd unfolding disk_fd_def by blast
  have pos: "fd_pos i s = fp_pos (pfp p ! i)" by (simp add: fd_pos_def p(1))
  obtain d where d: "ata_read dev (map junk [0..<512]) drv (map junk [0..<unat n]) n (fd_pos i s) (hw (con s))
      = Inr (n, map (disk (hw (con s))) [unat (fd_pos i s)..<unat (fd_pos i s) + unat n], d)"
      "busy d = 0" "phase d = Idle" "disk d = disk (hw (con s))"
    using ata_read_buffer [OF disk st(2,3) p(7-9), of "map junk [0..<512]" n "map junk [0..<unat n]" "fd_pos i s"] n by auto
  obtain s' where s': "advance (int i) n (s\<lparr>con := (con s)\<lparr>hw := d\<rparr>\<rparr>) = Inr s'" "disk_fd dev base busy phase bus ms i s'"
      "hw (con s') = d" "fd_pos i s' = fd_pos i s + n"
    using advance_disk [OF fd d(2,3)] by blast
  have "syscall_read (kernel_drivers dev base junk) (int i) n s
      = Inr (Returned (map (disk (hw (con s))) [unat (fd_pos i s)..<unat (fd_pos i s) + unat n], n, s'))"
    using p st d(1) s'(1) pos
    by (simp add: syscall_read_def upd_fp_eq(2) fs_read_def driver_entry_def kernel_drivers_def ata_fs_def ata_read_file_def)
  with s' d(4) show ?thesis by auto
qed

lemma syscall_write_disk:
  fixes s :: "('d, 'z) machine_scheme"
  assumes disk: "ata_disk dev bus ms regs phase busy disk cap" and fd: "disk_fd dev base busy phase bus ms i s"
    and n: "unat (fd_pos i s) + unat n \<le> 512 * cap" and b: "unat n \<le> length buf"
  shows "\<exists>s'. syscall_write (kernel_drivers dev base junk) (int i) buf n s = Inr (Returned (0, n, s'))
    \<and> disk_fd dev base busy phase bus ms i s' \<and> fd_pos i s' = fd_pos i s + n
    \<and> disk (hw (con s')) = put_bytes (unat (fd_pos i s)) (take (unat n) buf) (disk (hw (con s)))"
proof -
  obtain p f drv where p: "procs s (cur s) = Some p" "i < length (pfp p)" "fp_file (pfp p ! i) \<noteq> 0" "files s (fp_file (pfp p ! i)) = Some f"
      "driver f = AtaFs" "drive_at base (fdata f) (drives s) = Inr drv" "drive_exists drv" "drive_bus drv = bus" "drive_ms drv = ms"
      and st: "cur s \<noteq> 0" "busy (hw (con s)) = 0" "phase (hw (con s)) = Idle"
    using fd unfolding disk_fd_def by blast
  have pos: "fd_pos i s = fp_pos (pfp p ! i)" by (simp add: fd_pos_def p(1))
  obtain d where d: "ata_write dev (map junk [0..<512]) drv buf n (fd_pos i s) (hw (con s)) = Inr (n, d)"
      "busy d = 0" "phase d = Idle" "disk d = put_bytes (unat (fd_pos i s)) (take (unat n) buf) (disk (hw (con s)))"
    using ata_write_buffer [OF disk st(2,3) p(7-9), of "map junk [0..<512]" n buf "fd_pos i s"] n b by auto
  obtain s' where s': "advance (int i) n (s\<lparr>con := (con s)\<lparr>hw := d\<rparr>\<rparr>) = Inr s'" "disk_fd dev base busy phase bus ms i s'"
      "hw (con s') = d" "fd_pos i s' = fd_pos i s + n"
    using advance_disk [OF fd d(2,3)] by blast
  have "syscall_write (kernel_drivers dev base junk) (int i) buf n s = Inr (Returned (0, n, s'))"
    using p st d(1) s'(1) pos
    by (simp add: syscall_write_def upd_fp_eq(2) fs_write_def driver_entry_def kernel_drivers_def ata_fs_def ata_write_file_def)
  with s' d(4) show ?thesis by auto
qed

lemma syscall_seek_disk:
  fixes s :: "('d, 'z) machine_scheme"
  assumes fd: "disk_fd dev base busy phase bus ms i s"
  shows "\<exists>s'. syscall_seek (int i) x 0 s = Inr (x, s') \<and> disk_fd dev base busy phase bus ms i s' \<and> fd_pos i s' = x \<and> hw (con s') = hw (con s)"
proof -
  obtain p where p: "procs s (cur s) = Some p" "i < length (pfp p)" "cur s \<noteq> 0" "fp_file (pfp p ! i) \<noteq> 0" using fd by (auto simp: disk_fd_def)
  define s' where "s' = s\<lparr>procs := (procs s)(cur s \<mapsto> p\<lparr>pfp := (pfp p)[i := (pfp p ! i)\<lparr>fp_pos := x\<rparr>]\<rparr>)\<rparr>"
  have "get_fp (int i) s' = Inr ((pfp p ! i)\<lparr>fp_pos := x\<rparr>)" using p by (simp add: get_fp_def s'_def)
  moreover have "upd_fp (int i) (\<lambda>fp. fp\<lparr>fp_pos := x\<rparr>) s = Inr s'" using upd_fp_eq(1) [OF p(1,3,2)] by (simp add: s'_def)
  ultimately have "syscall_seek (int i) x 0 s = Inr (x, s')" using p(4) by (simp add: syscall_seek_def upd_fp_eq(2) [OF p(1,3,2)])
  moreover have "disk_fd dev base busy phase bus ms i s'" "fd_pos i s' = x" "hw (con s') = hw (con s)"
    using fd p by (auto simp: disk_fd_def fd_pos_def s'_def)
  ultimately show ?thesis by blast
qed


definition example_console :: "sim_disk console" where
  "example_console = \<lparr>hw = sim_start, vbuffer = replicate VGA_SIZE 0, vidmem = replicate VGA_SIZE 0, cursor_x = 0, cursor_y = 0, style = 7\<rparr>"

definition example_machine :: "sim_disk machine" where
  "example_machine = kernel.extend (upd_cpu (\<lambda>c. c\<lparr>current_process := 0x500\<rparr>) example_parent
      \<lparr>files := [KERNEL_HEAP_S \<mapsto> \<lparr>refs = 1, ftype = FS_FILE, driver = AtaFs, fdata = drive_ptr 0x9000 0\<rparr>]\<rparr>)
     \<lparr>con = example_console, drives = [sim_drive]\<rparr>"


end
