(* ===== verification/Boot.thy ===== *)
theory Boot
  imports Vmm
begin

text \<open>
  What the boot loader hands over: \<^verbatim>\<open>kernel/boot/multiboot.c\<close>, and \<^verbatim>\<open>pmm_init\<close> of
  \<^verbatim>\<open>kernel/mem/pmm.c\<close>, which fills the page allocator from it. The structures of
  \<^verbatim>\<open>multiboot.h\<close> are packed, so a field is a read of byte memory at its offset. Messages are left
  out. The tag loop of version 2 and the page loop of \<^verbatim>\<open>pmm_init\<close> need not end on every input,
  so their value is an option.
\<close>

section \<open>State\<close>

definition load32 :: "mem \<Rightarrow> addr \<Rightarrow> u32" where
  "load32 m a = ucast (load64 m a)"

definition load16 :: "mem \<Rightarrow> addr \<Rightarrow> u16" where
  "load16 m a = ucast (load64 m a)"

record mboot_data_st =
  mb_version :: int
  mb_data :: addr
  mb_commandline :: addr
  mb_bootloader :: addr
  mb_mmap :: addr
  mb_mmap_size :: u32
  mb_rsdp :: addr
  mb_init :: addr
  mb_init_len :: u64

record boot = vmm +
  mboot_data :: mboot_data_st
  mmap_entry :: u32  \<comment> \<open>the static \<^verbatim>\<open>entry\<close> of \<^verbatim>\<open>multiboot_get_memory_area\<close>\<close>

section \<open>multiboot.c\<close>

definition parse_multiboot1 :: "mem \<Rightarrow> mboot_data_st \<Rightarrow> mboot_data_st" where
  "parse_multiboot1 m b =
     (let d = mb_data b; flags = load32 m d;
          b = (if flags AND push_bit 2 1 \<noteq> 0 then b\<lparr>mb_commandline := P2V (ucast (load32 m (d + 16)))\<rparr> else b);
          b = (if flags AND push_bit 9 1 \<noteq> 0 then b\<lparr>mb_bootloader := P2V (ucast (load32 m (d + 64)))\<rparr> else b);
          b = (if flags AND push_bit 6 1 \<noteq> 0 then
                 b\<lparr>mb_mmap_size := ucast (ucast (load32 m (d + 44)) div 24 :: u64), mb_mmap := P2V (ucast (load32 m (d + 48)))\<rparr> else b)
      in if flags AND push_bit 3 1 \<noteq> 0 \<and> load32 m (d + 20) \<noteq> 0 then
           let me = P2V (ucast (load32 m (d + 24))) in
           b\<lparr>mb_init := P2V (ucast (load32 m me)), mb_init_len := ucast (load32 m (me + 4) - load32 m me)\<rparr>
         else b)"

definition next_tag :: "mem \<Rightarrow> addr \<Rightarrow> addr" where
  "next_tag m tag = (tag + ucast (load32 m (tag + 4)) + 7) AND NOT 7"

text \<open>The body of the loop over the tags of version 2.\<close>

definition handle_tag :: "mem \<Rightarrow> addr \<Rightarrow> mboot_data_st \<Rightarrow> mboot_data_st res" where
  "handle_tag m tag b =
     (let t = load32 m tag in
      if t = 1 then Inr (b\<lparr>mb_commandline := tag + 8\<rparr>)
      else if t = 2 then Inr (b\<lparr>mb_bootloader := tag + 8\<rparr>)
      else if t = 6 then
        (if load32 m (tag + 8) = 0 then Inl DivideError
         else Inr (b\<lparr>mb_mmap_size := (load32 m (tag + 4) - 8) div load32 m (tag + 8), mb_mmap := tag + 8\<rparr>))
      else if t = 14 \<or> t = 15 then Inr (b\<lparr>mb_rsdp := tag + 8\<rparr>)
      else Inr b)"

partial_function (option) multiboot2_loop :: "mem \<Rightarrow> addr \<Rightarrow> mboot_data_st \<Rightarrow> mboot_data_st res option" where
  "multiboot2_loop m tag b =
     (if load32 m tag = 0 then Some (Inr b)
      else case handle_tag m tag b of
        Inl e \<Rightarrow> Some (Inl e)
      | Inr b \<Rightarrow> multiboot2_loop m (next_tag m tag) b)"

definition parse_multiboot2 :: "mem \<Rightarrow> mboot_data_st \<Rightarrow> mboot_data_st res" where
  "parse_multiboot2 m b = (case multiboot2_loop m (mb_data b + 8) b of None \<Rightarrow> Inl Diverges | Some r \<Rightarrow> r)"

abbreviation (input) MBOOT1_MAGIC2 :: u64 where "MBOOT1_MAGIC2 \<equiv> 0x2BADB002"
abbreviation (input) MBOOT2_MAGIC2 :: u64 where "MBOOT2_MAGIC2 \<equiv> 0x36D76289"

definition multiboot_init :: "u64 \<Rightarrow> addr \<Rightarrow> 'z boot_scheme \<Rightarrow> 'z boot_scheme res" where
  "multiboot_init magic data s =
     (let b = (mboot_data s)\<lparr>mb_data := data\<rparr> in
      bindR (if magic = MBOOT1_MAGIC2 then Inr (parse_multiboot1 (kmem s) (b\<lparr>mb_version := 1\<rparr>))
             else if magic = MBOOT2_MAGIC2 then parse_multiboot2 (kmem s) (b\<lparr>mb_version := 2\<rparr>)
             else Inl (Panic ''NOT A MULTIBOOT COMPLIANT BOOTLOADER'')) (\<lambda>b.
      Inr (s\<lparr>mboot_data := b\<rparr>)))"

definition overlap :: "addr \<Rightarrow> addr \<Rightarrow> addr \<Rightarrow> addr \<Rightarrow> bool" where
  "overlap start1 end1 start2 end2 \<longleftrightarrow> \<not> (end2 \<le> start1 \<or> end1 \<le> start2)"

definition overlapsz :: "addr \<Rightarrow> addr \<Rightarrow> addr \<Rightarrow> addr \<Rightarrow> bool" where
  "overlapsz start1 size1 start2 size2 = overlap start1 (start1 + size1) start2 (start2 + size2)"

text \<open>\<^verbatim>\<open>sizeof(data)\<close> is the size of a pointer.\<close>

definition multiboot_page_used :: "addr \<Rightarrow> 'z boot_scheme \<Rightarrow> bool" where
  "multiboot_page_used addr s =
     (let b = mboot_data s; m = kmem s; d = mb_data b in
      if overlapsz addr PAGE_SIZE (V2P (mb_init b)) (mb_init_len b) then True
      else if mb_version b = 1 then
        overlapsz addr PAGE_SIZE (V2P d) 8
        \<or> load32 m d AND push_bit 6 1 \<noteq> 0 \<and> overlapsz addr PAGE_SIZE (ucast (load32 m (d + 48))) (ucast (load32 m (d + 44)) * 24)
      else
        overlapsz addr PAGE_SIZE (V2P d) (ucast (load32 m d))
        \<or> mb_rsdp b \<noteq> 0 \<and> overlapsz addr PAGE_SIZE (mb_rsdp b) 1)"

text \<open>The area with an index: start, end and type.\<close>

definition mmap_area :: "mem \<Rightarrow> mboot_data_st \<Rightarrow> u32 \<Rightarrow> addr \<times> addr \<times> u32" where
  "mmap_area m b entry =
     (if mb_version b = 1 then
        let e = mb_mmap b + 24 * ucast entry;
            start = push_bit 32 (ucast (load32 m (e + 8))) + ucast (load32 m (e + 4))
        in (start, start + push_bit 32 (ucast (load32 m (e + 16))) + ucast (load32 m (e + 12)), load32 m (e + 20))
      else
        let e = ((\<lambda>e. e + ucast (load32 m (mb_mmap b))) ^^ unat entry) (mb_mmap b + 8); start = load64 m e
        in (start, start + load64 m (e + 8), load32 m (e + 16)))"

definition multiboot_get_memory_area :: "'z boot_scheme \<Rightarrow> (addr \<times> addr \<times> u32) option \<times> 'z boot_scheme" where
  "multiboot_get_memory_area s =
     (if mb_mmap_size (mboot_data s) \<le> mmap_entry s then (None, s)
      else (Some (mmap_area (kmem s) (mboot_data s) (mmap_entry s)), s\<lparr>mmap_entry := mmap_entry s + 1\<rparr>))"

section \<open>pmm_init\<close>

abbreviation (input) MBOOT_MMAP_FREE :: u32 where "MBOOT_MMAP_FREE \<equiv> 1"

text \<open>\<open>kernel_start\<close> is the address of the first byte of the kernel, a symbol of the linker.\<close>

definition init_page :: "addr \<Rightarrow> u32 \<Rightarrow> addr \<Rightarrow> 'z boot_scheme \<Rightarrow> 'z boot_scheme res" where
  "init_page kernel_start type p s =
     bindR (vmm_set_page 0 (P2V p) p (PAGE_PRESENT OR PAGE_WRITE) s) (\<lambda>(_, s).
     Inr (if V2P kernel_start \<le> p \<and> p < V2P (pmm_pos s) then s
          else if multiboot_page_used p s then s
          else if type = MBOOT_MMAP_FREE then pmm_free p s
          else s))"

partial_function (option) init_area :: "addr \<Rightarrow> addr \<Rightarrow> u32 \<Rightarrow> addr \<Rightarrow> 'z boot_scheme \<Rightarrow> 'z boot_scheme res option" where
  "init_area kernel_start end' type p s =
     (if p + PAGE_SIZE < end' then
        case init_page kernel_start type p s of
          Inl e \<Rightarrow> Some (Inl e)
        | Inr s \<Rightarrow> init_area kernel_start end' type (p + PAGE_SIZE) s
      else Some (Inr s))"

partial_function (option) pmm_init :: "addr \<Rightarrow> 'z boot_scheme \<Rightarrow> 'z boot_scheme res option" where
  "pmm_init kernel_start s =
     (case multiboot_get_memory_area s of
        (None, s) \<Rightarrow> Some (Inr s)
      | (Some (start, end', type), s) \<Rightarrow>
          (case init_area kernel_start end' type start s of
             None \<Rightarrow> None
           | Some (Inl e) \<Rightarrow> Some (Inl e)
           | Some (Inr s) \<Rightarrow> pmm_init kernel_start s))"

section \<open>The tags of version 2\<close>

text \<open>A list of tags in memory, each with its type; type 0 ends it.\<close>

fun tags_at :: "mem \<Rightarrow> addr \<Rightarrow> u32 list \<Rightarrow> bool" where
  "tags_at m t [] \<longleftrightarrow> load32 m t = 0"
| "tags_at m t (ty # ts) \<longleftrightarrow> ty \<noteq> 0 \<and> load32 m t = ty \<and> (ty = 6 \<longrightarrow> load32 m (t + 8) \<noteq> 0) \<and> tags_at m (next_tag m t) ts"

text \<open>The address of the data of the last tag that has one of the types, or the value \<open>a\<close>.\<close>

fun last_tag :: "mem \<Rightarrow> u32 set \<Rightarrow> addr \<Rightarrow> u32 list \<Rightarrow> addr \<Rightarrow> addr" where
  "last_tag m T t [] a = a"
| "last_tag m T t (ty # ts) a = last_tag m T (next_tag m t) ts (if ty \<in> T then t + 8 else a)"

lemma handle_tag_ok:
  assumes "load32 m t = 6 \<longrightarrow> load32 m (t + 8) \<noteq> 0"
  shows "\<exists>b1. handle_tag m t b = Inr b1 \<and> mb_commandline b1 = (if load32 m t \<in> {1} then t + 8 else mb_commandline b)
    \<and> mb_bootloader b1 = (if load32 m t \<in> {2} then t + 8 else mb_bootloader b) \<and> mb_mmap b1 = (if load32 m t \<in> {6} then t + 8 else mb_mmap b)
    \<and> mb_rsdp b1 = (if load32 m t \<in> {14, 15} then t + 8 else mb_rsdp b)
    \<and> mb_version b1 = mb_version b \<and> mb_data b1 = mb_data b \<and> mb_init b1 = mb_init b \<and> mb_init_len b1 = mb_init_len b"
  using assms by (intro exI [of _ "projr (handle_tag m t b)"]) (auto simp: handle_tag_def Let_def)


definition example_tags :: mem where
  "example_tags a = (if a = 0x1008 then 1 else if a = 0x100c then 16 else if a = 0x1018 then 14 else if a = 0x101c then 16 else 0)"

definition example_mboot :: mboot_data_st where
  "example_mboot = \<lparr>mb_version = 2, mb_data = 0x1000, mb_commandline = 0, mb_bootloader = 0, mb_mmap = 0, mb_mmap_size = 0, mb_rsdp = 0,
     mb_init = 0, mb_init_len = 0\<rparr>"


text \<open>A tag of size 0 at an aligned address is its own successor, and the loop does not end.\<close>

lemma multiboot2_loop_stuck:
  assumes "load32 m t = 7" "next_tag m t = t"
  shows "multiboot2_loop m t b = None"
proof -
  have "t' = t \<longrightarrow> m' = m \<longrightarrow> False" if r: "multiboot2_loop m' t' b' = Some r" for m' t' b' r
    by (rule multiboot2_loop.raw_induct [OF _ r, of "\<lambda>m' t' b' r. t' = t \<longrightarrow> m' = m \<longrightarrow> False"])
      (use assms in \<open>fastforce simp: handle_tag_def\<close>)
  then show ?thesis by (cases "multiboot2_loop m t b") auto
qed

section \<open>Pages of a memory area\<close>

definition area_pages :: "addr \<Rightarrow> addr \<Rightarrow> addr list" where
  "area_pages start e = map (\<lambda>i. start + of_nat (4096 * i)) [0..<(unat e - unat start - 1) div 4096]"

lemma area_pages_step:
  assumes "start + PAGE_SIZE < e" "unat e + 4096 < 2 ^ 64" "start \<le> e"
  shows "area_pages start e = start # area_pages (start + PAGE_SIZE) e" "unat (start + PAGE_SIZE) = unat start + 4096"
proof -
  show u: "unat (start + PAGE_SIZE) = unat start + 4096"
    using assms(2,3) by (subst unat_add_eq) (auto simp: word_le_nat_alt)
  define n where "n = (unat e - (unat start + 4096) - 1) div 4096"
  have "unat e - unat start - 1 = (unat e - (unat start + 4096) - 1) + 4096" using assms(1) u by (simp add: word_less_nat_alt)
  then have s: "(unat e - unat start - 1) div 4096 = Suc n" by (simp only: n_def div_add_self2)
  have f: "start + of_nat (4096 * Suc i) = start + PAGE_SIZE + of_nat (4096 * i)" for i
    by (simp only: mult_Suc_right of_nat_add of_nat_numeral add.assoc)
  have "area_pages start e = map (\<lambda>i. start + of_nat (4096 * i)) [0..<Suc n]" by (simp only: area_pages_def s)
  also have "\<dots> = start # map (\<lambda>i. start + PAGE_SIZE + of_nat (4096 * i)) [0..<n]"
    by (simp only: map_upt_Suc f mult_0_right) simp
  also have "\<dots> = start # area_pages (start + PAGE_SIZE) e" by (simp only: area_pages_def u n_def)
  finally show "area_pages start e = start # area_pages (start + PAGE_SIZE) e" .
qed

text \<open>
  C40. The page loop of \<^verbatim>\<open>pmm_init\<close> ends on every area that does not reach the end of the address
  space, and treats exactly the pages that end before the last byte of the area, in ascending
  order: of an area of \<open>n\<close> whole pages it leaves out the last one.
\<close>

theorem init_area_pages:
  assumes "start \<le> e" and "unat e + 4096 < 2 ^ 64"
  shows "init_area ks e ty start s = Some (foldR (init_page ks ty) (area_pages start e) s)
    \<and> (\<forall>n. 0 < n \<longrightarrow> unat e = unat start + 4096 * n \<longrightarrow> length (area_pages start e) = n - 1)"
proof -
  have "init_area ks e ty start s = Some (foldR (init_page ks ty) (area_pages start e) s)"
    using assms(1)
  proof (induction "unat e - unat start" arbitrary: start s rule: less_induct)
    case less
    show ?case
    proof (cases "start + PAGE_SIZE < e")
      case True
      note st = area_pages_step [OF True assms(2) less.prems]
      have "unat e - unat (start + PAGE_SIZE) < unat e - unat start" "start + PAGE_SIZE \<le> e"
        using st(2) True order_less_imp_le [OF True] by (auto simp: word_less_nat_alt)
      with st(1) True less.hyps show ?thesis by (subst init_area.simps) (auto split: sum.splits)
    next
      case False
      have "unat (start + PAGE_SIZE) = unat start + 4096"
        using assms(2) less.prems by (subst unat_add_eq) (auto simp: word_le_nat_alt)
      then have "(unat e - unat start - 1) div 4096 = 0" using False by (simp add: word_less_nat_alt)
      with False show ?thesis by (subst init_area.simps) (simp add: area_pages_def)
    qed
  qed
  moreover have "(4096 * n - 1) div 4096 = n - 1" if "0 < n" for n :: nat
    using that by (cases n) simp_all
  ultimately show ?thesis by (auto simp: area_pages_def)
qed

definition example_tables :: mem where
  "example_tables = store64 (store64 (store64 (store64 (\<lambda>_. 0) (P2V 0x2000 + 8 * 511) 0x3003) (P2V 0x3000 + 8 * 0) 0x4003)
     (P2V 0x4000 + 8 * 0) 0x5003) (P2V 0x8000 + 8 * 0) 0x20"

definition example_boot :: boot where
  "example_boot = \<lparr>kmem = example_tables, pmm_running = False, pmm_pos = P2V 0x200000, pmm_stack = 0, BootP4 = P2V 0x2000, cr3 = 0,
     mboot_data = example_mboot\<lparr>mb_data := P2V 0x8000, mb_init := P2V 0xA000, mb_init_len := 0x100\<rparr>, mmap_entry = 0\<rparr>"

theorem init_area_pages_witness:
  "init_area 0 0x4000 1 0x1000 example_boot = Some (foldR (init_page 0 1) [0x1000, 0x2000] example_boot)"
proof -
  have "area_pages 0x1000 0x4000 = [0x1000, 0x2000]" by code_simp
  with init_area_pages [of "0x1000" "0x4000"] show ?thesis by simp
qed

section \<open>Boot data stays\<close>

lemma word_between:
  assumes "x - b < (k :: addr)" "unat b + unat k < 2 ^ 64"
  shows "unat b \<le> unat x" "unat x < unat b + unat k"
  using assms by (auto simp: word_less_nat_alt unat_sub_if' split: if_splits)

lemma unat_u32_bound: "unat (ucast (v :: u32) :: addr) < 2 ^ 32"
proof -
  have "unat v < 2 ^ LENGTH(32)" by (rule unsigned_less)
  then show ?thesis by (simp add: unsigned_ucast_eq take_bit_nat_eq_self)
qed

lemma overlapsz_byte:
  assumes "x - a < n" "x - b < k" "unat a + unat n < 2 ^ 64" "unat b + unat k < 2 ^ 64"
  shows "overlapsz a n b k"
proof -
  have "unat (a + n) = unat a + unat n" "unat (b + k) = unat b + unat k" using assms(3,4) by (simp_all add: unat_add_eq)
  with word_between [OF assms(1,3)] word_between [OF assms(2,4)]
  show ?thesis by (simp add: overlapsz_def overlap_def word_le_nat_alt)
qed

lemma in_image_page:
  assumes "page_aligned p" "page_aligned k" "STRIP_FLAGS x = p" "k \<le> x" "x < e"
  shows "k \<le> p" "p < e"
proof -
  from assms(2) obtain c where c: "unat k = 4096 * c" by (auto simp: page_aligned_unat)
  have p: "unat p = unat x div 4096 * 4096" using assms(3) unat_STRIP_FLAGS by blast
  have "unat k \<le> unat x" using assms(4) by (simp add: word_le_nat_alt)
  then have "c \<le> unat x div 4096" using c by (simp add: less_eq_div_iff_mult_less_eq mult.commute)
  then show "k \<le> p" using c p by (simp add: word_le_nat_alt)
  have "unat p \<le> unat x" using p by simp
  then show "p < e" using assms(5) by (simp add: word_less_nat_alt)
qed

text \<open>
  C34. A page that \<^verbatim>\<open>pmm_init\<close> puts on the free list lies in an area marked free, and no byte of it
  belongs to the image of the kernel with the pages taken so far, to the module with the first
  program, or to the boot information of version 2.
\<close>

theorem init_page_spares_boot_data:
  assumes "init_page ks ty p s = Inr s2" and "page_aligned p" and "page_aligned ks" and "unat p + 4096 < 2 ^ 64"
    and "unat (V2P (mb_init (mboot_data s2))) + unat (mb_init_len (mboot_data s2)) < 2 ^ 64"
    and "unat (V2P (mb_data (mboot_data s2))) + 2 ^ 32 < 2 ^ 64"
  shows "\<exists>r s1. vmm_set_page 0 (P2V p) p (PAGE_PRESENT OR PAGE_WRITE) s = Inr (r, s1)
    \<and> (s2 = s1 \<or> s2 = pmm_free p s1 \<and> ty = MBOOT_MMAP_FREE
      \<and> (\<forall>x. STRIP_FLAGS x = p \<longrightarrow> \<not> (V2P ks \<le> x \<and> x < V2P (pmm_pos s1))
           \<and> \<not> x - V2P (mb_init (mboot_data s2)) < mb_init_len (mboot_data s2)
           \<and> (mb_version (mboot_data s2) \<noteq> 1 \<longrightarrow> \<not> x - V2P (mb_data (mboot_data s2)) < ucast (load32 (kmem s1) (mb_data (mboot_data s2))))))"
proof -
  from assms(1) obtain r s1 where s1: "vmm_set_page 0 (P2V p) p (PAGE_PRESENT OR PAGE_WRITE) s = Inr (r, s1)"
    and s2: "s2 = (if V2P ks \<le> p \<and> p < V2P (pmm_pos s1) then s1 else if multiboot_page_used p s1 then s1
                   else if ty = MBOOT_MMAP_FREE then pmm_free p s1 else s1)"
    by (auto simp: init_page_def res_simps)
  show ?thesis
  proof (cases "(V2P ks \<le> p \<and> p < V2P (pmm_pos s1)) \<or> multiboot_page_used p s1 \<or> ty \<noteq> MBOOT_MMAP_FREE")
    case True
    then show ?thesis using s1 s2 by (auto split: if_splits)
  next
    case False
    then have f: "s2 = pmm_free p s1" using s2 by auto
    then have mb: "mboot_data s1 = mboot_data s2" by (simp add: pmm_free_def Let_def)
    let ?i = "V2P (mb_init (mboot_data s2))" and ?il = "mb_init_len (mboot_data s2)"
    let ?d = "V2P (mb_data (mboot_data s2))" and ?dl = "ucast (load32 (kmem s1) (mb_data (mboot_data s2))) :: addr"
    have nu: "\<not> overlapsz p 0x1000 ?i ?il" "mb_version (mboot_data s2) \<noteq> 1 \<Longrightarrow> \<not> overlapsz p 0x1000 ?d ?dl"
      using False mb by (auto simp: multiboot_page_used_def Let_def split: if_splits)
    have "\<not> (V2P ks \<le> x \<and> x < V2P (pmm_pos s1)) \<and> \<not> x - ?i < ?il \<and> (mb_version (mboot_data s2) \<noteq> 1 \<longrightarrow> \<not> x - ?d < ?dl)"
      if x: "STRIP_FLAGS x = p" for x
    proof (intro conjI notI impI)
      assume "V2P ks \<le> x \<and> x < V2P (pmm_pos s1)"
      with in_image_page [OF assms(2) _ x, of "V2P ks" "V2P (pmm_pos s1)"] assms(3) False show False by simp
    next
      have px: "x - p < 0x1000" using page_diff [OF assms(2)] x by simp
      { assume "x - ?i < ?il"
        from overlapsz_byte [OF px this] assms(4,5) nu(1) show False by simp }
      assume "mb_version (mboot_data s2) \<noteq> 1" "x - ?d < ?dl"
      moreover have "unat ?dl < 2 ^ 32" by (rule unat_u32_bound)
      ultimately show False using overlapsz_byte [OF px, of ?d ?dl] assms(4,6) nu(2) by simp
    qed
    with s1 f False show ?thesis by blast
  qed
qed

lemma load64_frame_slot:
  assumes "page_aligned a" "page_aligned b" "unat i < 512" "unat j < 512"
  shows "load64 (store64 m (P2V a + 8 * i) v) (P2V b + 8 * j) = (if a = b \<and> i = j then v else load64 m (P2V b + 8 * j))"
  using load64_slot [of "P2V a" "P2V b" i j] assms by simp

lemma example_walk:
  "load64 example_tables (P2V 0x2000 + 8 * 511) = 0x3003" "load64 example_tables (P2V 0x3000 + 8 * 0) = 0x4003"
  "load64 example_tables (P2V 0x4000 + 8 * 0) = 0x5003"
  "load64 (store64 example_tables (P2V 0x5000 + 8 * 9) v) (P2V 0x8000 + 8 * 0) = 0x20"
proof -
  have u: "unat (511::addr) < 512" "unat (0::addr) < 512" "unat (9::addr) < 512"
    "(0x8000::addr) \<noteq> 0x2000" "(0x8000::addr) \<noteq> 0x3000" "(0x8000::addr) \<noteq> 0x4000" "(0x4000::addr) \<noteq> 0x2000" "(0x4000::addr) \<noteq> 0x3000"
    "(0x3000::addr) \<noteq> 0x2000" "(0x5000::addr) \<noteq> 0x8000"
    by simp_all
  show "load64 example_tables (P2V 0x2000 + 8 * 511) = 0x3003" "load64 example_tables (P2V 0x3000 + 8 * 0) = 0x4003"
    "load64 example_tables (P2V 0x4000 + 8 * 0) = 0x5003"
    "load64 (store64 example_tables (P2V 0x5000 + 8 * 9) v) (P2V 0x8000 + 8 * 0) = 0x20"
    unfolding example_tables_def by (simp_all only: load64_frame_slot example_frame_facts u simp_thms if_True if_False)
qed

lemma example_set_page:
  "\<exists>r. vmm_set_page 0 (P2V 0x9000) 0x9000 (1 OR 2) example_boot
     = Inr (r, example_boot\<lparr>kmem := store64 example_tables (P2V 0x5000 + 8 * 9) 0x9003\<rparr>)"
proof -
  have "P4_OFFSET (P2V 0x9000 AND NOT 0xFFF) = 511" "P3_OFFSET (P2V 0x9000 AND NOT 0xFFF) = 0" "P2_OFFSET (P2V 0x9000 AND NOT 0xFFF) = 0" "P1_OFFSET (P2V 0x9000) = 9"
    "ADD_FLAGS 0x9000 (1 OR 2) = 0x9003" "STRIP_FLAGS 0x3003 = 0x3000" "STRIP_FLAGS 0x4003 = 0x4000" "STRIP_FLAGS 0x5003 = 0x5000" "P2V 0x5000 \<noteq> 0"
    by (simp_all add: P4_OFFSET_def P3_OFFSET_def P2_OFFSET_def P1_OFFSET_def P2V_def KERNEL_OFFSET_def ADD_FLAGS_def STRIP_FLAGS_def)
  then show ?thesis
    using example_walk by (simp add: vmm_set_page_def vmm_find_page_def vmm_next_table_def GET_P4_def example_boot_def Let_def)
qed

theorem init_page_spares_boot_data_witness:
  "\<exists>s2. init_page (P2V 0x100000) 1 0x9000 example_boot = Inr s2 \<and> pmm_stack s2 = P2V 0x9000
     \<and> \<not> 0x9FFF - V2P (mb_init (mboot_data s2)) < mb_init_len (mboot_data s2)"
proof -
  define s1 where "s1 = example_boot\<lparr>kmem := store64 example_tables (P2V 0x5000 + 8 * 9) 0x9003\<rparr>"
  obtain r where r: "vmm_set_page 0 (P2V 0x9000) 0x9000 (1 OR 2) example_boot = Inr (r, s1)" using example_set_page by (auto simp: s1_def)
  have "load32 (kmem s1) (P2V 0x8000) = 0x20" using example_walk(4) by (simp add: s1_def load32_def)
  then have "\<not> multiboot_page_used 0x9000 s1"
    by (simp add: multiboot_page_used_def s1_def example_boot_def example_mboot_def overlapsz_def overlap_def)
  moreover have "\<not> (0x100000 \<le> (0x9000 :: addr))" by simp
  ultimately have s2: "init_page (P2V 0x100000) 1 0x9000 example_boot = Inr (pmm_free 0x9000 s1)"
    using r by (simp add: init_page_def)
  have st: "pmm_stack (pmm_free 0x9000 s1) = P2V 0x9000" "pmm_stack s1 = 0" "mboot_data (pmm_free 0x9000 s1) = mboot_data example_boot"
    by (simp_all add: pmm_free_def s1_def example_boot_def Let_def)
  have h: "page_aligned 0x9000" "page_aligned (P2V 0x100000)" "STRIP_FLAGS 0x9FFF = 0x9000" "pmm_stack s1 \<noteq> P2V 0x9000"
    using st(2) by (simp_all add: page_aligned_def P2V_def KERNEL_OFFSET_def STRIP_FLAGS_def)
  from h(4) st(1) have "pmm_free 0x9000 s1 \<noteq> s1" by metis
  then show ?thesis
    using init_page_spares_boot_data [OF s2 h(1,2)] r s2 st h(3) by (auto simp: example_boot_def)
qed

text \<open>
  The information of version 1 is protected only in its first eight bytes, the size of a pointer:
  a page that holds the rest of it (the structure continues past the end of a page) is free.
\<close>

lemma mboot1_info_freed:
  assumes "mb_version (mboot_data s) = 1" "mb_data (mboot_data s) = P2V 0x8FF8" "load32 (kmem s) (P2V 0x8FF8) = 0" "mb_init_len (mboot_data s) = 0"
    "V2P (mb_init (mboot_data s)) = 0"
  shows "\<not> multiboot_page_used 0x9000 s"
  using assms by (simp add: multiboot_page_used_def overlapsz_def overlap_def)

end
