(* ===== verification/Interrupts.thy ===== *)
theory Interrupts
  imports Devfs
begin

text \<open>
  Descriptor tables and interrupts: \<^verbatim>\<open>kernel/arch/gdt.c\<close>, \<^verbatim>\<open>kernel/interrupts/interrupts.c\<close>,
  \<^verbatim>\<open>pic.c\<close>, \<^verbatim>\<open>ioapic.c\<close>, \<^verbatim>\<open>apic.c\<close>, \<^verbatim>\<open>kernel/drivers/pit.c\<close> and the fault handler of
  \<^verbatim>\<open>kernel/mem/vmm.c\<close>. Memory mapped registers and model specific registers are hardware: the
  record \<open>mmio\<close> gives the effect of an access, beside the ports of \<open>device\<close>. Messages are left out.
\<close>

section \<open>State\<close>

record 'd mmio =
  mm_read :: "addr \<Rightarrow> 'd \<Rightarrow> u32 \<times> 'd"
  mm_write :: "addr \<Rightarrow> u32 \<Rightarrow> 'd \<Rightarrow> 'd"
  rdmsr :: "u32 \<Rightarrow> 'd \<Rightarrow> u64 \<times> 'd"
  wrmsr :: "u32 \<Rightarrow> u64 \<Rightarrow> 'd \<Rightarrow> 'd"

record int_gate_descriptor =
  base_l :: u16
  gate_cs :: u16
  ist :: u8
  gate_flags :: u8
  base_m :: u16
  base_h :: u32

text \<open>The functions that the kernel registers as handlers.\<close>

datatype int_fn = Page_fault_handler | Timer_tick | Apic_timer_handler | Syscall_handler

text \<open>
  The part of \<^verbatim>\<open>cpu_t\<close> that start-up uses, an entry of the array \<^verbatim>\<open>cpus\<close>; \<open>self\<close> is its address
  (the field \<^verbatim>\<open>cpu\<close>). The fields that the scheduler uses are the ones of \<open>cpu_t\<close>.
\<close>

record cpu_entry =
  self :: addr
  cpu_id :: u64
  apic_id :: u64
  apic_ticks_per_us :: u64
  is_bsp :: u64
  current_state :: u64
  ap_stack :: addr
  gdt :: "u64 list"
  gdtp_len :: u16
  gdtp_addr :: addr
  io_mba :: u16

record 'd platform = "'d machine" +
  idt :: "int_gate_descriptor list"
  idtr_len :: u16
  idtr_addr :: addr
  int_handlers :: "int_fn option list"
  irq_map :: "u32 list"
  system_ticks :: u64
  cpus :: "cpu_entry list"
  num_cpu :: nat
  this_cpu :: nat  \<comment> \<open>the index of the executing CPU, behind \<^verbatim>\<open>get_cpu()\<close>\<close>
  loaded_idt :: "u16 \<times> addr"
  loaded_gdt :: "u16 \<times> addr"
  task_register :: u32

abbreviation NUM_INTERRUPTS :: nat where "NUM_INTERRUPTS \<equiv> 256"

abbreviation upd_hw :: "('d \<Rightarrow> 'd) \<Rightarrow> ('d, 'z) platform_scheme \<Rightarrow> ('d, 'z) platform_scheme" where
  "upd_hw f s \<equiv> s\<lparr>con := (con s)\<lparr>hw := f (hw (con s))\<rparr>\<rparr>"

text \<open>A well-formed platform: the fixed sizes of its tables.\<close>

definition platform_wf :: "('d, 'z) platform_scheme \<Rightarrow> bool" where
  "platform_wf s \<longleftrightarrow> length (idt s) = 256 \<and> length (int_handlers s) = 256 \<and> length (irq_map s) = 24
     \<and> length (cpus s) = 64 \<and> num_cpu s \<le> 64 \<and> this_cpu s < 64 \<and> (\<forall>c \<in> set (cpus s). length (gdt c) = 7)"

section \<open>interrupts.c\<close>

definition int_gate :: "addr \<Rightarrow> u16 \<Rightarrow> u8 \<Rightarrow> u8 \<Rightarrow> int_gate_descriptor" where
  "int_gate v sel stk flags = \<lparr>base_l = ucast (v AND 0xFFFF), gate_cs = sel, ist = stk, gate_flags = flags,
     base_m = ucast (drop_bit 16 v AND 0xFFFF), base_h = ucast (drop_bit 32 v AND 0xFFFFFFFF)\<rparr>"

definition idt_set :: "nat \<Rightarrow> addr \<Rightarrow> u16 \<Rightarrow> u8 \<Rightarrow> u8 \<Rightarrow> int_gate_descriptor list \<Rightarrow> int_gate_descriptor list res" where
  "idt_set num v sel stk flags t = (if num < length t then Inr (t[num := int_gate v sel stk flags]) else Inl OutOfBounds)"

abbreviation (input) IDT_PRESENT :: u8 where "IDT_PRESENT \<equiv> 0x80"
abbreviation (input) IDT_DPL0 :: u8 where "IDT_DPL0 \<equiv> 0x00"
abbreviation (input) IDT_INTERRUPT :: u8 where "IDT_INTERRUPT \<equiv> 0x0E"

definition zero_gate :: int_gate_descriptor where
  "zero_gate = \<lparr>base_l = 0, gate_cs = 0, ist = 0, gate_flags = 0, base_m = 0, base_h = 0\<rparr>"

text \<open>
  \<open>idt_base\<close> is the address of the array \<^verbatim>\<open>idt\<close>. The table of entry points is generated by
  \<^verbatim>\<open>isr.S.py\<close>: \<open>isr_table i\<close> is the word at its index \<open>i\<close>.
\<close>

definition interrupt_init :: "addr \<Rightarrow> (nat \<Rightarrow> addr) \<Rightarrow> ('d, 'z) platform_scheme \<Rightarrow> ('d, 'z) platform_scheme res" where
  "interrupt_init idt_base isr_table s =
     (let load = (\<lambda>s. s\<lparr>loaded_idt := (idtr_len s, idtr_addr s)\<rparr>) in
      if idtr_addr s = 0 then
        let s = s\<lparr>idt := replicate NUM_INTERRUPTS zero_gate, int_handlers := replicate NUM_INTERRUPTS None\<rparr> in
        bindR (foldR (\<lambda>i. idt_set i (isr_table i) 0x8 0 (IDT_PRESENT OR IDT_DPL0 OR IDT_INTERRUPT)) [0..<NUM_INTERRUPTS] (idt s)) (\<lambda>t.
        Inr (load (s\<lparr>idt := t, idtr_addr := idt_base, idtr_len := 256 * 16 - 1\<rparr>)))
      else Inr (load s))"

definition interrupt_init_smp :: "('d, 'z) platform_scheme \<Rightarrow> ('d, 'z) platform_scheme" where
  "interrupt_init_smp s = s\<lparr>loaded_idt := (idtr_len s, idtr_addr s)\<rparr>"

definition register_int_handler :: "nat \<Rightarrow> int_fn option \<Rightarrow> ('d, 'z) platform_scheme \<Rightarrow> (int_fn option \<times> ('d, 'z) platform_scheme) res" where
  "register_int_handler num h s =
     (if num < length (int_handlers s) then
        let old = int_handlers s ! num in Inr (old, s\<lparr>int_handlers := (int_handlers s)[num := h]\<rparr>)
      else Inl OutOfBounds)"

text \<open>\<open>run\<close> calls a handler.\<close>

definition int_handler :: "(int_fn \<Rightarrow> registers_t \<Rightarrow> ('d, 'z) platform_scheme \<Rightarrow> (registers_t \<times> ('d, 'z) platform_scheme) res)
    \<Rightarrow> registers_t \<Rightarrow> ('d, 'z) platform_scheme \<Rightarrow> (registers_t \<times> ('d, 'z) platform_scheme) res" where
  "int_handler run r s =
     (if unat (int_no r) < length (int_handlers s) then
        case int_handlers s ! unat (int_no r) of
          Some h \<Rightarrow> run h r s
        | None \<Rightarrow> Inl (Panic ''Unhandled interrupt!'')
      else Inl OutOfBounds)"

section \<open>gdt.c\<close>

definition TSS_BLO :: "u64 \<Rightarrow> u64" where
  "TSS_BLO base = push_bit 16 (base AND 0xFFFF) OR push_bit 32 (drop_bit 16 base AND 0xFF) OR push_bit 56 (drop_bit 24 base AND 0xFF)"

definition TSS_BHI :: "u64 \<Rightarrow> u64" where
  "TSS_BHI base = drop_bit 32 base AND 0xFFFFFFFF"

definition TSS_LIM :: "u64 \<Rightarrow> u64" where
  "TSS_LIM lim = (lim AND 0xFFFF) OR push_bit 48 (drop_bit 16 lim AND 0xF)"

abbreviation (input) GDT_WRITE :: u64 where "GDT_WRITE \<equiv> push_bit 41 1"
abbreviation (input) GDT_EXECUTE :: u64 where "GDT_EXECUTE \<equiv> push_bit 43 1"
abbreviation (input) GDT_CODEDATA :: u64 where "GDT_CODEDATA \<equiv> push_bit 44 1"
abbreviation (input) GDT_PRESENT :: u64 where "GDT_PRESENT \<equiv> push_bit 47 1"
abbreviation (input) GDT_64BIT :: u64 where "GDT_64BIT \<equiv> push_bit 53 1"
abbreviation (input) GDT_RING3 :: u64 where "GDT_RING3 \<equiv> push_bit 45 3"
abbreviation (input) GDT_TSS :: u64 where "GDT_TSS \<equiv> push_bit 40 9"
abbreviation (input) SEG_TSS :: u64 where "SEG_TSS \<equiv> 0x28"

text \<open>Offsets of \<^verbatim>\<open>gdt\<close> and \<^verbatim>\<open>tss\<close> in \<^verbatim>\<open>cpu_t\<close>, and the size of \<^verbatim>\<open>tss_t\<close>, both packed.\<close>

abbreviation (input) GDT_OFFSET :: addr where "GDT_OFFSET \<equiv> 88"
abbreviation (input) TSS_OFFSET :: addr where "TSS_OFFSET \<equiv> 168"
abbreviation (input) TSS_SIZE :: u64 where "TSS_SIZE \<equiv> 104"

definition gdt_entries :: "addr \<Rightarrow> u64 list \<Rightarrow> u64 list" where
  "gdt_entries tss g =
     g[0 := 0,
       unat (SEG_KCODE div 8) := GDT_PRESENT OR GDT_CODEDATA OR GDT_WRITE OR GDT_EXECUTE OR GDT_64BIT,
       unat (SEG_KDATA div 8) := GDT_PRESENT OR GDT_CODEDATA OR GDT_WRITE,
       unat (SEG_UCODE div 8) := GDT_PRESENT OR GDT_CODEDATA OR GDT_WRITE OR GDT_EXECUTE OR GDT_64BIT OR GDT_RING3,
       unat (SEG_UDATA div 8) := GDT_PRESENT OR GDT_CODEDATA OR GDT_WRITE OR GDT_RING3,
       unat (SEG_TSS div 8) := GDT_PRESENT OR GDT_TSS OR TSS_BLO tss OR TSS_LIM TSS_SIZE,
       unat (SEG_TSS div 8) + 1 := TSS_BHI tss]"

definition gdt_init :: "('d, 'z) platform_scheme \<Rightarrow> ('d, 'z) platform_scheme" where
  "gdt_init s =
     (let c = cpus s ! this_cpu s;
          c = c\<lparr>io_mba := ucast TSS_SIZE, gdt := gdt_entries (self c + TSS_OFFSET) (gdt c),
                gdtp_len := 7 * 8 - 1, gdtp_addr := self c + GDT_OFFSET\<rparr>
      in s\<lparr>cpus := (cpus s)[this_cpu s := c], loaded_gdt := (gdtp_len c, gdtp_addr c), task_register := ucast SEG_TSS\<rparr>)"

section \<open>pic.c\<close>

definition irq_map_init :: "u32 list" where
  "irq_map_init = map of_nat [0..<24]"

definition pic_init :: "'d device \<Rightarrow> 'd \<Rightarrow> 'd" where
  "pic_init dev d =
     fold (\<lambda>(p, v). outb dev p v)
       [(0x20, 0x10 OR 0x01), (0xA0, 0x10 OR 0x01), (0x21, 0x20), (0xA1, 0x28), (0x21, 0x04), (0xA1, 0x02),
        (0x21, 0x01), (0xA1, 0x01), (0x21, 0xFF), (0xA1, 0xFF)] d"

section \<open>ioapic.c\<close>

abbreviation (input) IOAPIC_BASE :: addr where "IOAPIC_BASE \<equiv> 0xFEC00000"

definition ioregsel :: addr where "ioregsel = P2V IOAPIC_BASE"
definition iowin :: addr where "iowin = P2V (IOAPIC_BASE + 0x10)"

definition ioapic_read :: "'d mmio \<Rightarrow> u32 \<Rightarrow> 'd \<Rightarrow> u32 \<times> 'd" where
  "ioapic_read mm reg d = mm_read mm iowin (mm_write mm ioregsel reg d)"

definition ioapic_write :: "'d mmio \<Rightarrow> u32 \<Rightarrow> u32 \<Rightarrow> 'd \<Rightarrow> 'd" where
  "ioapic_write mm reg v d = mm_write mm iowin v (mm_write mm ioregsel reg d)"

text \<open>
  \<^verbatim>\<open>struct ioapic_redirection\<close> is a union of two words and eight bytes: \<^verbatim>\<open>vector\<close>, \<^verbatim>\<open>mode\<close> and
  \<^verbatim>\<open>mask\<close> are the bytes 0, 1 and 2 of the first word, \<^verbatim>\<open>target\<close> is byte 3 of the second.
\<close>

definition redir_byte :: "nat \<Rightarrow> u32 \<Rightarrow> u8" where
  "redir_byte i w = ucast (drop_bit (8 * i) w)"

definition set_redir_byte :: "nat \<Rightarrow> u8 \<Rightarrow> u32 \<Rightarrow> u32" where
  "set_redir_byte i b w = (w AND NOT (push_bit (8 * i) 0xFF)) OR push_bit (8 * i) (ucast b)"

definition ioapic_readv :: "'d mmio \<Rightarrow> u8 \<Rightarrow> 'd \<Rightarrow> (u32 \<times> u32) \<times> 'd" where
  "ioapic_readv mm irq d =
     (let (v0, d) = ioapic_read mm (0x10 + 2 * ucast irq) d; (v1, d) = ioapic_read mm (0x11 + 2 * ucast irq) d in ((v0, v1), d))"

definition ioapic_writev :: "'d mmio \<Rightarrow> u8 \<Rightarrow> u32 \<times> u32 \<Rightarrow> 'd \<Rightarrow> 'd" where
  "ioapic_writev mm irq v d = ioapic_write mm (0x11 + 2 * ucast irq) (snd v) (ioapic_write mm (0x10 + 2 * ucast irq) (fst v) d)"

definition ioapic_route :: "'d mmio \<Rightarrow> u8 \<Rightarrow> u8 \<Rightarrow> u8 \<Rightarrow> u8 \<Rightarrow> 'd \<Rightarrow> 'd" where
  "ioapic_route mm irq mode target vector d =
     (let ((v0, v1), d) = ioapic_readv mm irq d in
      ioapic_writev mm irq (set_redir_byte 1 mode (set_redir_byte 0 vector v0), set_redir_byte 3 target v1) d)"

definition ioapic_mask :: "'d mmio \<Rightarrow> u8 \<Rightarrow> 'd \<Rightarrow> 'd" where
  "ioapic_mask mm irq d =
     (let ((v0, v1), d) = ioapic_readv mm irq d in ioapic_writev mm irq (set_redir_byte 2 (redir_byte 2 v0 OR 1) v0, v1) d)"

definition ioapic_unmask :: "'d mmio \<Rightarrow> u8 \<Rightarrow> 'd \<Rightarrow> 'd" where
  "ioapic_unmask mm irq d =
     (let ((v0, v1), d) = ioapic_readv mm irq d in ioapic_writev mm irq (set_redir_byte 2 (redir_byte 2 v0 AND 0xFE) v0, v1) d)"

abbreviation (input) INT_IRQ0 :: u8 where "INT_IRQ0 \<equiv> 0x20"
abbreviation (input) IOAPIC_DEST_LOGICAL :: u8 where "IOAPIC_DEST_LOGICAL \<equiv> 0x8"
abbreviation (input) IOAPIC_DELIVERY_LOWEST :: u8 where "IOAPIC_DELIVERY_LOWEST \<equiv> 0x1"

definition ioapic_init :: "'d mmio \<Rightarrow> ('d, 'z) platform_scheme \<Rightarrow> ('d, 'z) platform_scheme res" where
  "ioapic_init mm s =
     bindR (vmm_set_page 0 (P2V IOAPIC_BASE) IOAPIC_BASE (PAGE_PRESENT OR PAGE_WRITE) s) (\<lambda>(_, s).
     Inr (upd_hw (fold (\<lambda>i. ioapic_route mm i (IOAPIC_DEST_LOGICAL OR IOAPIC_DELIVERY_LOWEST) 0xFF (INT_IRQ0 + i)) (map of_nat [0..<24])) s))"

section \<open>apic.c\<close>

definition APIC :: "addr \<Rightarrow> addr" where "APIC reg = P2V 0xFEE00000 + reg"

abbreviation (input) R_ID :: addr where "R_ID \<equiv> 0x020"
abbreviation (input) R_EOI :: addr where "R_EOI \<equiv> 0x0B0"
abbreviation (input) R_LDR :: addr where "R_LDR \<equiv> 0x0D0"
abbreviation (input) R_SPURIOUS :: addr where "R_SPURIOUS \<equiv> 0x0F0"
abbreviation (input) R_INT_CMD_LO :: addr where "R_INT_CMD_LO \<equiv> 0x300"
abbreviation (input) R_INT_CMD_HI :: addr where "R_INT_CMD_HI \<equiv> 0x310"
abbreviation (input) R_TIMER_LVT :: addr where "R_TIMER_LVT \<equiv> 0x320"
abbreviation (input) R_TIMER_INIT :: addr where "R_TIMER_INIT \<equiv> 0x380"
abbreviation (input) R_TIMER_CURR :: addr where "R_TIMER_CURR \<equiv> 0x390"
abbreviation (input) R_TIMER_DIV :: addr where "R_TIMER_DIV \<equiv> 0x3E0"
abbreviation (input) TIMER_DIV1 :: u32 where "TIMER_DIV1 \<equiv> 0xB"
abbreviation (input) LVT_MASKED :: u32 where "LVT_MASKED \<equiv> 0x10000"
abbreviation (input) INT_APIC_TIMER :: u32 where "INT_APIC_TIMER \<equiv> 0x40"

definition apic_interrupt :: "'d mmio \<Rightarrow> u8 \<Rightarrow> u8 \<Rightarrow> u8 \<Rightarrow> u8 \<Rightarrow> 'd \<Rightarrow> 'd" where
  "apic_interrupt mm destination level type vector d =
     (let data = push_bit 14 (ucast (level AND 1)) OR push_bit 8 (ucast (type AND 7)) OR ucast vector in
      mm_write mm (APIC R_INT_CMD_LO) data (mm_write mm (APIC R_INT_CMD_HI) (push_bit 24 (ucast destination)) d))"

definition apic_ack :: "'d mmio \<Rightarrow> 'd \<Rightarrow> 'd" where
  "apic_ack mm d = mm_write mm (APIC R_EOI) 0 d"

definition apic_timer_handler :: "'d mmio \<Rightarrow> registers_t \<Rightarrow> ('d, 'z) platform_scheme \<Rightarrow> (registers_t \<times> ('d, 'z) platform_scheme) res" where
  "apic_timer_handler mm r s = bindR (schedule (upd_hw (mm_write mm (APIC R_EOI) 0) s)) (\<lambda>s. Inr (r, s))"

definition apic_timer :: "'d mmio \<Rightarrow> u64 \<Rightarrow> ('d, 'z) platform_scheme \<Rightarrow> ('d, 'z) platform_scheme" where
  "apic_timer mm us s =
     upd_hw (mm_write mm (APIC R_TIMER_LVT) (0 OR INT_APIC_TIMER)
       \<circ> mm_write mm (APIC R_TIMER_INIT) (ucast (us * apic_ticks_per_us (cpus s ! this_cpu s)))
       \<circ> mm_write mm (APIC R_TIMER_DIV) TIMER_DIV1) s"

definition apic_timer_stop :: "'d mmio \<Rightarrow> 'd \<Rightarrow> 'd" where
  "apic_timer_stop mm d = mm_write mm (APIC R_TIMER_LVT) (LVT_MASKED OR INT_APIC_TIMER) d"

section \<open>pit.c\<close>

partial_function (option) ch2_wait :: "'d device \<Rightarrow> 'd \<Rightarrow> 'd option" where
  "ch2_wait dev d =
     (let (v, d) = inb dev 0x61 d in if v AND 0x20 = 0 then ch2_wait dev d else Some d)"

text \<open>\<^verbatim>\<open>PIT_FREQ * ms/1000\<close> is computed in \<^verbatim>\<open>int\<close>, where it fits for every \<^verbatim>\<open>uint8_t\<close>, and then cut to 16 bits.\<close>

definition delay_count :: "u8 \<Rightarrow> u16" where
  "delay_count ms = of_nat (1193182 * unat ms div 1000)"

definition delay :: "'d device \<Rightarrow> u8 \<Rightarrow> 'd \<Rightarrow> 'd res" where
  "delay dev ms d =
     (let (ch2, d) = inb dev 0x61 d;
          ch2 = ch2 AND NOT 1;
          d = outb dev 0x61 ch2 d;
          d = outb dev 0x43 (0x80 OR 0x30 OR 0) d;
          count = delay_count ms;
          d = outb dev 0x42 (ucast (count AND 0xFF)) d;
          d = outb dev 0x42 (ucast (drop_bit 8 count AND 0xFF)) d;
          ch2 = ch2 OR 1;
          d = outb dev 0x61 ch2 d
      in of_option Diverges (ch2_wait dev d))"

function pit_delay :: "'d device \<Rightarrow> u32 \<Rightarrow> 'd \<Rightarrow> 'd res" where
  "pit_delay dev ms d =
     (if 50 < ms then bindR (delay dev 50 d) (pit_delay dev (ms - 50))
      else if ms \<noteq> 0 then delay dev (ucast ms) d
      else Inr d)"
  by pat_completeness auto
termination
  by (relation "measure (\<lambda>(_, ms, _). unat ms)") (auto simp: word_less_nat_alt unat_sub_if')

declare pit_delay.simps [simp del]

definition timer_tick :: "'d mmio \<Rightarrow> registers_t \<Rightarrow> ('d, 'z) platform_scheme \<Rightarrow> registers_t \<times> ('d, 'z) platform_scheme" where
  "timer_tick mm r s = (let s = upd_hw (apic_ack mm) s in (r, s\<lparr>system_ticks := system_ticks s + 1\<rparr>))"

definition get_ticks :: "('d, 'z) platform_scheme \<Rightarrow> u64" where
  "get_ticks s = system_ticks s"

definition IRQ :: "nat \<Rightarrow> ('d, 'z) platform_scheme \<Rightarrow> u32 res" where
  "IRQ irq s = (if irq < length (irq_map s) then Inr (irq_map s ! irq) else Inl OutOfBounds)"

abbreviation (input) IRQ_TIMER :: nat where "IRQ_TIMER \<equiv> 0"

definition pit_init :: "'d device \<Rightarrow> 'd mmio \<Rightarrow> ('d, 'z) platform_scheme \<Rightarrow> ('d, 'z) platform_scheme res" where
  "pit_init dev mm s =
     bindR (IRQ IRQ_TIMER s) (\<lambda>irq.
     bindR (register_int_handler (unat (0x20 + irq)) (Some Timer_tick) s) (\<lambda>(_, s).
     let count = 1193182 div 1000 :: u16;
         s = upd_hw (outb dev 0x40 (ucast (drop_bit 8 count)) \<circ> outb dev 0x40 (ucast (count AND 0xFF)) \<circ> outb dev 0x43 (0x00 OR 0x30 OR push_bit 1 3)) s
     in Inr (upd_hw (ioapic_unmask mm (ucast irq)) s)))"

section \<open>The timer of the local APIC\<close>

definition calibrate_apic_timer :: "'d device \<Rightarrow> 'd mmio \<Rightarrow> u32 \<Rightarrow> 'd \<Rightarrow> (u32 \<times> 'd) res" where
  "calibrate_apic_timer dev mm resolution d =
     (let d = mm_write mm (APIC R_TIMER_DIV) TIMER_DIV1 d;
          d = mm_write mm (APIC R_TIMER_LVT) (LVT_MASKED OR INT_APIC_TIMER) d;
          d = mm_write mm (APIC R_TIMER_INIT) 0xFFFFFFFF d
      in bindR (pit_delay dev resolution d) (\<lambda>d.
         let (ticks, d) = mm_read mm (APIC R_TIMER_CURR) d in
         if resolution = 0 then Inl DivideError else Inr ((0xFFFFFFFF - ticks) div resolution div 1000, d)))"

abbreviation (input) MSR_APIC_BASE :: u32 where "MSR_APIC_BASE \<equiv> 0x1B"

definition apic_init :: "'d device \<Rightarrow> 'd mmio \<Rightarrow> ('d, 'z) platform_scheme \<Rightarrow> ('d, 'z) platform_scheme res" where
  "apic_init dev mm s =
     (let (v, d) = rdmsr mm MSR_APIC_BASE (hw (con s));
          s = upd_hw (\<lambda>_. wrmsr mm MSR_APIC_BASE (v OR 0x800) d) s
      in bindR (vmm_set_page 0 (P2V 0xFEE00000) 0xFEE00000 (PAGE_PRESENT OR PAGE_WRITE) s) (\<lambda>(_, s).
         let (w, d) = mm_read mm (APIC R_ID) (hw (con s));
             id = ucast (drop_bit 24 w) :: u8;
             d = (if id \<le> 0 then mm_write mm (APIC R_LDR) (push_bit (24 + unat id) 1) d else d);
             d = mm_write mm (APIC R_SPURIOUS) (0x100 OR 0xFF) d;
             d = mm_write mm (APIC R_EOI) 0 d
         in bindR (calibrate_apic_timer dev mm 100 d) (\<lambda>(t, d).
            let s = upd_hw (\<lambda>_. d) s;
                s = s\<lparr>cpus := (cpus s)[this_cpu s := (cpus s ! this_cpu s)\<lparr>apic_ticks_per_us := ucast t\<rparr>]\<rparr>
            in bindR (register_int_handler (unat INT_APIC_TIMER) (Some Apic_timer_handler) s) (\<lambda>(_, s). Inr s))))"

section \<open>Handlers\<close>

text \<open>The fault handler of \<^verbatim>\<open>vmm.c\<close>; \<open>cr2\<close> is the register with the faulting address.\<close>

definition page_fault_handler :: "addr \<Rightarrow> registers_t \<Rightarrow> ('d, 'z) platform_scheme \<Rightarrow> (registers_t \<times> ('d, 'z) platform_scheme) res" where
  "page_fault_handler cr2 r s =
     (if current_process (cpu s) \<noteq> 0 then
        bindR (obj (procs s) (current_process (cpu s))) (\<lambda>p.
        bindR (procmm_page_fault (pmmap p) cr2 s) (\<lambda>(ret, s). if ret then Inr (r, s) else Inl (Panic ''PAGE FAULT'')))
      else Inl (Panic ''PAGE FAULT''))"

definition vmm_init :: "('d, 'z) platform_scheme \<Rightarrow> ('d, 'z) platform_scheme res" where
  "vmm_init s = bindR (register_int_handler 0xE (Some Page_fault_handler) s) (\<lambda>(_, s). Inr s)"

definition run_handler :: "'d mmio \<Rightarrow> ('d, 'z) platform_scheme handler option list \<Rightarrow> addr \<Rightarrow> int_fn \<Rightarrow> registers_t \<Rightarrow> ('d, 'z) platform_scheme
    \<Rightarrow> (registers_t \<times> ('d, 'z) platform_scheme) res" where
  "run_handler mm calls cr2 h =
     (case h of Page_fault_handler \<Rightarrow> page_fault_handler cr2 | Timer_tick \<Rightarrow> (\<lambda>r s. Inr (timer_tick mm r s))
      | Apic_timer_handler \<Rightarrow> apic_timer_handler mm | Syscall_handler \<Rightarrow> syscall_handler calls)"

section \<open>Gates\<close>

text \<open>How the processor puts the address of a handler together.\<close>

definition gate_vector :: "int_gate_descriptor \<Rightarrow> addr" where
  "gate_vector g = push_bit 32 (ucast (base_h g)) OR push_bit 16 (ucast (base_m g)) OR ucast (base_l g)"

lemma mask16_u64: "(0xFFFF :: u64) = mask 16" "(0xFFFFFFFF :: u64) = mask 32" "(0xFF :: u64) = mask 8" "(0xF :: u64) = mask 4"
  by (simp_all add: mask_eq_exp_minus_1)

lemma gate_vector_split:
  "push_bit 32 (ucast (ucast (drop_bit 32 v AND 0xFFFFFFFF) :: u32)) OR push_bit 16 (ucast (ucast (drop_bit 16 v AND 0xFFFF) :: u16))
     OR ucast (ucast (v AND 0xFFFF) :: u16) = (v :: u64)" (is "?l = v")
proof (rule bit_word_eqI)
  fix n assume "n < LENGTH(64)"
  consider "n < 16" | "16 \<le> n" "n < 32" | "32 \<le> n" by linarith
  then show "bit ?l n = bit v n" using \<open>n < LENGTH(64)\<close> by cases (auto simp: bit_simps mask16_u64)
qed

lemma bindR_foldR_Nil [simp]: "bindR r (foldR f []) = r"
  by (cases r) auto

lemma foldR_idt_set:
  assumes "n \<le> length t"
  shows "foldR (\<lambda>i. idt_set i (f i) sel stk fl) [0..<n] t = Inr (map (\<lambda>i. int_gate (f i) sel stk fl) [0..<n] @ drop n t)"
  using assms
proof (induction n)
  case (Suc n)
  let ?g = "\<lambda>i. int_gate (f i) sel stk fl"
  have "foldR (\<lambda>i. idt_set i (f i) sel stk fl) [0..<Suc n] t = idt_set n (f n) sel stk fl (map ?g [0..<n] @ drop n t)"
    using Suc by (simp add: foldR_append)
  moreover have "(map ?g [0..<n] @ drop n t)[n := ?g n] = map ?g [0..<Suc n] @ drop (Suc n) t"
    using Suc.prems by (simp add: list_update_append Cons_nth_drop_Suc [symmetric])
  moreover have "n < length (map ?g [0..<n] @ drop n t)" using Suc.prems by simp
  ultimately show ?case by (simp only: idt_set_def [of n] if_True)
qed simp

text \<open>
  The first \<^verbatim>\<open>interrupt_init\<close> makes all 256 gates: the address that the processor puts
  together from the three parts of gate \<open>i\<close> is word \<open>i\<close> of the table of entry points, in the code
  segment of the kernel, present, for ring 0, with interrupts off. No handler is registered, and the
  table is loaded with its size and address. A later call, of another CPU, only loads it again.
\<close>

theorem interrupt_init_gates:
  assumes "idtr_addr s = 0" and "idt_base \<noteq> 0"
  shows "\<exists>s'. interrupt_init idt_base isr_table s = Inr s' \<and> length (idt s') = 256
    \<and> (\<forall>i < 256. gate_vector (idt s' ! i) = isr_table i \<and> gate_cs (idt s' ! i) = ucast SEG_KCODE \<and> ist (idt s' ! i) = 0
         \<and> gate_flags (idt s' ! i) = 0x8E)
    \<and> int_handlers s' = replicate 256 None \<and> loaded_idt s' = (0xFFF, idt_base) \<and> interrupt_init idt_base isr_table s' = Inr s'"
proof -
  define t0 where "t0 = replicate NUM_INTERRUPTS zero_gate"
  have l: "length t0 = 256" by (simp add: t0_def)
  define t where "t = map (\<lambda>i. int_gate (isr_table i) 8 0 0x8E) [0..<256]"
  have t: "foldR (\<lambda>i. idt_set i (isr_table i) 8 0 0x8E) [0..<256] t0 = Inr t"
    using foldR_idt_set [of 256 t0 isr_table 8 0 "0x8E"] l by (simp add: t_def del: upt_rec_numeral)
  define s' where "s' = s\<lparr>idt := t, int_handlers := replicate NUM_INTERRUPTS None, idtr_addr := idt_base, idtr_len := 0xFFF, loaded_idt := (0xFFF, idt_base)\<rparr>"
  have "interrupt_init idt_base isr_table s = Inr s'"
    using assms(1) t by (simp add: interrupt_init_def s'_def Let_def flip: t0_def del: upt_rec_numeral)
  moreover have "gate_vector (t ! i) = isr_table i \<and> gate_cs (t ! i) = 8 \<and> ist (t ! i) = 0 \<and> gate_flags (t ! i) = 0x8E" if "i < 256" for i
    using that gate_vector_split [of "isr_table i"] by (simp add: t_def int_gate_def gate_vector_def del: upt_rec_numeral)
  moreover have "interrupt_init idt_base isr_table s' = Inr s'"
    using assms(2) by (simp add: interrupt_init_def s'_def)
  moreover have "length t = 256" by (simp add: t_def del: upt_rec_numeral)
  ultimately show ?thesis by (simp add: s'_def)
qed

text \<open>
  Registering a handler returns the previous one and changes that vector only: from then on
  interrupt \<open>n\<close> runs the new handler, every other interrupt what it ran before, and one without a
  handler ends in the panic loop. Registering the returned handler again restores the table.
\<close>

theorem register_int_handler_dispatch:
  assumes "platform_wf s" and "n < 256"
  shows "\<exists>s'. register_int_handler n h s = Inr (int_handlers s ! n, s') \<and> platform_wf s'
    \<and> (\<forall>run r. unat (int_no r) < 256 \<longrightarrow> int_handler run r s' =
         (case (if unat (int_no r) = n then h else int_handlers s ! unat (int_no r)) of
            Some f \<Rightarrow> run f r s' | None \<Rightarrow> Inl (Panic ''Unhandled interrupt!'')))
    \<and> register_int_handler n (int_handlers s ! n) s' = Inr (h, s)"
  using assms by (auto simp: register_int_handler_def platform_wf_def int_handler_def Let_def split: option.splits)

lemma platform_wf_upd_cpu: "platform_wf s \<Longrightarrow> length (gdt c) = 7 \<Longrightarrow> platform_wf (s\<lparr>cpus := (cpus s)[i := c]\<rparr>)"
  using set_update_subset_insert [of "cpus s" i c] by (fastforce simp: platform_wf_def)

section \<open>Segments\<close>

text \<open>How the processor reads a descriptor.\<close>

definition seg_base :: "u64 \<Rightarrow> u64 \<Rightarrow> addr" where
  "seg_base lo hi = push_bit 32 (hi AND 0xFFFFFFFF) OR push_bit 24 (drop_bit 56 lo AND 0xFF) OR push_bit 16 (drop_bit 32 lo AND 0xFF)
     OR (drop_bit 16 lo AND 0xFFFF)"

definition seg_limit :: "u64 \<Rightarrow> u64" where
  "seg_limit lo = push_bit 16 (drop_bit 48 lo AND 0xF) OR (lo AND 0xFFFF)"

definition seg_present :: "u64 \<Rightarrow> bool" where "seg_present d \<longleftrightarrow> bit d 47"
definition seg_dpl :: "u64 \<Rightarrow> u64" where "seg_dpl d = drop_bit 45 d AND 3"
definition seg_type :: "u64 \<Rightarrow> u64" where "seg_type d = drop_bit 40 d AND 0x1F"
definition seg_long :: "u64 \<Rightarrow> bool" where "seg_long d \<longleftrightarrow> bit d 53"

lemma TSS_BLO_bit: "bit (TSS_BLO base) n \<longleftrightarrow> 16 \<le> n \<and> n < 40 \<and> bit base (n - 16) \<or> 56 \<le> n \<and> n < 64 \<and> bit base (n - 32)"
proof -
  consider "n < 16" | "16 \<le> n" "n < 32" | "32 \<le> n" "n < 40" | "40 \<le> n" "n < 56" | "56 \<le> n" "n < 64" | "64 \<le> n" by linarith
  then show ?thesis by cases (auto simp: TSS_BLO_def bit_simps mask16_u64)
qed

lemma TSS_BLO_fields:
  "drop_bit 40 (TSS_BLO b) AND 0x1F = 0" "drop_bit 45 (TSS_BLO b) AND 3 = 0" "\<not> bit (TSS_BLO b) 47" "\<not> bit (TSS_BLO b) 53"
  "drop_bit 48 (TSS_BLO b) AND 0xF = 0" "TSS_BLO b AND 0xFFFF = 0"
proof -
  have m: "(0x1F :: u64) = mask 5" "(3 :: u64) = mask 2" by (simp_all add: mask_eq_exp_minus_1)
  show "drop_bit 40 (TSS_BLO b) AND 0x1F = 0" "drop_bit 45 (TSS_BLO b) AND 3 = 0" "\<not> bit (TSS_BLO b) 47" "\<not> bit (TSS_BLO b) 53"
    "drop_bit 48 (TSS_BLO b) AND 0xF = 0" "TSS_BLO b AND 0xFFFF = 0"
    by (auto simp: TSS_BLO_bit m mask16_u64 bit_eq_iff bit_and_iff bit_drop_bit_eq bit_mask_iff)
qed

lemma seg_base_TSS: "seg_base (TSS_BLO b) (TSS_BHI b) = b"
proof (rule bit_word_eqI)
  fix n assume "n < LENGTH(64)"
  consider "n < 16" | "16 \<le> n" "n < 24" | "24 \<le> n" "n < 32" | "32 \<le> n" by linarith
  then show "bit (seg_base (TSS_BLO b) (TSS_BHI b)) n = bit b n" using \<open>n < LENGTH(64)\<close>
    by cases (auto simp: seg_base_def TSS_BHI_def TSS_BLO_bit bit_simps mask16_u64)
qed

text \<open>
  C36. After \<^verbatim>\<open>gdt_init\<close> the processor reads the descriptors as meant: the selectors of the kernel
  are ring 0 segments and those of user programs ring 3, code is 64-bit code, and the task state
  descriptor, over two entries, points to the task state of the executing CPU, whatever its address.
\<close>

theorem gdt_init_descriptors:
  assumes "platform_wf s" and "c = cpus s ! this_cpu s"
  shows "\<exists>g. cpus (gdt_init s) ! this_cpu s = c\<lparr>io_mba := 104, gdt := g, gdtp_len := 55, gdtp_addr := self c + GDT_OFFSET\<rparr> \<and> length g = 7
    \<and> g ! 0 = 0
    \<and> seg_present (g ! 1) \<and> seg_type (g ! 1) = 0x1A \<and> seg_dpl (g ! 1) = 0 \<and> seg_long (g ! 1)
    \<and> seg_present (g ! 2) \<and> seg_type (g ! 2) = 0x12 \<and> seg_dpl (g ! 2) = 0
    \<and> seg_present (g ! 3) \<and> seg_type (g ! 3) = 0x12 \<and> seg_dpl (g ! 3) = 3
    \<and> seg_present (g ! 4) \<and> seg_type (g ! 4) = 0x1A \<and> seg_dpl (g ! 4) = 3 \<and> seg_long (g ! 4)
    \<and> seg_present (g ! 5) \<and> seg_type (g ! 5) = 9 \<and> seg_dpl (g ! 5) = 0
    \<and> seg_base (g ! 5) (g ! 6) = self c + TSS_OFFSET \<and> seg_limit (g ! 5) = 104
    \<and> loaded_gdt (gdt_init s) = (55, self c + GDT_OFFSET) \<and> task_register (gdt_init s) = 0x28 \<and> platform_wf (gdt_init s)"
proof -
  let ?b = "self c + 168"
  define g where "g = gdt_entries ?b (gdt c)"
  have l: "length (gdt c) = 7" and n: "this_cpu s < length (cpus s)" using assms by (simp_all add: platform_wf_def)
  have g: "length g = 7" "g ! 0 = 0" "g ! 1 = 0x20980000000000 OR 0x20000000000" "g ! 2 = 0x920000000000"
      "g ! 3 = 0xF20000000000" "g ! 4 = 0x20FA0000000000" "g ! 5 = 0x800000000000 OR 0x90000000000 OR TSS_BLO ?b OR 0x68" "g ! 6 = TSS_BHI ?b"
    using l by (simp_all add: g_def gdt_entries_def TSS_LIM_def)
  have t: "seg_base (g ! 5) (g ! 6) = ?b"
    using seg_base_TSS [of ?b] by (simp add: seg_base_def g drop_bit_or bit.conj_disj_distrib2)
  have "seg_limit (g ! 5) = 104" "seg_type (g ! 5) = 9" "seg_dpl (g ! 5) = 0" "seg_present (g ! 5)"
    using TSS_BLO_fields [of ?b] by (simp_all add: seg_limit_def seg_type_def seg_dpl_def seg_present_def g drop_bit_or bit.conj_disj_distrib2 bit_or_iff)
  moreover have "platform_wf (gdt_init s)"
    using platform_wf_upd_cpu [OF assms(1), of "c\<lparr>io_mba := 104, gdt := g, gdtp_len := 55, gdtp_addr := self c + GDT_OFFSET\<rparr>"] g(1) assms(2)
    by (simp add: platform_wf_def gdt_init_def Let_def g_def)
  moreover have "gdt_init s = s\<lparr>cpus := (cpus s)[this_cpu s := c\<lparr>io_mba := 104, gdt := g, gdtp_len := 55, gdtp_addr := self c + GDT_OFFSET\<rparr>],
      loaded_gdt := (55, self c + GDT_OFFSET), task_register := 0x28\<rparr>"
    using assms(2) by (simp add: gdt_init_def Let_def g_def)
  ultimately show ?thesis
    using n t g(1-6) by (intro exI [of _ g]) (simp add: seg_type_def seg_dpl_def seg_present_def seg_long_def)
qed

section \<open>The I/O APIC\<close>

lemma mask8_u32: "(0xFF :: u32) = mask 8"
  by (simp add: mask_eq_exp_minus_1)

lemma bit_set_redir_byte: "i < 4 \<Longrightarrow> bit (set_redir_byte i b w) n \<longleftrightarrow> n < 32 \<and> (if n div 8 = i then bit b (n mod 8) else bit w n)"
proof -
  assume i: "i < 4"
  have "8 * i \<le> n \<and> n - 8 * i < 8 \<longleftrightarrow> n div 8 = i" by (auto simp: div_nat_eqI)
  moreover have "n div 8 = i \<Longrightarrow> n - 8 * i = n mod 8" by (simp add: minus_mult_div_eq_mod [symmetric])
  ultimately show ?thesis using i bit_imp_le_length [of b "n - 8 * i"] bit_imp_le_length [of w n]
    by (auto simp: set_redir_byte_def bit_simps mask8_u32)
qed

lemma bit_redir_byte: "i < 4 \<Longrightarrow> bit (redir_byte i w) n \<longleftrightarrow> n < 8 \<and> bit w (8 * i + n)"
  by (auto simp: redir_byte_def bit_simps)

lemma redir_byte_set_byte: "i < 4 \<Longrightarrow> j < 4 \<Longrightarrow> redir_byte i (set_redir_byte j b w) = (if i = j then b else redir_byte i w)"
  by (rule bit_word_eqI) (auto simp: bit_redir_byte bit_set_redir_byte)

text \<open>The mask bit of an entry.\<close>

definition mask_bit :: u32 where "mask_bit = push_bit 16 1"

lemma bit_mask_bit: "bit mask_bit n \<longleftrightarrow> n = 16"
proof -
  have "bit (push_bit 16 1 :: u32) n \<longleftrightarrow> 16 \<le> n \<and> n < 32 \<and> bit (1 :: u32) (n - 16)" by (simp only: bit_push_bit_iff) auto
  then show ?thesis by (auto simp only: mask_bit_def bit_1_iff)
qed

lemma bit_0xFE: "bit (0xFE :: u8) n \<longleftrightarrow> n \<noteq> 0 \<and> n < 8"
proof -
  have "(0xFE :: u8) = NOT 1" by simp
  then show ?thesis by (simp only: bit_not_iff bit_1_iff) auto
qed

lemma set_redir_byte_bit16:
  "set_redir_byte 2 (redir_byte 2 w OR 1) w = w OR mask_bit" "set_redir_byte 2 (redir_byte 2 w AND 0xFE) w = w AND NOT mask_bit"
proof -
  have m: "16 + n mod 8 = n" "n mod 8 = 0 \<longleftrightarrow> n = 16" if "n div 8 = 2" for n :: nat
    using that by presburger+
  have k: "bit w n \<Longrightarrow> n < 32" for n using bit_imp_le_length [of w n] by simp
  show "set_redir_byte 2 (redir_byte 2 w OR 1) w = w OR mask_bit"
    by (rule bit_word_eqI) (auto simp: bit_set_redir_byte bit_redir_byte bit_or_iff bit_1_iff bit_mask_bit m)
  have "bit (set_redir_byte 2 (redir_byte 2 w AND 0xFE) w) n = bit (w AND NOT mask_bit) n" if "n < 32" for n
  proof (cases "n div 8 = 2")
    case True
    then show ?thesis using m [OF True] that
      by (simp only: bit_set_redir_byte bit_redir_byte bit_and_iff bit_0xFE bit_mask_bit bit_not_iff) (auto simp: bit_mask_bit)
  qed (use that in \<open>auto simp: bit_set_redir_byte bit_and_iff bit_not_iff bit_mask_bit\<close>)
  then show "set_redir_byte 2 (redir_byte 2 w AND 0xFE) w = w AND NOT mask_bit" by (intro bit_word_eqI) simp
qed

text \<open>The two registers of the redirection entry of an interrupt.\<close>

definition redir_lo :: "u8 \<Rightarrow> u32" where "redir_lo irq = 0x10 + 2 * ucast irq"
definition redir_hi :: "u8 \<Rightarrow> u32" where "redir_hi irq = 0x11 + 2 * ucast irq"

lemma unat_redir: "unat (redir_lo i) = 16 + 2 * unat i" "unat (redir_hi i) = 17 + 2 * unat i"
proof -
  have "unat (ucast i :: u32) = unat i" by (simp add: unsigned_ucast_eq take_bit_nat_eq_self order_less_trans [OF unsigned_less])
  moreover have "unat i < 256" using unsigned_less [of i] by simp
  ultimately show "unat (redir_lo i) = 16 + 2 * unat i" "unat (redir_hi i) = 17 + 2 * unat i"
    by (simp_all add: redir_lo_def redir_hi_def unat_word_ariths)
qed

lemma redir_neq: "redir_lo i \<noteq> redir_hi j" "redir_hi j \<noteq> redir_lo i" "redir_lo i = redir_lo j \<longleftrightarrow> i = j" "redir_hi i = redir_hi j \<longleftrightarrow> i = j"
proof -
  show lh: "redir_lo i \<noteq> redir_hi j"
  proof
    assume "redir_lo i = redir_hi j"
    then have "16 + 2 * unat i = 17 + 2 * unat j" using unat_redir by metis
    then show False by presburger
  qed
  then show "redir_hi j \<noteq> redir_lo i" by (rule not_sym)
  show "redir_lo i = redir_lo j \<longleftrightarrow> i = j" "redir_hi i = redir_hi j \<longleftrightarrow> i = j"
    by (simp_all add: word_unat_eq_iff [of "redir_lo i"] word_unat_eq_iff [of "redir_hi i"] unat_redir word_unat_eq_iff [of i j])
qed

text \<open>
  What the driver relies on: a register, chosen by a write to the select register, is read and written
  through the window. Two bits of an entry, delivery status and remote IRR, keep their value on a write.
\<close>

definition ro_bits :: u32 where "ro_bits = 0x5000"

locale ioapic_chip =
  fixes mm :: "'d mmio" and reg :: "'d \<Rightarrow> u32 \<Rightarrow> u32"
  assumes read_window: "fst (mm_read mm iowin (mm_write mm ioregsel r d)) = reg d r"
    and read_keeps: "reg (snd (mm_read mm iowin (mm_write mm ioregsel r d))) = reg d"
    and write_window: "reg (mm_write mm iowin v (mm_write mm ioregsel r d)) = (reg d)(r := (v AND NOT ro_bits) OR (reg d r AND ro_bits))"
begin

lemma readv: "\<exists>d'. ioapic_readv mm irq d = ((reg d (redir_lo irq), reg d (redir_hi irq)), d') \<and> reg d' = reg d"
  using read_window [of "redir_lo irq" d] read_keeps [of "redir_lo irq" d]
    read_window [of "redir_hi irq" "snd (mm_read mm iowin (mm_write mm ioregsel (redir_lo irq) d))"]
    read_keeps [of "redir_hi irq" "snd (mm_read mm iowin (mm_write mm ioregsel (redir_lo irq) d))"]
  by (auto simp: ioapic_readv_def ioapic_read_def Let_def case_prod_beta redir_lo_def redir_hi_def intro: prod_eqI)

lemma writev:
  "reg (ioapic_writev mm irq v d) = (reg d)(redir_lo irq := (fst v AND NOT ro_bits) OR (reg d (redir_lo irq) AND ro_bits),
     redir_hi irq := (snd v AND NOT ro_bits) OR (reg d (redir_hi irq) AND ro_bits))"
  using redir_neq(1) [of irq irq]
  by (simp add: ioapic_writev_def ioapic_write_def write_window flip: redir_lo_def redir_hi_def)

lemma ro_merge: "(x AND NOT ro_bits) OR (x AND ro_bits) = x" "((x OR mask_bit) AND NOT ro_bits) OR (x AND ro_bits) = x OR mask_bit"
  "(x AND NOT mask_bit AND NOT ro_bits) OR (x AND ro_bits) = x AND NOT mask_bit"
proof -
  have r: "\<not> bit ro_bits 16" by (simp add: ro_bits_def)
  show "(x AND NOT ro_bits) OR (x AND ro_bits) = x" "((x OR mask_bit) AND NOT ro_bits) OR (x AND ro_bits) = x OR mask_bit"
    "(x AND NOT mask_bit AND NOT ro_bits) OR (x AND ro_bits) = x AND NOT mask_bit"
    by (rule bit_word_eqI; use r in \<open>auto simp: bit_mask_bit bit_and_iff bit_or_iff bit_not_iff\<close>)+
qed

lemma mask_reg: "reg (ioapic_mask mm irq d) = (reg d)(redir_lo irq := reg d (redir_lo irq) OR mask_bit)"
proof -
  obtain d' where "ioapic_readv mm irq d = ((reg d (redir_lo irq), reg d (redir_hi irq)), d')" "reg d' = reg d" using readv by blast
  then show ?thesis by (simp add: ioapic_mask_def writev set_redir_byte_bit16 ro_merge fun_upd_idem redir_neq)
qed

lemma unmask_reg: "reg (ioapic_unmask mm irq d) = (reg d)(redir_lo irq := reg d (redir_lo irq) AND NOT mask_bit)"
proof -
  obtain d' where "ioapic_readv mm irq d = ((reg d (redir_lo irq), reg d (redir_hi irq)), d')" "reg d' = reg d" using readv by blast
  then show ?thesis by (simp add: ioapic_unmask_def writev set_redir_byte_bit16 ro_merge fun_upd_idem redir_neq and.assoc)
qed

lemma route_reg: "reg (ioapic_route mm irq mode target vector d) =
    (reg d)(redir_lo irq := (set_redir_byte 1 mode (set_redir_byte 0 vector (reg d (redir_lo irq))) AND NOT ro_bits) OR (reg d (redir_lo irq) AND ro_bits),
            redir_hi irq := (set_redir_byte 3 target (reg d (redir_hi irq)) AND NOT ro_bits) OR (reg d (redir_hi irq) AND ro_bits))"
proof -
  obtain d' where "ioapic_readv mm irq d = ((reg d (redir_lo irq), reg d (redir_hi irq)), d')" "reg d' = reg d" using readv by blast
  then show ?thesis by (simp add: ioapic_route_def writev)
qed

lemma route_other:
  "irq \<noteq> j \<Longrightarrow> reg (ioapic_route mm irq mode target vector d) (redir_lo j) = reg d (redir_lo j)"
  "irq \<noteq> j \<Longrightarrow> reg (ioapic_route mm irq mode target vector d) (redir_hi j) = reg d (redir_hi j)"
  "r \<noteq> redir_lo irq \<Longrightarrow> r \<noteq> redir_hi irq \<Longrightarrow> reg (ioapic_route mm irq mode target vector d) r = reg d r"
  by (simp_all add: route_reg redir_neq)

lemma fold_route:
  assumes "distinct irqs"
  shows "reg (fold (\<lambda>i. ioapic_route mm i mode target (vec i)) irqs d) =
    (\<lambda>r. case find (\<lambda>i. r = redir_lo i \<or> r = redir_hi i) irqs of None \<Rightarrow> reg d r | Some i \<Rightarrow> reg (ioapic_route mm i mode target (vec i) d) r)"
  using assms
proof (induction irqs arbitrary: d)
  case (Cons i irqs)
  let ?d = "ioapic_route mm i mode target (vec i) d"
  have "find (\<lambda>i. r = redir_lo i \<or> r = redir_hi i) irqs = None" if "r = redir_lo i \<or> r = redir_hi i" for r
    using that Cons.prems by (auto simp: find_None_iff redir_neq)
  moreover have "reg (ioapic_route mm j mode target (vec j) ?d) r = reg (ioapic_route mm j mode target (vec j) d) r"
    if "find (\<lambda>i. r = redir_lo i \<or> r = redir_hi i) irqs = Some j" for r j
  proof -
    from that Cons.prems have "j \<noteq> i" "r = redir_lo j \<or> r = redir_hi j" by (auto simp: find_Some_iff)
    then show ?thesis by (auto simp: route_reg redir_neq)
  qed
  ultimately show ?case using Cons by (fastforce simp: route_other split: option.splits)
qed simp

end

section \<open>Mapping keeps the rest of the state\<close>

definition pmm_only :: "'z pmm_scheme \<Rightarrow> 'z pmm_scheme \<Rightarrow> bool" where
  "pmm_only s s' \<longleftrightarrow> s' = s\<lparr>kmem := kmem s', pmm_running := pmm_running s', pmm_pos := pmm_pos s', pmm_stack := pmm_stack s'\<rparr>"

lemma pmm_only_refl [simp]: "pmm_only s s"
  by (simp add: pmm_only_def)

lemma pmm_only_kmem [simp]: "pmm_only s (s'\<lparr>kmem := m\<rparr>) \<longleftrightarrow> pmm_only s s'"
  by (cases s, cases s') (simp add: pmm_only_def)

lemma pmm_only_trans: "pmm_only s s1 \<Longrightarrow> pmm_only s1 s2 \<Longrightarrow> pmm_only s s2"
  by (cases s, cases s1, cases s2) (simp add: pmm_only_def)

lemma pmm_only_alloc: "pmm_alloc s = Inr (p, s') \<Longrightarrow> pmm_only s s'"
  by (cases s) (auto simp: pmm_alloc_def pmm_only_def Let_def res_simps split: if_splits)

lemma pmm_only_next_table: "vmm_next_table t i touch s = Inr (r, s') \<Longrightarrow> pmm_only s s'"
  by (auto simp: vmm_next_table_def Let_def res_simps dest!: pmm_only_alloc split: if_splits)

lemma pmm_only_find_page: "vmm_find_page P4 va touch s = Inr (r, s') \<Longrightarrow> pmm_only s s'"
  by (auto simp: vmm_find_page_def Let_def res_simps split: option.splits dest!: pmm_only_next_table; meson pmm_only_trans)

lemma pmm_only_set_page: "vmm_set_page P4 va p fl s = Inr (r, s') \<Longrightarrow> pmm_only s s'"
  by (auto simp: vmm_set_page_def Let_def res_simps split: if_splits dest!: pmm_only_find_page)

lemma pmm_only_platform:
  fixes s s' :: "('d, 'z) platform_scheme"
  assumes "pmm_only s s'"
  shows "con s' = con s" "idt s' = idt s" "int_handlers s' = int_handlers s" "irq_map s' = irq_map s" "cpus s' = cpus s" "num_cpu s' = num_cpu s"
    "this_cpu s' = this_cpu s"
  by (subst assms [unfolded pmm_only_def], simp)+

text \<open>Mapping a page whose tables exist is one store.\<close>

lemma vmm_set_page_mapped:
  fixes s :: "'z vmm_scheme"
  assumes "page_aligned va" "load64 (kmem s) (BootP4 s + 8 * P4_OFFSET va) = e1" "e1 \<noteq> 0"
    "load64 (kmem s) (P2V (STRIP_FLAGS e1) + 8 * P3_OFFSET va) = e2" "e2 \<noteq> 0"
    "load64 (kmem s) (P2V (STRIP_FLAGS e2) + 8 * P2_OFFSET va) = e3" "e3 \<noteq> 0" "P2V (STRIP_FLAGS e3) \<noteq> 0"
  shows "vmm_set_page 0 va p fl s
    = Inr (ADD_FLAGS p fl, s\<lparr>kmem := store64 (kmem s) (P2V (STRIP_FLAGS e3) + 8 * P1_OFFSET va) (ADD_FLAGS p fl)\<rparr>)"
proof -
  have "va AND NOT 0xFFF = va" using STRIP_aligned [OF assms(1)] by (simp add: STRIP_FLAGS_def)
  then show ?thesis
    using assms(2-) by (simp add: vmm_set_page_def vmm_find_page_def vmm_next_table_def GET_P4_def Let_def)
qed

section \<open>Routing\<close>

lemma find_same: "x \<in> set xs \<Longrightarrow> find (\<lambda>y. y = x) xs = Some x"
  by (induction xs) auto

lemma redir_byte_merge: "i < 4 \<Longrightarrow> redir_byte i ((v AND NOT m) OR (w AND m)) = (redir_byte i v AND NOT (redir_byte i m)) OR (redir_byte i w AND redir_byte i m)"
proof (rule bit_word_eqI)
  fix n assume "i < 4" and "n < LENGTH(8)"
  then have "8 * i + n < 32" by simp
  with \<open>i < 4\<close> \<open>n < LENGTH(8)\<close>
  show "bit (redir_byte i ((v AND NOT m) OR (w AND m))) n = bit ((redir_byte i v AND NOT (redir_byte i m)) OR (redir_byte i w AND redir_byte i m)) n"
    by (simp add: bit_redir_byte bit_and_iff bit_or_iff bit_not_iff)
qed

context ioapic_chip
begin

lemma init_routes:
  fixes i :: u8
  assumes "i < 24"
    and d': "d' = fold (\<lambda>i. ioapic_route mm i (IOAPIC_DEST_LOGICAL OR IOAPIC_DELIVERY_LOWEST) 0xFF (INT_IRQ0 + i)) (map of_nat [0..<24]) d"
  shows "redir_byte 0 (reg d' (redir_lo i)) = 0x20 + i" "redir_byte 1 (reg d' (redir_lo i)) AND 0xAF = 9"
    "redir_byte 2 (reg d' (redir_lo i)) = redir_byte 2 (reg d (redir_lo i))" "redir_byte 3 (reg d' (redir_hi i)) = 0xFF"
proof -
  let ?irqs = "map of_nat [0..<24] :: u8 list"
  have u: "unat (of_nat k :: u8) = k" if "k < 24" for k using that by (simp add: unat_of_nat)
  have "inj_on (of_nat :: nat \<Rightarrow> u8) {0..<24}"
  proof (rule inj_onI)
    fix x y :: nat assume a: "x \<in> {0..<24}" "y \<in> {0..<24}" "(of_nat x :: u8) = of_nat y"
    from a(3) have "unat (of_nat x :: u8) = unat (of_nat y :: u8)" by (rule arg_cong)
    then show "x = y" using a(1,2) by (simp only: u atLeastLessThan_iff)
  qed
  then have dist: "distinct ?irqs" by (simp add: distinct_map del: upt_rec_numeral)
  have mem: "i \<in> set ?irqs"
  proof -
    have "unat i \<in> {0..<24}" using assms(1) by (simp add: word_less_nat_alt)
    then have "of_nat (unat i) \<in> (of_nat :: nat \<Rightarrow> u8) ` {0..<24}" by (rule imageI)
    then show ?thesis by (simp only: of_nat_unat ucast_id list.set_map set_upt)
  qed
  have f: "find (\<lambda>k. redir_lo i = redir_lo k \<or> redir_lo i = redir_hi k) ?irqs = Some i"
    "find (\<lambda>k. redir_hi i = redir_lo k \<or> redir_hi i = redir_hi k) ?irqs = Some i"
  proof -
    have "(\<lambda>k. redir_lo i = redir_lo k \<or> redir_lo i = redir_hi k) = (\<lambda>k. k = i)" "(\<lambda>k. redir_hi i = redir_lo k \<or> redir_hi i = redir_hi k) = (\<lambda>k. k = i)"
      by (auto simp: redir_neq)
    then show "find (\<lambda>k. redir_lo i = redir_lo k \<or> redir_lo i = redir_hi k) ?irqs = Some i"
      "find (\<lambda>k. redir_hi i = redir_lo k \<or> redir_hi i = redir_hi k) ?irqs = Some i"
      by (simp_all only: find_same [OF mem])
  qed
  have lo: "reg d' (redir_lo i) = (set_redir_byte 1 9 (set_redir_byte 0 (0x20 + i) (reg d (redir_lo i))) AND NOT ro_bits) OR (reg d (redir_lo i) AND ro_bits)"
    and hi: "reg d' (redir_hi i) = (set_redir_byte 3 0xFF (reg d (redir_hi i)) AND NOT ro_bits) OR (reg d (redir_hi i) AND ro_bits)"
    unfolding d' fold_route [OF dist] f by (simp_all add: route_reg redir_neq)
  have ro: "redir_byte 0 ro_bits = 0" "redir_byte 1 ro_bits = 0x50" "redir_byte 2 ro_bits = 0" "redir_byte 3 ro_bits = 0"
    by (simp_all add: ro_bits_def redir_byte_def)
  show "redir_byte 0 (reg d' (redir_lo i)) = 0x20 + i" "redir_byte 2 (reg d' (redir_lo i)) = redir_byte 2 (reg d (redir_lo i))"
    "redir_byte 3 (reg d' (redir_hi i)) = 0xFF"
    by (simp_all add: lo hi redir_byte_merge redir_byte_set_byte ro)
  show "redir_byte 1 (reg d' (redir_lo i)) AND 0xAF = 9"
    by (simp add: lo redir_byte_merge redir_byte_set_byte ro bit.conj_disj_distrib2 and.assoc del: One_nat_def)
qed

end

text \<open>
  C37. With an I/O APIC that keeps the contract, \<^verbatim>\<open>ioapic_init\<close> routes each of the 24 inputs \<open>i\<close>
  to vector \<open>0x20 + i\<close> of all CPUs, with lowest priority delivery to logical destinations (outside the
  two bits that only the chip writes), and leaves its mask as it was.
\<close>

theorem ioapic_init_routes:
  assumes "ioapic_chip mm reg" and "ioapic_init mm s = Inr s'" and "i < 24"
  shows "redir_byte 0 (reg (hw (con s')) (redir_lo i)) = 0x20 + i \<and> redir_byte 1 (reg (hw (con s')) (redir_lo i)) AND 0xAF = 9
    \<and> redir_byte 2 (reg (hw (con s')) (redir_lo i)) = redir_byte 2 (reg (hw (con s)) (redir_lo i)) \<and> redir_byte 3 (reg (hw (con s')) (redir_hi i)) = 0xFF"
proof -
  obtain r s1 where s1: "vmm_set_page 0 (P2V IOAPIC_BASE) IOAPIC_BASE (PAGE_PRESENT OR PAGE_WRITE) s = Inr (r, s1)"
    and s': "s' = upd_hw (fold (\<lambda>i. ioapic_route mm i (IOAPIC_DEST_LOGICAL OR IOAPIC_DELIVERY_LOWEST) 0xFF (INT_IRQ0 + i)) (map of_nat [0..<24])) s1"
    using assms(2) by (auto simp: ioapic_init_def res_simps)
  have "hw (con s1) = hw (con s)" using pmm_only_platform(1) [OF pmm_only_set_page [OF s1]] by simp
  then have "hw (con s') = fold (\<lambda>i. ioapic_route mm i (IOAPIC_DEST_LOGICAL OR IOAPIC_DELIVERY_LOWEST) 0xFF (INT_IRQ0 + i)) (map of_nat [0..<24]) (hw (con s))"
    using s' by simp
  from ioapic_chip.init_routes [OF assms(1,3) this] show ?thesis by blast
qed

text \<open>
  \<^verbatim>\<open>ioapic_mask\<close> sets the mask bit of the entry of one input and \<^verbatim>\<open>ioapic_unmask\<close> clears it, and
  they change no other bit of any register: one undoes the other on an entry that had the bit that way.
\<close>

theorem ioapic_mask_unmask:
  assumes "ioapic_chip mm reg"
  shows "reg (ioapic_mask mm irq d) = (reg d)(redir_lo irq := reg d (redir_lo irq) OR push_bit 16 1)
    \<and> reg (ioapic_unmask mm irq d) = (reg d)(redir_lo irq := reg d (redir_lo irq) AND NOT (push_bit 16 1))
    \<and> (\<not> bit (reg d (redir_lo irq)) 16 \<longrightarrow> reg (ioapic_unmask mm irq (ioapic_mask mm irq d)) = reg d)"
proof -
  note m = ioapic_chip.mask_reg [OF assms] and u = ioapic_chip.unmask_reg [OF assms]
  have "(w OR mask_bit) AND NOT mask_bit = w" if "\<not> bit w 16" for w :: u32
    using that by (intro bit_word_eqI) (auto simp: bit_and_iff bit_or_iff bit_not_iff bit_mask_bit)
  then show ?thesis unfolding mask_bit_def [symmetric] using m u by (auto simp: fun_upd_idem)
qed

type_synonym sim_ioapic = "u32 \<times> (u32 \<Rightarrow> u32)"

definition sim_mmio :: "sim_ioapic mmio" where
  "sim_mmio = \<lparr>mm_read = (\<lambda>a d. (if a = iowin then snd d (fst d) else 0, d)),
     mm_write = (\<lambda>a v (sel, regs). if a = ioregsel then (v, regs)
        else if a = iowin then (sel, regs(sel := (v AND NOT ro_bits) OR (regs sel AND ro_bits))) else (sel, regs)),
     rdmsr = (\<lambda>_ d. (0, d)), wrmsr = (\<lambda>_ _ d. d)\<rparr>"

lemma iowin_neq: "iowin \<noteq> ioregsel"
  by (simp add: iowin_def ioregsel_def)

interpretation sim_chip: ioapic_chip sim_mmio snd
  by unfold_locales (auto simp: sim_mmio_def iowin_neq)

theorem ioapic_mask_unmask_witness:
  "snd (ioapic_mask sim_mmio 4 (0, \<lambda>_. 0x24)) 0x18 = 0x10024 \<and> snd (ioapic_mask sim_mmio 4 (0, \<lambda>_. 0x24)) 0x16 = 0x24"
  using ioapic_mask_unmask [OF sim_chip.ioapic_chip_axioms, of 4 "(0, \<lambda>_. 0x24)"] by (simp add: redir_lo_def)

definition example_platform :: "'d \<Rightarrow> 'd platform" where
  "example_platform d = machine.extend (kernel.extend (upd_cpu (\<lambda>c. c\<lparr>current_process := 0x500\<rparr>) example_parent)
       \<lparr>con = \<lparr>hw = d, vbuffer = replicate VGA_SIZE 0, vidmem = replicate VGA_SIZE 0, cursor_x = 0, cursor_y = 0, style = 7\<rparr>, drives = []\<rparr>)
     \<lparr>idt = replicate 256 zero_gate, idtr_len = 0, idtr_addr = 0, int_handlers = replicate 256 None, irq_map = irq_map_init, system_ticks = 0,
      cpus = replicate 64 \<lparr>self = 0x7000, cpu_id = 0, apic_id = 0, apic_ticks_per_us = 0, is_bsp = 1, current_state = 3, ap_stack = 0, gdt = replicate 7 0,
        gdtp_len = 0, gdtp_addr = 0, io_mba = 0\<rparr>,
      num_cpu = 1, this_cpu = 0, loaded_idt = (0, 0), loaded_gdt = (0, 0), task_register = 0\<rparr>"

lemma example_platform_wf: "platform_wf (example_platform d)"
proof -
  have "length irq_map_init = 24" by (simp add: irq_map_init_def del: upt_rec_numeral)
  then show ?thesis by (simp add: platform_wf_def example_platform_def machine.defs kernel.defs)
qed

theorem interrupt_init_gates_witness:
  "\<exists>s'. interrupt_init 0x9000 (\<lambda>i. 0xFFFFFF8000100000 + 16 * of_nat i) (example_platform ()) = Inr s'
     \<and> gate_vector (idt s' ! 14) = 0xFFFFFF80001000E0 \<and> gate_flags (idt s' ! 14) = 0x8E \<and> loaded_idt s' = (0xFFF, 0x9000)"
proof -
  have "idtr_addr (example_platform ()) = 0" by (simp add: example_platform_def machine.defs)
  then obtain s' where s': "interrupt_init 0x9000 (\<lambda>i. 0xFFFFFF8000100000 + 16 * of_nat i) (example_platform ()) = Inr s'"
    "\<And>i. i < 256 \<Longrightarrow> gate_vector (idt s' ! i) = 0xFFFFFF8000100000 + 16 * of_nat i \<and> gate_flags (idt s' ! i) = 0x8E" "loaded_idt s' = (0xFFF, 0x9000)"
    using interrupt_init_gates [of "example_platform ()" "0x9000" "\<lambda>i. 0xFFFFFF8000100000 + 16 * of_nat i"] by auto
  from s'(1,3) s'(2) [of 14] show ?thesis by auto
qed

theorem register_int_handler_dispatch_witness:
  "\<exists>s'. register_int_handler 14 (Some Page_fault_handler) (example_platform ()) = Inr (None, s')
     \<and> int_handler (\<lambda>h r s. Inr (r, s)) (zero_registers\<lparr>int_no := 14\<rparr>) s' = Inr (zero_registers\<lparr>int_no := 14\<rparr>, s')"
proof -
  have "int_handlers (example_platform ()) ! 14 = None" by (simp add: example_platform_def machine.defs)
  then show ?thesis
    using register_int_handler_dispatch [OF example_platform_wf [of "()"], of 14 "Some Page_fault_handler"] by fastforce
qed

theorem gdt_init_descriptors_witness:
  "seg_base (gdt (cpus (gdt_init (example_platform ())) ! 0) ! 5) (gdt (cpus (gdt_init (example_platform ())) ! 0) ! 6) = 0x70A8
   \<and> seg_dpl (gdt (cpus (gdt_init (example_platform ())) ! 0) ! 4) = 3"
proof -
  have e: "this_cpu (example_platform ()) = 0" "self (cpus (example_platform ()) ! 0) = 0x7000"
    by (simp_all add: example_platform_def machine.defs)
  show ?thesis using gdt_init_descriptors [OF example_platform_wf refl, of "()"] e by fastforce
qed

text \<open>Tables with the frame of the page of the I/O APIC.\<close>

definition ioapic_tables :: mem where
  "ioapic_tables = store64 (store64 (store64 (\<lambda>_. 0) (P2V 0x2000 + 8 * 511) 0x3003) (P2V 0x3000 + 8 * 3) 0x4003) (P2V 0x4000 + 8 * 0x1F6) 0x5003"

lemma ioapic_tables_walk:
  "load64 ioapic_tables (P2V 0x2000 + 8 * 511) = 0x3003" "load64 ioapic_tables (P2V 0x3000 + 8 * 3) = 0x4003"
  "load64 ioapic_tables (P2V 0x4000 + 8 * 0x1F6) = 0x5003"
proof -
  have sl: "load64 (store64 m (P2V a + 8 * i) v) (P2V b + 8 * j) = (if a = b \<and> i = j then v else load64 m (P2V b + 8 * j))"
    if "page_aligned a" "page_aligned b" "unat i < 512" "unat j < 512" for m a b i j v
    using load64_slot [of "P2V a" "P2V b" i j] that by simp
  have u: "unat (511::addr) < 512" "unat (3::addr) < 512" "unat (0x1F6::addr) < 512"
    "(0x4000::addr) \<noteq> 0x3000" "(0x4000::addr) \<noteq> 0x2000" "(0x3000::addr) \<noteq> 0x2000"
    by simp_all
  show "load64 ioapic_tables (P2V 0x2000 + 8 * 511) = 0x3003" "load64 ioapic_tables (P2V 0x3000 + 8 * 3) = 0x4003"
    "load64 ioapic_tables (P2V 0x4000 + 8 * 0x1F6) = 0x5003"
    unfolding ioapic_tables_def by (simp_all only: sl example_frame_facts u simp_thms if_True if_False)
qed

theorem ioapic_init_routes_witness:
  "\<exists>s'. ioapic_init sim_mmio ((example_platform (0, \<lambda>_. 0x10000))\<lparr>kmem := ioapic_tables\<rparr>) = Inr s'
     \<and> redir_byte 0 (snd (hw (con s')) 0x18) = 0x24 \<and> redir_byte 2 (snd (hw (con s')) 0x18) = 1"
proof -
  let ?s = "(example_platform (0 :: u32, \<lambda>_ :: u32. 0x10000 :: u32))\<lparr>kmem := ioapic_tables\<rparr>"
  have o: "page_aligned (P2V 0xFEC00000)" "P4_OFFSET (P2V 0xFEC00000) = 511" "P3_OFFSET (P2V 0xFEC00000) = 3" "P2_OFFSET (P2V 0xFEC00000) = 0x1F6"
    "STRIP_FLAGS 0x3003 = 0x3000" "STRIP_FLAGS 0x4003 = 0x4000" "P2V (STRIP_FLAGS 0x5003) \<noteq> 0"
    by (simp_all add: page_aligned_def P4_OFFSET_def P3_OFFSET_def P2_OFFSET_def STRIP_FLAGS_def P2V_def KERNEL_OFFSET_def)
  have b: "BootP4 ?s = P2V 0x2000" "kmem ?s = ioapic_tables" "hw (con ?s) = (0, \<lambda>_. 0x10000)"
    by (simp_all add: example_platform_def machine.defs kernel.defs example_parent_def example_kernel_def procmm.defs example_procmm_def example_vmm_def pmm_free_def Let_def)
  have "\<exists>s'. ioapic_init sim_mmio ?s = Inr s'"
    using vmm_set_page_mapped [of "P2V 0xFEC00000" ?s "0x3003" "0x4003" "0x5003"] o b ioapic_tables_walk by (simp add: ioapic_init_def)
  then obtain s' where s': "ioapic_init sim_mmio ?s = Inr s'" by blast
  have "redir_byte 2 0x10000 = 1" by (simp add: redir_byte_def)
  with s' ioapic_init_routes [OF sim_chip.ioapic_chip_axioms s', of 4] b(3) show ?thesis by (auto simp: redir_lo_def)
qed

section \<open>Delays\<close>

text \<open>The parts that a delay is cut into.\<close>

definition pit_chunks :: "u32 \<Rightarrow> u8 list" where
  "pit_chunks ms = (if ms = 0 then [] else replicate ((unat ms - 1) div 50) 50 @ [of_nat ((unat ms - 1) mod 50 + 1)])"

lemma pit_chunks_step: "50 < ms \<Longrightarrow> pit_chunks ms = 50 # pit_chunks (ms - 50)"
proof -
  assume "50 < ms"
  then have u: "unat (ms - 50) = unat ms - 50" "50 < unat ms" by (simp_all add: unat_sub word_less_nat_alt word_le_nat_alt)
  then have "unat ms - 1 = (unat (ms - 50) - 1) + 50" by simp
  then have "(unat ms - 1) div 50 = Suc ((unat (ms - 50) - 1) div 50)" "(unat ms - 1) mod 50 = (unat (ms - 50) - 1) mod 50" by simp_all
  moreover have "ms - 50 \<noteq> 0" "ms \<noteq> 0" using u by auto
  ultimately show ?thesis by (simp add: pit_chunks_def del: right_minus_eq)
qed

lemma pit_delay_foldR: "pit_delay dev ms d = foldR (delay dev) (pit_chunks ms) d"
proof (induction dev ms d rule: pit_delay.induct)
  case (1 dev ms d)
  show ?case
  proof (cases "50 < ms")
    case True
    then show ?thesis using 1 by (subst pit_delay.simps) (auto simp: pit_chunks_step split: bindR_split)
  next
    case False
    then have "unat ms \<le> 50" by (simp add: word_less_nat_alt)
    moreover have "ms \<noteq> 0 \<Longrightarrow> 0 < unat ms" by (simp add: unat_gt_0)
    moreover have "(of_nat (unat ms) :: u8) = ucast ms" by simp
    ultimately show ?thesis using False by (subst pit_delay.simps) (auto simp: pit_chunks_def div_eq_0_iff)
  qed
qed

text \<open>
  C39. \<^verbatim>\<open>pit_delay\<close> of any time is a sequence of \<^verbatim>\<open>delay\<close>s that add up to it, each of 1 to 50 ms,
  for which the 16-bit count of the channel is the exact number of periods and does not wrap.
\<close>

theorem pit_delay_chunks:
  "pit_delay dev ms d = foldR (delay dev) (pit_chunks ms) d \<and> sum_list (map unat (pit_chunks ms)) = unat ms
   \<and> set (pit_chunks ms) \<subseteq> {c. 0 < unat c \<and> unat c \<le> 50 \<and> unat (delay_count c) = 1193182 * unat c div 1000}"
proof -
  have last: "unat (of_nat (Suc ((unat ms - 1) mod 50)) :: u8) = Suc ((unat ms - 1) mod 50)"
  proof -
    have "Suc ((unat ms - 1) mod 50) < 256" using mod_less_divisor [of 50 "unat ms - 1"] by linarith
    then show ?thesis by (simp only: unat_of_nat) simp
  qed
  have "sum_list (map unat (pit_chunks ms)) = unat ms"
  proof (cases "ms = 0")
    case False
    then have "0 < unat ms" by (simp add: unat_gt_0)
    moreover have "sum_list (map unat (pit_chunks ms)) = (unat ms - 1) div 50 * 50 + Suc ((unat ms - 1) mod 50)"
      using False last by (simp add: pit_chunks_def sum_list_replicate)
    ultimately show ?thesis by simp
  qed (simp add: pit_chunks_def)
  moreover have "0 < unat c \<and> unat c \<le> 50" if "c \<in> set (pit_chunks ms)" for c
    using that last mod_less_divisor [of 50 "unat ms - 1"] by (auto simp: pit_chunks_def split: if_splits)
  moreover have "unat (delay_count c) = 1193182 * unat c div 1000" if "unat c \<le> 50" for c
  proof -
    have "1193182 * unat c div 1000 \<le> 1193182 * 50 div 1000" using that by (intro div_le_mono) simp
    then have "1193182 * unat c div 1000 < 65536" by simp
    then show ?thesis by (simp only: delay_count_def unat_of_nat) simp
  qed
  ultimately have "set (pit_chunks ms) \<subseteq> {c. 0 < unat c \<and> unat c \<le> 50 \<and> unat (delay_count c) = 1193182 * unat c div 1000}" by auto
  with \<open>sum_list (map unat (pit_chunks ms)) = unat ms\<close> show ?thesis by (simp only: pit_delay_foldR simp_thms)
qed

text \<open>From 55 ms on the count would not fit.\<close>

lemma delay_count_wraps: "unat (delay_count 55) = 1193182 * 55 div 1000 - 65536"
  by (simp add: delay_count_def)

section \<open>Page faults\<close>

text \<open>
  C30. A page fault of a user program just below its stack, from the interrupt to the page table: with the
  handler that \<^verbatim>\<open>vmm_init\<close> registers, the dispatcher resumes the program with the same registers,
  and the faulting page, and no other page, is mapped to a free frame. A fault elsewhere ends in the panic loop.
\<close>

theorem page_fault_interrupt:
  assumes "int_handlers s ! 14 = Some Page_fault_handler" "platform_wf s" and r: "int_no r = 14"
    and p: "current_process (cpu s) \<noteq> 0" "procs s (current_process (cpu s)) = Some p"
    and ok: "mmap_ok s (pmmap p) m xs fs" and st: "mm_stack m \<noteq> 0" "mareas s (mm_stack m) = Some ar"
    and start: "PAGE_SIZE \<le> area_start ar" "area_start ar \<le> USERSPACE_TOP" and fs: "fs = f # fs'" "3 \<le> length fs'"
  shows "if cr2 \<ge> KERNEL_OFFSET \<or> cr2 + PAGE_SIZE < area_start ar then int_handler (run_handler mm calls cr2) r s = Inl (Panic ''PAGE FAULT'')
    else \<exists>s'. int_handler (run_handler mm calls cr2) r s = Inr (r, s')
      \<and> (\<forall>va. va < USERSPACE_TOP \<longrightarrow> vmm_get_page (mm_P4 m) va s' =
           (if STRIP_FLAGS va = STRIP_FLAGS (area_start ar - PAGE_SIZE) then Inr (user_page f) else vmm_get_page (mm_P4 m) va s))"
proof -
  have i: "int_handler (run_handler mm calls cr2) r s =
      bindR (procmm_page_fault (pmmap p) cr2 s) (\<lambda>(ret, s). if ret then Inr (r, s) else Inl (Panic ''PAGE FAULT''))"
    using assms(1,2) p r by (simp add: int_handler_def run_handler_def page_fault_handler_def platform_wf_def obj_def)
  show ?thesis
  proof (cases "cr2 \<ge> KERNEL_OFFSET \<or> cr2 + PAGE_SIZE < area_start ar")
    case True
    then have "procmm_page_fault (pmmap p) cr2 s = Inr (False, s)" using ok st by (auto simp: procmm_page_fault_def mmap_ok_def obj_def)
    with True i show ?thesis by simp
  next
    case False
    from page_fault_step [OF ok st start fs False] i False show ?thesis by auto
  qed
qed

definition null_mmio :: "'d mmio" where
  "null_mmio = \<lparr>mm_read = (\<lambda>_ d. (0, d)), mm_write = (\<lambda>_ _ d. d), rdmsr = (\<lambda>_ d. (0, d)), wrmsr = (\<lambda>_ _ d. d)\<rparr>"

definition example_fault :: "unit platform" where
  "example_fault = (example_platform ())\<lparr>int_handlers := (replicate 256 None)[14 := Some Page_fault_handler], mareas := mareas example_stack\<rparr>"

theorem page_fault_interrupt_witness:
  "\<exists>s'. int_handler (run_handler null_mmio [] (USERSPACE_TOP - 8)) (zero_registers\<lparr>int_no := 14\<rparr>) example_fault = Inr (zero_registers\<lparr>int_no := 14\<rparr>, s')
     \<and> vmm_get_page 0x4000 (USERSPACE_TOP - 8) s' = Inr (user_page (hd example_frames))"
proof -
  note h = example_stack_facts
  have fl: "kmem example_fault = kmem example_stack" "pmm_running example_fault = pmm_running example_stack" "pmm_stack example_fault = pmm_stack example_stack"
    "mmaps example_fault = mmaps example_stack" "mareas example_fault = mareas example_stack" "alinks example_fault = alinks example_stack"
    "BootP4 example_fault = BootP4 example_stack" "avail example_fault = avail example_stack"
    by (simp_all add: example_fault_def example_platform_def machine.defs kernel.defs example_parent_def example_kernel_def procmm.defs example_stack_def)
  have ok: "mmap_ok example_fault KERNEL_HEAP_S example_mmap [] example_frames"
    using h(1) fl by (simp add: mmap_ok_def vmm_inv_def pmm_inv_def)
  have p: "current_process (cpu example_fault) = 0x500" "\<exists>p. procs example_fault 0x500 = Some p \<and> pmmap p = KERNEL_HEAP_S"
    by (simp_all add: example_fault_def example_platform_def machine.defs kernel.defs example_parent_def example_kernel_def procmm.defs example_process_def)
  then obtain p where p': "procs example_fault 0x500 = Some p" "pmmap p = KERNEL_HEAP_S" by blast
  have wf: "platform_wf example_fault" "int_handlers example_fault ! 14 = Some Page_fault_handler"
    using example_platform_wf [of "()"] by (simp_all add: platform_wf_def example_fault_def)
  have c: "\<not> (KERNEL_OFFSET \<le> USERSPACE_TOP - 8 \<or> USERSPACE_TOP - 8 + PAGE_SIZE < USERSPACE_TOP)" "USERSPACE_TOP - 8 < USERSPACE_TOP"
    "STRIP_FLAGS (USERSPACE_TOP - 8) = STRIP_FLAGS (USERSPACE_TOP - PAGE_SIZE)"
    by (simp_all add: KERNEL_OFFSET_def USERSPACE_TOP_def STRIP_FLAGS_def word_le_nat_alt word_less_nat_alt)
  have st: "mareas example_fault (mm_stack example_mmap) = Some \<lparr>area_start = USERSPACE_TOP, area_end = USERSPACE_TOP, area_flags = 0, area_map = KERNEL_HEAP_S\<rparr>"
    using h(3) fl by simp
  have ok': "mmap_ok example_fault (pmmap p) example_mmap [] example_frames" "current_process (cpu example_fault) \<noteq> 0"
    "procs example_fault (current_process (cpu example_fault)) = Some p" using ok p(1) p' by simp_all
  show ?thesis
    using page_fault_interrupt [OF wf(2,1) _ ok'(2,3,1) h(2) st _ _ h(6,7), where r = "zero_registers\<lparr>int_no := 14\<rparr>" and ?cr2.0 = "USERSPACE_TOP - 8"
        and mm = null_mmio and calls = "[]"] h(4,5) c by auto
qed

end
