(* ===== verification/Startup.thy ===== *)
theory Startup
  imports Boot Interrupts
begin

text \<open>
  Processors: \<^verbatim>\<open>kernel/arch/acpi.c\<close>, which finds them in the tables of the firmware,
  \<^verbatim>\<open>kernel/cpu/cpu.c\<close> and \<^verbatim>\<open>kernel/cpu/smp.c\<close>, which start them, and the part of
  \<^verbatim>\<open>syscall_init\<close> that sets registers. The structures of \<^verbatim>\<open>acpi.h\<close> are packed, so a field is a
  read of memory at its offset. A string literal is given by its address. Messages and the setup of
  the SSE unit, which is assembly, are left out.
\<close>

section \<open>cpu_add\<close>

record 'd startup = "'d platform" +
  ap_gs_base :: addr
  all_ap_started :: bool
  syscall_installed :: bool

abbreviation (input) CPU_STOPPED :: u64 where "CPU_STOPPED \<equiv> 0"
abbreviation (input) CPU_SIPI_SENT :: u64 where "CPU_SIPI_SENT \<equiv> 1"
abbreviation (input) CPU_SIPI_REC :: u64 where "CPU_SIPI_REC \<equiv> 2"
abbreviation (input) CPU_STARTED :: u64 where "CPU_STARTED \<equiv> 3"
abbreviation (input) CPU_FAILED :: u64 where "CPU_FAILED \<equiv> 4"
abbreviation (input) MAX_NUMCPU :: nat where "MAX_NUMCPU \<equiv> 64"

text \<open>\<open>cpus_base\<close> is the address of the array \<^verbatim>\<open>cpus\<close>; a \<^verbatim>\<open>cpu_t\<close> has 272 bytes.\<close>

definition cpu_add :: "addr \<Rightarrow> u64 \<Rightarrow> u64 \<Rightarrow> ('d, 'z) platform_scheme \<Rightarrow> ('d, 'z) platform_scheme res" where
  "cpu_add cpus_base cid apic s =
     (if num_cpu s \<ge> MAX_NUMCPU then Inr s
      else
        let n = num_cpu s;
            c = \<lparr>self = cpus_base + 272 * of_nat n, cpu_id = cid, apic_id = apic, apic_ticks_per_us = 0, is_bsp = (if n \<noteq> 0 then 0 else 1),
                 current_state = (if n \<noteq> 0 then CPU_STOPPED else CPU_STARTED), ap_stack = 0, gdt = replicate 7 0, gdtp_len = 0, gdtp_addr = 0, io_mba = 0\<rparr>
        in bindR (if n \<noteq> 0 then bindR (new_addr s) (\<lambda>(a, s). Inr (a + PAGE_SIZE, s)) else Inr (0, s)) (\<lambda>(stack, s).
           Inr (s\<lparr>cpus := (cpus s)[n := c\<lparr>ap_stack := stack\<rparr>], num_cpu := n + 1\<rparr>)))"

section \<open>acpi.c\<close>

text \<open>The sum of the first 20 bytes, modulo 256.\<close>

definition checksum20 :: "mem \<Rightarrow> addr \<Rightarrow> u8" where
  "checksum20 m p = fold (\<lambda>i c. c + m (p + of_nat i)) [0..<20] 0"

function find_rsdp_loop :: "mem \<Rightarrow> addr \<Rightarrow> addr \<Rightarrow> addr" where
  "find_rsdp_loop m lit p =
     (if p < KERNEL_OFFSET + 0xFFFFF then
        if memcmp m p lit 8 = 0 \<and> checksum20 m p = 0 then p else find_rsdp_loop m lit (p + 16)
      else p)"
  by pat_completeness auto
termination
proof (relation "measure (\<lambda>(_, _, p). unat (KERNEL_OFFSET + 0xFFFFF) - unat p)")
  fix m lit p assume "p < KERNEL_OFFSET + 0xFFFFF"
  then have "unat p < unat (KERNEL_OFFSET + 0xFFFFF)" "unat (p + 16) = unat p + 16"
    by (simp_all add: word_less_nat_alt KERNEL_OFFSET_def unat_plus_if')
  then show "((m, lit, p + 16), m, lit, p) \<in> measure (\<lambda>(_, _, p). unat (KERNEL_OFFSET + 0xFFFFF) - unat p)" by simp
qed simp

declare find_rsdp_loop.simps [simp del]

definition find_rsdp :: "mem \<Rightarrow> addr \<Rightarrow> addr" where
  "find_rsdp m lit =
     (let p = find_rsdp_loop m lit (KERNEL_OFFSET + 0xE0000) in if KERNEL_OFFSET + 0xFFFFF \<le> p then 0 else p)"

text \<open>\<^verbatim>\<open>entries\<close> is the 64-bit quotient cut to \<^verbatim>\<open>int\<close>; the index is an \<^verbatim>\<open>unsigned int\<close>.\<close>

definition sdt_entries :: "mem \<Rightarrow> addr \<Rightarrow> u32 \<Rightarrow> int" where
  "sdt_entries m rsdt bpp = sint (ucast ((ucast (load32 m (rsdt + 4)) - 36 :: u64) div ucast bpp) :: u32)"

definition sdt_entry :: "mem \<Rightarrow> addr \<Rightarrow> u32 \<Rightarrow> int \<Rightarrow> addr" where
  "sdt_entry m rsdt bpp i =
     (let a = rsdt + 36 + ucast (of_int i * bpp) in if bpp = 4 then P2V (ucast (load32 m a)) else P2V (load64 m a))"

function find_SDT_loop :: "mem \<Rightarrow> addr \<Rightarrow> addr \<Rightarrow> u32 \<Rightarrow> int \<Rightarrow> int \<Rightarrow> addr" where
  "find_SDT_loop m signature rsdt bpp i entries =
     (if i < entries then
        let h = sdt_entry m rsdt bpp i in
        if memcmp m h signature 4 = 0 then h else find_SDT_loop m signature rsdt bpp (i + 1) entries
      else 0)"
  by pat_completeness auto
termination
  by (relation "measure (\<lambda>(_, _, _, _, i, e). nat (e - i))") auto

declare find_SDT_loop.simps [simp del]

definition find_SDT :: "mem \<Rightarrow> addr \<Rightarrow> addr \<Rightarrow> addr" where
  "find_SDT m rsdp signature =
     (let bpp = (if m (rsdp + 15) = 0 then 4 else 8) :: u32;
          rsdt = (if bpp = 4 then P2V (ucast (load32 m (rsdp + 16))) else P2V (load64 m (rsdp + 24)))
      in find_SDT_loop m signature rsdt bpp 0 (sdt_entries m rsdt bpp))"

text \<open>The body of the loop over the fields of the MADT.\<close>

definition madt_field :: "addr \<Rightarrow> addr \<Rightarrow> ('d, 'z) platform_scheme \<Rightarrow> ('d, 'z) platform_scheme res" where
  "madt_field cpus_base f s =
     (let m = kmem s; t = m f in
      if t = 0 then
        (if load32 m (f + 4) AND 1 \<noteq> 0 then cpu_add cpus_base (ucast (m (f + 2))) (ucast (m (f + 3))) s else Inr s)
      else if t = 2 then
        (if unat (m (f + 3)) < length (irq_map s) then Inr (s\<lparr>irq_map := (irq_map s)[unat (m (f + 3)) := load32 m (f + 4)]\<rparr>) else Inl OutOfBounds)
      else Inr s)"

partial_function (option) parse_MADT_loop :: "addr \<Rightarrow> addr \<Rightarrow> addr \<Rightarrow> ('d, 'z) platform_scheme \<Rightarrow> ('d, 'z) platform_scheme res option" where
  "parse_MADT_loop cpus_base e f s =
     (if f < e \<and> kmem s (f + 1) \<noteq> 0 then
        case madt_field cpus_base f s of
          Inl err \<Rightarrow> Some (Inl err)
        | Inr s \<Rightarrow> parse_MADT_loop cpus_base e (f + ucast (kmem s (f + 1))) s
      else Some (Inr s))"

definition parse_MADT :: "addr \<Rightarrow> addr \<Rightarrow> ('d, 'z) platform_scheme \<Rightarrow> ('d, 'z) platform_scheme res" where
  "parse_MADT cpus_base header s =
     (if header = 0 then Inl NullDeref
      else
        let madt = header + 36 in
        case parse_MADT_loop cpus_base (madt + ucast (load32 (kmem s) (header + 4))) (madt + 8) s of None \<Rightarrow> Inl Diverges | Some r \<Rightarrow> r)"

definition acpi_init :: "addr \<Rightarrow> addr \<Rightarrow> addr \<Rightarrow> addr \<Rightarrow> ('d, 'z) platform_scheme \<Rightarrow> ('d, 'z) platform_scheme res" where
  "acpi_init lit_rsd lit_apic cpus_base mboot_rsdp s =
     (let rsdp = (if mboot_rsdp \<noteq> 0 then mboot_rsdp else find_rsdp (kmem s) lit_rsd) in
      if rsdp = 0 then Inl (Panic ''ACPI - No RSDP found!'')
      else parse_MADT cpus_base (find_SDT (kmem s) rsdp lit_apic) s)"

section \<open>Finding tables\<close>

definition rsdp_at :: "mem \<Rightarrow> addr \<Rightarrow> addr \<Rightarrow> bool" where
  "rsdp_at m lit p \<longleftrightarrow> memcmp m p lit 8 = 0 \<and> checksum20 m p = 0"

text \<open>The 16-byte aligned addresses of the BIOS area.\<close>

definition rsdp_place :: "nat \<Rightarrow> addr" where
  "rsdp_place i = KERNEL_OFFSET + 0xE0000 + 16 * of_nat i"

lemma unat_rsdp_place: "i \<le> 8192 \<Longrightarrow> unat (rsdp_place i) = 0xFFFFFF80000E0000 + 16 * i"
proof -
  assume i: "i \<le> 8192"
  then have "unat (16 * of_nat i :: addr) = 16 * i" by (simp add: unat_word_ariths unat_of_nat)
  then show ?thesis using i unat_add_eq [of "0xFFFFFF80000E0000" "16 * of_nat i"] by (simp add: rsdp_place_def KERNEL_OFFSET_def)
qed

lemma rsdp_place_range: "i < 8192 \<Longrightarrow> rsdp_place i < KERNEL_OFFSET + 0xFFFFF" "\<not> rsdp_place 8192 < KERNEL_OFFSET + 0xFFFFF"
  "rsdp_place i + 16 = rsdp_place (Suc i)"
proof -
  have e: "unat (KERNEL_OFFSET + 0xFFFFF) = 0xFFFFFF80000FFFFF" by (simp add: KERNEL_OFFSET_def)
  show "i < 8192 \<Longrightarrow> rsdp_place i < KERNEL_OFFSET + 0xFFFFF" unfolding word_less_nat_alt e by (subst unat_rsdp_place) auto
  show "\<not> rsdp_place 8192 < KERNEL_OFFSET + 0xFFFFF" unfolding word_less_nat_alt e by (subst unat_rsdp_place) auto
  show "rsdp_place i + 16 = rsdp_place (Suc i)" by (simp add: rsdp_place_def algebra_simps)
qed

lemma find_rsdp_loop_from:
  "n \<le> 8192 \<Longrightarrow> find_rsdp_loop m lit (rsdp_place (8192 - n)) =
     (case find (rsdp_at m lit) (map rsdp_place [8192 - n..<8192]) of Some p \<Rightarrow> p | None \<Rightarrow> rsdp_place 8192)"
proof (induction n)
  case 0
  then show ?case using rsdp_place_range(2) by (simp add: find_rsdp_loop.simps del: upt_rec_numeral)
next
  case (Suc n)
  define k where "k = 8192 - Suc n"
  have k: "8192 - n = Suc k" "k < 8192" "[k..<8192] = k # [Suc k..<8192]"
    using Suc.prems by (auto simp: k_def upt_conv_Cons simp del: upt_rec_numeral)
  have "find_rsdp_loop m lit (rsdp_place k) = (if rsdp_at m lit (rsdp_place k) then rsdp_place k else find_rsdp_loop m lit (rsdp_place (Suc k)))"
    using rsdp_place_range(1) [OF k(2)] by (subst find_rsdp_loop.simps) (simp add: rsdp_at_def rsdp_place_range(3))
  moreover have "find_rsdp_loop m lit (rsdp_place (Suc k)) =
     (case find (rsdp_at m lit) (map rsdp_place [Suc k..<8192]) of Some p \<Rightarrow> p | None \<Rightarrow> rsdp_place 8192)"
    using Suc k(1) by simp
  ultimately show ?case unfolding k_def [symmetric] k(3) by simp
qed

text \<open>
  \<^verbatim>\<open>find_rsdp\<close> returns the first of the 8192 aligned addresses between \<open>0xE0000\<close> and
  \<open>0xFFFFF\<close> with the signature and a zero checksum, and null when there is none.
\<close>

theorem find_rsdp_first:
  "find_rsdp m lit = (case find (rsdp_at m lit) (map rsdp_place [0..<8192]) of Some p \<Rightarrow> p | None \<Rightarrow> 0)"
proof -
  have f: "find_rsdp_loop m lit (KERNEL_OFFSET + 0xE0000) = (case find (rsdp_at m lit) (map rsdp_place [0..<8192]) of Some p \<Rightarrow> p | None \<Rightarrow> rsdp_place 8192)"
    using find_rsdp_loop_from [of 8192 m lit] by (simp add: rsdp_place_def del: upt_rec_numeral)
  show ?thesis
  proof (cases "find (rsdp_at m lit) (map rsdp_place [0..<8192])")
    case None
    then show ?thesis using f rsdp_place_range(2) by (simp add: find_rsdp_def Let_def not_less del: upt_rec_numeral)
  next
    case (Some p)
    then obtain i where "i < 8192" "p = rsdp_place i" by (auto simp: find_Some_iff simp del: upt_rec_numeral)
    then have "\<not> KERNEL_OFFSET + 0xFFFFF \<le> p" using rsdp_place_range(1) by (simp add: not_le)
    then show ?thesis using f Some by (simp add: find_rsdp_def Let_def del: upt_rec_numeral)
  qed
qed

lemma find_SDT_loop_first:
  "find_SDT_loop m sig rsdt bpp i e = (case find (\<lambda>h. memcmp m h sig 4 = 0) (map (sdt_entry m rsdt bpp) [i..e - 1]) of Some h \<Rightarrow> h | None \<Rightarrow> 0)"
proof (induction m sig rsdt bpp i e rule: find_SDT_loop.induct)
  case (1 m sig rsdt bpp i e)
  show ?case
  proof (cases "i < e")
    case True
    then have "[i..e - 1] = i # [i + 1..e - 1]" by (simp add: upto_rec1)
    with True 1 show ?thesis by (subst find_SDT_loop.simps) (simp add: Let_def)
  qed (subst find_SDT_loop.simps, simp)
qed

lemma sint_small: "unat (w :: u32) < 2 ^ 31 \<Longrightarrow> sint w = int (unat w)"
proof -
  assume "unat w < 2 ^ 31"
  then have "uint w < 2 ^ 31" by (metis of_nat_less_iff of_nat_numeral of_nat_power uint_nat)
  then have "signed_take_bit 31 (uint w) = uint w" by (intro signed_take_bit_int_eq_self) (auto intro: order_trans [of _ 0])
  then show ?thesis by (simp add: sint_uint)
qed

lemma upto_int: "[0..int n - 1] = map int [0..<n]"
  by (induction n) (auto simp: upto_rec2)

text \<open>
  With a root table of \<open>n\<close> pointers, 4 bytes each in version 1.0 and 8 bytes after, \<^verbatim>\<open>find_SDT\<close>
  returns the first table they point to that has the signature, and null when there is none. The
  number of entries that it computes from the length is \<open>n\<close>.
\<close>

theorem find_SDT_first:
  assumes "bpp = (if m (rsdp + 15) = 0 then 4 else 8)"
    and "rsdt = (if m (rsdp + 15) = 0 then P2V (ucast (load32 m (rsdp + 16))) else P2V (load64 m (rsdp + 24)))"
    and "unat (load32 m (rsdt + 4)) = 36 + n * unat bpp" and "n < 2 ^ 28"
  shows "find_SDT m rsdp sig = (case find (\<lambda>h. memcmp m h sig 4 = 0) (map (\<lambda>i. sdt_entry m rsdt bpp (int i)) [0..<n]) of Some h \<Rightarrow> h | None \<Rightarrow> 0)"
proof -
  have b: "unat bpp = 4 \<or> unat bpp = 8" "0 < unat bpp" "unat (ucast bpp :: u64) = unat bpp" using assms(1) by auto
  define w where "w = (ucast (load32 m (rsdt + 4)) :: u64)"
  have w: "unat w = 36 + n * unat bpp" using assms(3) unat_less64 [of w] b(1) assms(4) by (auto simp: w_def unsigned_ucast_eq take_bit_nat_eq_self)
  then have "unat (w - 36) = n * unat bpp" by (simp add: unat_sub_if')
  then have q: "unat ((w - 36) div ucast bpp) = n" using b by (simp add: unat_div)
  have "unat (ucast ((w - 36) div ucast bpp) :: u32) = n" using q assms(4) by (simp add: unsigned_ucast_eq take_bit_nat_eq_self)
  then have "sdt_entries m rsdt bpp = int n" using sint_small [of "ucast ((w - 36) div ucast bpp)"] assms(4) by (simp add: sdt_entries_def w_def)
  moreover have "map (sdt_entry m rsdt bpp) [0..int n - 1] = map (\<lambda>i. sdt_entry m rsdt bpp (int i)) [0..<n]" by (simp add: upto_int)
  moreover have "find_SDT m rsdp sig = find_SDT_loop m sig rsdt bpp 0 (sdt_entries m rsdt bpp)"
    using assms(1,2) by (simp add: find_SDT_def Let_def)
  ultimately show ?thesis by (simp only: find_SDT_loop_first)
qed

section \<open>The list of processors\<close>

text \<open>The processors of the array, in order, as pairs of an identifier and an APIC identifier.\<close>

definition cpus_are :: "addr \<Rightarrow> ('d, 'z) platform_scheme \<Rightarrow> (u64 \<times> u64) list \<Rightarrow> bool" where
  "cpus_are base s ps \<longleftrightarrow> num_cpu s = length ps \<and> (\<forall>i < length ps. let c = cpus s ! i in
     self c = base + 272 * of_nat i \<and> cpu_id c = fst (ps ! i) \<and> apic_id c = snd (ps ! i)
     \<and> is_bsp c = (if i = 0 then 1 else 0) \<and> current_state c = (if i = 0 then CPU_STARTED else CPU_STOPPED))"

lemma cpu_add_refines:
  fixes s :: "('d, 'z) platform_scheme"
  assumes "platform_wf s" "cpus_are base s ps" "avail s \<noteq> []"
  shows "\<exists>s'. cpu_add base cid ap s = Inr s' \<and> platform_wf s' \<and> cpus_are base s' (take 64 (ps @ [(cid, ap)]))
    \<and> kmem s' = kmem s \<and> irq_map s' = irq_map s \<and> length (avail s) \<le> Suc (length (avail s'))"
proof (cases "num_cpu s \<ge> 64")
  case True
  then have "length ps = 64" using assms(1,2) by (simp add: platform_wf_def cpus_are_def)
  with True assms show ?thesis by (simp add: cpu_add_def)
next
  case False
  let ?n = "num_cpu s"
  have n: "length ps = ?n" "?n < length (cpus s)" using assms(1,2) False by (simp_all add: platform_wf_def cpus_are_def)
  obtain a as where a: "avail s = a # as" using assms(3) by (cases "avail s") auto
  define c where "c = \<lparr>self = base + 272 * of_nat ?n, cpu_id = cid, apic_id = ap, apic_ticks_per_us = 0, is_bsp = (if ?n \<noteq> 0 then 0 else 1),
    current_state = (if ?n \<noteq> 0 then CPU_STOPPED else CPU_STARTED), ap_stack = (if ?n \<noteq> 0 then a + PAGE_SIZE else 0), gdt = replicate 7 0, gdtp_len = 0, gdtp_addr = 0, io_mba = 0\<rparr>"
  define s1 where "s1 = (if ?n \<noteq> 0 then s\<lparr>avail := as\<rparr> else s)"
  have r: "cpu_add base cid ap s = Inr (s1\<lparr>cpus := (cpus s1)[?n := c], num_cpu := ?n + 1\<rparr>)"
    using False a by (simp add: cpu_add_def new_addr_def Let_def c_def s1_def)
  have s1: "cpus s1 = cpus s" "kmem s1 = kmem s" "irq_map s1 = irq_map s" "length (avail s) \<le> Suc (length (avail s1))" "platform_wf s1"
    using a assms(1) by (simp_all add: s1_def platform_wf_def)
  have "platform_wf (s1\<lparr>cpus := (cpus s1)[?n := c], num_cpu := ?n + 1\<rparr>)"
    using platform_wf_upd_cpu [OF s1(5), of c ?n] False by (simp add: platform_wf_def c_def)
  moreover have "cpus_are base (s1\<lparr>cpus := (cpus s1)[?n := c], num_cpu := ?n + 1\<rparr>) (take 64 (ps @ [(cid, ap)]))"
    using assms(2) n False s1(1) by (auto simp: cpus_are_def Let_def nth_append c_def less_Suc_eq nth_list_update)
  ultimately show ?thesis using r s1 by simp
qed

datatype madt_entry = Proc u8 u8 u32 | Override u8 u32 | Ignored

definition madt_entry_at :: "mem \<Rightarrow> addr \<Rightarrow> madt_entry" where
  "madt_entry_at m f = (if m f = 0 then Proc (m (f + 2)) (m (f + 3)) (load32 m (f + 4))
     else if m f = 2 then Override (m (f + 3)) (load32 m (f + 4)) else Ignored)"

text \<open>Entries in memory from \<open>f\<close>, up to the end or to one of length 0.\<close>

fun madt_at :: "mem \<Rightarrow> addr \<Rightarrow> addr \<Rightarrow> madt_entry list \<Rightarrow> bool" where
  "madt_at m e f [] \<longleftrightarrow> \<not> (f < e \<and> m (f + 1) \<noteq> 0)"
| "madt_at m e f (x # xs) \<longleftrightarrow> f < e \<and> m (f + 1) \<noteq> 0 \<and> madt_entry_at m f = x \<and> madt_at m e (f + ucast (m (f + 1))) xs"

fun enabled :: "madt_entry list \<Rightarrow> (u64 \<times> u64) list" where
  "enabled [] = []"
| "enabled (Proc i a fl # xs) = (if fl AND 1 \<noteq> 0 then [(ucast i, ucast a)] else []) @ enabled xs"
| "enabled (_ # xs) = enabled xs"

fun overrides :: "madt_entry list \<Rightarrow> (nat \<times> u32) list" where
  "overrides [] = []"
| "overrides (Override i v # xs) = (unat i, v) # overrides xs"
| "overrides (_ # xs) = overrides xs"

definition set_irqs :: "(nat \<times> u32) list \<Rightarrow> u32 list \<Rightarrow> u32 list" where
  "set_irqs vs t = fold (\<lambda>(i, v) t. t[i := v]) vs t"

lemma madt_field_step:
  fixes s :: "('d, 'z) platform_scheme"
  assumes wf: "platform_wf s" "cpus_are base s ps" and x: "madt_entry_at (kmem s) f = x"
    and av: "length (enabled [x]) \<le> length (avail s)" and ir: "\<forall>(i, v) \<in> set (overrides [x]). i < 24"
  shows "\<exists>s'. madt_field base f s = Inr s' \<and> platform_wf s' \<and> cpus_are base s' (take 64 (ps @ enabled [x])) \<and> kmem s' = kmem s
    \<and> irq_map s' = set_irqs (overrides [x]) (irq_map s) \<and> length (avail s) \<le> length (enabled [x]) + length (avail s')"
proof -
  have l: "length ps \<le> 64" "length (irq_map s) = 24" using wf by (simp_all add: platform_wf_def cpus_are_def)
  consider (proc) "kmem s f = 0" "load32 (kmem s) (f + 4) AND 1 \<noteq> 0" | (off) "kmem s f = 0" "load32 (kmem s) (f + 4) AND 1 = 0"
    | (iso) "kmem s f = 2" | (other) "kmem s f \<noteq> 0" "kmem s f \<noteq> 2" by auto
  then show ?thesis
  proof cases
    case proc
    then have "x = Proc (kmem s (f + 2)) (kmem s (f + 3)) (load32 (kmem s) (f + 4))" using x by (simp add: madt_entry_at_def)
    then have e: "enabled [x] = [(ucast (kmem s (f + 2)), ucast (kmem s (f + 3)))]" "overrides [x] = []" using proc by auto
    then have "avail s \<noteq> []" using av by auto
    from cpu_add_refines [OF wf this, of "ucast (kmem s (f + 2))" "ucast (kmem s (f + 3))"] proc e
    show ?thesis by (simp add: madt_field_def set_irqs_def Let_def)
  next
    case off
    with x wf l show ?thesis by (auto simp: madt_field_def madt_entry_at_def set_irqs_def)
  next
    case iso
    then have "x = Override (kmem s (f + 3)) (load32 (kmem s) (f + 4))" using x by (simp add: madt_entry_at_def)
    then have e: "enabled [x] = []" "overrides [x] = [(unat (kmem s (f + 3)), load32 (kmem s) (f + 4))]" by auto
    define s' where "s' = s\<lparr>irq_map := (irq_map s)[unat (kmem s (f + 3)) := load32 (kmem s) (f + 4)]\<rparr>"
    have "madt_field base f s = Inr s'" using iso e ir l by (simp add: madt_field_def s'_def Let_def)
    moreover have "platform_wf s'" "cpus_are base s' ps" using wf by (simp_all add: s'_def platform_wf_def cpus_are_def)
    ultimately show ?thesis using e l by (simp add: set_irqs_def s'_def)
  next
    case other
    with x wf l show ?thesis by (auto simp: madt_field_def madt_entry_at_def set_irqs_def)
  qed
qed

lemma enabled_Cons: "enabled (x # xs) = enabled [x] @ enabled xs"
  by (cases x) auto

lemma overrides_Cons: "overrides (x # xs) = overrides [x] @ overrides xs"
  by (cases x) auto

lemma take_take_append: "take n (take n xs @ ys) = take n (xs @ ys)"
  by (cases "length xs < n") (simp_all add: take_append)

lemma parse_MADT_loop_entries:
  fixes s :: "('d, 'z) platform_scheme"
  assumes "platform_wf s" "cpus_are base s ps" "madt_at (kmem s) e f xs" "length (enabled xs) \<le> length (avail s)" "\<forall>(i, v) \<in> set (overrides xs). i < 24"
  shows "\<exists>s'. parse_MADT_loop base e f s = Some (Inr s') \<and> platform_wf s' \<and> cpus_are base s' (take 64 (ps @ enabled xs))
    \<and> irq_map s' = set_irqs (overrides xs) (irq_map s)"
  using assms
proof (induction xs arbitrary: f s ps)
  case Nil
  then have "length ps \<le> 64" by (simp add: platform_wf_def cpus_are_def)
  with Nil show ?case by (subst parse_MADT_loop.simps) (auto simp: set_irqs_def)
next
  case (Cons x xs)
  have x: "f < e" "kmem s (f + 1) \<noteq> 0" "madt_entry_at (kmem s) f = x" "madt_at (kmem s) e (f + ucast (kmem s (f + 1))) xs"
    using Cons.prems(3) by auto
  have lx: "length (enabled [x]) + length (enabled xs) \<le> length (avail s)" using Cons.prems(4) by (simp only: enabled_Cons [of x xs] length_append)
  have ox: "\<forall>(i, v) \<in> set (overrides [x]). i < 24" "\<forall>(i, v) \<in> set (overrides xs). i < 24"
    using Cons.prems(5) by (auto simp only: overrides_Cons [of x xs] set_append)
  obtain s1 where s1: "madt_field base f s = Inr s1" "platform_wf s1" "cpus_are base s1 (take 64 (ps @ enabled [x]))" "kmem s1 = kmem s"
    "irq_map s1 = set_irqs (overrides [x]) (irq_map s)" "length (avail s) \<le> length (enabled [x]) + length (avail s1)"
    using madt_field_step [OF Cons.prems(1,2) x(3) _ ox(1)] lx by auto
  obtain s' where s': "parse_MADT_loop base e (f + ucast (kmem s (f + 1))) s1 = Some (Inr s')" "platform_wf s'"
    "cpus_are base s' (take 64 (take 64 (ps @ enabled [x]) @ enabled xs))" "irq_map s' = set_irqs (overrides xs) (irq_map s1)"
    using Cons.IH [OF s1(2,3), of "f + ucast (kmem s (f + 1))"] x(4) lx s1(4,6) ox(2) by auto
  have "parse_MADT_loop base e f s = Some (Inr s')"
    using x(1,2) s1(1,4) s'(1) by (subst parse_MADT_loop.simps) simp
  moreover have "take 64 (take 64 (ps @ enabled [x]) @ enabled xs) = take 64 (ps @ enabled (x # xs))"
    by (simp only: take_take_append append_assoc enabled_Cons [of x xs])
  moreover have "set_irqs (overrides xs) (irq_map s1) = set_irqs (overrides (x # xs)) (irq_map s)"
    by (simp only: s1(5) overrides_Cons [of x xs] set_irqs_def fold_append o_apply)
  ultimately show ?case using s'(2,3,4) by auto
qed


definition example_madt :: mem where
  "example_madt a = (if a = 0x1004 then 0x34 else if a = 0x102D then 8 else if a = 0x102E then 7 else if a = 0x102F then 9 else if a = 0x1030 then 1
     else if a = 0x1034 then 2 else if a = 0x1035 then 10 else if a = 0x1038 then 2 else 0)"


section \<open>smp.c\<close>

text \<open>
  The other CPU runs while this one waits in \<^verbatim>\<open>pit_delay\<close>: \<open>ap k st\<close> is the value that the field
  \<^verbatim>\<open>current_state\<close> has after the \<open>k\<close>-th delay when it was \<open>st\<close> before.
\<close>

abbreviation (input) TRAMPOLINE_ADDR :: addr where "TRAMPOLINE_ADDR \<equiv> 0x1000"
abbreviation (input) TRAMPOLINE_GDT :: addr where "TRAMPOLINE_GDT \<equiv> 0x2000"

definition set_state :: "nat \<Rightarrow> u64 \<Rightarrow> ('d, 'z) platform_scheme \<Rightarrow> ('d, 'z) platform_scheme" where
  "set_state i st s = s\<lparr>cpus := (cpus s)[i := (cpus s ! i)\<lparr>current_state := st\<rparr>]\<rparr>"

definition ap_delay :: "'d device \<Rightarrow> (nat \<Rightarrow> u64 \<Rightarrow> u64) \<Rightarrow> nat \<Rightarrow> u32 \<Rightarrow> nat \<Rightarrow> ('d, 'z) platform_scheme \<Rightarrow> ('d, 'z) platform_scheme res" where
  "ap_delay dev ap k ms i s =
     bindR (pit_delay dev ms (hw (con s))) (\<lambda>d. Inr (set_state i (ap k (current_state (cpus s ! i))) (upd_hw (\<lambda>_. d) s)))"

definition ap_init :: "'d device \<Rightarrow> 'd mmio \<Rightarrow> (nat \<Rightarrow> u64 \<Rightarrow> u64) \<Rightarrow> nat \<Rightarrow> ('d, 'z) startup_scheme \<Rightarrow> ('d, 'z) startup_scheme res" where
  "ap_init dev mm ap i s =
     (if current_state (cpus s ! i) \<noteq> CPU_STOPPED then Inr s
      else
        let dest = ucast (cpu_id (cpus s ! i));
            sipi = upd_hw (apic_interrupt mm dest 1 6 (ucast (TRAMPOLINE_ADDR div PAGE_SIZE)));
            s = upd_hw (apic_interrupt mm dest 1 5 0) s
        in
        bindR (ap_delay dev ap 0 10 i s) (\<lambda>s.
        let s = s\<lparr>ap_gs_base := self (cpus s ! i)\<rparr>;
            s = sipi (set_state i CPU_SIPI_SENT s)
        in
        bindR (ap_delay dev ap 1 10 i s) (\<lambda>s.
        bindR (if current_state (cpus s ! i) \<noteq> CPU_SIPI_REC then ap_delay dev ap 2 100 i (sipi (set_state i CPU_SIPI_SENT s)) else Inr s) (\<lambda>s.
        if current_state (cpus s ! i) \<noteq> CPU_SIPI_REC then Inr (set_state i CPU_FAILED s)
        else Inr (set_state i CPU_STARTED s)))))"

section \<open>cpu.c\<close>

abbreviation (input) MSR_REG_EFER :: u32 where "MSR_REG_EFER \<equiv> 0xc0000080"
abbreviation (input) MSR_REG_STAR :: u32 where "MSR_REG_STAR \<equiv> 0xc0000081"
abbreviation (input) MSR_REG_LSTAR :: u32 where "MSR_REG_LSTAR \<equiv> 0xc0000082"
abbreviation (input) MSR_REG_FMASK :: u32 where "MSR_REG_FMASK \<equiv> 0xc0000084"
abbreviation (input) MSR_REG_KERNEL_GS :: u32 where "MSR_REG_KERNEL_GS \<equiv> 0xc0000102"

text \<open>\<open>syscall_entry\<close> is the address of the assembly entry point; the table of the calls is \<open>syscall_init_handlers\<close>.\<close>

definition syscall_init :: "'d mmio \<Rightarrow> addr \<Rightarrow> ('d, 'z) startup_scheme \<Rightarrow> ('d, 'z) startup_scheme res" where
  "syscall_init mm syscall_entry s =
     (let s = upd_hw (\<lambda>d.
            let d = wrmsr mm MSR_REG_STAR MSR_STAR_value d;
                d = wrmsr mm MSR_REG_LSTAR syscall_entry d;
                (v, d) = rdmsr mm MSR_REG_EFER d;
                d = wrmsr mm MSR_REG_EFER (v OR 1) d
            in wrmsr mm MSR_REG_FMASK RFLAGS_IF d) s
      in if \<not> syscall_installed s then
           bindR (register_int_handler 0x80 (Some Syscall_handler) s) (\<lambda>(_, s). Inr (s\<lparr>syscall_installed := True\<rparr>))
         else Inr s)"

text \<open>The addresses that the linker and the assembly files provide.\<close>

record symbols =
  idt_base :: addr
  isr_table :: "nat \<Rightarrow> addr"
  isr_return :: addr
  scheduler_fn :: addr
  syscall_entry :: addr
  cpus_base :: addr
  lit_rsd :: addr
  lit_apic :: addr
  trampoline :: addr
  trampoline_GDT :: addr

definition init_cpu :: "'d device \<Rightarrow> 'd mmio \<Rightarrow> symbols \<Rightarrow> ('d, 'z) startup_scheme \<Rightarrow> ('d, 'z) startup_scheme res" where
  "init_cpu dev mm y s =
     bindR (interrupt_init (idt_base y) (isr_table y) s) (\<lambda>s.
     bindR (apic_init dev mm s) (\<lambda>s.
     let s = gdt_init s in
     bindR (scheduler_init (isr_return y) (scheduler_fn y) s) (\<lambda>s.
     syscall_init mm (syscall_entry y) s)))"

text \<open>
  The copies to the low addresses \<^verbatim>\<open>TRAMPOLINE_ADDR\<close> and \<^verbatim>\<open>TRAMPOLINE_GDT\<close> go to the frames that they
  are mapped to, which the kernel also sees at \<^verbatim>\<open>P2V\<close> of the frame. \<open>ap i\<close> is the behaviour of CPU \<open>i\<close>.
\<close>

definition cpu_init :: "'d device \<Rightarrow> 'd mmio \<Rightarrow> symbols \<Rightarrow> (nat \<Rightarrow> nat \<Rightarrow> u64 \<Rightarrow> u64) \<Rightarrow> addr \<Rightarrow> ('d, 'z) startup_scheme \<Rightarrow> ('d, 'z) startup_scheme res" where
  "cpu_init dev mm y ap mboot_rsdp s =
     bindR (acpi_init (lit_rsd y) (lit_apic y) (cpus_base y) mboot_rsdp s) (\<lambda>s.
     let s = upd_hw (pic_init dev) s in
     bindR (ioapic_init mm s) (\<lambda>s.
     let s = upd_hw (wrmsr mm MSR_REG_KERNEL_GS (self (cpus s ! 0))) s;
         s = s\<lparr>this_cpu := 0\<rparr>
     in
     bindR (init_cpu dev mm y s) (\<lambda>s.
     bindR (pmm_alloc s) (\<lambda>(page, s).
     bindR (vmm_set_page 0 TRAMPOLINE_ADDR TRAMPOLINE_ADDR (PAGE_PRESENT OR PAGE_WRITE) s) (\<lambda>(_, s).
     bindR (vmm_set_page 0 TRAMPOLINE_GDT page (PAGE_PRESENT OR PAGE_WRITE) s) (\<lambda>(_, s).
     let s = s\<lparr>kmem := memcpy (P2V TRAMPOLINE_ADDR) (trampoline y) PAGE_SIZE (kmem s)\<rparr>;
         s = s\<lparr>kmem := memcpy (P2V page) (trampoline_GDT y) PAGE_SIZE (kmem s)\<rparr>
     in
     bindR (foldR (\<lambda>i. ap_init dev mm (ap i) i) [0..<num_cpu s] s) (\<lambda>s.
     let s = s\<lparr>all_ap_started := True\<rparr> in
     bindR (vmm_set_page 0 TRAMPOLINE_ADDR 0 0 s) (\<lambda>(_, s).
     bindR (vmm_set_page 0 TRAMPOLINE_GDT 0 0 s) (\<lambda>(_, s).
     Inr (pmm_free page s))))))))))"

section \<open>The tables keep their sizes\<close>

definition same_tables :: "('d, 'z) platform_scheme \<Rightarrow> ('d, 'z) platform_scheme \<Rightarrow> bool" where
  "same_tables s s' \<longleftrightarrow> idt s' = idt s \<and> int_handlers s' = int_handlers s \<and> irq_map s' = irq_map s \<and> cpus s' = cpus s
     \<and> num_cpu s' = num_cpu s \<and> this_cpu s' = this_cpu s"

lemma same_tables_wf: "same_tables s s' \<Longrightarrow> platform_wf s \<Longrightarrow> platform_wf s'"
  by (simp add: same_tables_def platform_wf_def)

lemma same_tables_pmm: "pmm_only s s' \<Longrightarrow> same_tables s s'"
  by (simp add: same_tables_def pmm_only_platform)

lemma wf_set_page: "vmm_set_page P4 va p fl s = Inr (r, s') \<Longrightarrow> platform_wf s \<Longrightarrow> platform_wf s'"
  using same_tables_pmm [OF pmm_only_set_page] same_tables_wf by blast

lemma wf_pmm_alloc: "pmm_alloc s = Inr (r, s') \<Longrightarrow> platform_wf s \<Longrightarrow> platform_wf s'"
  using same_tables_pmm [OF pmm_only_alloc] same_tables_wf by blast

lemma wf_pmm_free: "platform_wf s \<Longrightarrow> platform_wf (pmm_free p s)"
  by (rule same_tables_wf) (auto simp: same_tables_def pmm_free_def Let_def)

lemma wf_simps [simp]:
  "platform_wf (s\<lparr>con := c\<rparr>) = platform_wf s" "platform_wf (s\<lparr>kmem := m\<rparr>) = platform_wf s" "platform_wf (s\<lparr>system_ticks := t\<rparr>) = platform_wf s"
  "platform_wf (s\<lparr>loaded_idt := l\<rparr>) = platform_wf s" "platform_wf (s\<lparr>avail := av\<rparr>) = platform_wf s"
  "platform_wf (s\<lparr>loaded_gdt := lg\<rparr>) = platform_wf s" "platform_wf (s\<lparr>task_register := tr\<rparr>) = platform_wf s"
  "platform_wf (s\<lparr>con := c, cpus := xs\<rparr>) = platform_wf (s\<lparr>cpus := xs\<rparr>)"
  "platform_wf (s\<lparr>avail := av, cpus := xs, num_cpu := n\<rparr>) = platform_wf (s\<lparr>cpus := xs, num_cpu := n\<rparr>)"
  by (simp_all add: platform_wf_def)

lemma wf_startup_simps [simp]:
  "platform_wf (s\<lparr>ap_gs_base := a\<rparr>) = platform_wf s" "platform_wf (s\<lparr>all_ap_started := b\<rparr>) = platform_wf s" "platform_wf (s\<lparr>syscall_installed := i\<rparr>) = platform_wf s"
  by (simp_all add: platform_wf_def)

lemma wf_register: "register_int_handler n h s = Inr (r, s') \<Longrightarrow> platform_wf s \<Longrightarrow> platform_wf s'"
  by (auto simp: register_int_handler_def platform_wf_def Let_def split: if_splits)

lemma foldR_idt_length: "foldR (\<lambda>i. idt_set i (f i) a b c) is t = Inr t' \<Longrightarrow> length t' = length t"
  by (induction "is" arbitrary: t) (auto simp: idt_set_def res_simps split: if_splits)

lemma wf_interrupt_init: "interrupt_init ib tb s = Inr s' \<Longrightarrow> platform_wf s \<Longrightarrow> platform_wf s'"
  by (auto simp: interrupt_init_def Let_def res_simps platform_wf_def dest!: foldR_idt_length split: if_splits simp del: upt_rec_numeral)

lemma wf_gdt_init: "platform_wf s \<Longrightarrow> platform_wf (gdt_init s)"
proof -
  assume wf: "platform_wf s"
  then have "length (gdt (cpus s ! this_cpu s)) = 7" by (auto simp: platform_wf_def)
  then show ?thesis by (simp add: gdt_init_def Let_def platform_wf_upd_cpu [OF wf] gdt_entries_def)
qed

lemma wf_ioapic_init: "ioapic_init mm s = Inr s' \<Longrightarrow> platform_wf s \<Longrightarrow> platform_wf s'"
  by (auto simp: ioapic_init_def res_simps dest: wf_set_page simp del: upt_rec_numeral)

lemma wf_pit_init: "pit_init dev mm s = Inr s' \<Longrightarrow> platform_wf s \<Longrightarrow> platform_wf s'"
  by (auto simp: pit_init_def res_simps Let_def dest: wf_register)

lemma wf_vmm_init: "vmm_init s = Inr s' \<Longrightarrow> platform_wf s \<Longrightarrow> platform_wf s'"
  by (auto simp: vmm_init_def res_simps dest: wf_register)

lemma wf_upd_cpu_field: "platform_wf s \<Longrightarrow> gdt c = gdt (cpus s ! i) \<Longrightarrow> platform_wf (s\<lparr>cpus := (cpus s)[i := c]\<rparr>)"
proof (cases "i < length (cpus s)")
  case True
  assume "platform_wf s" "gdt c = gdt (cpus s ! i)"
  with True show ?thesis by (intro platform_wf_upd_cpu) (auto simp: platform_wf_def)
qed (simp add: platform_wf_def list_update_beyond)

lemma wf_apic_init: "apic_init dev mm s = Inr s' \<Longrightarrow> platform_wf s \<Longrightarrow> platform_wf s'"
  by (auto simp: apic_init_def res_simps Let_def case_prod_beta wf_upd_cpu_field dest!: wf_set_page wf_register)

lemma wf_cpu_add: "cpu_add b i a s = Inr s' \<Longrightarrow> platform_wf s \<Longrightarrow> platform_wf s'"
proof -
  have "platform_wf (s\<lparr>cpus := (cpus s)[j := c], num_cpu := n\<rparr>)" if "platform_wf s" "length (gdt c) = 7" "n \<le> 64" for j c n
    using platform_wf_upd_cpu [OF that(1,2), of j] that(3) by (simp add: platform_wf_def)
  then show "cpu_add b i a s = Inr s' \<Longrightarrow> platform_wf s \<Longrightarrow> platform_wf s'"
    by (auto simp: cpu_add_def Let_def new_addr_def res_simps not_le split: if_splits list.splits)
qed

lemma wf_madt_field: "madt_field b f s = Inr s' \<Longrightarrow> platform_wf s \<Longrightarrow> platform_wf s'"
  by (auto simp: madt_field_def Let_def dest: wf_cpu_add split: if_splits) (simp add: platform_wf_def)

lemma wf_parse_MADT: 
  assumes "parse_MADT b h s = Inr s'" "platform_wf s"
  shows "platform_wf s'"
proof -
  have "\<forall>t. r = Inr t \<longrightarrow> platform_wf s \<longrightarrow> platform_wf t" if r: "parse_MADT_loop b' e f s = Some r" for b' e f r and s :: "('a, 'b) platform_scheme"
    by (rule parse_MADT_loop.raw_induct [OF _ r, of "\<lambda>b e f s r. \<forall>t. r = Inr t \<longrightarrow> platform_wf s \<longrightarrow> platform_wf t"])
      (auto dest: wf_madt_field split: if_splits sum.splits)
  with assms show ?thesis by (auto simp: parse_MADT_def Let_def split: if_splits option.splits)
qed

lemma wf_set_state: "platform_wf s \<Longrightarrow> platform_wf (set_state i st s)"
  unfolding set_state_def by (rule wf_upd_cpu_field) simp_all

lemma wf_ap_delay: "ap_delay dev ap k ms i s = Inr s' \<Longrightarrow> platform_wf s \<Longrightarrow> platform_wf s'"
  by (auto simp: ap_delay_def res_simps intro!: wf_set_state)

lemma wf_ap_init: "ap_init dev mm ap i s = Inr s' \<Longrightarrow> platform_wf s \<Longrightarrow> platform_wf s'"
  by (auto simp: ap_init_def Let_def res_simps split: if_splits dest!: wf_ap_delay intro!: wf_set_state)

lemma wf_syscall_init: "syscall_init mm e s = Inr s' \<Longrightarrow> platform_wf s \<Longrightarrow> platform_wf s'"
  by (auto simp: syscall_init_def Let_def res_simps split: if_splits dest!: wf_register)

lemma wf_scheduler_init: "scheduler_init ir fn s = Inr s' \<Longrightarrow> platform_wf s \<Longrightarrow> platform_wf s'"
  by (erule same_tables_wf [rotated])
    (auto simp: same_tables_def scheduler_init_def new_thread_def Let_def new_addr_def res_simps split: if_splits list.splits)

lemma foldR_wf:
  assumes "foldR f xs s = Inr s'" "platform_wf s" "\<And>x s s'. f x s = Inr s' \<Longrightarrow> platform_wf s \<Longrightarrow> platform_wf s'"
  shows "platform_wf s'"
  using assms by (induction xs arbitrary: s) (auto simp: res_simps)

lemma wf_acpi_init: "acpi_init lr la cb rp s = Inr s' \<Longrightarrow> platform_wf s \<Longrightarrow> platform_wf s'"
  by (auto simp: acpi_init_def Let_def split: if_splits dest: wf_parse_MADT)

lemma wf_init_cpu: "init_cpu dev mm y s = Inr s' \<Longrightarrow> platform_wf s \<Longrightarrow> platform_wf s'"
  unfolding init_cpu_def Let_def bindR_Inr_iff
  by (blast dest: wf_interrupt_init wf_apic_init wf_gdt_init wf_scheduler_init wf_syscall_init)

lemma wf_cpu_init: 
  assumes "cpu_init dev mm y ap rp s = Inr s'" "platform_wf s"
  shows "platform_wf s'"
proof -
  from assms(1) obtain s1 s2 s3 page s4 r5 s5 r6 s6 s7 r8 s8 r9 s9 where
    "acpi_init (lit_rsd y) (lit_apic y) (cpus_base y) rp s = Inr s1" "ioapic_init mm (upd_hw (pic_init dev) s1) = Inr s2"
    "init_cpu dev mm y ((upd_hw (wrmsr mm MSR_REG_KERNEL_GS (self (cpus s2 ! 0))) s2)\<lparr>this_cpu := 0\<rparr>) = Inr s3" "pmm_alloc s3 = Inr (page, s4)"
    "vmm_set_page 0 TRAMPOLINE_ADDR TRAMPOLINE_ADDR (PAGE_PRESENT OR PAGE_WRITE) s4 = Inr (r5, s5)"
    "vmm_set_page 0 TRAMPOLINE_GDT page (PAGE_PRESENT OR PAGE_WRITE) s5 = Inr (r6, s6)"
    "foldR (\<lambda>i. ap_init dev mm (ap i) i) [0..<num_cpu s6] (s6\<lparr>kmem := memcpy (P2V page) (trampoline_GDT y) PAGE_SIZE
       (memcpy (P2V TRAMPOLINE_ADDR) (trampoline y) PAGE_SIZE (kmem s6))\<rparr>) = Inr s7"
    "vmm_set_page 0 TRAMPOLINE_ADDR 0 0 (s7\<lparr>all_ap_started := True\<rparr>) = Inr (r8, s8)" "vmm_set_page 0 TRAMPOLINE_GDT 0 0 s8 = Inr (r9, s9)" "s' = pmm_free page s9"
    by (auto simp: cpu_init_def Let_def bindR_Inr_iff)
  note c = this
  have w2: "platform_wf s2" using wf_ioapic_init [OF c(2)] wf_acpi_init [OF c(1) assms(2)] by simp
  have "platform_wf s3" using wf_init_cpu [OF c(3)] w2 by (simp add: platform_wf_def)
  then have "platform_wf s6" using wf_pmm_alloc [OF c(4)] wf_set_page [OF c(5)] wf_set_page [OF c(6)] by blast
  then have "platform_wf s7" using foldR_wf [OF c(7)] wf_ap_init by fastforce
  then have "platform_wf s9" using wf_set_page [OF c(8)] wf_set_page [OF c(9)] by simp
  then show ?thesis using wf_pmm_free c(10) by simp
qed

text \<open>
  What runs on the tables of the platform: the initialisation routines, in any order and on any
  CPU, new processors, new handlers and timer interrupts.
\<close>

inductive startup_step :: "'d device \<Rightarrow> 'd mmio \<Rightarrow> symbols \<Rightarrow> (nat \<Rightarrow> nat \<Rightarrow> u64 \<Rightarrow> u64) \<Rightarrow> ('d, 'z) startup_scheme \<Rightarrow> ('d, 'z) startup_scheme \<Rightarrow> bool"
  for dev mm y ap where
  interrupts: "interrupt_init (idt_base y) (isr_table y) s = Inr s' \<Longrightarrow> startup_step dev mm y ap s s'"
| fault_handler: "vmm_init s = Inr s' \<Longrightarrow> startup_step dev mm y ap s s'"
| handlers: "register_int_handler n h s = Inr (old, s') \<Longrightarrow> startup_step dev mm y ap s s'"
| tables: "acpi_init (lit_rsd y) (lit_apic y) (cpus_base y) rsdp s = Inr s' \<Longrightarrow> startup_step dev mm y ap s s'"
| processor: "cpu_add (cpus_base y) cid a s = Inr s' \<Longrightarrow> startup_step dev mm y ap s s'"
| routing: "ioapic_init mm s = Inr s' \<Longrightarrow> startup_step dev mm y ap s s'"
| segments: "startup_step dev mm y ap s (gdt_init s)"
| this_cpu: "init_cpu dev mm y s = Inr s' \<Longrightarrow> startup_step dev mm y ap s s'"
| other_cpu: "ap_init dev mm (ap i) i s = Inr s' \<Longrightarrow> startup_step dev mm y ap s s'"
| all_cpus: "cpu_init dev mm y ap rsdp s = Inr s' \<Longrightarrow> startup_step dev mm y ap s s'"
| timer: "pit_init dev mm s = Inr s' \<Longrightarrow> startup_step dev mm y ap s s'"
| tick: "startup_step dev mm y ap s (snd (timer_tick mm r s))"

inductive startup_run :: "'d device \<Rightarrow> 'd mmio \<Rightarrow> symbols \<Rightarrow> (nat \<Rightarrow> nat \<Rightarrow> u64 \<Rightarrow> u64) \<Rightarrow> ('d, 'z) startup_scheme \<Rightarrow> ('d, 'z) startup_scheme \<Rightarrow> bool"
  for dev mm y ap where
  start: "startup_run dev mm y ap s s"
| step: "startup_run dev mm y ap s s1 \<Longrightarrow> startup_step dev mm y ap s1 s2 \<Longrightarrow> startup_run dev mm y ap s s2"

lemma startup_step_wf: "startup_step dev mm y ap s s' \<Longrightarrow> platform_wf s \<Longrightarrow> platform_wf s'"
  by (induction rule: startup_step.induct)
    (auto simp: timer_tick_def Let_def intro: wf_interrupt_init wf_vmm_init wf_register wf_acpi_init wf_cpu_add wf_ioapic_init wf_gdt_init wf_init_cpu wf_ap_init wf_cpu_init wf_pit_init)


definition example_symbols :: symbols where
  "example_symbols = \<lparr>idt_base = 0x9000, isr_table = (\<lambda>i. 0x100000 + 16 * of_nat i), isr_return = 0, scheduler_fn = 0, syscall_entry = 0, cpus_base = 0x8000,
     lit_rsd = 0, lit_apic = 0, trampoline = 0, trampoline_GDT = 0\<rparr>"

definition example_startup :: "unit startup" where
  "example_startup = platform.extend (example_platform ()) \<lparr>ap_gs_base = 0, all_ap_started = False, syscall_installed = False\<rparr>"


section \<open>Starting a processor\<close>

lemma set_state_simps [simp]:
  "con (set_state i st s) = con s" "length (cpus (set_state i st s)) = length (cpus s)"
  "i < length (cpus s) \<Longrightarrow> cpus (set_state i st s) ! i = (cpus s ! i)\<lparr>current_state := st\<rparr>"
  "j \<noteq> i \<Longrightarrow> cpus (set_state i st s) ! j = cpus s ! j"
  by (simp_all add: set_state_def)

lemma set_state_gs [simp]: "ap_gs_base (set_state i st (s :: ('d, 'z) startup_scheme)) = ap_gs_base s"
  by (simp add: set_state_def)

lemma ap_delay_returns:
  fixes s :: "('d, 'z) startup_scheme"
  assumes "\<And>ms d. \<exists>d'. pit_delay dev ms d = Inr d'"
  shows "\<exists>s'. ap_delay dev ap k ms i s = Inr s' \<and> length (cpus s') = length (cpus s) \<and> ap_gs_base s' = ap_gs_base s
    \<and> (i < length (cpus s) \<longrightarrow> cpus s' ! i = (cpus s ! i)\<lparr>current_state := ap k (current_state (cpus s ! i))\<rparr>) \<and> (\<forall>j. j \<noteq> i \<longrightarrow> cpus s' ! j = cpus s ! j)"
proof -
  obtain d' where "pit_delay dev ms (hw (con s)) = Inr d'" using assms by blast
  then show ?thesis by (simp add: ap_delay_def)
qed


lemma null_pit_delay: "\<exists>d'. pit_delay null_device ms d = Inr d'"
proof -
  have d: "delay null_device c d = Inr d" for c d
    by (simp add: delay_def null_device_def ch2_wait.simps Let_def)
  show ?thesis by (induction null_device ms d rule: pit_delay.induct) (subst pit_delay.simps, simp add: d)
qed


definition example_acpi :: mem where
  "example_acpi a = (if a = 0x1011 then 0x20 else if a = 0xFFFFFF8000002004 then 40 else if a = 0xFFFFFF8000002025 then 0x30
     else if a = 0xFFFFFF8000003000 \<or> a = 0x4000 then 65 else 0)"

theorem find_SDT_first_witness: "find_SDT example_acpi 0x1000 0x4000 = P2V 0x3000"
proof -
  have r: "example_acpi (0x1000 + 15) = 0" "load32 example_acpi (0x1000 + 16) = 0x2000" by code_simp+
  have l: "load32 example_acpi (P2V 0x2000 + 4) = 40" by (simp add: P2V_def KERNEL_OFFSET_def) code_simp
  have e: "sdt_entry example_acpi (P2V 0x2000) 4 0 = P2V 0x3000" by (simp add: sdt_entry_def P2V_def KERNEL_OFFSET_def) code_simp
  have m: "memcmp example_acpi (P2V 0x3000) 0x4000 4 = 0" by (simp add: P2V_def KERNEL_OFFSET_def) code_simp
  show ?thesis
    using find_SDT_first [of 4 example_acpi "0x1000" "P2V 0x2000" 1 "0x4000"] r l e m by simp
qed

end
