(* ===== verification/Elf.thy ===== *)
theory Elf
  imports Process Boot
begin

text \<open>
  Programs: \<^verbatim>\<open>kernel/proc/elf.c\<close>, which loads an executable image into the memory of a process. The image lies in
  kernel memory; the structures of the format are packed, so a field is a read at its offset. Messages are left out.
\<close>

section \<open>elf.c\<close>

abbreviation (input) ELF_TYPE_EXECUTABLE :: u16 where "ELF_TYPE_EXECUTABLE \<equiv> 2"
abbreviation (input) ELF_PT_LOAD :: u32 where "ELF_PT_LOAD \<equiv> 1"

record elf_phead =
  ph_type :: u32
  ph_offset :: u64
  ph_va :: u64
  ph_filesz :: u64
  ph_memsz :: u64

definition elf_phead_at :: "mem \<Rightarrow> addr \<Rightarrow> elf_phead" where
  "elf_phead_at m a = \<lparr>ph_type = load32 m a, ph_offset = load64 m (a + 8), ph_va = load64 m (a + 16), ph_filesz = load64 m (a + 32), ph_memsz = load64 m (a + 40)\<rparr>"

definition load_elf_segment :: "addr \<Rightarrow> addr \<Rightarrow> elf_phead \<Rightarrow> 'z kernel_scheme \<Rightarrow> 'z kernel_scheme res" where
  "load_elf_segment p file phead s =
     (let memsize = ph_memsz phead; filesize = ph_filesz phead; mempos = ph_va phead; filepos = ph_offset phead in
      bindR (obj (procs s) p) (\<lambda>pr.
      bindR (procmm_map (pmmap pr) mempos (mempos + memsize) 0 s) (\<lambda>(_, s).
      bindR (obj (mmaps s) (pmmap pr)) (\<lambda>m.
      bindR (vmm_p4_memcpy (mm_P4 m) mempos 0 (file + filepos) filesize s) (\<lambda>(_, s).
      bindR (vmm_p4_memset (mm_P4 m) (mempos + filesize) 0 (memsize - filesize) s) (\<lambda>(_, s). Inr s))))))"

abbreviation (input) phead_addr :: "mem \<Rightarrow> addr \<Rightarrow> nat \<Rightarrow> addr" where
  "phead_addr m data i \<equiv> data + load64 m (data + 32) + 56 * of_nat i"

text \<open>\<open>phead\<close> is the address of the program headers, computed once; their number is read in every round.\<close>

function load_elf_loop :: "addr \<Rightarrow> addr \<Rightarrow> addr \<Rightarrow> nat \<Rightarrow> 'z kernel_scheme \<Rightarrow> 'z kernel_scheme res" where
  "load_elf_loop p data phead i s =
     (if i < unat (load16 (kmem s) (data + 56)) then
        bindR (if load32 (kmem s) (phead + 56 * of_nat i) = ELF_PT_LOAD
               then load_elf_segment p data (elf_phead_at (kmem s) (phead + 56 * of_nat i)) s else Inr s)
          (load_elf_loop p data phead (Suc i))
      else Inr s)"
  by pat_completeness auto
termination
proof (relation "measure (\<lambda>(_, _, _, i, _). 65536 - i)")
  fix p data phead i and s x :: "'z kernel_scheme"
  assume "i < unat (load16 (kmem s) (data + 56))"
  moreover have "unat (load16 (kmem s) (data + 56)) < 2 ^ LENGTH(16)" by (rule unsigned_less)
  ultimately show "((p, data, phead, Suc i, x), p, data, phead, i, s) \<in> measure (\<lambda>(_, _, _, i, _). 65536 - i)" by simp
qed simp

declare load_elf_loop.simps [simp del]

text \<open>\<open>lit\<close> is the address of the literal with the magic number.\<close>

definition load_elf :: "addr \<Rightarrow> addr \<Rightarrow> addr \<Rightarrow> 'z kernel_scheme \<Rightarrow> (addr \<times> 'z kernel_scheme) res" where
  "load_elf lit p data s =
     (if memcmp (kmem s) data lit 4 \<noteq> 0 then Inr (0, s)
      else if load16 (kmem s) (data + 16) \<noteq> ELF_TYPE_EXECUTABLE then Inr (0, s)
      else bindR (load_elf_loop p data (data + load64 (kmem s) (data + 32)) 0 s) (\<lambda>s. Inr (load64 (kmem s) (data + 24), s)))"

section \<open>Filling memory of an address space\<close>

definition filled :: "(nat \<Rightarrow> addr) \<Rightarrow> u8 \<Rightarrow> nat \<Rightarrow> mem \<Rightarrow> mem \<Rightarrow> bool" where
  "filled dl c i m0 m \<longleftrightarrow> (\<forall>k < i. m (dl k) = c) \<and> (\<forall>b. (\<forall>k < i. b \<noteq> dl k) \<longrightarrow> m b = m0 b)"

lemma filled_round:
  assumes "filled dl (ucast c) i m0 m" and run: "\<And>j. j < unat bytes \<Longrightarrow> dl (i + j) = dl i + of_nat j"
  shows "filled dl (ucast c) (i + unat bytes) m0 (memset (dl i) c bytes m)"
proof -
  let ?m = "memset (dl i) c bytes m"
  have m1: "?m b = (if b - dl i < bytes then ucast c else m b)" for b by (simp add: memset_apply)
  have new: "?m (dl (i + j)) = ucast c" if "j < unat bytes" for j
  proof -
    have "(of_nat j :: addr) < bytes"
      using that unat_less64 [of bytes] by (simp add: word_less_nat_alt unat_of_nat_eq)
    then show ?thesis using run [OF that] by (simp add: m1)
  qed
  have "?m (dl k) = ucast c" if "k < i + unat bytes" for k
  proof (cases "k < i")
    case True
    then show ?thesis using assms(1) by (simp add: m1 filled_def)
  next
    case False
    then show ?thesis using new [of "k - i"] that by simp
  qed
  moreover have "?m b = m0 b" if "\<forall>k < i + unat bytes. b \<noteq> dl k" for b
  proof -
    have "\<not> b - dl i < bytes"
    proof
      assume "b - dl i < bytes"
      then have "unat (b - dl i) < unat bytes" by (simp add: word_less_nat_alt)
      then show False using run [of "unat (b - dl i)"] that [rule_format, of "i + unat (b - dl i)"] by simp
    qed
    then show ?thesis using that assms(1) by (simp add: m1 filled_def)
  qed
  ultimately show ?thesis by (simp add: filled_def)
qed

lemma vmm_p4_memset_loop_step:
  fixes s :: "'z vmm_scheme"
  assumes "n \<noteq> 0" and e: "vmm_get_page P4 d s = Inr e1" "STRIP_FLAGS e1 = fd" "fd \<noteq> 0"
  obtains bytes where "0 < bytes" "bytes \<le> n" "unat (PAGE_OFFSET d) + unat bytes \<le> 4096"
    "vmm_p4_memset_loop P4 d c n cp s = vmm_p4_memset_loop P4 (d + bytes) c (n - bytes) (cp + bytes)
       (s\<lparr>kmem := memset (P2V fd + PAGE_OFFSET d) c bytes (kmem s)\<rparr>)"
proof -
  define db where "db = 0x1000 - d mod 0x1000"
  define bytes where "bytes = (if db < n then db else n)"
  have bn: "bytes \<le> n" by (auto simp: bytes_def)
  have bp: "0 < bytes" using assms(1) page_rest_pos [of d] by (simp add: bytes_def db_def word_neq_0_conv)
  have "bytes \<le> db" by (auto simp: bytes_def)
  then have od: "unat (PAGE_OFFSET d) + unat bytes \<le> 4096" by (simp only: db_def page_rest_bound)
  have "vmm_p4_memset_loop P4 d c n cp s = vmm_p4_memset_loop P4 (d + bytes) c (n - bytes) (cp + bytes)
       (s\<lparr>kmem := memset (P2V fd + PAGE_OFFSET d) c bytes (kmem s)\<rparr>)"
    unfolding bytes_def db_def
    by (subst vmm_p4_memset_loop.simps) (simp only: Let_def mod_PAGE_SIZE bindR.simps assms if_False simp_thms)
  then show ?thesis by (rule that [OF bp bn od])
qed

lemma vmm_p4_memset_loop_correct:
  fixes s :: "'z vmm_scheme"
  assumes dv: "p4_view s P4 dst N dfr W" and dl: "dl = (\<lambda>k. loc dfr (dst + of_nat k))" and W: "W = dl ` {..<N}"
  shows "i + unat n = N \<Longrightarrow> filled dl (ucast c) i (kmem s) m \<Longrightarrow>
   \<exists>m'. vmm_p4_memset_loop P4 (dst + of_nat i) c n (of_nat i) (s\<lparr>kmem := m\<rparr>)
      = Inr (of_nat N, s\<lparr>kmem := m'\<rparr>) \<and> filled dl (ucast c) N (kmem s) m'"
proof (induction "unat n" arbitrary: n i m rule: less_induct)
  case less
  show ?case
  proof (cases "n = 0")
    case True
    then show ?thesis using less.prems by (subst vmm_p4_memset_loop.simps) auto
  next
    case False
    have iN: "i < N" using less.prems(1) False by (simp add: unat_gt_0 flip: less.prems(1))
    have off: "m b = kmem s b" if "b \<notin> W" for b
    proof -
      have "\<forall>k < i. b \<noteq> dl k" using that iN by (auto simp: W)
      then show ?thesis using less.prems(2) by (simp add: filled_def)
    qed
    obtain e1 where e1: "vmm_get_page P4 (dst + of_nat i) (s\<lparr>kmem := m\<rparr>) = Inr e1"
      "STRIP_FLAGS e1 = dfr (dst + of_nat i)" "dfr (dst + of_nat i) \<noteq> 0"
      by (rule p4_viewD [OF dv iN off])
    obtain bytes where b: "0 < bytes" "bytes \<le> n" "unat (PAGE_OFFSET (dst + of_nat i)) + unat bytes \<le> 4096"
      and step: "vmm_p4_memset_loop P4 (dst + of_nat i) c n (of_nat i) (s\<lparr>kmem := m\<rparr>)
        = vmm_p4_memset_loop P4 (dst + of_nat i + bytes) c (n - bytes) (of_nat i + bytes) (s\<lparr>kmem := memset (dl i) c bytes m\<rparr>)"
      by (rule vmm_p4_memset_loop_step [OF False e1, of c "of_nat i"]) (simp add: dl loc_def)
    have "filled dl (ucast c) (i + unat bytes) (kmem s) (memset (dl i) c bytes m)"
      using p4_view_run [OF dv, of i] b(3) by (intro filled_round [OF less.prems(2)]) (auto simp: dl)
    moreover have "unat (n - bytes) < unat n" "(i + unat bytes) + unat (n - bytes) = N"
      using unat_diff_less [OF b(1,2)] less.prems(1) unat_sub [OF b(2)] b(2) by (simp_all add: word_le_nat_alt)
    ultimately show ?thesis
      using less.hyps [of "n - bytes" "i + unat bytes"] step by (simp add: add.assoc)
  qed
qed

lemma vmm_p4_memset_fills:
  fixes s :: "'z vmm_scheme"
  assumes "p4_view s P4 dst (unat n) dfr ((\<lambda>k. loc dfr (dst + of_nat k)) ` {..<unat n})"
  shows "\<exists>m'. vmm_p4_memset P4 dst c n s = Inr (n, s\<lparr>kmem := m'\<rparr>) \<and> filled (\<lambda>k. loc dfr (dst + of_nat k)) (ucast c) (unat n) (kmem s) m'"
  using vmm_p4_memset_loop_correct [OF assms refl refl, of 0 n c "kmem s"] by (simp add: vmm_p4_memset_def filled_def)

section \<open>Segments\<close>

text \<open>The image: \<open>N\<close> bytes of kernel memory that stay mapped to the frames \<open>fr\<close> whatever is written to the pages \<open>X\<close>.\<close>

definition image_view :: "'z vmm_scheme \<Rightarrow> addr \<Rightarrow> nat \<Rightarrow> (addr \<Rightarrow> addr) \<Rightarrow> addr set \<Rightarrow> bool" where
  "image_view s src N fr X \<longleftrightarrow>
     (\<forall>a b. STRIP_FLAGS a = STRIP_FLAGS b \<longrightarrow> fr a = fr b) \<and> (\<forall>a. page_aligned (fr a))
     \<and> (\<forall>k < N. fr (src + of_nat k) \<noteq> 0 \<and> P2V (fr (src + of_nat k)) \<notin> X)
     \<and> (\<forall>m k. (\<forall>b. STRIP_FLAGS b \<notin> X \<longrightarrow> m b = kmem s b) \<longrightarrow> k < N \<longrightarrow>
          (\<exists>e. vmm_get_page 0 (src + of_nat k) (s\<lparr>kmem := m\<rparr>) = Inr e \<and> STRIP_FLAGS e = fr (src + of_nat k)))"

lemma vmm_get_page_boot:
  assumes "kmem (s' :: 'y vmm_scheme) = kmem (s :: 'z vmm_scheme)" "BootP4 s' = BootP4 s"
  shows "vmm_get_page 0 va s' = vmm_get_page 0 va s"
  using assms by (simp add: vmm_get_page_def vmm_find_page_no_touch GET_P4_def)

lemma image_view_mono:
  fixes s :: "'z vmm_scheme" and s' :: "'y vmm_scheme"
  assumes "image_view s src N fr X" "X' \<subseteq> X" "BootP4 s' = BootP4 s" "\<And>b. STRIP_FLAGS b \<notin> X \<Longrightarrow> kmem s' b = kmem s b"
  shows "image_view s' src N fr X'"
proof -
  have "\<exists>e. vmm_get_page 0 (src + of_nat k) (s'\<lparr>kmem := m\<rparr>) = Inr e \<and> STRIP_FLAGS e = fr (src + of_nat k)"
    if "\<forall>b. STRIP_FLAGS b \<notin> X' \<longrightarrow> m b = kmem s' b" "k < N" for m k
  proof -
    have "m b = kmem s b" if "STRIP_FLAGS b \<notin> X" for b using that \<open>\<forall>b. STRIP_FLAGS b \<notin> X' \<longrightarrow> m b = kmem s' b\<close> assms(2,4) by auto
    then have "\<exists>e. vmm_get_page 0 (src + of_nat k) (s\<lparr>kmem := m\<rparr>) = Inr e \<and> STRIP_FLAGS e = fr (src + of_nat k)"
      using assms(1) that(2) unfolding image_view_def by blast
    moreover have "vmm_get_page 0 (src + of_nat k) (s'\<lparr>kmem := m\<rparr>) = vmm_get_page 0 (src + of_nat k) (s\<lparr>kmem := m\<rparr>)"
      using assms(3) by (intro vmm_get_page_boot) simp_all
    ultimately show ?thesis by simp
  qed
  then show ?thesis using assms(1,2) unfolding image_view_def by blast
qed

lemma image_view_loc:
  assumes "image_view s src N fr X" "k < N"
  shows "STRIP_FLAGS (loc fr (src + of_nat k)) \<notin> X"
proof -
  have "page_aligned (fr (src + of_nat k))" "P2V (fr (src + of_nat k)) \<notin> X" using assms unfolding image_view_def by blast+
  then show ?thesis by (simp add: loc_STRIP)
qed

lemma image_p4_view:
  assumes "image_view s src N fr X" "\<And>b. b \<in> W \<Longrightarrow> STRIP_FLAGS b \<in> X"
  shows "p4_view s 0 src N fr W"
  using assms unfolding image_view_def p4_view_def by blast

text \<open>The frames of a freshly mapped area.\<close>

lemma area_frames:
  assumes am: "area_mapped P4 va e gs s s'" and wf: "pt_wf user_dom (kmem s') (P2V P4)" and P4: "P4 \<noteq> 0"
    and al: "page_aligned va" and e: "unat e = unat va + N" "e \<le> USERSPACE_TOP"
    and g: "\<And>g. g \<in> set gs \<Longrightarrow> page_aligned g \<and> g \<noteq> P2V 0" and k: "k < N"
  shows "vpath (va + of_nat k) \<in> user_dom" "\<exists>j < length gs. frame (kmem s') P4 (va + of_nat k) = V2P (gs ! j) \<and> STRIP_FLAGS (va + of_nat k) = STRIP_FLAGS (va + of_nat (4096 * j))"
    "frame (kmem s') P4 (va + of_nat k) \<noteq> 0"
proof -
  have u: "unat (va + of_nat k) = unat va + k"
    using e k by (subst unat_add_eq) (auto simp: unat_of_nat_eq word_le_nat_alt USERSPACE_TOP_def)
  have r: "va \<le> va + of_nat k" "va + of_nat k < e" using u e(1) k by (simp_all add: word_le_nat_alt word_less_nat_alt)
  have ut: "va + of_nat k < USERSPACE_TOP" using r(2) e(2) by (rule order_less_le_trans)
  show vp: "vpath (va + of_nat k) \<in> user_dom" by (rule vpath_user [OF user_P4 [OF ut]])
  obtain j where j: "j < npages va e" "STRIP_FLAGS (va + of_nat k) = STRIP_FLAGS (va + of_nat (4096 * j))"
    using area_covered [OF al r e(2)] by blast
  have "vmm_get_page P4 (va + of_nat k) s' = Inr (user_page (gs ! j))" "j < length gs"
    using am j ut unfolding area_mapped_def by auto
  then have p: "pte (kmem s') (P2V P4) (va + of_nat k) = user_page (gs ! j)" "j < length gs"
    using vmm_get_page_pte [OF wf vp P4] by simp_all
  then have "page_aligned (V2P (gs ! j))" "gs ! j \<noteq> P2V 0" using g [of "gs ! j"] by simp_all
  then have "page_aligned (V2P (gs ! j))" "V2P (gs ! j) \<noteq> 0" by (auto simp: P2V_V2P dest: arg_cong [where f = P2V])
  then have "frame (kmem s') P4 (va + of_nat k) = V2P (gs ! j)" "V2P (gs ! j) \<noteq> 0" using p(1) by (simp_all add: frame_def)
  then show "\<exists>j < length gs. frame (kmem s') P4 (va + of_nat k) = V2P (gs ! j) \<and> STRIP_FLAGS (va + of_nat k) = STRIP_FLAGS (va + of_nat (4096 * j))"
    "frame (kmem s') P4 (va + of_nat k) \<noteq> 0" using j p(2) by auto
qed

lemma area_vloc_inj:
  assumes am: "area_mapped P4 va e gs s s'" and wf: "pt_wf user_dom (kmem s') (P2V P4)" and P4: "P4 \<noteq> 0"
    and al: "page_aligned va" and e: "unat e = unat va + N" "e \<le> USERSPACE_TOP"
    and g: "\<And>g. g \<in> set gs \<Longrightarrow> page_aligned g \<and> g \<noteq> P2V 0"
  shows "inj_on (\<lambda>k. vloc (kmem s') P4 (va + of_nat k)) {..<N}"
proof (rule inj_onI)
  fix k l assume kl: "k \<in> {..<N}" "l \<in> {..<N}" "vloc (kmem s') P4 (va + of_nat k) = vloc (kmem s') P4 (va + of_nat l)"
  note f = area_frames [OF am wf P4 al e g]
  obtain i j where ij: "i < length gs" "frame (kmem s') P4 (va + of_nat k) = V2P (gs ! i)" "STRIP_FLAGS (va + of_nat k) = STRIP_FLAGS (va + of_nat (4096 * i))"
    "j < length gs" "frame (kmem s') P4 (va + of_nat l) = V2P (gs ! j)" "STRIP_FLAGS (va + of_nat l) = STRIP_FLAGS (va + of_nat (4096 * j))"
    using f(2) [of k] f(2) [of l] kl by auto
  have al2: "page_aligned (gs ! i)" "page_aligned (gs ! j)" using g ij(1,4) by auto
  have "gs ! i + PAGE_OFFSET (va + of_nat k) = gs ! j + PAGE_OFFSET (va + of_nat l)"
    using kl(3) ij(2,5) by (simp add: vloc_def loc_def)
  then have eq: "gs ! i = gs ! j" "PAGE_OFFSET (va + of_nat k) = PAGE_OFFSET (va + of_nat l)"
    using page_slot_inject [OF al2, of "PAGE_OFFSET (va + of_nat k)" "PAGE_OFFSET (va + of_nat l)"] by (auto simp: unat_PAGE_OFFSET)
  then have "i = j" using am ij(1,4) by (auto simp: area_mapped_def nth_eq_iff_index_eq)
  then have "STRIP_FLAGS (va + of_nat k) = STRIP_FLAGS (va + of_nat l)" using ij(3,6) by simp
  then have "va + of_nat k = va + of_nat l" using eq(2) STRIP_plus_OFFSET by metis
  then have "unat (of_nat k :: addr) = unat (of_nat l :: addr)" by simp
  moreover have "N < 18446744073709551616" using e by (simp add: word_le_nat_alt USERSPACE_TOP_def)
  ultimately show "k = l" using kl(1,2) by (simp add: unat_of_nat_eq)
qed

lemma p4_view_sub:
  fixes s :: "'z vmm_scheme"
  assumes "p4_view s P4 base N fr W" "i + M \<le> N" "W' \<subseteq> W" "\<And>b. b \<notin> W \<Longrightarrow> m b = kmem s b"
  shows "p4_view (s\<lparr>kmem := m\<rparr>) P4 (base + of_nat i) M fr W'"
proof -
  have "\<exists>e. vmm_get_page P4 (base + of_nat i + of_nat k) (s\<lparr>kmem := m\<rparr>\<lparr>kmem := m'\<rparr>) = Inr e \<and> STRIP_FLAGS e = fr (base + of_nat i + of_nat k)
      \<and> fr (base + of_nat i + of_nat k) \<noteq> 0"
    if "\<forall>b. b \<notin> W' \<longrightarrow> m' b = kmem (s\<lparr>kmem := m\<rparr>) b" "k < M" for m' k
  proof -
    have "m' b = kmem s b" if "b \<notin> W" for b using that \<open>\<forall>b. b \<notin> W' \<longrightarrow> _ b\<close> assms(3,4) by auto
    moreover have "i + k < N" using that(2) assms(2) by simp
    ultimately obtain e where "vmm_get_page P4 (base + of_nat (i + k)) (s\<lparr>kmem := m'\<rparr>) = Inr e" "STRIP_FLAGS e = fr (base + of_nat (i + k))"
      "fr (base + of_nat (i + k)) \<noteq> 0"
      using p4_viewD [OF assms(1)] by blast
    then show ?thesis by (simp add: add.assoc)
  qed
  note r = this
  have "fr (base + of_nat i + of_nat k) \<noteq> 0" if "k < M" for k using r [of m k] that by auto
  moreover note p4_view_frame [OF assms(1)]
  ultimately show ?thesis unfolding p4_view_def using r by blast
qed

text \<open>Writes outside the tables of a map and outside the free pages keep the map.\<close>

lemma mmap_ok_data:
  fixes s :: "'z procmm_scheme"
  assumes ok: "mmap_ok s mp m xs fs" and same: "\<And>b. STRIP_FLAGS b \<in> tables user_dom (kmem s) (P2V (mm_P4 m)) \<union> set fs \<Longrightarrow> mem b = kmem s b"
  shows "mmap_ok (s\<lparr>kmem := mem\<rparr>) mp m xs fs" "tables user_dom mem (P2V (mm_P4 m)) = tables user_dom (kmem s) (P2V (mm_P4 m))"
    "va < USERSPACE_TOP \<Longrightarrow> vmm_get_page (mm_P4 m) va (s\<lparr>kmem := mem\<rparr>) = vmm_get_page (mm_P4 m) va s"
proof -
  let ?t = "P2V (mm_P4 m)"
  have inv: "vmm_inv user_dom ?t s fs" and P4: "mm_P4 m \<noteq> 0" using ok by (simp_all add: mmap_ok_def)
  have al: "page_aligned ?t" using inv by (simp add: vmm_inv_def pt_wf_def)
  have s1: "mem b = kmem s b" if "STRIP_FLAGS b \<in> tables user_dom (kmem s) ?t" for b using same that by blast
  note fr = ent_frame [OF path_dom_user al s1]
  show T: "tables user_dom mem ?t = tables user_dom (kmem s) ?t" using fr(2) by (simp add: tables_def)
  have wf: "pt_wf user_dom (kmem s) ?t" using inv by (simp add: vmm_inv_def)
  then have wf': "pt_wf user_dom mem ?t" using T fr(2) by (simp add: pt_wf_def)
  have ld: "load64 mem f = load64 (kmem s) f" if f: "f \<in> set fs" for f
  proof (rule load64_cong)
    fix k :: nat
    assume "k < 8"
    moreover have "page_aligned f" using inv f pmm_inv_aligned [of s fs f] by (simp add: vmm_inv_def)
    ultimately have "STRIP_FLAGS (f + of_nat k) = f" using STRIP_slot_byte [of f 0 k] by simp
    then show "mem (f + of_nat k) = kmem s (f + of_nat k)" using f by (intro same) simp
  qed
  have "pmm_inv s fs" using inv by (simp add: vmm_inv_def)
  then have "pmm_inv (s\<lparr>kmem := mem\<rparr>) fs" by (rule pmm_inv_frame) (simp_all add: ld)
  then have "vmm_inv user_dom ?t (s\<lparr>kmem := mem\<rparr>) fs" using inv wf' T by (simp add: vmm_inv_def)
  then show "mmap_ok (s\<lparr>kmem := mem\<rparr>) mp m xs fs" using ok by (simp add: mmap_ok_def)
  show "vmm_get_page (mm_P4 m) va (s\<lparr>kmem := mem\<rparr>) = vmm_get_page (mm_P4 m) va s" if "va < USERSPACE_TOP"
  proof -
    have v: "vpath va \<in> user_dom" by (rule vpath_user [OF user_P4 [OF that]])
    show ?thesis using vmm_get_page_pte [OF wf v P4] vmm_get_page_pte [of user_dom "s\<lparr>kmem := mem\<rparr>" "mm_P4 m" va] wf' v P4
        fr(1) [OF _ v unat_P_OFFSET(1)] by (simp add: pte_def)
  qed
qed

text \<open>
  \<open>segment_loaded s P4 va F N src X\<close>: the \<open>N\<close> bytes from \<open>va\<close> are mapped to frames outside of \<open>X\<close>; the first \<open>F\<close> of
  them are the bytes \<open>src\<close>, the others are zero.
\<close>

definition segment_loaded :: "'z vmm_scheme \<Rightarrow> addr \<Rightarrow> addr \<Rightarrow> nat \<Rightarrow> nat \<Rightarrow> (nat \<Rightarrow> u8) \<Rightarrow> addr set \<Rightarrow> bool" where
  "segment_loaded s P4 va F N src X \<longleftrightarrow> (\<forall>i < N. \<exists>g. vmm_get_page P4 (va + of_nat i) s = Inr (user_page g) \<and> page_aligned g \<and> g \<notin> X
     \<and> kmem s (g + PAGE_OFFSET (va + of_nat i)) = (if i < F then src i else 0))"

lemma segment_loaded_frame:
  fixes s :: "'z vmm_scheme" and s' :: "'y vmm_scheme"
  assumes "segment_loaded s P4 va F N src X" "X' \<subseteq> X" "\<And>b. STRIP_FLAGS b \<notin> X \<Longrightarrow> kmem s' b = kmem s b"
    and "\<And>i. i < N \<Longrightarrow> vmm_get_page P4 (va + of_nat i) s' = vmm_get_page P4 (va + of_nat i) s"
  shows "segment_loaded s' P4 va F N src X'"
  unfolding segment_loaded_def
proof (intro allI impI)
  fix i assume i: "i < N"
  then obtain g where g: "vmm_get_page P4 (va + of_nat i) s = Inr (user_page g)" "page_aligned g" "g \<notin> X"
    "kmem s (g + PAGE_OFFSET (va + of_nat i)) = (if i < F then src i else 0)" using assms(1) unfolding segment_loaded_def by blast
  have "STRIP_FLAGS (g + PAGE_OFFSET (va + of_nat i)) = g" using g(2) by (simp add: STRIP_FLAGS_add_offset unat_PAGE_OFFSET)
  then have "kmem s' (g + PAGE_OFFSET (va + of_nat i)) = kmem s (g + PAGE_OFFSET (va + of_nat i))" using g(3) by (intro assms(3)) simp
  then show "\<exists>g. vmm_get_page P4 (va + of_nat i) s' = Inr (user_page g) \<and> page_aligned g \<and> g \<notin> X' \<and> kmem s' (g + PAGE_OFFSET (va + of_nat i)) = (if i < F then src i else 0)"
    using g assms(2,4) i by (intro exI [of _ g]) auto
qed

text \<open>Copying and then clearing a range whose mapping the writes do not touch.\<close>

lemma copy_and_clear:
  fixes s :: "'z vmm_scheme" and F Z va src :: addr
  defines "N \<equiv> unat F + unat Z"
  assumes dl: "dl = (\<lambda>k. loc dfr (va + of_nat k))" and v: "p4_view s P4 va N dfr (dl ` {..<N})" and inj: "inj_on dl {..<N}"
    and sv: "p4_view s 0 src (unat F) fr (dl ` {..<unat F})"
    and apart: "\<And>k l. k < unat F \<Longrightarrow> l < unat F \<Longrightarrow> dfr (va + of_nat k) \<noteq> fr (src + of_nat l)"
  obtains m1 m2 where "vmm_p4_memcpy P4 va 0 src F s = Inr (F, s\<lparr>kmem := m1\<rparr>)"
    "vmm_p4_memset P4 (va + F) 0 Z (s\<lparr>kmem := m1\<rparr>) = Inr (Z, s\<lparr>kmem := m2\<rparr>)" "\<And>b. b \<notin> dl ` {..<N} \<Longrightarrow> m2 b = kmem s b"
    "\<And>i. i < N \<Longrightarrow> m2 (dl i) = (if i < unat F then kmem s (loc fr (src + of_nat i)) else 0)"
proof -
  define W where "W = dl ` {..<N}"
  define W1 where "W1 = dl ` {..<unat F}"
  have W1: "W1 \<subseteq> W" by (auto simp: W1_def W_def N_def)
  have "p4_view s P4 va (unat F) dfr W1" using p4_view_sub [OF v, of 0 "unat F" W1 "kmem s"] W1 by (simp add: N_def W_def)
  moreover have "inj_on dl {..<unat F}" using inj by (rule inj_on_subset) (auto simp: N_def)
  ultimately have "\<exists>m'. vmm_p4_memcpy_loop P4 (va + of_nat 0) 0 (src + of_nat 0) F (of_nat 0) (s\<lparr>kmem := kmem s\<rparr>)
      = Inr (of_nat (unat F), s\<lparr>kmem := m'\<rparr>) \<and> copied dl (\<lambda>k. loc fr (src + of_nat k)) (unat F) (kmem s) m'"
    using sv apart by (intro vmm_p4_memcpy_loop_correct [OF _ _ dl refl W1_def]) (auto simp: copied_def W1_def)
  then obtain m1 where m1: "vmm_p4_memcpy P4 va 0 src F s = Inr (F, s\<lparr>kmem := m1\<rparr>)"
    and c1: "copied dl (\<lambda>k. loc fr (src + of_nat k)) (unat F) (kmem s) m1" by (auto simp: vmm_p4_memcpy_def)
  have o1: "m1 b = kmem s b" if "b \<notin> W" for b using that c1 W1 unfolding copied_def W1_def by blast
  have dl2: "loc dfr (va + F + of_nat k) = dl (unat F + k)" for k by (simp add: dl add.assoc)
  have "(\<lambda>k. dl (unat F + k)) ` {..<unat Z} \<subseteq> W" by (auto simp: W_def N_def)
  then have "p4_view (s\<lparr>kmem := m1\<rparr>) P4 (va + F) (unat Z) dfr ((\<lambda>k. loc dfr (va + F + of_nat k)) ` {..<unat Z})"
    using p4_view_sub [OF v [folded W_def], of "unat F" "unat Z" _ m1] o1 by (simp add: N_def dl2)
  then obtain m2 where m2: "vmm_p4_memset P4 (va + F) 0 Z (s\<lparr>kmem := m1\<rparr>) = Inr (Z, s\<lparr>kmem := m2\<rparr>)"
    and c2: "filled (\<lambda>k. dl (unat F + k)) 0 (unat Z) m1 m2"
    using vmm_p4_memset_fills [of "s\<lparr>kmem := m1\<rparr>" P4 "va + F" Z dfr 0] by (auto simp: dl2)
  have "m2 b = kmem s b" if "b \<notin> W" for b
  proof -
    have "\<forall>k < unat Z. b \<noteq> dl (unat F + k)" using that by (auto simp: W_def N_def)
    then show ?thesis using c2 o1 [OF that] by (simp add: filled_def)
  qed
  moreover have "m2 (dl i) = (if i < unat F then kmem s (loc fr (src + of_nat i)) else 0)" if i: "i < N" for i
  proof (cases "i < unat F")
    case True
    then have "dl i \<noteq> dl (unat F + k)" if "k < unat Z" for k
      using that i inj_onD [OF inj, of i "unat F + k"] by (auto simp: N_def)
    then show ?thesis using True c1 c2 by (simp add: filled_def copied_def)
  next
    case False
    then show ?thesis using c2 [unfolded filled_def] i by (auto simp: N_def dest!: spec [of _ "i - unat F"])
  qed
  ultimately show thesis using that [OF m1 m2] by (simp add: W_def)
qed

lemma fill_area:
  fixes s :: "'z procmm_scheme" and s0 :: "'y vmm_scheme" and va src F Z e :: addr
  defines "N \<equiv> unat F + unat Z"
  assumes ok: "mmap_ok s mp m xs fs" and am: "area_mapped (mm_P4 m) va e gs s0 s"
    and al: "page_aligned va" and e: "unat e = unat va + N" "e \<le> USERSPACE_TOP"
    and g: "\<And>g. g \<in> set gs \<Longrightarrow> page_aligned g \<and> g \<noteq> P2V 0 \<and> g \<notin> tables user_dom (kmem s) (P2V (mm_P4 m)) \<union> set fs"
    and img: "image_view s src (unat F) fr (set gs)"
  obtains m1 m2 where "vmm_p4_memcpy (mm_P4 m) va 0 src F s = Inr (F, s\<lparr>kmem := m1\<rparr>)"
    "vmm_p4_memset (mm_P4 m) (va + F) 0 Z (s\<lparr>kmem := m1\<rparr>) = Inr (Z, s\<lparr>kmem := m2\<rparr>)"
    "\<And>b. STRIP_FLAGS b \<notin> set gs \<Longrightarrow> m2 b = kmem s b"
    "segment_loaded (s\<lparr>kmem := m2\<rparr>) (mm_P4 m) va (unat F) N (\<lambda>i. kmem s (loc fr (src + of_nat i))) (tables user_dom (kmem s) (P2V (mm_P4 m)) \<union> set fs)"
proof -
  let ?P4 = "mm_P4 m" and ?T = "tables user_dom (kmem s) (P2V (mm_P4 m))"
  define dfr where "dfr = frame (kmem s) ?P4"
  define dl where "dl = (\<lambda>k. loc dfr (va + of_nat k))"
  have P4: "?P4 \<noteq> 0" and wf: "pt_wf user_dom (kmem s) (P2V ?P4)" using ok by (simp_all add: mmap_ok_def vmm_inv_def)
  have g2: "page_aligned h \<and> h \<noteq> P2V 0" if "h \<in> set gs" for h using g [OF that] by blast
  note fr = area_frames [OF am wf P4 al e g2] and inj = area_vloc_inj [OF am wf P4 al e g2]
  have dg: "P2V (dfr (va + of_nat k)) \<in> set gs" if "k < N" for k using fr(2) [OF _ that] by (auto simp: dfr_def)
  have Wg: "STRIP_FLAGS b \<in> set gs" if "b \<in> dl ` {..<N}" for b using that dg by (auto simp: dl_def loc_STRIP dfr_def frame_def)
  have v: "p4_view s ?P4 va N dfr (dl ` {..<N})" unfolding dfr_def
    by (rule p4_view_wf [OF path_dom_user wf P4]) (use fr(1,3) Wg g in blast)+
  have inj: "inj_on dl {..<N}" using inj by (simp add: dl_def dfr_def vloc_def)
  have sv: "p4_view s 0 src (unat F) fr (dl ` {..<unat F})" using Wg by (intro image_p4_view [OF img]) (auto simp: N_def)
  have ne: "dfr (va + of_nat k) \<noteq> fr (src + of_nat l)" if "k < unat F" "l < unat F" for k l
  proof -
    have "P2V (fr (src + of_nat l)) \<notin> set gs" using img that(2) unfolding image_view_def by blast
    then show ?thesis using dg [of k] that by (auto simp: N_def)
  qed
  obtain m1 m2 where m: "vmm_p4_memcpy ?P4 va 0 src F s = Inr (F, s\<lparr>kmem := m1\<rparr>)" "vmm_p4_memset ?P4 (va + F) 0 Z (s\<lparr>kmem := m1\<rparr>) = Inr (Z, s\<lparr>kmem := m2\<rparr>)"
    and o2: "\<And>b. b \<notin> dl ` {..<N} \<Longrightarrow> m2 b = kmem s b"
    and val: "\<And>i. i < N \<Longrightarrow> m2 (dl i) = (if i < unat F then kmem s (loc fr (src + of_nat i)) else 0)"
    using copy_and_clear [OF dl_def v [unfolded N_def] inj [unfolded N_def] sv ne] unfolding N_def by blast
  have out: "m2 b = kmem s b" if "STRIP_FLAGS b \<notin> set gs" for b using that Wg by (intro o2) blast
  have same: "m2 b = kmem s b" if "STRIP_FLAGS b \<in> ?T \<union> set fs" for b using that g by (intro out) blast
  have "\<exists>h. vmm_get_page ?P4 (va + of_nat i) (s\<lparr>kmem := m2\<rparr>) = Inr (user_page h) \<and> page_aligned h \<and> h \<notin> ?T \<union> set fs
      \<and> m2 (h + PAGE_OFFSET (va + of_nat i)) = (if i < unat F then kmem s (loc fr (src + of_nat i)) else 0)" if i: "i < N" for i
  proof -
    have "unat (va + of_nat i) = unat va + i"
      using e i by (subst unat_add_eq) (auto simp: unat_of_nat_eq word_le_nat_alt USERSPACE_TOP_def)
    then have lt: "va + of_nat i < USERSPACE_TOP" using e i by (simp add: word_le_nat_alt word_less_nat_alt)
    obtain j where j: "j < length gs" "dfr (va + of_nat i) = V2P (gs ! j)" "STRIP_FLAGS (va + of_nat i) = STRIP_FLAGS (va + of_nat (4096 * j))"
      using fr(2) [OF _ i] by (auto simp: dfr_def)
    have "vmm_get_page ?P4 (va + of_nat i) s = Inr (user_page (gs ! j))" using am j(1,3) lt unfolding area_mapped_def by simp
    then have "vmm_get_page ?P4 (va + of_nat i) (s\<lparr>kmem := m2\<rparr>) = Inr (user_page (gs ! j))"
      using mmap_ok_data(3) [OF ok same lt] by simp
    moreover have "dl i = gs ! j + PAGE_OFFSET (va + of_nat i)" by (simp add: dl_def loc_def j(2))
    ultimately show ?thesis using val [OF i] g [OF nth_mem [OF j(1)]] by auto
  qed
  then show thesis using that [OF m out] by (simp add: segment_loaded_def)
qed

text \<open>What loading a segment needs: an area above the others, an object and pages for it, and no free page that looks unmapped.\<close>

definition segment_fits :: "elf_phead \<Rightarrow> bool" where
  "segment_fits ph \<longleftrightarrow> page_aligned (ph_va ph) \<and> unat (ph_va ph) + unat (ph_memsz ph) \<le> unat USERSPACE_TOP \<and> ph_filesz ph \<le> ph_memsz ph"

abbreviation seg_pages :: "elf_phead \<Rightarrow> nat" where
  "seg_pages ph \<equiv> npages (ph_va ph) (ph_va ph + ph_memsz ph)"

lemma segment_range:
  assumes "segment_fits ph"
  shows "unat (ph_va ph + ph_memsz ph) = unat (ph_va ph) + unat (ph_memsz ph)" "ph_va ph \<le> ph_va ph + ph_memsz ph" "ph_va ph + ph_memsz ph \<le> USERSPACE_TOP"
    "unat (ph_filesz ph) + unat (ph_memsz ph - ph_filesz ph) = unat (ph_memsz ph)"
proof -
  show u: "unat (ph_va ph + ph_memsz ph) = unat (ph_va ph) + unat (ph_memsz ph)"
    using assms by (intro unat_add_eq) (simp add: segment_fits_def USERSPACE_TOP_def)
  then show "ph_va ph \<le> ph_va ph + ph_memsz ph" "ph_va ph + ph_memsz ph \<le> USERSPACE_TOP"
    using assms by (simp_all add: word_le_nat_alt segment_fits_def)
  show "unat (ph_filesz ph) + unat (ph_memsz ph - ph_filesz ph) = unat (ph_memsz ph)"
    using assms by (simp add: segment_fits_def unat_sub word_le_nat_alt)
qed

text \<open>\<^verbatim>\<open>procmm_map\<close>, with what it does to the pages outside of the map.\<close>

abbreviation user_tables :: "'z vmm_scheme \<Rightarrow> procmm_mmap_t \<Rightarrow> addr set" where
  "user_tables s m \<equiv> tables user_dom (kmem s) (P2V (mm_P4 m))"

lemma procmm_map_frames:
  assumes ok: "mmap_ok s mp m xs fs" and a: "avail s = a # as" "a \<noteq> 0" "a \<notin> set xs"
    and b: "below s xs va" and e: "va \<le> e" "e \<le> USERSPACE_TOP" and fs: "4 * npages va e \<le> length fs" "P2V 0 \<notin> set fs"
  obtains s' m' gs k where "procmm_map mp va e flags s = Inr (a, s')" "mmap_ok s' mp m' (xs @ [a]) (drop k fs)" "mm_P4 m' = mm_P4 m"
    "mareas s' = (mareas s)(a \<mapsto> \<lparr>area_start = va, area_end = e, area_flags = flags, area_map = mp\<rparr>)" "avail s' = as" "BootP4 s' = BootP4 s"
    "procmm.more s' = procmm.more s" "m' = m\<lparr>mm_areas := mm_areas m'\<rparr>" "area_mapped (mm_P4 m) va e gs s s'" "k \<le> 4 * npages va e" "user_tables s' m \<subseteq> user_tables s m \<union> set fs"
    "\<And>b. STRIP_FLAGS b \<notin> user_tables s m \<union> set fs \<Longrightarrow> kmem s' b = kmem s b"
    "\<And>g. g \<in> set gs \<Longrightarrow> page_aligned g \<and> g \<noteq> P2V 0 \<and> g \<notin> user_tables s' m \<union> set (drop k fs)" "set gs \<subseteq> set fs"
proof -
  obtain s' m' s2 gs k where r: "procmm_map mp va e flags s = Inr (a, s')" "mmap_ok s' mp m' (xs @ [a]) (drop k fs)" "mm_P4 m' = mm_P4 m"
    "mareas s' = (mareas s)(a \<mapsto> \<lparr>area_start = va, area_end = e, area_flags = flags, area_map = mp\<rparr>)" "avail s' = as"
    and k2: "kmem s2 = kmem s" and mp: "mapped user_dom (P2V (mm_P4 m)) s2 fs (pages va (npages va e)) gs k s'"
    and B: "BootP4 s' = BootP4 s" "procmm.more s' = procmm.more s" "m' = m\<lparr>mm_areas := mm_areas m'\<rparr>"
    by (rule procmm_map_run [OF ok a b e fs(1), of flags])
  have V: "vmm_inv user_dom (P2V (mm_P4 m)) s fs" "mm_P4 m \<noteq> 0" using ok by (simp_all add: mmap_ok_def)
  have fr: "distinct fs" "\<And>f. f \<in> set fs \<Longrightarrow> page_aligned f" using V pmm_inv_distinct [of s fs] pmm_inv_aligned [of s fs] by (auto simp: vmm_inv_def)
  have am: "area_mapped (mm_P4 m) va e gs s s'"
    using mapped_area [OF mp e(2) V(2)] V(1) unfolding area_mapped_kmem [OF k2 V(2)] by (simp add: k2 vmm_inv_def)
  have tk: "set (take k fs) \<subseteq> set fs" "set (take k fs) \<inter> set (drop k fs) = {}"
    using fr(1) set_take_subset [of k fs] set_take_disj_set_drop_if_distinct [of fs k k] by auto
  have mpd: "k \<le> 4 * npages va e" "set gs \<subseteq> set (take k fs)" "set gs \<inter> user_tables s' m = {}"
    "user_tables s' m \<subseteq> user_tables s m \<union> set (take k fs)" "\<And>b. STRIP_FLAGS b \<notin> user_tables s m \<union> set (take k fs) \<Longrightarrow> kmem s' b = kmem s b"
    using mp unfolding mapped_def k2 by (auto simp: pages_def)
  show thesis by (rule that [OF r B am mpd(1)]) (use mpd tk fr(2) fs(2) in blast)+
qed

lemma load_elf_segment_run:
  fixes s :: "'z kernel_scheme"
  assumes p: "p \<noteq> 0" "procs s p = Some pr" and ok: "mmap_ok s (pmmap pr) m xs fs"
    and a: "avail s = a # as" "a \<noteq> 0" "a \<notin> set xs" and b: "below s xs (ph_va ph)" and fit: "segment_fits ph"
    and fs: "4 * seg_pages ph \<le> length fs" "P2V 0 \<notin> set fs"
    and img: "image_view s (file + ph_offset ph) (unat (ph_filesz ph)) fr (user_tables s m \<union> set fs)"
  obtains s' m' gs k where "load_elf_segment p file ph s = Inr s'" "mmap_ok s' (pmmap pr) m' (xs @ [a]) (drop k fs)" "mm_P4 m' = mm_P4 m"
    "k \<le> 4 * seg_pages ph" "user_tables s' m \<subseteq> user_tables s m \<union> set fs" "avail s' = as" "BootP4 s' = BootP4 s" "procs s' = procs s"
    "mareas s' = (mareas s)(a \<mapsto> \<lparr>area_start = ph_va ph, area_end = ph_va ph + ph_memsz ph, area_flags = 0, area_map = pmmap pr\<rparr>)" "procmm.more s' = procmm.more s"
    "\<And>b. STRIP_FLAGS b \<notin> user_tables s m \<union> set fs \<Longrightarrow> kmem s' b = kmem s b"
    "area_mapped (mm_P4 m) (ph_va ph) (ph_va ph + ph_memsz ph) gs s s'"
    "segment_loaded s' (mm_P4 m) (ph_va ph) (unat (ph_filesz ph)) (unat (ph_memsz ph))
       (\<lambda>i. kmem s (loc fr (file + ph_offset ph + of_nat i))) (user_tables s' m \<union> set (drop k fs))"
proof -
  let ?P4 = "mm_P4 m" and ?va = "ph_va ph" and ?e = "ph_va ph + ph_memsz ph" and ?mp = "pmmap pr"
  let ?src = "file + ph_offset ph" and ?F = "ph_filesz ph" and ?Z = "ph_memsz ph - ph_filesz ph"
  note rng = segment_range [OF fit]
  obtain s1 m' gs k where r: "procmm_map ?mp ?va ?e 0 s = Inr (a, s1)" and ok1: "mmap_ok s1 ?mp m' (xs @ [a]) (drop k fs)" and P4: "mm_P4 m' = ?P4"
    and ar: "mareas s1 = (mareas s)(a \<mapsto> \<lparr>area_start = ?va, area_end = ?e, area_flags = 0, area_map = ?mp\<rparr>)"
    and av: "avail s1 = as" and B: "BootP4 s1 = BootP4 s" "procmm.more s1 = procmm.more s" "m' = m\<lparr>mm_areas := mm_areas m'\<rparr>" and am: "area_mapped ?P4 ?va ?e gs s s1"
    and k: "k \<le> 4 * seg_pages ph" and T: "user_tables s1 m \<subseteq> user_tables s m \<union> set fs"
    and out: "\<And>b. STRIP_FLAGS b \<notin> user_tables s m \<union> set fs \<Longrightarrow> kmem s1 b = kmem s b"
    and g: "\<And>g. g \<in> set gs \<Longrightarrow> page_aligned g \<and> g \<noteq> P2V 0 \<and> g \<notin> user_tables s1 m \<union> set (drop k fs)" "set gs \<subseteq> set fs"
    by (rule procmm_map_frames [OF ok a b rng(2,3) fs, of 0]) (rule that)
  have img1: "image_view s1 ?src (unat ?F) fr (set gs)" using g(2) by (intro image_view_mono [OF img _ B(1) out]) auto
  have "page_aligned ?va" using fit by (simp add: segment_fits_def)
  moreover have "unat ?e = unat ?va + (unat ?F + unat ?Z)" using rng(1,4) by simp
  ultimately obtain m1 m2 where c: "vmm_p4_memcpy ?P4 ?va 0 ?src ?F s1 = Inr (?F, s1\<lparr>kmem := m1\<rparr>)"
    "vmm_p4_memset ?P4 (?va + ?F) 0 ?Z (s1\<lparr>kmem := m1\<rparr>) = Inr (?Z, s1\<lparr>kmem := m2\<rparr>)"
    and m2: "\<And>b. STRIP_FLAGS b \<notin> set gs \<Longrightarrow> m2 b = kmem s1 b"
    and sl: "segment_loaded (s1\<lparr>kmem := m2\<rparr>) ?P4 ?va (unat ?F) (unat ?F + unat ?Z) (\<lambda>i. kmem s1 (loc fr (?src + of_nat i))) (user_tables s1 m \<union> set (drop k fs))"
    by (rule fill_area [OF ok1, unfolded P4, OF am _ _ rng(3) g(1) img1]) (assumption, rule that)
  have same: "m2 b = kmem s1 b" if "STRIP_FLAGS b \<in> user_tables s1 m \<union> set (drop k fs)" for b using that g by (intro m2) blast
  then have d: "mmap_ok (s1\<lparr>kmem := m2\<rparr>) ?mp m' (xs @ [a]) (drop k fs)" "tables user_dom m2 (P2V ?P4) = user_tables s1 m"
    "\<And>va. va < USERSPACE_TOP \<Longrightarrow> vmm_get_page ?P4 va (s1\<lparr>kmem := m2\<rparr>) = vmm_get_page ?P4 va s1"
    using mmap_ok_data [OF ok1, of m2, unfolded P4] by blast+
  have src: "kmem s1 (loc fr (?src + of_nat i)) = kmem s (loc fr (?src + of_nat i))" if "i < unat ?F" for i
    by (rule out [OF image_view_loc [OF img that]])
  have pr: "procs s1 = procs s" using B(2) by (cases s, cases s1) simp
  show thesis
  proof (rule that [where m' = m'])
    show "load_elf_segment p file ph s = Inr (s1\<lparr>kmem := m2\<rparr>)"
      using p ok1 r c P4 pr by (simp add: load_elf_segment_def obj_def mmap_ok_def)
    show "segment_loaded (s1\<lparr>kmem := m2\<rparr>) ?P4 ?va (unat ?F) (unat (ph_memsz ph)) (\<lambda>i. kmem s (loc fr (?src + of_nat i)))
        (user_tables (s1\<lparr>kmem := m2\<rparr>) m \<union> set (drop k fs))"
      using sl unfolding segment_loaded_def rng(4) by (simp add: src d(2) cong: if_cong)
    show "area_mapped ?P4 ?va ?e gs s (s1\<lparr>kmem := m2\<rparr>)" using am d(3) unfolding area_mapped_def by auto
    show "kmem (s1\<lparr>kmem := m2\<rparr>) b = kmem s b" if "STRIP_FLAGS b \<notin> user_tables s m \<union> set fs" for b
      using that out [of b] m2 [of b] g(2) by auto
  qed (use d T P4 k av B(1,2) ar pr in simp_all)
qed

section \<open>The program headers\<close>

text \<open>The loadable segments of an image, and the bytes of its headers.\<close>

abbreviation ph_num :: "mem \<Rightarrow> addr \<Rightarrow> nat" where
  "ph_num m data \<equiv> unat (load16 m (data + 56))"

definition pheads_from :: "mem \<Rightarrow> addr \<Rightarrow> addr \<Rightarrow> nat \<Rightarrow> elf_phead list" where
  "pheads_from m data phead i = filter (\<lambda>ph. ph_type ph = ELF_PT_LOAD) (map (\<lambda>i. elf_phead_at m (phead + 56 * of_nat i)) [i..<ph_num m data])"

definition load_pheads :: "mem \<Rightarrow> addr \<Rightarrow> elf_phead list" where
  "load_pheads m data = pheads_from m data (data + load64 m (data + 32)) 0"

definition header_bytes :: "mem \<Rightarrow> addr \<Rightarrow> addr set" where
  "header_bytes m data = (\<lambda>k. data + of_nat k) ` {..<64}
     \<union> (\<lambda>(i, k). data + load64 m (data + 32) + 56 * of_nat i + of_nat k) ` ({..<ph_num m data} \<times> {..<56})"

lemma header_same:
  assumes same: "\<And>b. b \<in> header_bytes m data \<Longrightarrow> m' b = m b"
  shows "j \<le> 56 \<Longrightarrow> load64 m' (data + of_nat j) = load64 m (data + of_nat j)" "ph_num m' data = ph_num m data"
    "i < ph_num m data \<Longrightarrow> elf_phead_at m' (data + load64 m (data + 32) + 56 * of_nat i) = elf_phead_at m (data + load64 m (data + 32) + 56 * of_nat i)"
proof -
  show h: "load64 m' (data + of_nat j) = load64 m (data + of_nat j)" if "j \<le> 56" for j
  proof (rule load64_cong, rule same)
    fix k :: nat assume "k < 8"
    then have "data + of_nat (j + k) \<in> header_bytes m data" using that unfolding header_bytes_def by (intro UnI1 imageI) simp
    then show "data + of_nat j + of_nat k \<in> header_bytes m data" by (simp add: add.assoc)
  qed
  from h [of 56] show "ph_num m' data = ph_num m data" by (simp add: load16_def)
  assume i: "i < ph_num m data"
  have "load64 m' (data + load64 m (data + 32) + 56 * of_nat i + of_nat j) = load64 m (data + load64 m (data + 32) + 56 * of_nat i + of_nat j)" if "j \<le> 48" for j
  proof (rule load64_cong, rule same)
    fix k :: nat assume "k < 8"
    then have "(\<lambda>(i, k). data + load64 m (data + 32) + 56 * of_nat i + of_nat k) (i, j + k) \<in> header_bytes m data"
      using that i unfolding header_bytes_def by (intro UnI2 imageI) simp
    then show "data + load64 m (data + 32) + 56 * of_nat i + of_nat j + of_nat k \<in> header_bytes m data" by (simp add: add.assoc)
  qed
  note this [of 0] this [of 8] this [of 16] this [of 32] this [of 40]
  then show "elf_phead_at m' (data + load64 m (data + 32) + 56 * of_nat i) = elf_phead_at m (data + load64 m (data + 32) + 56 * of_nat i)"
    by (simp add: elf_phead_at_def load32_def)
qed

lemma pheads_from_step:
  "i < ph_num m data \<Longrightarrow> pheads_from m data phead i =
     (if ph_type (elf_phead_at m (phead + 56 * of_nat i)) = ELF_PT_LOAD then [elf_phead_at m (phead + 56 * of_nat i)] else []) @ pheads_from m data phead (Suc i)"
  "\<not> i < ph_num m data \<Longrightarrow> pheads_from m data phead i = []"
  by (simp_all add: pheads_from_def upt_conv_Cons)

section \<open>Loading the segments\<close>

text \<open>
  What loading the segments \<open>phs\<close> relies on: they ascend and lie above the areas of the map, there are pages and
  objects for them, with \<open>c\<close> objects left over, and the image is mapped apart from the pages that may be written.
\<close>

definition load_ready :: "nat \<Rightarrow> addr \<Rightarrow> process_t \<Rightarrow> addr \<Rightarrow> (addr \<Rightarrow> addr) \<Rightarrow> elf_phead list \<Rightarrow> 'z kernel_scheme \<Rightarrow> procmm_mmap_t \<Rightarrow> addr list \<Rightarrow> addr list \<Rightarrow> bool" where
  "load_ready c p pr data fr phs s m xs fs \<longleftrightarrow> p \<noteq> 0 \<and> procs s p = Some pr \<and> mmap_ok s (pmmap pr) m xs fs
     \<and> distinct (avail s) \<and> (\<forall>a \<in> set (avail s). a \<noteq> 0 \<and> a + TCB_OFFSET \<noteq> 0) \<and> set (avail s) \<inter> set xs = {} \<and> length phs + c \<le> length (avail s)
     \<and> 4 * sum_list (map seg_pages phs) \<le> length fs \<and> P2V 0 \<notin> set fs
     \<and> sorted_wrt (\<lambda>a b. ph_va a + ph_memsz a < ph_va b) phs
     \<and> (\<forall>ph \<in> set phs. segment_fits ph \<and> below s xs (ph_va ph)
          \<and> image_view s (data + ph_offset ph) (unat (ph_filesz ph)) fr (user_tables s m \<union> set fs))"

lemma load_ready_step:
  fixes s :: "'z kernel_scheme"
  assumes "load_ready c p pr data fr (ph # phs) s m xs fs"
  obtains s' m' a k gs where "load_elf_segment p data ph s = Inr s'" "load_ready c p pr data fr phs s' m' (xs @ [a]) (drop k fs)" "mm_P4 m' = mm_P4 m"
    "user_tables s' m' \<union> set (drop k fs) \<subseteq> user_tables s m \<union> set fs" "\<And>b. STRIP_FLAGS b \<notin> user_tables s m \<union> set fs \<Longrightarrow> kmem s' b = kmem s b"
    "area_mapped (mm_P4 m) (ph_va ph) (ph_va ph + ph_memsz ph) gs s s'"
    "segment_loaded s' (mm_P4 m) (ph_va ph) (unat (ph_filesz ph)) (unat (ph_memsz ph))
       (\<lambda>i. kmem s (loc fr (data + ph_offset ph + of_nat i))) (user_tables s' m' \<union> set (drop k fs))"
    "map_option area_end (mareas s' a) = Some (ph_va ph + ph_memsz ph)" "procmm.more s' = procmm.more s" "set (avail s') \<subseteq> set (avail s)"
proof -
  note R = assms [unfolded load_ready_def]
  obtain a as where av: "avail s = a # as" using R by (cases "avail s") auto
  have p: "p \<noteq> 0" "procs s p = Some pr" and ok: "mmap_ok s (pmmap pr) m xs fs" and a: "a \<noteq> 0" "a \<notin> set xs"
    and b: "below s xs (ph_va ph)" and fit: "segment_fits ph" and fs: "4 * seg_pages ph \<le> length fs" "P2V 0 \<notin> set fs"
    and img: "image_view s (data + ph_offset ph) (unat (ph_filesz ph)) fr (user_tables s m \<union> set fs)"
    using R by (auto simp: av)
  obtain s' m' gs k where run: "load_elf_segment p data ph s = Inr s'" and ok': "mmap_ok s' (pmmap pr) m' (xs @ [a]) (drop k fs)" and P4: "mm_P4 m' = mm_P4 m"
    and k: "k \<le> 4 * seg_pages ph" and T: "user_tables s' m \<subseteq> user_tables s m \<union> set fs" and s': "avail s' = as" "BootP4 s' = BootP4 s" "procs s' = procs s"
    "mareas s' = (mareas s)(a \<mapsto> \<lparr>area_start = ph_va ph, area_end = ph_va ph + ph_memsz ph, area_flags = 0, area_map = pmmap pr\<rparr>)" "procmm.more s' = procmm.more s"
    and out: "\<And>b. STRIP_FLAGS b \<notin> user_tables s m \<union> set fs \<Longrightarrow> kmem s' b = kmem s b"
    and l: "area_mapped (mm_P4 m) (ph_va ph) (ph_va ph + ph_memsz ph) gs s s'"
    "segment_loaded s' (mm_P4 m) (ph_va ph) (unat (ph_filesz ph)) (unat (ph_memsz ph))
       (\<lambda>i. kmem s (loc fr (data + ph_offset ph + of_nat i))) (user_tables s' m \<union> set (drop k fs))"
    by (rule load_elf_segment_run [OF p ok av a b fit fs img]) (rule that)
  have X: "user_tables s' m \<union> set (drop k fs) \<subseteq> user_tables s m \<union> set fs" using T set_drop_subset [of k fs] by blast
  have "below s' (xs @ [a]) (ph_va q) \<and> image_view s' (data + ph_offset q) (unat (ph_filesz q)) fr (user_tables s' m \<union> set (drop k fs))"
    if q: "q \<in> set phs" for q
  proof
    have "below s xs (ph_va q)" "ph_va ph + ph_memsz ph < ph_va q" using R q by auto
    then show "below s' (xs @ [a]) (ph_va q)" using segment_range(2) [OF fit] a(2) by (auto simp: below_def s')
    have "image_view s (data + ph_offset q) (unat (ph_filesz q)) fr (user_tables s m \<union> set fs)" using R q by simp
    then show "image_view s' (data + ph_offset q) (unat (ph_filesz q)) fr (user_tables s' m \<union> set (drop k fs))"
      by (rule image_view_mono [OF _ X s'(2) out])
  qed
  moreover have "4 * sum_list (map seg_pages phs) \<le> length (drop k fs)" using R k by auto
  moreover have "P2V 0 \<notin> set (drop k fs)" using fs(2) by (auto dest: in_set_dropD)
  moreover have "distinct as" "\<forall>a \<in> set as. a \<noteq> 0 \<and> a + TCB_OFFSET \<noteq> 0" "set as \<inter> set (xs @ [a]) = {}" "length phs + c \<le> length as" using R by (auto simp: av)
  ultimately have "load_ready c p pr data fr phs s' m' (xs @ [a]) (drop k fs)" using R ok' p by (simp add: load_ready_def s' P4)
  then show thesis by (rule that [OF run _ P4 _ _ l(1)]) (use X out l(2) P4 s'(1,4,5) av in auto)
qed

text \<open>A segment below the next one keeps its pages and its contents.\<close>

lemma segment_kept:
  fixes s :: "'z vmm_scheme" and s' :: "'y vmm_scheme"
  assumes sl: "segment_loaded s P4 (ph_va q) F (unat (ph_memsz q)) src X" and X: "X' \<subseteq> X" "\<And>b. STRIP_FLAGS b \<notin> X \<Longrightarrow> kmem s' b = kmem s b"
    and am: "area_mapped P4 (ph_va ph) (ph_va ph + ph_memsz ph) gs s s'" and fit: "segment_fits q" "segment_fits ph" and lt: "ph_va q + ph_memsz q < ph_va ph"
  shows "segment_loaded s' P4 (ph_va q) F (unat (ph_memsz q)) src X'"
proof (rule segment_loaded_frame [OF sl X])
  fix i assume i: "i < unat (ph_memsz q)"
  let ?v = "ph_va q + of_nat i" and ?n = "npages (ph_va ph) (ph_va ph + ph_memsz ph)"
  note rng = segment_range [OF fit(1)] segment_range [OF fit(2)]
  have u: "unat ?v = unat (ph_va q) + i" using i rng(1,3)
    by (subst unat_add_eq) (auto simp: unat_of_nat_eq word_le_nat_alt USERSPACE_TOP_def)
  then have v: "unat ?v < unat (ph_va ph)" using i lt rng(1) by (simp add: word_less_nat_alt)
  have "STRIP_FLAGS ?v \<noteq> STRIP_FLAGS (ph_va ph + of_nat (4096 * j))" if "j < ?n" for j
  proof -
    have "4096 * ?n \<le> unat (ph_memsz ph) + 4095" using rng(5) by (simp add: npages_def)
    then have "unat (ph_va ph) + 4096 * ?n < 2 ^ 64" using rng(5,7) by (simp add: word_le_nat_alt USERSPACE_TOP_def)
    note w = unat_page_at [OF that this]
    have "page_aligned (ph_va ph + of_nat (4096 * j))" using fit(2) w unfolding segment_fits_def page_aligned_unat by (metis dvd_add dvd_triv_left)
    moreover have "unat (STRIP_FLAGS ?v) \<le> unat ?v" by (simp add: unat_STRIP_FLAGS)
    ultimately show ?thesis using v w by (metis STRIP_aligned le_add1 leD order_le_less_trans)
  qed
  moreover have "?v < USERSPACE_TOP" using v fit(2) by (simp add: word_less_nat_alt segment_fits_def)
  ultimately show "vmm_get_page P4 ?v s' = vmm_get_page P4 ?v s" using am unfolding area_mapped_def by blast
qed

text \<open>The segments \<open>ds\<close> hold what the image \<open>m0\<close> has for them.\<close>

definition segments_loaded :: "'z vmm_scheme \<Rightarrow> addr \<Rightarrow> addr \<Rightarrow> (addr \<Rightarrow> addr) \<Rightarrow> mem \<Rightarrow> elf_phead list \<Rightarrow> addr set \<Rightarrow> bool" where
  "segments_loaded s P4 data fr m0 ds X \<longleftrightarrow> (\<forall>ph \<in> set ds. segment_loaded s P4 (ph_va ph) (unat (ph_filesz ph)) (unat (ph_memsz ph))
     (\<lambda>i. m0 (loc fr (data + ph_offset ph + of_nat i))) X)"

lemma load_segments_step:
  fixes s :: "'z kernel_scheme"
  assumes R: "load_ready c p pr data fr (ph # phs) s m xs fs" and L: "segments_loaded s (mm_P4 m) data fr m0 ds (user_tables s m \<union> set fs)"
    and o: "\<forall>q \<in> set ds. ph_va q + ph_memsz q < ph_va ph" "\<forall>q \<in> set ds. segment_fits q"
    and m0: "\<And>b. STRIP_FLAGS b \<notin> X0 \<Longrightarrow> kmem s b = m0 b" "user_tables s m \<union> set fs \<subseteq> X0"
    and img: "image_view s0 (data + ph_offset ph) (unat (ph_filesz ph)) fr X0"
  obtains s' m' a k where "load_elf_segment p data ph s = Inr s'" "load_ready c p pr data fr phs s' m' (xs @ [a]) (drop k fs)" "mm_P4 m' = mm_P4 m"
    "segments_loaded s' (mm_P4 m') data fr m0 (ds @ [ph]) (user_tables s' m' \<union> set (drop k fs))"
    "\<And>b. STRIP_FLAGS b \<notin> X0 \<Longrightarrow> kmem s' b = m0 b" "user_tables s' m' \<union> set (drop k fs) \<subseteq> X0"
    "map_option area_end (mareas s' a) = Some (ph_va ph + ph_memsz ph)" "procmm.more s' = procmm.more s" "set (avail s') \<subseteq> set (avail s)"
proof -
  obtain s' m' a k gs where r: "load_elf_segment p data ph s = Inr s'" and R': "load_ready c p pr data fr phs s' m' (xs @ [a]) (drop k fs)"
    and P4: "mm_P4 m' = mm_P4 m" and X: "user_tables s' m' \<union> set (drop k fs) \<subseteq> user_tables s m \<union> set fs"
    and out: "\<And>b. STRIP_FLAGS b \<notin> user_tables s m \<union> set fs \<Longrightarrow> kmem s' b = kmem s b"
    and am: "area_mapped (mm_P4 m) (ph_va ph) (ph_va ph + ph_memsz ph) gs s s'"
    and sl: "segment_loaded s' (mm_P4 m) (ph_va ph) (unat (ph_filesz ph)) (unat (ph_memsz ph))
       (\<lambda>i. kmem s (loc fr (data + ph_offset ph + of_nat i))) (user_tables s' m' \<union> set (drop k fs))"
    and ar: "map_option area_end (mareas s' a) = Some (ph_va ph + ph_memsz ph)" "procmm.more s' = procmm.more s" "set (avail s') \<subseteq> set (avail s)"
    by (rule load_ready_step [OF R]) (rule that)
  have fit: "segment_fits ph" using R by (simp add: load_ready_def)
  have "segment_loaded s' (mm_P4 m) (ph_va q) (unat (ph_filesz q)) (unat (ph_memsz q)) (\<lambda>i. m0 (loc fr (data + ph_offset q + of_nat i)))
      (user_tables s' m' \<union> set (drop k fs))" if q: "q \<in> set ds" for q
  proof (rule segment_kept [OF _ X out am _ fit])
    show "segment_loaded s (mm_P4 m) (ph_va q) (unat (ph_filesz q)) (unat (ph_memsz q)) (\<lambda>i. m0 (loc fr (data + ph_offset q + of_nat i))) (user_tables s m \<union> set fs)"
      using L q unfolding segments_loaded_def by blast
    show "segment_fits q" "ph_va q + ph_memsz q < ph_va ph" using o q by auto
  qed
  moreover have "kmem s (loc fr (data + ph_offset ph + of_nat i)) = m0 (loc fr (data + ph_offset ph + of_nat i))" if "i < unat (ph_filesz ph)" for i
    by (rule m0(1) [OF image_view_loc [OF img that]])
  then have "segment_loaded s' (mm_P4 m) (ph_va ph) (unat (ph_filesz ph)) (unat (ph_memsz ph)) (\<lambda>i. m0 (loc fr (data + ph_offset ph + of_nat i)))
      (user_tables s' m' \<union> set (drop k fs))"
    using sl unfolding segment_loaded_def by (simp cong: if_cong)
  ultimately have "segments_loaded s' (mm_P4 m') data fr m0 (ds @ [ph]) (user_tables s' m' \<union> set (drop k fs))"
    by (simp add: segments_loaded_def P4)
  moreover have "kmem s' b = m0 b" if "STRIP_FLAGS b \<notin> X0" for b using that out [of b] m0(1) [of b] m0(2) by auto
  moreover have "user_tables s' m' \<union> set (drop k fs) \<subseteq> X0" using X m0(2) by (rule order_trans)
  ultimately show thesis using ar by (rule that [OF r R' P4])
qed

lemma load_elf_loop_run:
  fixes s s0 :: "'z kernel_scheme" and data :: addr
  defines "phead \<equiv> data + load64 (kmem s0) (data + 32)"
  assumes hdr: "\<And>b. b \<in> header_bytes (kmem s0) data \<Longrightarrow> STRIP_FLAGS b \<notin> X0"
    and img: "\<And>ph. ph \<in> set (load_pheads (kmem s0) data) \<Longrightarrow> image_view s0 (data + ph_offset ph) (unat (ph_filesz ph)) fr X0 \<and> segment_fits ph"
    and srt: "sorted_wrt (\<lambda>a b. ph_va a + ph_memsz a < ph_va b) (load_pheads (kmem s0) data)"
  shows "load_ready c p pr data fr (pheads_from (kmem s0) data phead i @ ex) s m xs fs \<Longrightarrow> load_pheads (kmem s0) data = ds @ pheads_from (kmem s0) data phead i
    \<Longrightarrow> segments_loaded s (mm_P4 m) data fr (kmem s0) ds (user_tables s m \<union> set fs)
    \<Longrightarrow> (\<And>b. STRIP_FLAGS b \<notin> X0 \<Longrightarrow> kmem s b = kmem s0 b) \<Longrightarrow> user_tables s m \<union> set fs \<subseteq> X0
    \<Longrightarrow> (ds \<noteq> [] \<Longrightarrow> xs \<noteq> [] \<and> map_option area_end (mareas s (last xs)) = Some (ph_va (last ds) + ph_memsz (last ds)))
    \<Longrightarrow> set (avail s) \<subseteq> A \<Longrightarrow> \<exists>s' m' xs' fs'. load_elf_loop p data phead i s = Inr s' \<and> load_ready c p pr data fr ex s' m' xs' fs' \<and> mm_P4 m' = mm_P4 m
       \<and> segments_loaded s' (mm_P4 m') data fr (kmem s0) (load_pheads (kmem s0) data) (user_tables s' m' \<union> set fs')
       \<and> (\<forall>b. STRIP_FLAGS b \<notin> X0 \<longrightarrow> kmem s' b = kmem s0 b) \<and> user_tables s' m' \<union> set fs' \<subseteq> X0
       \<and> (load_pheads (kmem s0) data \<noteq> [] \<longrightarrow> xs' \<noteq> []
          \<and> map_option area_end (mareas s' (last xs')) = Some (ph_va (last (load_pheads (kmem s0) data)) + ph_memsz (last (load_pheads (kmem s0) data))))
       \<and> procmm.more s' = procmm.more s \<and> set (avail s') \<subseteq> A"
proof (induction "ph_num (kmem s0) data - i" arbitrary: i s m xs fs ds)
  case 0
  have h: "ph_num (kmem s) data = ph_num (kmem s0) data" "i < ph_num (kmem s0) data \<Longrightarrow> elf_phead_at (kmem s) (phead + 56 * of_nat i) = elf_phead_at (kmem s0) (phead + 56 * of_nat i)"
    unfolding phead_def by (rule header_same(2,3), use 0(5) hdr in blast)+
  have "pheads_from (kmem s0) data phead i = []" using 0(1) by (simp add: pheads_from_step)
  moreover have "load_elf_loop p data phead i s = Inr s" using 0(1) h(1) by (subst load_elf_loop.simps) simp
  ultimately show ?case using 0 by (intro exI [of _ s] exI [of _ m] exI [of _ xs] exI [of _ fs]) simp
next
  case (Suc n)
  let ?ph = "elf_phead_at (kmem s0) (phead + 56 * of_nat i)"
  have h: "ph_num (kmem s) data = ph_num (kmem s0) data" "i < ph_num (kmem s0) data \<Longrightarrow> elf_phead_at (kmem s) (phead + 56 * of_nat i) = elf_phead_at (kmem s0) (phead + 56 * of_nat i)"
    unfolding phead_def by (rule header_same(2,3), use Suc.prems(4) hdr in blast)+
  have i: "i < ph_num (kmem s0) data" and n: "n = ph_num (kmem s0) data - Suc i" using Suc.hyps(2) by simp_all
  have ph: "elf_phead_at (kmem s) (phead + 56 * of_nat i) = ?ph" by (rule h(2) [OF i])
  have ty: "load32 (kmem s) (phead + 56 * of_nat i) = ph_type ?ph" using arg_cong [OF ph, of ph_type] by (simp add: elf_phead_at_def)
  have loop: "load_elf_loop p data phead i s = bindR (if ph_type ?ph = ELF_PT_LOAD then load_elf_segment p data ?ph s else Inr s) (load_elf_loop p data phead (Suc i))"
    using i h(1) ty ph by (subst load_elf_loop.simps) simp
  note step = pheads_from_step(1) [OF i, of phead]
  show ?case
  proof (cases "ph_type ?ph = ELF_PT_LOAD")
    case False
    then show ?thesis using Suc.hyps(1) [OF n, of s m xs fs ds] Suc.prems loop step by simp
  next
    case True
    have R: "load_ready c p pr data fr (?ph # pheads_from (kmem s0) data phead (Suc i) @ ex) s m xs fs" using Suc.prems(1) step True by simp
    have all: "load_pheads (kmem s0) data = ds @ ?ph # pheads_from (kmem s0) data phead (Suc i)" using Suc.prems(2) step True by simp
    have im: "image_view s0 (data + ph_offset ?ph) (unat (ph_filesz ?ph)) fr X0" "\<forall>q \<in> set ds. segment_fits q" using img unfolding all by auto
    have srt': "\<forall>q \<in> set ds. ph_va q + ph_memsz q < ph_va ?ph" using srt unfolding all by (simp add: sorted_wrt_append)
    obtain s' m' a k where r: "load_elf_segment p data ?ph s = Inr s'" "load_ready c p pr data fr (pheads_from (kmem s0) data phead (Suc i) @ ex) s' m' (xs @ [a]) (drop k fs)"
      "mm_P4 m' = mm_P4 m" "segments_loaded s' (mm_P4 m') data fr (kmem s0) (ds @ [?ph]) (user_tables s' m' \<union> set (drop k fs))"
      and o: "\<And>b. STRIP_FLAGS b \<notin> X0 \<Longrightarrow> kmem s' b = kmem s0 b" "user_tables s' m' \<union> set (drop k fs) \<subseteq> X0"
      and ar: "map_option area_end (mareas s' a) = Some (ph_va ?ph + ph_memsz ?ph)" "procmm.more s' = procmm.more s" "set (avail s') \<subseteq> set (avail s)"
      by (rule load_segments_step [OF R Suc.prems(3) srt' im(2) Suc.prems(4,5) im(1)]) (assumption, rule that)
    have "set (avail s') \<subseteq> A" using ar(3) Suc.prems(7) by (rule subset_trans)
    moreover have "load_pheads (kmem s0) data = (ds @ [?ph]) @ pheads_from (kmem s0) data phead (Suc i)" using all by simp
    moreover have "xs @ [a] \<noteq> [] \<and> map_option area_end (mareas s' (last (xs @ [a]))) = Some (ph_va (last (ds @ [?ph])) + ph_memsz (last (ds @ [?ph])))" using ar(1) by simp
    ultimately show ?thesis using Suc.hyps(1) [OF n r(2) _ r(4) o] unfolding loop using True r(1,3) ar(2) by simp
  qed
qed

lemma load_elf_loop_start:
  fixes s :: "'z kernel_scheme"
  assumes R: "load_ready c p pr data fr (load_pheads (kmem s) data @ ex) s m xs fs"
    and hdr: "\<And>b. b \<in> header_bytes (kmem s) data \<Longrightarrow> STRIP_FLAGS b \<notin> user_tables s m \<union> set fs"
  shows "\<exists>s' m' xs' fs'. load_elf_loop p data (data + load64 (kmem s) (data + 32)) 0 s = Inr s' \<and> load_ready c p pr data fr ex s' m' xs' fs' \<and> mm_P4 m' = mm_P4 m
     \<and> segments_loaded s' (mm_P4 m') data fr (kmem s) (load_pheads (kmem s) data) (user_tables s' m' \<union> set fs')
     \<and> (\<forall>b. STRIP_FLAGS b \<notin> user_tables s m \<union> set fs \<longrightarrow> kmem s' b = kmem s b) \<and> user_tables s' m' \<union> set fs' \<subseteq> user_tables s m \<union> set fs
     \<and> (load_pheads (kmem s) data \<noteq> [] \<longrightarrow> xs' \<noteq> [] \<and> map_option area_end (mareas s' (last xs')) = Some (ph_va (last (load_pheads (kmem s) data)) + ph_memsz (last (load_pheads (kmem s) data))))
     \<and> procmm.more s' = procmm.more s \<and> set (avail s') \<subseteq> set (avail s)"
proof (rule load_elf_loop_run [where ds = "[]" and A = "set (avail s)"])
  show "load_ready c p pr data fr (pheads_from (kmem s) data (data + load64 (kmem s) (data + 32)) 0 @ ex) s m xs fs" using R by (simp add: load_pheads_def)
qed (use R hdr in \<open>simp_all add: load_ready_def load_pheads_def segments_loaded_def sorted_wrt_append\<close>)

text \<open>
  \<^verbatim>\<open>load_elf\<close> returns the null pointer and changes nothing when the image has no ELF magic or is not an executable.
\<close>

theorem load_elf_rejects:
  "memcmp (kmem s) data lit 4 \<noteq> 0 \<or> load16 (kmem s) (data + 16) \<noteq> ELF_TYPE_EXECUTABLE \<Longrightarrow> load_elf lit p data s = Inr (0, s)"
  by (simp add: load_elf_def)

text \<open>
  Loading an executable. With ascending page-aligned segments above the areas of the process, pages and objects for
  them, and an image whose pages are mapped one by one in the boot tables and lie, with its headers, apart from the free
  pages and the tables of the process, \<^verbatim>\<open>load_elf\<close> returns the entry point; every byte of every loadable
  segment is then mapped for the process and holds the byte of the image, or zero past the end of the file part; the map
  of the process stays well formed, and memory outside its tables and the free pages is unchanged.
\<close>

theorem load_elf_loads:
  fixes s :: "'z kernel_scheme"
  assumes "memcmp (kmem s) data lit 4 = 0" and "load16 (kmem s) (data + 16) = ELF_TYPE_EXECUTABLE"
    and R: "load_ready 0 p pr data fr (load_pheads (kmem s) data) s m xs fs"
    and hdr: "\<And>b. b \<in> header_bytes (kmem s) data \<Longrightarrow> STRIP_FLAGS b \<notin> user_tables s m \<union> set fs"
  shows "\<exists>s' m' xs' fs'. load_elf lit p data s = Inr (load64 (kmem s) (data + 24), s') \<and> mmap_ok s' (pmmap pr) m' xs' fs' \<and> mm_P4 m' = mm_P4 m
    \<and> (\<forall>ph \<in> set (load_pheads (kmem s) data). \<forall>i < unat (ph_memsz ph). \<exists>g. vmm_get_page (mm_P4 m) (ph_va ph + of_nat i) s' = Inr (user_page g)
         \<and> kmem s' (g + PAGE_OFFSET (ph_va ph + of_nat i)) = (if i < unat (ph_filesz ph) then kmem s (loc fr (data + ph_offset ph + of_nat i)) else 0))
    \<and> (\<forall>b. STRIP_FLAGS b \<notin> user_tables s m \<union> set fs \<longrightarrow> kmem s' b = kmem s b)"
proof -
  let ?X = "user_tables s m \<union> set fs" and ?phs = "load_pheads (kmem s) data" and ?phead = "data + load64 (kmem s) (data + 32)"
  have "\<exists>s' m' xs' fs'. load_elf_loop p data ?phead 0 s = Inr s' \<and> load_ready 0 p pr data fr [] s' m' xs' fs' \<and> mm_P4 m' = mm_P4 m
      \<and> segments_loaded s' (mm_P4 m') data fr (kmem s) ?phs (user_tables s' m' \<union> set fs') \<and> (\<forall>b. STRIP_FLAGS b \<notin> ?X \<longrightarrow> kmem s' b = kmem s b)"
    using load_elf_loop_start [of 0 p pr data fr s "[]" m xs fs] R hdr by fastforce
  then obtain s' m' xs' fs' where s': "load_elf_loop p data ?phead 0 s = Inr s'" "mmap_ok s' (pmmap pr) m' xs' fs'" "mm_P4 m' = mm_P4 m"
    "segments_loaded s' (mm_P4 m') data fr (kmem s) ?phs (user_tables s' m' \<union> set fs')" "\<forall>b. STRIP_FLAGS b \<notin> ?X \<longrightarrow> kmem s' b = kmem s b"
    unfolding load_ready_def by blast
  have "load64 (kmem s') (data + of_nat 24) = load64 (kmem s) (data + of_nat 24)" using s'(5) hdr by (intro header_same(1) [where m = "kmem s"]) auto
  then have "load_elf lit p data s = Inr (load64 (kmem s) (data + 24), s')" using s'(1) assms(1,2) by (simp add: load_elf_def)
  moreover have "\<exists>g. vmm_get_page (mm_P4 m) (ph_va ph + of_nat i) s' = Inr (user_page g)
         \<and> kmem s' (g + PAGE_OFFSET (ph_va ph + of_nat i)) = (if i < unat (ph_filesz ph) then kmem s (loc fr (data + ph_offset ph + of_nat i)) else 0)"
    if "ph \<in> set ?phs" "i < unat (ph_memsz ph)" for ph i using s'(3,4) that unfolding segments_loaded_def segment_loaded_def by metis
  ultimately show ?thesis using s'(2,3,5) by blast
qed

text \<open>An image of one segment at the direct mapping of a page, with tables that map this page alone. The page also holds
  the vectors of one argument and of no variables.\<close>

definition put_words :: "(addr \<times> addr \<times> u64) list \<Rightarrow> mem \<Rightarrow> mem" where
  "put_words ws m = fold (\<lambda>(a, i, v) m. store64 m (P2V a + 8 * i) v) ws m"

lemma load64_put_words:
  assumes "\<forall>(a, i, v) \<in> set ws. page_aligned a \<and> unat i < 512" "page_aligned b" "unat j < 512"
  shows "load64 (put_words ws m) (P2V b + 8 * j) =
    (case map_of (rev (map (\<lambda>(a, i, v). ((a, i), v)) ws)) (b, j) of None \<Rightarrow> load64 m (P2V b + 8 * j) | Some v \<Rightarrow> v)"
  using assms(1)
proof (induction ws arbitrary: m)
  case (Cons w ws)
  obtain a i v where w: "w = (a, i, v)" by (cases w)
  have "load64 (store64 m (P2V a + 8 * i) v) (P2V b + 8 * j) = (if a = b \<and> i = j then v else load64 m (P2V b + 8 * j))"
    using Cons.prems assms(2,3) by (intro load64_frame_slot) (simp_all add: w)
  then show ?case using Cons by (auto simp: w put_words_def map_add_def split: option.splits)
qed (simp add: put_words_def)

lemma put_words_outside:
  assumes "\<forall>(a, i, v) \<in> set ws. page_aligned a \<and> unat i < 512" "\<forall>(a, i, v) \<in> set ws. STRIP_FLAGS b \<noteq> P2V a"
  shows "put_words ws m b = m b"
  using assms
proof (induction ws arbitrary: m)
  case (Cons w ws)
  obtain a i v where w: "w = (a, i, v)" by (cases w)
  have "store64 m (P2V a + 8 * i) v b = m b" using Cons.prems by (intro store64_page) (simp_all add: w)
  then show ?case using Cons by (simp add: w put_words_def)
qed (simp add: put_words_def)

definition exec_frames :: "addr list" where
  "exec_frames = P2V 0x10000 # P2V 0xF000 # example_frames"

definition example_loader :: kernel where
  "example_loader = (pmm_free 0x10000 (pmm_free 0xF000 (example_kernel PROC_STATE_READY)))
     \<lparr>avail := [KERNEL_HEAP_S + 64, KERNEL_HEAP_S + 128, KERNEL_HEAP_S + 192, KERNEL_HEAP_S + 256]\<rparr>"

definition example_image :: mem where
  "example_image = put_words
     [(0x2000, 511, 0xC003), (0xC000, 0, 0xD003), (0xD000, 0, 0xE003), (0xE000, 0xB, 0xB003),
      (0xB000, 0, 0x464C457F), (0xB000, 2, 2), (0xB000, 3, 0x400000), (0xB000, 4, 64), (0xB000, 7, 1),
      (0xB000, 8, 1), (0xB000, 9, 0), (0xB000, 10, 0x400000), (0xB000, 12, 4), (0xB000, 13, 8), (0xB000, 64, 0x464C457F),
      (0xB000, 65, P2V 0xB000 + 560), (0xB000, 66, 0), (0xB000, 68, 0), (0xB000, 70, 0x61)]
     (kmem example_loader)"

definition example_exec :: kernel where
  "example_exec = example_loader\<lparr>kmem := example_image\<rparr>"

lemma example_image_aligned: "page_aligned 0xB000" "page_aligned 0xC000" "page_aligned 0xD000" "page_aligned 0xE000"
  by (simp_all add: page_aligned_def)

lemma example_image_words:
  "load64 example_image (P2V 0x2000 + 8 * 511) = 0xC003" "load64 example_image (P2V 0xC000 + 8 * 0) = 0xD003"
  "load64 example_image (P2V 0xD000 + 8 * 0) = 0xE003" "load64 example_image (P2V 0xE000 + 8 * 0xB) = 0xB003"
  "load64 example_image (P2V 0xB000 + 8 * 0) = 0x464C457F" "load64 example_image (P2V 0xB000 + 8 * 2) = 2" "load64 example_image (P2V 0xB000 + 8 * 3) = 0x400000"
  "load64 example_image (P2V 0xB000 + 8 * 4) = 64" "load64 example_image (P2V 0xB000 + 8 * 7) = 1" "load64 example_image (P2V 0xB000 + 8 * 8) = 1"
  "load64 example_image (P2V 0xB000 + 8 * 9) = 0" "load64 example_image (P2V 0xB000 + 8 * 10) = 0x400000" "load64 example_image (P2V 0xB000 + 8 * 12) = 4"
  "load64 example_image (P2V 0xB000 + 8 * 13) = 8" "load64 example_image (P2V 0xB000 + 8 * 64) = 0x464C457F"
  "load64 example_image (P2V 0xB000 + 8 * 65) = P2V 0xB000 + 560" "load64 example_image (P2V 0xB000 + 8 * 66) = 0" "load64 example_image (P2V 0xB000 + 8 * 68) = 0"
  "load64 example_image (P2V 0xB000 + 8 * 70) = 0x61"
  unfolding example_image_def by (subst load64_put_words; simp add: example_frame_facts example_image_aligned)+

lemma example_image_outside:
  "STRIP_FLAGS b \<notin> P2V ` {0x2000, 0xB000, 0xC000, 0xD000, 0xE000} \<Longrightarrow> example_image b = kmem example_loader b"
  unfolding example_image_def by (rule put_words_outside) (auto simp: example_frame_facts example_image_aligned)

text \<open>A walk through four present tables.\<close>

lemma vmm_get_page_walk:
  assumes "load64 (kmem s) (BootP4 s + 8 * P4_OFFSET va) = e4" "load64 (kmem s) (P2V (STRIP_FLAGS e4) + 8 * P3_OFFSET va) = e3"
    "load64 (kmem s) (P2V (STRIP_FLAGS e3) + 8 * P2_OFFSET va) = e2" "load64 (kmem s) (P2V (STRIP_FLAGS e2) + 8 * P1_OFFSET va) = e1"
    "e4 \<noteq> 0" "e3 \<noteq> 0" "e2 \<noteq> 0" "P2V (STRIP_FLAGS e2) \<noteq> 0"
  shows "vmm_get_page 0 va s = Inr e1"
proof -
  have "P4_OFFSET (va AND NOT 0xFFF) = P4_OFFSET va" "P3_OFFSET (va AND NOT 0xFFF) = P3_OFFSET va" "P2_OFFSET (va AND NOT 0xFFF) = P2_OFFSET va"
    using P_OFFSET_STRIP [of va] by (simp_all add: STRIP_FLAGS_def)
  then show ?thesis using assms by (simp add: vmm_get_page_def vmm_find_page_def vmm_next_table_def GET_P4_def Let_def)
qed

lemma example_image_walk:
  assumes B: "BootP4 s = P2V 0x2000" and X: "X \<inter> P2V ` {0x2000, 0xB000, 0xC000, 0xD000, 0xE000} = {}"
    and same: "\<And>b. STRIP_FLAGS b \<in> P2V ` {0x2000, 0xB000, 0xC000, 0xD000, 0xE000} \<Longrightarrow> kmem s b = example_image b"
  shows "image_view s (P2V 0xB000) 4 (\<lambda>a. V2P (STRIP_FLAGS a)) X"
proof -
  let ?P = "{0x2000, 0xB000, 0xC000, 0xD000, 0xE000} :: addr set"
  have al: "page_aligned (P2V 0xB000)" by (simp add: example_image_aligned)
  have st: "STRIP_FLAGS (P2V 0xB000 + of_nat k) = P2V 0xB000" if "k < 4" for k :: nat
    using STRIP_FLAGS_add_offset [OF al, of "of_nat k"] that by (simp add: unat_of_nat_eq)
  have "\<exists>e. vmm_get_page 0 (P2V 0xB000 + of_nat k) (s\<lparr>kmem := m\<rparr>) = Inr e \<and> STRIP_FLAGS e = 0xB000"
    if m: "\<forall>b. STRIP_FLAGS b \<notin> X \<longrightarrow> m b = kmem s b" and k: "k < 4" for m :: mem and k :: nat
  proof -
    have eq: "m b = example_image b" if "STRIP_FLAGS b \<in> P2V ` ?P" for b using that m X same [OF that] by (metis disjoint_iff)
    have ld: "load64 m (P2V a + 8 * j) = load64 example_image (P2V a + 8 * j)" if "page_aligned a" "a \<in> ?P" "unat j < 512" for a j
      using STRIP_slot_byte [of "P2V a" j] that by (intro load64_cong eq) simp
    have w: "load64 m (P2V 0x2000 + 8 * 511) = 0xC003" "load64 m (P2V 0xC000 + 8 * 0) = 0xD003" "load64 m (P2V 0xD000 + 8 * 0) = 0xE003" "load64 m (P2V 0xE000 + 8 * 0xB) = 0xB003"
      unfolding example_image_words(1-4) [symmetric] by (rule ld; simp add: example_frame_facts example_image_aligned)+
    have o: "P4_OFFSET (P2V 0xB000 + of_nat k) = 511" "P3_OFFSET (P2V 0xB000 + of_nat k) = 0" "P2_OFFSET (P2V 0xB000 + of_nat k) = 0" "P1_OFFSET (P2V 0xB000 + of_nat k) = 0xB"
      using P_OFFSET_STRIP [of "P2V 0xB000 + of_nat k", unfolded st [OF k], symmetric]
      by (simp_all add: P4_OFFSET_def P3_OFFSET_def P2_OFFSET_def P1_OFFSET_def P2V_def KERNEL_OFFSET_def)
    have f: "STRIP_FLAGS 0xC003 = 0xC000" "STRIP_FLAGS 0xD003 = 0xD000" "STRIP_FLAGS 0xE003 = 0xE000" "STRIP_FLAGS 0xB003 = 0xB000" "P2V 0xE000 \<noteq> 0"
      by (simp_all add: STRIP_FLAGS_def P2V_def KERNEL_OFFSET_def)
    have "vmm_get_page 0 (P2V 0xB000 + of_nat k) (s\<lparr>kmem := m\<rparr>) = Inr 0xB003"
      using w f B by (intro vmm_get_page_walk [where ?e4.0 = "0xC003" and ?e3.0 = "0xD003" and ?e2.0 = "0xE003"]) (simp_all add: o)
    with f show ?thesis by blast
  qed
  moreover have "P2V 0xB000 \<notin> X" using X by blast
  ultimately show ?thesis using st unfolding image_view_def by (auto simp: P2V_V2P)
qed

lemma example_BootP4: "BootP4 example_exec = P2V 0x2000"
  by (simp add: example_exec_def example_loader_def pmm_free_def Let_def example_kernel_def procmm.defs example_procmm_def example_vmm_def)

lemma example_image_view: "image_view example_exec (P2V 0xB000) 4 (\<lambda>a. V2P (STRIP_FLAGS a)) ({P2V 0x4000} \<union> set exec_frames)"
  by (rule example_image_walk [OF example_BootP4]) (auto simp: exec_frames_def example_frames_def example_exec_def)

abbreviation example_phead :: elf_phead where
  "example_phead \<equiv> \<lparr>ph_type = 1, ph_offset = 0, ph_va = 0x400000, ph_filesz = 4, ph_memsz = 8\<rparr>"

lemma example_pheads: "load_pheads (kmem example_exec) (P2V 0xB000) = [example_phead]"
  and example_ph_num: "ph_num (kmem example_exec) (P2V 0xB000) = 1" "load64 (kmem example_exec) (P2V 0xB000 + 32) = 64"
proof -
  have "load16 example_image (P2V 0xB000 + 56) = 1" using example_image_words(9) by (simp add: load16_def)
  then show n: "ph_num (kmem example_exec) (P2V 0xB000) = 1" by (simp add: example_exec_def)
  show o: "load64 (kmem example_exec) (P2V 0xB000 + 32) = 64" using example_image_words(8) by (simp add: example_exec_def)
  have "elf_phead_at example_image (P2V 0xB000 + 64) = example_phead"
    using example_image_words(10-14) by (simp add: elf_phead_at_def load32_def add.assoc)
  then show "load_pheads (kmem example_exec) (P2V 0xB000) = [example_phead]"
    unfolding load_pheads_def pheads_from_def n o by (simp add: example_exec_def)
qed

lemma example_loader_ok:
  "mmap_ok example_loader KERNEL_HEAP_S example_mmap [] exec_frames" "user_tables example_loader example_mmap = {P2V 0x4000}"
proof -
  let ?k = "example_kernel PROC_STATE_READY" and ?t = "P2V 0x4000"
  have T: "tables user_dom (kmem ?k) ?t = {?t}"
    using example_tables(1) by (simp add: example_kernel_def procmm.defs example_procmm_def)
  have ok: "mmap_ok ?k KERNEL_HEAP_S example_mmap [] example_frames"
    using example_procmm_ok by (simp add: mmap_ok_def vmm_inv_def pmm_inv_def example_kernel_def procmm.defs)
  have F: "page_aligned (P2V 0xF000)" "P2V 0xF000 \<noteq> 0" "page_aligned (P2V 0x10000)" "P2V 0x10000 \<noteq> 0"
    by (simp_all add: page_aligned_def P2V_def KERNEL_OFFSET_def)
  note f1 = vmm_inv_free [of user_dom ?t ?k example_frames "P2V 0xF000"]
  have i1: "vmm_inv user_dom ?t (pmm_free 0xF000 ?k) (P2V 0xF000 # example_frames)" "tables user_dom (kmem (pmm_free 0xF000 ?k)) ?t = {?t}"
    using f1(1,2) F ok T by (simp_all add: mmap_ok_def example_frames_def)
  note f2 = vmm_inv_free [of user_dom ?t "pmm_free 0xF000 ?k" "P2V 0xF000 # example_frames" "P2V 0x10000"]
  have i2: "vmm_inv user_dom ?t (pmm_free 0x10000 (pmm_free 0xF000 ?k)) exec_frames" "tables user_dom (kmem (pmm_free 0x10000 (pmm_free 0xF000 ?k))) ?t = {?t}"
    using f2(1,2) F i1 by (simp_all add: exec_frames_def example_frames_def)
  then show "mmap_ok example_loader KERNEL_HEAP_S example_mmap [] exec_frames" "user_tables example_loader example_mmap = {P2V 0x4000}"
    using ok by (simp_all add: mmap_ok_def vmm_inv_def pmm_inv_def example_loader_def pmm_free_def Let_def)
qed

lemma example_exec_ok: "mmap_ok example_exec KERNEL_HEAP_S example_mmap [] exec_frames" "user_tables example_exec example_mmap = {P2V 0x4000}"
proof -
  have "example_image b = kmem example_loader b" if "STRIP_FLAGS b \<in> user_tables example_loader example_mmap \<union> set exec_frames" for b
  proof -
    have "STRIP_FLAGS b \<notin> P2V ` {0x2000, 0xB000, 0xC000, 0xD000, 0xE000}" using that unfolding example_loader_ok by (auto simp: exec_frames_def example_frames_def)
    then show ?thesis by (rule example_image_outside)
  qed
  note d = mmap_ok_data [OF example_loader_ok(1) this]
  show "mmap_ok example_exec KERNEL_HEAP_S example_mmap [] exec_frames" unfolding example_exec_def by (rule d(1))
  show "user_tables example_exec example_mmap = {P2V 0x4000}" using d(2) example_loader_ok(2) by (simp add: example_exec_def)
qed

lemma example_exec_ready: "load_ready 0 0x500 (example_process PROC_STATE_READY) (P2V 0xB000) (\<lambda>a. V2P (STRIP_FLAGS a)) [example_phead] example_exec example_mmap [] exec_frames"
proof -
  have e: "procs example_exec 0x500 = Some (example_process PROC_STATE_READY)" "pmmap (example_process PROC_STATE_READY) = KERNEL_HEAP_S"
    "avail example_exec = [KERNEL_HEAP_S + 64, KERNEL_HEAP_S + 128, KERNEL_HEAP_S + 192, KERNEL_HEAP_S + 256]"
    by (simp_all add: example_exec_def example_loader_def pmm_free_def Let_def example_kernel_def example_process_def procmm.defs example_procmm_def)
  have a: "distinct (avail example_exec)" "\<forall>a \<in> set (avail example_exec). a \<noteq> 0 \<and> a + TCB_OFFSET \<noteq> 0" unfolding e by (simp_all add: KERNEL_HEAP_S_def)
  have f: "segment_fits example_phead" "4 * seg_pages example_phead \<le> length exec_frames" "P2V 0 \<notin> set exec_frames"
    by (simp_all add: segment_fits_def page_aligned_def USERSPACE_TOP_def npages_def exec_frames_def example_frames_def)
  show ?thesis unfolding load_ready_def
    using e a f example_exec_ok example_image_view by (simp add: below_def)
qed

lemma load64_byte: "k < 8 \<Longrightarrow> m (a + of_nat k) = byte_of (load64 m a) k"
  by (rule bit_word_eqI) (simp add: byte_of_def bit_simps bit_load64)

lemma example_page_bytes: "j < 4096 \<Longrightarrow> STRIP_FLAGS (P2V 0xB000 + of_nat j) \<notin> user_tables example_exec example_mmap \<union> set exec_frames"
  using STRIP_FLAGS_add_offset [of "P2V 0xB000" "of_nat j"] unfolding example_exec_ok(2)
  by (simp add: example_image_aligned unat_of_nat_eq exec_frames_def example_frames_def)

lemma example_header_range:
  assumes "b \<in> header_bytes (kmem example_exec) (P2V 0xB000)"
  shows "\<exists>j < 4096. b = P2V 0xB000 + of_nat j"
  using assms unfolding header_bytes_def example_ph_num
proof (elim UnE imageE)
  fix k :: nat assume "b = P2V 0xB000 + of_nat k" "k \<in> {..<64}"
  then show ?thesis by (intro exI [of _ k]) simp
next
  fix x assume "b = (\<lambda>(i, k). P2V 0xB000 + 64 + 56 * of_nat i + of_nat k) x" "x \<in> {..<1} \<times> {..<56}"
  then show ?thesis by (intro exI [of _ "64 + snd x"]) auto
qed

lemma example_image_head:
  "memcmp (kmem example_exec) (P2V 0xB000) (P2V 0xB000 + 512) 4 = 0" "load16 (kmem example_exec) (P2V 0xB000 + 16) = 2"
  "load64 (kmem example_exec) (P2V 0xB000 + 24) = 0x400000" "kmem example_exec (P2V 0xB000) = 0x7F"
  "\<forall>b \<in> header_bytes (kmem example_exec) (P2V 0xB000). STRIP_FLAGS b \<notin> user_tables example_exec example_mmap \<union> set exec_frames"
proof -
  let ?d = "P2V 0xB000" and ?m = "kmem example_exec"
  have wd: "load64 ?m ?d = 0x464C457F" "load64 ?m (?d + 512) = 0x464C457F"
    using example_image_words by (simp_all add: example_exec_def)
  have "?m (?d + of_nat k) = ?m (?d + 512 + of_nat k)" if "k < 4" for k
    using load64_byte [of k ?m ?d] load64_byte [of k ?m "?d + 512"] that by (simp add: wd)
  then show "memcmp ?m ?d (?d + 512) 4 = 0" by (simp add: memcmp_def memcmp_loop_zero_iff)
  show "load16 ?m (?d + 16) = 2" "load64 ?m (?d + 24) = 0x400000" using example_image_words by (simp_all add: example_exec_def load16_def)
  show "?m ?d = 0x7F" using load64_byte [of 0 ?m ?d] by (simp add: wd byte_of_def)
  show "\<forall>b \<in> header_bytes ?m ?d. STRIP_FLAGS b \<notin> user_tables example_exec example_mmap \<union> set exec_frames"
    using example_header_range example_page_bytes by blast
qed

lemma example_loc: "loc (\<lambda>a. V2P (STRIP_FLAGS a)) (P2V 0xB000) = P2V 0xB000"
  using PAGE_OFFSET_add_offset [of "P2V 0xB000" 0] by (simp add: example_image_aligned loc_def)

theorem load_elf_loads_witness:
  "\<exists>s' g g'. load_elf (P2V 0xB000 + 512) 0x500 (P2V 0xB000) example_exec = Inr (0x400000, s')
     \<and> vmm_get_page 0x4000 0x400000 s' = Inr (user_page g) \<and> kmem s' g = 0x7F
     \<and> vmm_get_page 0x4000 0x400004 s' = Inr (user_page g') \<and> kmem s' (g' + 4) = 0"
proof -
  let ?d = "P2V 0xB000" and ?m = "kmem example_exec" and ?f = "\<lambda>a. V2P (STRIP_FLAGS a)"
  note h = example_image_head
  obtain s' where s': "load_elf (?d + 512) 0x500 ?d example_exec = Inr (0x400000, s')"
    and all: "\<forall>ph \<in> set [example_phead]. \<forall>i < unat (ph_memsz ph). \<exists>g. vmm_get_page (mm_P4 example_mmap) (ph_va ph + of_nat i) s' = Inr (user_page g)
       \<and> kmem s' (g + PAGE_OFFSET (ph_va ph + of_nat i)) = (if i < unat (ph_filesz ph) then ?m (loc ?f (?d + ph_offset ph + of_nat i)) else 0)"
    using load_elf_loads [of example_exec ?d "?d + 512", OF h(1,2) example_exec_ready [folded example_pheads]] h(5) unfolding h(3) example_pheads by blast
  obtain g g' where g: "vmm_get_page 0x4000 0x400000 s' = Inr (user_page g)" "kmem s' (g + PAGE_OFFSET 0x400000) = ?m (loc ?f ?d)"
    "vmm_get_page 0x4000 0x400004 s' = Inr (user_page g')" "kmem s' (g' + PAGE_OFFSET 0x400004) = 0"
    using all [THEN bspec [of _ _ example_phead], THEN spec [of _ 0]] all [THEN bspec [of _ _ example_phead], THEN spec [of _ 4]] by auto
  have "PAGE_OFFSET 0x400000 = 0" "PAGE_OFFSET 0x400004 = 4" by (simp_all add: PAGE_OFFSET_def)
  then show ?thesis using s' g h(4) example_loc by auto
qed

text \<open>
  The direct mapping of the boot tables has pages of 2 MiB, which the walk does not know: below such an entry the frame of
  an address is read from the mapped data itself. Where the word there is zero, nothing is copied, and the loader does not
  look at the result.
\<close>

theorem vmm_p4_memcpy_huge_source:
  fixes s :: "'z vmm_scheme"
  assumes "load64 (kmem s) (BootP4 s + 8 * P4_OFFSET src) = e4" and "load64 (kmem s) (P2V (STRIP_FLAGS e4) + 8 * P3_OFFSET src) = e3"
    and "load64 (kmem s) (P2V (STRIP_FLAGS e3) + 8 * P2_OFFSET src) = e2" and "e4 \<noteq> 0" and "e3 \<noteq> 0" and "e2 AND 0x80 \<noteq> 0" and "P2V (STRIP_FLAGS e2) \<noteq> 0"
    and "STRIP_FLAGS (load64 (kmem s) (P2V (STRIP_FLAGS e2) + 8 * P1_OFFSET src)) = 0" and "vmm_get_page P4 dst s = Inr d" and "n \<noteq> 0"
  shows "vmm_p4_memcpy P4 dst 0 src n s = Inr (0, s)"
proof -
  have "e2 \<noteq> 0" using assms(6) by auto
  then have "vmm_get_page 0 src s = Inr (load64 (kmem s) (P2V (STRIP_FLAGS e2) + 8 * P1_OFFSET src))"
    by (rule vmm_get_page_walk [OF assms(1-3) refl assms(4,5) _ assms(7)])
  then show ?thesis using assms(8-10) by (simp add: vmm_p4_memcpy_def vmm_p4_memcpy_loop.simps Let_def)
qed

end
