(* ===== verification/Exec.thy ===== *)
theory Exec
  imports Elf
begin

text \<open>
  Starting programs: \<^verbatim>\<open>kernel/proc/exec_elf.c\<close>, which loads an image, copies arguments and environment behind its segments
  and creates the first thread. Stores to user addresses go through the tables of the process.
\<close>

section \<open>exec_elf.c\<close>

text \<open>The loops that count strings; \<^verbatim>\<open>int\<close> arithmetic is of 32 bits.\<close>

partial_function (option) count_strings :: "mem \<Rightarrow> addr \<Rightarrow> nat \<Rightarrow> u32 \<Rightarrow> (nat \<times> u32) option" where
  "count_strings m v n len =
     (if load64 m (v + 8 * of_nat n) = 0 then Some (n, len)
      else case strlen m (load64 m (v + 8 * of_nat n)) of
        None \<Rightarrow> None
      | Some l \<Rightarrow> count_strings m v (Suc n) (len + (ucast l + 1)))"

text \<open>
  Stores to user addresses, after the switch to the tables of the process: the byte goes to the frame
  that the page is mapped to.
\<close>

definition put_user :: "addr \<Rightarrow> addr \<Rightarrow> u8 \<Rightarrow> 'z kernel_scheme \<Rightarrow> 'z kernel_scheme res" where
  "put_user P4 va b s =
     bindR (vmm_get_page P4 va s) (\<lambda>e.
     if e AND PAGE_PRESENT = 0 then Inl (Panic ''PAGE FAULT'')
     else Inr (s\<lparr>kmem := (kmem s)(P2V (STRIP_FLAGS e) + PAGE_OFFSET va := b)\<rparr>))"

definition put_user64 :: "addr \<Rightarrow> addr \<Rightarrow> u64 \<Rightarrow> 'z kernel_scheme \<Rightarrow> 'z kernel_scheme res" where
  "put_user64 P4 va v s = foldR (\<lambda>k. put_user P4 (va + of_nat k) (ucast (drop_bit (8 * k) v))) [0..<8] s"

definition copy_to_user :: "addr \<Rightarrow> addr \<Rightarrow> addr \<Rightarrow> u64 \<Rightarrow> 'z kernel_scheme \<Rightarrow> 'z kernel_scheme res" where
  "copy_to_user P4 dst src n s = foldR (\<lambda>k s. put_user P4 (dst + of_nat k) (kmem s (src + of_nat k)) s) [0..<unat n] s"

text \<open>The loop that copies strings and stores their addresses; \<open>v\<close> is the kernel array, \<open>uv\<close> the one of the process.\<close>

definition copy_string :: "addr \<Rightarrow> addr \<Rightarrow> addr \<Rightarrow> nat \<Rightarrow> addr \<times> 'z kernel_scheme \<Rightarrow> (addr \<times> 'z kernel_scheme) res" where
  "copy_string P4 v uv i ps =
     (let (pos, s) = ps; str = load64 (kmem s) (v + 8 * of_nat i) in
      bindR (of_option Diverges (strlen (kmem s) str)) (\<lambda>l.
      let len = l + 1 in
      bindR (put_user64 P4 (uv + 8 * of_nat i) pos s) (\<lambda>s.
      bindR (copy_to_user P4 pos str len s) (\<lambda>s. Inr (pos + len, s)))))"

text \<open>The arguments, the environment and the empty auxiliary vector, from the address \<open>uargv\<close> on.\<close>

definition exec_args :: "addr \<Rightarrow> addr \<Rightarrow> nat \<Rightarrow> addr \<Rightarrow> nat \<Rightarrow> addr \<Rightarrow> 'z kernel_scheme \<Rightarrow> 'z kernel_scheme res" where
  "exec_args P4 argv argc envp envc uargv s =
     (let uenvp = uargv + 8 * (of_nat argc + 1);
          uauxv = uenvp + 8 * (of_nat envc + 1);
          pos = uauxv + 16
      in
      bindR (foldR (copy_string P4 argv uargv) [0..<argc] (pos, s)) (\<lambda>(pos, s).
      bindR (put_user64 P4 (uargv + 8 * of_nat argc) 0 s) (\<lambda>s.
      bindR (foldR (copy_string P4 envp uenvp) [0..<envc] (pos, s)) (\<lambda>(pos, s).
      bindR (put_user64 P4 (uenvp + 8 * of_nat envc) 0 s) (\<lambda>s.
      put_user64 P4 uauxv 0 s)))))"

definition exec_elf :: "addr \<Rightarrow> addr \<Rightarrow> addr \<Rightarrow> addr \<Rightarrow> addr \<Rightarrow> addr \<Rightarrow> 'z kernel_scheme \<Rightarrow> (addr \<times> 'z kernel_scheme) res" where
  "exec_elf lit isr_return p img argv envp s =
     bindR (of_option Diverges (count_strings (kmem s) argv 0 0)) (\<lambda>(argc, len).
     let len = len + ucast ((of_nat argc + 1) * 8 :: u64) in
     bindR (of_option Diverges (count_strings (kmem s) envp 0 len)) (\<lambda>(envc, len).
     let len = len + ucast ((of_nat envc + 1) * 8 :: u64) + 16 + 1 in
     bindR (load_elf lit p img s) (\<lambda>(entry, s).
     bindR (obj (procs s) p) (\<lambda>pr.
     bindR (procmm_setup (pmmap pr) (scast len) s) (\<lambda>(_, s).
     bindR (obj (mmaps s) (pmmap pr)) (\<lambda>m.
     let s = vmm_set_P4 (mm_P4 m) s in
     bindR (obj (mareas s) (mm_brk m)) (\<lambda>brk.
     let uargv = area_start brk in
     bindR (exec_args (mm_P4 m) argv argc envp envc uargv s) (\<lambda>s.
     bindR (new_thread isr_return entry True s) (\<lambda>(th, s).
     bindR (process_attach p th s) (\<lambda>s.
     bindR (upd_thread th (\<lambda>t. t\<lparr>tregs := (tregs t)\<lparr>rsi := uargv, rdi := of_nat argc\<rparr>\<rparr>) s) (\<lambda>s.
     Inr (th, s))))))))))))"

text \<open>
  A rejected image for a process without areas: the result of \<^verbatim>\<open>load_elf\<close> is not tested, and
  \<^verbatim>\<open>procmm_setup\<close> reads the end of the last area, which is the null pointer.
\<close>

theorem exec_elf_bad_image:
  assumes "count_strings (kmem s) argv 0 0 = Some (argc, l)" and "count_strings (kmem s) envp 0 (l + ucast ((of_nat argc + 1) * 8 :: u64)) = Some (envc, l')"
    and "memcmp (kmem s) img lit 4 \<noteq> 0" and "p \<noteq> 0" and "procs s p = Some pr" and "pmmap pr \<noteq> 0" and "mmaps s (pmmap pr) = Some m" and "mm_areas m = LIST_HEAD_INIT"
  shows "exec_elf lit isr_return p img argv envp s = Inl NullDeref"
  using assms by (simp add: exec_elf_def load_elf_rejects procmm_setup_def obj_def LIST_HEAD_INIT_def)

section \<open>Arguments of a program\<close>

text \<open>
  \<open>user_range s P4 base N L\<close>: the \<open>N\<close> bytes from \<open>base\<close> are mapped and present, each at a location \<open>L\<close> of its own, and stay so
  whatever is written to these locations. \<open>user_holds s L N u m\<close>: the memory \<open>m\<close> has the bytes \<open>u\<close> there and is that of \<open>s\<close>
  elsewhere.
\<close>

definition user_range :: "'z vmm_scheme \<Rightarrow> addr \<Rightarrow> addr \<Rightarrow> nat \<Rightarrow> (nat \<Rightarrow> addr) \<Rightarrow> bool" where
  "user_range s P4 base N L \<longleftrightarrow> inj_on L {..<N}
     \<and> (\<forall>m k. (\<forall>b. b \<notin> L ` {..<N} \<longrightarrow> m b = kmem s b) \<longrightarrow> k < N \<longrightarrow>
          (\<exists>e. vmm_get_page P4 (base + of_nat k) (s\<lparr>kmem := m\<rparr>) = Inr e \<and> e AND PAGE_PRESENT \<noteq> 0
             \<and> P2V (STRIP_FLAGS e) + PAGE_OFFSET (base + of_nat k) = L k))"

definition user_holds :: "'z vmm_scheme \<Rightarrow> (nat \<Rightarrow> addr) \<Rightarrow> nat \<Rightarrow> (nat \<Rightarrow> u8) \<Rightarrow> mem \<Rightarrow> bool" where
  "user_holds s L N u m \<longleftrightarrow> (\<forall>k < N. m (L k) = u k) \<and> (\<forall>b. b \<notin> L ` {..<N} \<longrightarrow> m b = kmem s b)"

lemma put_user_holds:
  fixes s :: "'z kernel_scheme"
  assumes r: "user_range s P4 base N L" and h: "user_holds s L N u m" and k: "k < N"
  shows "\<exists>m'. put_user P4 (base + of_nat k) b (s\<lparr>kmem := m\<rparr>) = Inr (s\<lparr>kmem := m'\<rparr>) \<and> user_holds s L N (u(k := b)) m'"
proof -
  have "\<forall>b. b \<notin> L ` {..<N} \<longrightarrow> m b = kmem s b" using h by (simp add: user_holds_def)
  then obtain e where e: "vmm_get_page P4 (base + of_nat k) (s\<lparr>kmem := m\<rparr>) = Inr e" "e AND PAGE_PRESENT \<noteq> 0" "P2V (STRIP_FLAGS e) + PAGE_OFFSET (base + of_nat k) = L k"
    using r k unfolding user_range_def by blast
  have "L j \<noteq> L k" if "j < N" "j \<noteq> k" for j using r that k by (auto simp: user_range_def dest: inj_onD)
  then have "user_holds s L N (u(k := b)) (m(L k := b))" using h k by (auto simp: user_holds_def)
  then show ?thesis using e by (auto simp: put_user_def)
qed

lemma put_bytes_holds:
  fixes s :: "'z kernel_scheme" and bs :: "u8 list"
  assumes r: "user_range s P4 base N L" and w: "\<And>j m. j < length bs \<Longrightarrow> (\<And>b. b \<notin> L ` {..<N} \<Longrightarrow> m b = kmem s b) \<Longrightarrow> f j (s\<lparr>kmem := m\<rparr>) = bs ! j"
  shows "user_holds s L N u m \<Longrightarrow> k + n \<le> N \<Longrightarrow> n \<le> length bs \<Longrightarrow>
    \<exists>m'. foldR (\<lambda>j s. put_user P4 (base + of_nat k + of_nat j) (f j s) s) [0..<n] (s\<lparr>kmem := m\<rparr>) = Inr (s\<lparr>kmem := m'\<rparr>)
      \<and> user_holds s L N (\<lambda>i. if k \<le> i \<and> i < k + n then bs ! (i - k) else u i) m'"
proof (induction n)
  case 0
  moreover have "(\<lambda>i. if k \<le> i \<and> i < k + 0 then bs ! (i - k) else u i) = u" by (rule ext) auto
  ultimately show ?case by auto
next
  case (Suc n)
  then obtain m1 where m1: "foldR (\<lambda>j s. put_user P4 (base + of_nat k + of_nat j) (f j s) s) [0..<n] (s\<lparr>kmem := m\<rparr>) = Inr (s\<lparr>kmem := m1\<rparr>)"
    "user_holds s L N (\<lambda>i. if k \<le> i \<and> i < k + n then bs ! (i - k) else u i) m1" by auto
  have "f n (s\<lparr>kmem := m1\<rparr>) = bs ! n" using w [of n m1] m1(2) Suc.prems(3) by (simp add: user_holds_def)
  moreover obtain m2 where "put_user P4 (base + of_nat (k + n)) (bs ! n) (s\<lparr>kmem := m1\<rparr>) = Inr (s\<lparr>kmem := m2\<rparr>)"
    "user_holds s L N ((\<lambda>i. if k \<le> i \<and> i < k + n then bs ! (i - k) else u i)(k + n := bs ! n)) m2"
    using put_user_holds [OF r m1(2), of "k + n" "bs ! n"] Suc.prems(2) by auto
  moreover have "(\<lambda>i. if k \<le> i \<and> i < k + n then bs ! (i - k) else u i)(k + n := bs ! n) = (\<lambda>i. if k \<le> i \<and> i < k + Suc n then bs ! (i - k) else u i)"
    by (auto simp: fun_eq_iff)
  ultimately show ?case using m1(1) by (auto simp: foldR_append add.assoc)
qed

text \<open>The bytes of a word, and a block of bytes in user memory.\<close>

abbreviation word_bytes :: "u64 \<Rightarrow> u8 list" where
  "word_bytes v \<equiv> map (byte_of v) [0..<8]"

definition put_block :: "nat \<Rightarrow> u8 list \<Rightarrow> (nat \<Rightarrow> u8) \<Rightarrow> nat \<Rightarrow> u8" where
  "put_block k bs u = (\<lambda>i. if k \<le> i \<and> i < k + length bs then bs ! (i - k) else u i)"

lemma put_user64_holds:
  fixes s :: "'z kernel_scheme"
  assumes "user_range s P4 base N L" "user_holds s L N u m" "k + 8 \<le> N"
  shows "\<exists>m'. put_user64 P4 (base + of_nat k) v (s\<lparr>kmem := m\<rparr>) = Inr (s\<lparr>kmem := m'\<rparr>) \<and> user_holds s L N (put_block k (word_bytes v) u) m'"
proof -
  have "\<exists>m'. foldR (\<lambda>j s. put_user P4 (base + of_nat k + of_nat j) (byte_of v j) s) [0..<8] (s\<lparr>kmem := m\<rparr>) = Inr (s\<lparr>kmem := m'\<rparr>)
      \<and> user_holds s L N (\<lambda>i. if k \<le> i \<and> i < k + 8 then word_bytes v ! (i - k) else u i) m'"
    by (rule put_bytes_holds [OF assms(1) _ assms(2,3)]) simp_all
  then show ?thesis by (simp add: put_user64_def put_block_def byte_of_def)
qed

lemma copy_to_user_holds:
  fixes s :: "'z kernel_scheme"
  assumes "user_range s P4 base N L" "user_holds s L N u m" "k + length bs \<le> N"
    and src: "\<And>j. j < length bs \<Longrightarrow> kmem s (src + of_nat j) = bs ! j \<and> src + of_nat j \<notin> L ` {..<N}" and n: "unat n = length bs"
  shows "\<exists>m'. copy_to_user P4 (base + of_nat k) src n (s\<lparr>kmem := m\<rparr>) = Inr (s\<lparr>kmem := m'\<rparr>) \<and> user_holds s L N (put_block k bs u) m'"
proof -
  have "\<exists>m'. foldR (\<lambda>j s. put_user P4 (base + of_nat k + of_nat j) (kmem s (src + of_nat j)) s) [0..<length bs] (s\<lparr>kmem := m\<rparr>) = Inr (s\<lparr>kmem := m'\<rparr>)
      \<and> user_holds s L N (\<lambda>i. if k \<le> i \<and> i < k + length bs then bs ! (i - k) else u i) m'"
    by (rule put_bytes_holds [OF assms(1) _ assms(2,3)]) (use src in simp_all)
  then show ?thesis by (simp add: copy_to_user_def put_block_def n)
qed

text \<open>What copying strings does to the bytes of the range: a pointer each, and the strings one behind the other.\<close>

fun put_strings :: "addr \<Rightarrow> nat \<Rightarrow> nat \<Rightarrow> u8 list list \<Rightarrow> (nat \<Rightarrow> u8) \<Rightarrow> nat \<Rightarrow> u8" where
  "put_strings base i p [] u = u"
| "put_strings base i p (b # bs) u =
     put_strings base (i + 8) (p + length b + 1) bs (put_block p (b @ [0]) (put_block i (word_bytes (base + of_nat p)) u))"

abbreviation strings_size :: "u8 list list \<Rightarrow> nat" where
  "strings_size bss \<equiv> sum_list (map (\<lambda>b. length b + 1) bss)"

text \<open>A null-terminated vector of strings.\<close>

definition string_vec :: "mem \<Rightarrow> addr \<Rightarrow> u8 list list \<Rightarrow> bool" where
  "string_vec m v bss \<longleftrightarrow> (\<forall>i < length bss. cstr m (load64 m (v + 8 * of_nat i)) (bss ! i)) \<and> load64 m (v + 8 * of_nat (length bss)) = 0"

text \<open>The bytes of such a vector and of its strings.\<close>

definition vec_bytes :: "mem \<Rightarrow> addr \<Rightarrow> u8 list list \<Rightarrow> addr set" where
  "vec_bytes m v bss = (\<lambda>k. v + of_nat k) ` {..< 8 * length bss + 8}
     \<union> (\<Union>i < length bss. (\<lambda>j. load64 m (v + 8 * of_nat i) + of_nat j) ` {.. length (bss ! i)})"

lemma copy_string_holds:
  fixes s :: "'z kernel_scheme"
  assumes r: "user_range s P4 base N L" and h: "user_holds s L N u m"
    and N: "uo + 8 * i + 8 \<le> N" "p + length b + 1 \<le> N" and N64: "N < 2 ^ 64"
    and str: "cstr (kmem s) (load64 (kmem s) (v + 8 * of_nat i)) b"
    and out: "\<And>k. k < 8 \<Longrightarrow> v + of_nat (8 * i + k) \<notin> L ` {..<N}" "\<And>j. j \<le> length b \<Longrightarrow> load64 (kmem s) (v + 8 * of_nat i) + of_nat j \<notin> L ` {..<N}"
  shows "\<exists>m'. copy_string P4 v (base + of_nat uo) i (base + of_nat p, s\<lparr>kmem := m\<rparr>) = Inr (base + of_nat (p + length b + 1), s\<lparr>kmem := m'\<rparr>)
    \<and> user_holds s L N (put_block p (b @ [0]) (put_block (uo + 8 * i) (word_bytes (base + of_nat p)) u)) m'"
proof -
  let ?q = "load64 (kmem s) (v + 8 * of_nat i)"
  have same: "m b = kmem s b" if "b \<notin> L ` {..<N}" for b using h that by (simp add: user_holds_def)
  have ld: "load64 m (v + 8 * of_nat i) = ?q"
  proof (rule load64_cong)
    fix k :: nat assume "k < 8"
    from same [OF out(1) [OF this]] show "m (v + 8 * of_nat i + of_nat k) = kmem s (v + 8 * of_nat i + of_nat k)" by (simp add: add.assoc)
  qed
  have "cstr m ?q b" by (rule cstr_cong [OF str]) (rule same [OF out(2)])
  then have len: "strlen m ?q = Some (of_nat (length b))" by (rule strlen_cstr)
  obtain m1 where m1: "put_user64 P4 (base + of_nat (uo + 8 * i)) (base + of_nat p) (s\<lparr>kmem := m\<rparr>) = Inr (s\<lparr>kmem := m1\<rparr>)"
    "user_holds s L N (put_block (uo + 8 * i) (word_bytes (base + of_nat p)) u) m1"
    using put_user64_holds [OF r h, of "uo + 8 * i"] N(1) by blast
  have "kmem s (?q + of_nat j) = (b @ [0]) ! j \<and> ?q + of_nat j \<notin> L ` {..<N}" if "j < length (b @ [0])" for j
    using cstr_nth [OF str, of j] out(2) [of j] that by (auto simp: nth_append less_Suc_eq_le)
  moreover have "unat (of_nat (length b) + 1 :: u64) = length (b @ [0])" using N(2) N64 unat_of_nat_eq [of "length (b @ [0])"] by (simp add: add.commute)
  ultimately obtain m2 where m2: "copy_to_user P4 (base + of_nat p) ?q (of_nat (length b) + 1) (s\<lparr>kmem := m1\<rparr>) = Inr (s\<lparr>kmem := m2\<rparr>)"
    "user_holds s L N (put_block p (b @ [0]) (put_block (uo + 8 * i) (word_bytes (base + of_nat p)) u)) m2"
    using copy_to_user_holds [OF r m1(2), of p "b @ [0]" ?q "of_nat (length b) + 1"] N(2) by auto
  have "copy_string P4 v (base + of_nat uo) i (base + of_nat p, s\<lparr>kmem := m\<rparr>) = Inr (base + of_nat (p + length b + 1), s\<lparr>kmem := m2\<rparr>)"
    using m1(1) m2(1) ld len by (simp add: copy_string_def Let_def algebra_simps)
  with m2(2) show ?thesis by blast
qed

lemma copy_strings_holds:
  fixes s :: "'z kernel_scheme"
  assumes r: "user_range s P4 base N L" and N64: "N < 2 ^ 64"
  shows "user_holds s L N u m \<Longrightarrow> uo + 8 * (a + length bss) \<le> N \<Longrightarrow> p + strings_size bss \<le> N
    \<Longrightarrow> (\<And>i. i < length bss \<Longrightarrow> cstr (kmem s) (load64 (kmem s) (v + 8 * of_nat (a + i))) (bss ! i))
    \<Longrightarrow> (\<And>i k. i < length bss \<Longrightarrow> k < 8 \<Longrightarrow> v + of_nat (8 * (a + i) + k) \<notin> L ` {..<N})
    \<Longrightarrow> (\<And>i j. i < length bss \<Longrightarrow> j \<le> length (bss ! i) \<Longrightarrow> load64 (kmem s) (v + 8 * of_nat (a + i)) + of_nat j \<notin> L ` {..<N})
    \<Longrightarrow> \<exists>m'. foldR (copy_string P4 v (base + of_nat uo)) [a..<a + length bss] (base + of_nat p, s\<lparr>kmem := m\<rparr>)
          = Inr (base + of_nat (p + strings_size bss), s\<lparr>kmem := m'\<rparr>) \<and> user_holds s L N (put_strings base (uo + 8 * a) p bss u) m'"
proof (induction bss arbitrary: a p u m)
  case Nil
  then show ?case by auto
next
  case (Cons b bss)
  obtain m1 where m1: "copy_string P4 v (base + of_nat uo) a (base + of_nat p, s\<lparr>kmem := m\<rparr>) = Inr (base + of_nat (p + length b + 1), s\<lparr>kmem := m1\<rparr>)"
    "user_holds s L N (put_block p (b @ [0]) (put_block (uo + 8 * a) (word_bytes (base + of_nat p)) u)) m1"
    using copy_string_holds [OF r Cons.prems(1) _ _ N64, of uo a p b v] Cons.prems(2,3) Cons.prems(4-6) [of 0] by (auto simp: algebra_simps)
  have "\<exists>m'. foldR (copy_string P4 v (base + of_nat uo)) [Suc a..<Suc a + length bss] (base + of_nat (p + length b + 1), s\<lparr>kmem := m1\<rparr>)
          = Inr (base + of_nat (p + length b + 1 + strings_size bss), s\<lparr>kmem := m'\<rparr>)
        \<and> user_holds s L N (put_strings base (uo + 8 * Suc a) (p + length b + 1) bss (put_block p (b @ [0]) (put_block (uo + 8 * a) (word_bytes (base + of_nat p)) u))) m'"
    by (rule Cons.IH [OF m1(2)]) (use Cons.prems(2,3) Cons.prems(4-6) [of "Suc _"] in simp_all)
  moreover have "[a..<a + length (b # bss)] = a # [Suc a..<Suc a + length bss]" by (subst upt_conv_Cons) simp_all
  ultimately show ?case using m1(1) by (auto simp: algebra_simps)
qed

text \<open>Reading the vector back.\<close>

lemma put_block_apply: "put_block k bs u i = (if k \<le> i \<and> i < k + length bs then bs ! (i - k) else u i)"
  by (simp add: put_block_def)

lemma put_strings_outside:
  "\<not> (i \<le> k \<and> k < i + 8 * length bss) \<Longrightarrow> \<not> (p \<le> k \<and> k < p + strings_size bss) \<Longrightarrow> put_strings base i p bss u k = u k"
proof (induction bss arbitrary: i p u)
  case (Cons b bss)
  then show ?case by (auto simp: put_block_apply)
qed simp

lemma put_strings_vec:
  "i + 8 * length bss \<le> p \<Longrightarrow> n < length bss \<Longrightarrow> \<exists>q. p \<le> q \<and> q + length (bss ! n) < p + strings_size bss
     \<and> (\<forall>k < 8. put_strings base i p bss u (i + 8 * n + k) = byte_of (base + of_nat q) k)
     \<and> (\<forall>j \<le> length (bss ! n). put_strings base i p bss u (q + j) = (bss ! n @ [0]) ! j)"
proof (induction bss arbitrary: i p u n)
  case (Cons b bss)
  let ?u = "put_block p (b @ [0]) (put_block i (word_bytes (base + of_nat p)) u)"
  show ?case
  proof (cases n)
    case 0
    have "put_strings base i p (b # bss) u (i + k) = byte_of (base + of_nat p) k" if "k < 8" for k
      using that Cons.prems(1) by (simp add: put_strings_outside put_block_apply)
    moreover have "put_strings base i p (b # bss) u (p + j) = (b @ [0]) ! j" if "j \<le> length b" for j
      using that Cons.prems(1) by (simp add: put_strings_outside put_block_apply)
    ultimately show ?thesis by (intro exI [of _ p]) (simp add: 0)
  next
    case (Suc l)
    obtain q where q: "p + length b + 1 \<le> q" "q + length (bss ! l) < p + length b + 1 + strings_size bss"
      "\<forall>k < 8. put_strings base (i + 8) (p + length b + 1) bss ?u (i + 8 + 8 * l + k) = byte_of (base + of_nat q) k"
      "\<forall>j \<le> length (bss ! l). put_strings base (i + 8) (p + length b + 1) bss ?u (q + j) = (bss ! l @ [0]) ! j"
      using Cons.IH [of "i + 8" "p + length b + 1" l ?u] Cons.prems Suc by auto
    then show ?thesis by (intro exI [of _ q]) (simp add: Suc add.assoc)
  qed
qed simp

lemma load64_bytes: "(\<And>k. k < 8 \<Longrightarrow> m (a + of_nat k) = byte_of v k) \<Longrightarrow> load64 m a = v"
  by (rule bit_word_eqI) (simp add: bit_load64 byte_of_def bit_simps)

lemma cstr_nthI: "0 \<notin> set xs \<Longrightarrow> (\<And>j. j \<le> length xs \<Longrightarrow> m (p + of_nat j) = (xs @ [0]) ! j) \<Longrightarrow> cstr m p xs"
proof (induction xs arbitrary: p)
  case Nil
  then show ?case using Nil.prems(2) [of 0] by simp
next
  case (Cons x xs)
  have "cstr m (p + 1) xs" using Cons.prems(1) Cons.prems(2) [of "Suc _"] by (intro Cons.IH) (auto simp: algebra_simps)
  then show ?case using Cons.prems(1) Cons.prems(2) [of 0] by simp
qed

text \<open>Memory as the process sees it.\<close>

definition user_mem :: "addr \<Rightarrow> 'z vmm_scheme \<Rightarrow> mem" where
  "user_mem P4 s va = (case vmm_get_page P4 va s of Inr e \<Rightarrow> kmem s (P2V (STRIP_FLAGS e) + PAGE_OFFSET va) | Inl _ \<Rightarrow> 0)"

lemma user_mem_range:
  assumes "user_range s P4 base N L" "user_holds s L N u m" "k < N"
  shows "user_mem P4 (s\<lparr>kmem := m\<rparr>) (base + of_nat k) = u k"
proof -
  have "\<forall>b. b \<notin> L ` {..<N} \<longrightarrow> m b = kmem s b" using assms(2) by (simp add: user_holds_def)
  then obtain e where "vmm_get_page P4 (base + of_nat k) (s\<lparr>kmem := m\<rparr>) = Inr e" "P2V (STRIP_FLAGS e) + PAGE_OFFSET (base + of_nat k) = L k"
    using assms(1,3) unfolding user_range_def by blast
  then show ?thesis using assms(2,3) by (simp add: user_mem_def user_holds_def)
qed

lemma string_vec_range:
  assumes um: "\<And>k. k < N \<Longrightarrow> m (base + of_nat k) = u k" and N: "i + 8 * length bss + 8 \<le> N" "p + strings_size bss \<le> N"
    and ok: "\<And>n. n < length bss \<Longrightarrow> \<exists>q. p \<le> q \<and> q + length (bss ! n) < p + strings_size bss
        \<and> (\<forall>k < 8. u (i + 8 * n + k) = byte_of (base + of_nat q) k) \<and> (\<forall>j \<le> length (bss ! n). u (q + j) = (bss ! n @ [0]) ! j)"
    and z: "\<And>k. k < 8 \<Longrightarrow> u (i + 8 * length bss + k) = 0" and nz: "\<And>b. b \<in> set bss \<Longrightarrow> 0 \<notin> set b"
  shows "string_vec m (base + of_nat i) bss"
proof -
  have "cstr m (load64 m (base + of_nat i + 8 * of_nat n)) (bss ! n)" if n: "n < length bss" for n
  proof -
    obtain q where q: "p \<le> q" "q + length (bss ! n) < p + strings_size bss" "\<forall>k < 8. u (i + 8 * n + k) = byte_of (base + of_nat q) k"
      "\<forall>j \<le> length (bss ! n). u (q + j) = (bss ! n @ [0]) ! j" using ok [OF n] by blast
    have "m (base + of_nat i + 8 * of_nat n + of_nat k) = byte_of (base + of_nat q) k" if "k < 8" for k
      using um [of "i + 8 * n + k"] q(3) that n N(1) by (simp add: add.assoc)
    then have "load64 m (base + of_nat i + 8 * of_nat n) = base + of_nat q" by (rule load64_bytes)
    moreover have "m (base + of_nat q + of_nat j) = (bss ! n @ [0]) ! j" if "j \<le> length (bss ! n)" for j
      using um [of "q + j"] q(2,4) that N(2) by (simp add: add.assoc)
    ultimately show ?thesis using nz n by (auto intro!: cstr_nthI)
  qed
  moreover have "load64 m (base + of_nat i + 8 * of_nat (length bss)) = 0"
  proof (rule load64_zero)
    fix k :: nat assume "k < 8"
    then show "m (base + of_nat i + 8 * of_nat (length bss) + of_nat k) = 0"
      using um [of "i + 8 * length bss + k"] z [of k] N(1) by (simp add: add.assoc)
  qed
  ultimately show ?thesis by (simp add: string_vec_def)
qed

lemma vec_bytes_out:
  assumes "vec_bytes m v bss \<inter> X = {}" "i < length bss"
  shows "k < 8 \<Longrightarrow> v + of_nat (8 * i + k) \<notin> X" "j \<le> length (bss ! i) \<Longrightarrow> load64 m (v + 8 * of_nat i) + of_nat j \<notin> X"
proof -
  assume "k < 8"
  then have "v + of_nat (8 * i + k) \<in> vec_bytes m v bss" using assms(2) unfolding vec_bytes_def by (intro UnI1 imageI) simp
  then show "v + of_nat (8 * i + k) \<notin> X" using assms(1) by blast
next
  assume "j \<le> length (bss ! i)"
  then have "load64 m (v + 8 * of_nat i) + of_nat j \<in> vec_bytes m v bss" using assms(2) unfolding vec_bytes_def by blast
  then show "load64 m (v + 8 * of_nat i) + of_nat j \<notin> X" using assms(1) by blast
qed

definition args_size :: "u8 list list \<Rightarrow> u8 list list \<Rightarrow> nat" where
  "args_size args envs = 8 * (length args + 1) + 8 * (length envs + 1) + 16 + strings_size args + strings_size envs"

text \<open>The bytes of the range after all writes.\<close>

definition args_strings :: "u8 list list \<Rightarrow> u8 list list \<Rightarrow> nat" where
  "args_strings args envs = 8 * (length args + length envs + 2) + 16"

definition args_image :: "addr \<Rightarrow> u8 list list \<Rightarrow> u8 list list \<Rightarrow> (nat \<Rightarrow> u8) \<Rightarrow> nat \<Rightarrow> u8" where
  "args_image base args envs u =
     (let p = args_strings args envs;
          u1 = put_block (8 * length args) (word_bytes 0) (put_strings base 0 p args u);
          u2 = put_block (8 * (length args + 1) + 8 * length envs) (word_bytes 0) (put_strings base (8 * (length args + 1)) (p + strings_size args) envs u1)
      in put_block (8 * (length args + length envs + 2)) (word_bytes 0) u2)"

lemma args_size_strings: "args_size args envs = args_strings args envs + strings_size args + strings_size envs"
  by (simp add: args_size_def args_strings_def)

lemma exec_args_holds:
  fixes s :: "'z kernel_scheme"
  assumes r: "user_range s P4 base (args_size args envs) L" and N64: "args_size args envs < 2 ^ 64"
    and vec: "string_vec (kmem s) argv args" "string_vec (kmem s) envp envs"
    and apart: "(vec_bytes (kmem s) argv args \<union> vec_bytes (kmem s) envp envs) \<inter> L ` {..<args_size args envs} = {}"
  shows "\<exists>m'. exec_args P4 argv (length args) envp (length envs) base s = Inr (s\<lparr>kmem := m'\<rparr>)
    \<and> user_holds s L (args_size args envs) (args_image base args envs (\<lambda>k. kmem s (L k))) m'"
proof -
  let ?N = "args_size args envs" and ?n = "length args" and ?k = "length envs" and ?z = "word_bytes 0" and ?u0 = "\<lambda>k. kmem s (L k)"
  define p where "p = args_strings args envs"
  define u1 where "u1 = put_block (8 * ?n) ?z (put_strings base 0 p args ?u0)"
  define u2 where "u2 = put_block (8 * (?n + 1) + 8 * ?k) ?z (put_strings base (8 * (?n + 1)) (p + strings_size args) envs u1)"
  have N: "?N = p + strings_size args + strings_size envs" "p = 8 * (?n + ?k + 2) + 16" by (simp_all add: args_size_strings p_def args_strings_def)
  have V: "cstr (kmem s) (load64 (kmem s) (argv + 8 * of_nat i)) (args ! i)" if "i < ?n" for i using vec(1) that by (simp add: string_vec_def)
  have V': "cstr (kmem s) (load64 (kmem s) (envp + 8 * of_nat i)) (envs ! i)" if "i < ?k" for i using vec(2) that by (simp add: string_vec_def)
  have ap: "vec_bytes (kmem s) argv args \<inter> L ` {..<?N} = {}" "vec_bytes (kmem s) envp envs \<inter> L ` {..<?N} = {}" using apart by blast+
  have h0: "user_holds s L ?N ?u0 (kmem s)" by (simp add: user_holds_def)
  obtain m1 where m1: "foldR (copy_string P4 argv base) [0..<?n] (base + of_nat p, s) = Inr (base + of_nat (p + strings_size args), s\<lparr>kmem := m1\<rparr>)"
    "user_holds s L ?N (put_strings base 0 p args ?u0) m1"
    using copy_strings_holds [OF r N64 h0, of 0 0 args p argv] V vec_bytes_out [OF ap(1)] by (auto simp: N)
  obtain m2 where m2: "put_user64 P4 (base + of_nat (8 * ?n)) 0 (s\<lparr>kmem := m1\<rparr>) = Inr (s\<lparr>kmem := m2\<rparr>)" "user_holds s L ?N u1 m2"
    using put_user64_holds [OF r m1(2), of "8 * ?n" 0] by (auto simp: N u1_def)
  obtain m3 where m3: "foldR (copy_string P4 envp (base + of_nat (8 * (?n + 1)))) [0..<?k] (base + of_nat (p + strings_size args), s\<lparr>kmem := m2\<rparr>)
      = Inr (base + of_nat (p + strings_size args + strings_size envs), s\<lparr>kmem := m3\<rparr>)"
    "user_holds s L ?N (put_strings base (8 * (?n + 1)) (p + strings_size args) envs u1) m3"
    using copy_strings_holds [OF r N64 m2(2), of "8 * (?n + 1)" 0 envs "p + strings_size args" envp] V' vec_bytes_out [OF ap(2)] by (auto simp: N)
  obtain m4 where m4: "put_user64 P4 (base + of_nat (8 * (?n + 1) + 8 * ?k)) 0 (s\<lparr>kmem := m3\<rparr>) = Inr (s\<lparr>kmem := m4\<rparr>)" "user_holds s L ?N u2 m4"
    using put_user64_holds [OF r m3(2), of "8 * (?n + 1) + 8 * ?k" 0] by (auto simp: N u2_def)
  obtain m5 where m5: "put_user64 P4 (base + of_nat (8 * (?n + ?k + 2))) 0 (s\<lparr>kmem := m4\<rparr>) = Inr (s\<lparr>kmem := m5\<rparr>)"
    "user_holds s L ?N (put_block (8 * (?n + ?k + 2)) ?z u2) m5"
    using put_user64_holds [OF r m4(2), of "8 * (?n + ?k + 2)" 0] by (auto simp: N)
  have "exec_args P4 argv ?n envp ?k base s = Inr (s\<lparr>kmem := m5\<rparr>)"
    using m1(1) m2(1) m3(1) m4(1) m5(1) by (simp add: exec_args_def Let_def N algebra_simps)
  moreover have "put_block (8 * (?n + ?k + 2)) ?z u2 = args_image base args envs ?u0" unfolding args_image_def Let_def u2_def u1_def p_def ..
  ultimately show ?thesis using m5(2) by auto
qed

lemma args_image_parts:
  fixes u0 :: "nat \<Rightarrow> u8" and base :: addr and args envs :: "u8 list list"
  defines "u \<equiv> args_image base args envs u0"
  shows "n < length args \<Longrightarrow> \<exists>q. args_strings args envs \<le> q \<and> q + length (args ! n) < args_strings args envs + strings_size args
      \<and> (\<forall>k < 8. u (0 + 8 * n + k) = byte_of (base + of_nat q) k) \<and> (\<forall>j \<le> length (args ! n). u (q + j) = (args ! n @ [0]) ! j)"
    and "n < length envs \<Longrightarrow> \<exists>q. args_strings args envs + strings_size args \<le> q \<and> q + length (envs ! n) < args_strings args envs + strings_size args + strings_size envs
      \<and> (\<forall>k < 8. u (8 * (length args + 1) + 8 * n + k) = byte_of (base + of_nat q) k) \<and> (\<forall>j \<le> length (envs ! n). u (q + j) = (envs ! n @ [0]) ! j)"
    and "k < 8 \<Longrightarrow> u (0 + 8 * length args + k) = 0" and "k < 8 \<Longrightarrow> u (8 * (length args + 1) + 8 * length envs + k) = 0"
    and "k < 8 \<Longrightarrow> u (8 * (length args + length envs + 2) + k) = 0"
proof -
  let ?n = "length args" and ?k = "length envs" and ?p = "args_strings args envs" and ?q = "args_strings args envs + strings_size args"
  define u1 where "u1 = put_block (8 * ?n) (word_bytes 0) (put_strings base 0 ?p args u0)"
  note defs = u_def args_image_def Let_def u1_def put_block_apply put_strings_outside args_strings_def
  have S1: "u x = put_strings base 0 ?p args u0 x" if "x < 8 * ?n \<or> ?p \<le> x \<and> x < ?p + strings_size args" for x using that by (auto simp: defs)
  have S2: "u x = put_strings base (8 * (?n + 1)) ?q envs u1 x" if "8 * (?n + 1) \<le> x \<and> x < 8 * (?n + 1) + 8 * ?k \<or> ?q \<le> x" for x
    using that unfolding u_def args_image_def Let_def u1_def [symmetric] by (auto simp: put_block_apply args_strings_def)
  show "u (0 + 8 * ?n + k) = 0" "u (8 * (?n + 1) + 8 * ?k + k) = 0" "u (8 * (?n + ?k + 2) + k) = 0" if "k < 8"
    using that by (auto simp: defs byte_of_def)
  show "\<exists>q. ?p \<le> q \<and> q + length (args ! n) < ?p + strings_size args \<and> (\<forall>k < 8. u (0 + 8 * n + k) = byte_of (base + of_nat q) k)
      \<and> (\<forall>j \<le> length (args ! n). u (q + j) = (args ! n @ [0]) ! j)" if n: "n < ?n"
  proof -
    obtain q where "?p \<le> q" "q + length (args ! n) < ?p + strings_size args" "\<forall>k < 8. put_strings base 0 ?p args u0 (0 + 8 * n + k) = byte_of (base + of_nat q) k"
      "\<forall>j \<le> length (args ! n). put_strings base 0 ?p args u0 (q + j) = (args ! n @ [0]) ! j"
      using put_strings_vec [of 0 args ?p n base u0] n by (auto simp: args_strings_def)
    then show ?thesis using n by (intro exI [of _ q]) (auto simp: S1)
  qed
  show "\<exists>q. ?q \<le> q \<and> q + length (envs ! n) < ?q + strings_size envs \<and> (\<forall>k < 8. u (8 * (?n + 1) + 8 * n + k) = byte_of (base + of_nat q) k)
      \<and> (\<forall>j \<le> length (envs ! n). u (q + j) = (envs ! n @ [0]) ! j)" if n: "n < ?k"
  proof -
    obtain q where "?q \<le> q" "q + length (envs ! n) < ?q + strings_size envs" "\<forall>k < 8. put_strings base (8 * (?n + 1)) ?q envs u1 (8 * (?n + 1) + 8 * n + k) = byte_of (base + of_nat q) k"
      "\<forall>j \<le> length (envs ! n). put_strings base (8 * (?n + 1)) ?q envs u1 (q + j) = (envs ! n @ [0]) ! j"
      using put_strings_vec [of "8 * (?n + 1)" envs ?q n base u1] n by (auto simp: args_strings_def)
    then show ?thesis using n by (intro exI [of _ q]) (auto simp: S2)
  qed
qed

text \<open>
  The arguments of a program: \<^verbatim>\<open>exec_elf\<close> gives the process a copy of both vectors. When the range that it reserves is
  mapped page by page to frames of its own, apart from the caller's strings, the process afterwards sees at the start of the
  range a null-terminated vector of pointers to copies of the arguments, behind it one for the environment and an empty
  auxiliary vector; no other memory changes.
\<close>

theorem exec_args_layout:
  fixes s :: "'z kernel_scheme"
  assumes r: "user_range s P4 base (args_size args envs) L" and N64: "args_size args envs < 2 ^ 64"
    and vec: "string_vec (kmem s) argv args" "string_vec (kmem s) envp envs"
    and apart: "(vec_bytes (kmem s) argv args \<union> vec_bytes (kmem s) envp envs) \<inter> L ` {..<args_size args envs} = {}"
  shows "\<exists>m. exec_args P4 argv (length args) envp (length envs) base s = Inr (s\<lparr>kmem := m\<rparr>)
    \<and> string_vec (user_mem P4 (s\<lparr>kmem := m\<rparr>)) base args \<and> string_vec (user_mem P4 (s\<lparr>kmem := m\<rparr>)) (base + of_nat (8 * (length args + 1))) envs
    \<and> load64 (user_mem P4 (s\<lparr>kmem := m\<rparr>)) (base + of_nat (8 * (length args + length envs + 2))) = 0
    \<and> (\<forall>b. b \<notin> L ` {..<args_size args envs} \<longrightarrow> m b = kmem s b)"
proof -
  let ?N = "args_size args envs" and ?u = "args_image base args envs (\<lambda>k. kmem s (L k))"
  obtain m where run: "exec_args P4 argv (length args) envp (length envs) base s = Inr (s\<lparr>kmem := m\<rparr>)" and h: "user_holds s L ?N ?u m"
    using exec_args_holds [OF assms] by blast
  note um = user_mem_range [OF r h] and parts = args_image_parts [where args = args and envs = envs and base = base and ?u0.0 = "\<lambda>k. kmem s (L k)"]
  have nz: "0 \<notin> set b" if "b \<in> set args \<or> b \<in> set envs" for b
    using vec that cstr_nonzero by (fastforce simp: string_vec_def in_set_conv_nth)
  have N: "0 + 8 * length args + 8 \<le> ?N" "8 * (length args + 1) + 8 * length envs + 8 \<le> ?N" by (simp_all add: args_size_def)
  have "string_vec (user_mem P4 (s\<lparr>kmem := m\<rparr>)) (base + of_nat 0) args"
    by (rule string_vec_range [where N = ?N and u = ?u and p = "args_strings args envs", OF um N(1) _ parts(1,3)]) (use nz in \<open>simp_all add: args_size_strings\<close>)
  moreover have "string_vec (user_mem P4 (s\<lparr>kmem := m\<rparr>)) (base + of_nat (8 * (length args + 1))) envs"
    by (rule string_vec_range [where N = ?N and u = ?u and p = "args_strings args envs + strings_size args", OF um N(2) _ parts(2,4)]) (use nz in \<open>simp_all add: args_size_strings\<close>)
  moreover have "load64 (user_mem P4 (s\<lparr>kmem := m\<rparr>)) (base + of_nat (8 * (length args + length envs + 2))) = 0"
  proof (rule load64_zero)
    fix k :: nat assume "k < 8"
    then show "user_mem P4 (s\<lparr>kmem := m\<rparr>) (base + of_nat (8 * (length args + length envs + 2)) + of_nat k) = 0"
      using um [of "8 * (length args + length envs + 2) + k"] parts(5) [of k] by (simp add: args_size_def add.assoc)
  qed
  ultimately show ?thesis using run h by (intro exI [of _ m]) (simp add: user_holds_def)
qed

section \<open>Starting a program\<close>

text \<open>A freshly mapped area is a range of user memory.\<close>

lemma user_page_present: "user_page g AND PAGE_PRESENT \<noteq> 0"
proof
  assume "user_page g AND PAGE_PRESENT = 0"
  then have "\<not> bit (user_page g AND 1) 0" by simp
  then show False by (simp only: ADD_FLAGS_def bit_and_iff bit_or_iff bit_1_iff) simp
qed

lemma area_user_range:
  fixes s :: "'z procmm_scheme" and s0 :: "'y vmm_scheme"
  assumes ok: "mmap_ok s mp m xs fs" and am: "area_mapped (mm_P4 m) va e gs s0 s"
    and al: "page_aligned va" and e: "unat e = unat va + N" "e \<le> USERSPACE_TOP"
    and g: "\<And>g. g \<in> set gs \<Longrightarrow> page_aligned g \<and> g \<noteq> P2V 0 \<and> g \<notin> user_tables s m \<union> set fs"
  obtains L where "user_range s (mm_P4 m) va N L" "\<And>k. k < N \<Longrightarrow> STRIP_FLAGS (L k) \<in> set gs"
proof -
  let ?P4 = "mm_P4 m" and ?L = "\<lambda>k. vloc (kmem s) (mm_P4 m) (va + of_nat k)"
  have P4: "?P4 \<noteq> 0" and wf: "pt_wf user_dom (kmem s) (P2V ?P4)" using ok by (simp_all add: mmap_ok_def vmm_inv_def)
  have g2: "page_aligned h \<and> h \<noteq> P2V 0" if "h \<in> set gs" for h using g [OF that] by blast
  note fr = area_frames [OF am wf P4 al e g2] and inj = area_vloc_inj [OF am wf P4 al e g2]
  have Lg: "STRIP_FLAGS (?L k) \<in> set gs" if k: "k < N" for k
  proof -
    obtain j where "j < length gs" "frame (kmem s) ?P4 (va + of_nat k) = V2P (gs ! j)" using fr(2) [OF _ k] by blast
    moreover have "page_aligned (frame (kmem s) ?P4 (va + of_nat k))" by (simp add: frame_def)
    ultimately show ?thesis by (simp add: vloc_def loc_STRIP)
  qed
  have "\<exists>x. vmm_get_page ?P4 (va + of_nat k) (s\<lparr>kmem := mem\<rparr>) = Inr x \<and> x AND PAGE_PRESENT \<noteq> 0 \<and> P2V (STRIP_FLAGS x) + PAGE_OFFSET (va + of_nat k) = ?L k"
    if mem: "\<forall>b. b \<notin> ?L ` {..<N} \<longrightarrow> mem b = kmem s b" and k: "k < N" for mem k
  proof -
    have same: "mem b = kmem s b" if b: "STRIP_FLAGS b \<in> user_tables s m \<union> set fs" for b
    proof -
      have "b \<noteq> ?L i" if "i < N" for i using g [OF Lg [OF that]] b by auto
      then show ?thesis using mem by blast
    qed
    have "unat (va + of_nat k) = unat va + k" using e k by (subst unat_add_eq) (auto simp: unat_of_nat_eq word_le_nat_alt USERSPACE_TOP_def)
    then have lt: "va + of_nat k < USERSPACE_TOP" using e k by (simp add: word_le_nat_alt word_less_nat_alt)
    obtain j where j: "j < length gs" "frame (kmem s) ?P4 (va + of_nat k) = V2P (gs ! j)" "STRIP_FLAGS (va + of_nat k) = STRIP_FLAGS (va + of_nat (4096 * j))"
      using fr(2) [OF _ k] by blast
    have "vmm_get_page ?P4 (va + of_nat k) s = Inr (user_page (gs ! j))" using am j(1,3) lt unfolding area_mapped_def by simp
    then have "vmm_get_page ?P4 (va + of_nat k) (s\<lparr>kmem := mem\<rparr>) = Inr (user_page (gs ! j))" using mmap_ok_data(3) [OF ok same lt] by simp
    moreover have "user_page (gs ! j) AND PAGE_PRESENT \<noteq> 0" by (rule user_page_present)
    moreover have "STRIP_FLAGS (user_page (gs ! j)) = V2P (gs ! j)" using g2 [OF nth_mem [OF j(1)]] by simp
    ultimately show ?thesis using j(2) by (intro exI [of _ "user_page (gs ! j)"]) (simp add: vloc_def loc_def)
  qed
  then have "user_range s ?P4 va N ?L" using inj by (simp add: user_range_def)
  then show thesis using Lg by (rule that)
qed

lemma mmap_ok_fields:
  assumes "mmap_ok s mp m xs fs" "mm_P4 m' = mm_P4 m" "mm_areas m' = mm_areas m"
  shows "mmap_ok (s\<lparr>mmaps := (mmaps s)(mp \<mapsto> m')\<rparr>) mp m' xs fs"
  using assms by (simp add: mmap_ok_def vmm_inv_def pmm_inv_def)

lemma area_mapped_none:
  assumes "area_mapped P4 va e gs s s1" "area_mapped P4 v v hs s1 s2"
  shows "area_mapped P4 va e gs s s2"
proof -
  have "npages v v = 0" by (simp add: npages_def)
  then have "vmm_get_page P4 w s2 = vmm_get_page P4 w s1" if "w < USERSPACE_TOP" for w using assms(2) that by (simp add: area_mapped_def)
  then show ?thesis using assms(1) by (simp add: area_mapped_def)
qed

lemma area_mapped_kmem2: "kmem t = kmem s' \<Longrightarrow> P4 \<noteq> 0 \<Longrightarrow> area_mapped P4 start e gs s t = area_mapped P4 start e gs s s'"
  by (simp add: area_mapped_def vmm_get_page_kmem [of t s'])

lemma procmm_setup_run:
  fixes s :: "'z kernel_scheme"
  assumes ok: "mmap_ok s mp m xs fs" and xs: "xs \<noteq> []" "mareas s (last xs) = Some la" and av: "avail s = a # a2 # as"
    and a: "a \<noteq> 0" "a \<notin> set xs" "a2 \<noteq> 0" "a2 \<noteq> a" "a2 \<notin> set xs" and b: "below s xs va" "va = (area_end la + PAGE_SIZE) AND NOT (PAGE_SIZE - 1)"
    and e: "va \<le> va + len" "va + len < USERSPACE_TOP" and fs: "4 * npages va (va + len) \<le> length fs" "P2V 0 \<notin> set fs"
  obtains r s' m' gs k where "procmm_setup mp len s = Inr (r, s')" "mmap_ok s' mp m' (xs @ [a] @ [a2]) (drop k fs)" "mm_P4 m' = mm_P4 m" "mm_brk m' = a"
    "mareas s' a = Some \<lparr>area_start = va, area_end = va + len, area_flags = 0, area_map = mp\<rparr>" "avail s' = as" "procmm.more s' = procmm.more s"
    "area_mapped (mm_P4 m) va (va + len) gs s s'" "user_tables s' m \<union> set (drop k fs) \<subseteq> user_tables s m \<union> set fs"
    "\<And>b. STRIP_FLAGS b \<notin> user_tables s m \<union> set fs \<Longrightarrow> kmem s' b = kmem s b"
    "\<And>g. g \<in> set gs \<Longrightarrow> page_aligned g \<and> g \<noteq> P2V 0 \<and> g \<notin> user_tables s' m \<union> set (drop k fs)" "set gs \<subseteq> set fs"
proof -
  let ?e = "va + len" and ?ar = "\<lparr>area_start = va, area_end = va + len, area_flags = 0, area_map = mp\<rparr>"
  obtain s1 m1 gs k where r1: "procmm_map mp va ?e 0 s = Inr (a, s1)" and ok1: "mmap_ok s1 mp m1 (xs @ [a]) (drop k fs)" and P1: "mm_P4 m1 = mm_P4 m"
    and ar1: "mareas s1 = (mareas s)(a \<mapsto> ?ar)" and av1: "avail s1 = a2 # as" and more1: "procmm.more s1 = procmm.more s" and f1: "m1 = m\<lparr>mm_areas := mm_areas m1\<rparr>"
    and am1: "area_mapped (mm_P4 m) va ?e gs s s1" and T1: "user_tables s1 m \<subseteq> user_tables s m \<union> set fs"
    and out1: "\<And>b. STRIP_FLAGS b \<notin> user_tables s m \<union> set fs \<Longrightarrow> kmem s1 b = kmem s b"
    and g1: "\<And>g. g \<in> set gs \<Longrightarrow> page_aligned g \<and> g \<noteq> P2V 0 \<and> g \<notin> user_tables s1 m \<union> set (drop k fs)" "set gs \<subseteq> set fs"
    by (rule procmm_map_frames [OF ok av a(1,2) b(1) e(1) less_imp_le [OF e(2)] fs, of 0]) (rule that)
  define m2 where "m2 = m1\<lparr>mm_brk := a\<rparr>"
  define s2 where "s2 = s1\<lparr>mmaps := (mmaps s1)(mp \<mapsto> m2)\<rparr>"
  have ok2: "mmap_ok s2 mp m2 (xs @ [a]) (drop k fs)" unfolding s2_def by (rule mmap_ok_fields [OF ok1]) (simp_all add: m2_def)
  have b2: "below s2 (xs @ [a]) USERSPACE_TOP"
  proof -
    have "va < USERSPACE_TOP" using e by (rule order_le_less_trans)
    then show ?thesis using b(1) e a(2) by (fastforce simp: below_def s2_def ar1)
  qed
  have h2: "avail s2 = a2 # as" "a2 \<notin> set (xs @ [a])" "4 * npages USERSPACE_TOP USERSPACE_TOP \<le> length (drop k fs)" "P2V 0 \<notin> set (drop k fs)"
    using av1 a(4,5) fs(2) by (auto simp: s2_def npages_def dest: in_set_dropD)
  obtain s3 m3 hs l where r3: "procmm_map mp USERSPACE_TOP USERSPACE_TOP 0 s2 = Inr (a2, s3)" and ok3: "mmap_ok s3 mp m3 ((xs @ [a]) @ [a2]) (drop l (drop k fs))"
    and P3: "mm_P4 m3 = mm_P4 m2" and ar3: "mareas s3 = (mareas s2)(a2 \<mapsto> \<lparr>area_start = USERSPACE_TOP, area_end = USERSPACE_TOP, area_flags = 0, area_map = mp\<rparr>)"
    and av3: "avail s3 = as" and more3: "procmm.more s3 = procmm.more s2" and f3: "m3 = m2\<lparr>mm_areas := mm_areas m3\<rparr>" and am3: "area_mapped (mm_P4 m2) USERSPACE_TOP USERSPACE_TOP hs s2 s3"
    and T3: "user_tables s3 m2 \<subseteq> user_tables s2 m2 \<union> set (drop k fs)"
    and out3: "\<And>b. STRIP_FLAGS b \<notin> user_tables s2 m2 \<union> set (drop k fs) \<Longrightarrow> kmem s3 b = kmem s2 b"
    by (rule procmm_map_frames [OF ok2 h2(1) a(3) h2(2) b2 order_refl order_refl h2(3,4), of 0]) (rule that)
  have dl: "dlist (mm_areas m, alinks s) xs" using ok by (simp add: mmap_ok_def)
  then have "last xs \<noteq> 0" using dlist_nonzero last_in_set [OF xs(1)] by metis
  then have last: "obj (mareas s) (hprev (mm_areas m)) = Inr la" using dl xs by (simp add: dlist_def last0_eq obj_def)
  have M: "obj (mmaps s) mp = Inr m" "obj (mmaps s1) mp = Inr m1" "obj (mmaps s3) mp = Inr m3" using ok ok1 ok3 by (simp_all add: mmap_ok_def obj_def)
  define m4 where "m4 = m3\<lparr>mm_stack := a2\<rparr>"
  define s4 where "s4 = s3\<lparr>mmaps := (mmaps s3)(mp \<mapsto> m4)\<rparr>"
  show thesis
  proof (rule that)
    show "procmm_setup mp len s = Inr (sint (ucast va :: u32), s4)"
      using last M r1 r3 b(2) by (simp add: procmm_setup_def Let_def s2_def m2_def s4_def m4_def)
    show "mmap_ok s4 mp m4 (xs @ [a] @ [a2]) (drop (l + k) fs)"
      using mmap_ok_fields [OF ok3, of m4] by (simp add: s4_def m4_def)
    show "area_mapped (mm_P4 m) va ?e gs s s4"
    proof -
      have P: "mm_P4 m \<noteq> 0" "mm_P4 m2 = mm_P4 m" using ok P1 by (simp_all add: mmap_ok_def m2_def)
      have "area_mapped (mm_P4 m) USERSPACE_TOP USERSPACE_TOP hs s1 s3" using am3 area_mapped_kmem [of s2 s1 "mm_P4 m" USERSPACE_TOP USERSPACE_TOP hs s3] P by (simp add: s2_def)
      then have "area_mapped (mm_P4 m) va ?e gs s s3" by (rule area_mapped_none [OF am1])
      then show ?thesis using area_mapped_kmem2 [of s4 s3 "mm_P4 m" va ?e gs s] P(1) by (simp add: s4_def)
    qed
    show "mm_brk m4 = a" by (simp add: m4_def) (subst f3, simp add: m2_def)
    have P: "mm_P4 m2 = mm_P4 m" "set (drop (l + k) fs) \<subseteq> set (drop k fs)" "set (drop k fs) \<subseteq> set fs"
      using P1 set_drop_subset [of l "drop k fs"] set_drop_subset [of k fs] by (simp_all add: m2_def)
    then show "user_tables s4 m \<union> set (drop (l + k) fs) \<subseteq> user_tables s m \<union> set fs"
      using T1 T3 by (auto simp: s4_def s2_def)
    show "kmem s4 x = kmem s x" if x: "STRIP_FLAGS x \<notin> user_tables s m \<union> set fs" for x
      using out1 [OF x] out3 [of x] x T1 P by (auto simp: s4_def s2_def)
    show "page_aligned h \<and> h \<noteq> P2V 0 \<and> h \<notin> user_tables s4 m \<union> set (drop (l + k) fs)" if h: "h \<in> set gs" for h
      using g1(1) [OF h] T3 P by (auto simp: s4_def s2_def)
  qed (use ar1 ar3 a(4) av3 more1 more3 P1 P3 g1(2) in \<open>simp_all add: s4_def m4_def s2_def m2_def\<close>)
qed

lemma user_range_less: "user_range s P4 base N L \<Longrightarrow> n \<le> N \<Longrightarrow> user_range s P4 base n L"
  unfolding user_range_def
proof (elim conjE, intro conjI allI impI)
  fix m k
  assume n: "n \<le> N" and r: "\<forall>m k. (\<forall>b. b \<notin> L ` {..<N} \<longrightarrow> m b = kmem s b) \<longrightarrow> k < N \<longrightarrow> (\<exists>e. vmm_get_page P4 (base + of_nat k) (s\<lparr>kmem := m\<rparr>) = Inr e
      \<and> e AND PAGE_PRESENT \<noteq> 0 \<and> P2V (STRIP_FLAGS e) + PAGE_OFFSET (base + of_nat k) = L k)"
    and m: "\<forall>b. b \<notin> L ` {..<n} \<longrightarrow> m b = kmem s b" and k: "k < n"
  have "L ` {..<n} \<subseteq> L ` {..<N}" using n by auto
  then have "\<forall>b. b \<notin> L ` {..<N} \<longrightarrow> m b = kmem s b" using m by blast
  then show "\<exists>e. vmm_get_page P4 (base + of_nat k) (s\<lparr>kmem := m\<rparr>) = Inr e \<and> e AND PAGE_PRESENT \<noteq> 0 \<and> P2V (STRIP_FLAGS e) + PAGE_OFFSET (base + of_nat k) = L k"
    using r k n by simp
qed (auto elim: inj_on_subset)

lemma user_mem_kmem:
  assumes "kmem (s' :: 'y vmm_scheme) = kmem (s :: 'z vmm_scheme)" "P4 \<noteq> 0"
  shows "user_mem P4 s' = user_mem P4 s"
  by (rule ext) (simp add: user_mem_def vmm_get_page_kmem [OF assms] assms(1) split: sum.split)

lemma segment_user_mem:
  assumes "segment_loaded s P4 va F N src X" "i < N"
  shows "user_mem P4 s (va + of_nat i) = (if i < F then src i else 0)"
proof -
  obtain g where "vmm_get_page P4 (va + of_nat i) s = Inr (user_page g)" "page_aligned g" "kmem s (g + PAGE_OFFSET (va + of_nat i)) = (if i < F then src i else 0)"
    using assms unfolding segment_loaded_def by blast
  then show ?thesis by (simp add: user_mem_def)
qed

lemma string_vec_same:
  assumes same: "\<And>b. b \<in> vec_bytes m v bss \<Longrightarrow> m' b = m b" and v: "string_vec m v bss"
  shows "string_vec m' v bss" "vec_bytes m' v bss = vec_bytes m v bss" "i \<le> length bss \<Longrightarrow> load64 m' (v + 8 * of_nat i) = load64 m (v + 8 * of_nat i)"
proof -
  show ld: "load64 m' (v + 8 * of_nat i) = load64 m (v + 8 * of_nat i)" if "i \<le> length bss" for i
  proof (rule load64_cong)
    fix k :: nat assume "k < 8"
    then have "v + of_nat (8 * i + k) \<in> vec_bytes m v bss" using that unfolding vec_bytes_def by (intro UnI1 imageI) simp
    from same [OF this] show "m' (v + 8 * of_nat i + of_nat k) = m (v + 8 * of_nat i + of_nat k)" by (simp add: add.assoc)
  qed
  then show "vec_bytes m' v bss = vec_bytes m v bss" by (simp add: vec_bytes_def)
  have "cstr m' (load64 m (v + 8 * of_nat i)) (bss ! i)" if i: "i < length bss" for i
  proof (rule cstr_cong)
    show "cstr m (load64 m (v + 8 * of_nat i)) (bss ! i)" using v i by (simp add: string_vec_def)
    fix k assume "k \<le> length (bss ! i)"
    then have "load64 m (v + 8 * of_nat i) + of_nat k \<in> vec_bytes m v bss" using i unfolding vec_bytes_def by blast
    then show "m' (load64 m (v + 8 * of_nat i) + of_nat k) = m (load64 m (v + 8 * of_nat i) + of_nat k)" by (rule same)
  qed
  then show "string_vec m' v bss" using v ld by (simp add: string_vec_def)
qed

text \<open>Counting the strings.\<close>

lemma count_strings_vec:
  assumes "string_vec m v bss" "\<And>i. i < length bss \<Longrightarrow> load64 m (v + 8 * of_nat i) \<noteq> 0"
  shows "a \<le> length bss \<Longrightarrow> count_strings m v a l = Some (length bss, l + of_nat (strings_size (drop a bss)))"
proof (induction "length bss - a" arbitrary: a l)
  case 0
  then show ?case using assms(1) by (subst count_strings.simps) (simp add: string_vec_def)
next
  case (Suc n)
  then have a: "a < length bss" by simp
  have "strlen m (load64 m (v + 8 * of_nat a)) = Some (of_nat (length (bss ! a)))"
    using assms(1) a by (intro strlen_cstr) (simp add: string_vec_def)
  then have "count_strings m v a l = count_strings m v (Suc a) (l + (ucast (of_nat (length (bss ! a)) :: u64) + 1))"
    using assms(2) [OF a] by (subst count_strings.simps) simp
  also have "\<dots> = Some (length bss, l + (ucast (of_nat (length (bss ! a)) :: u64) + 1) + of_nat (strings_size (drop (Suc a) bss)))"
    using Suc a by simp
  also have "(ucast (of_nat (length (bss ! a)) :: u64) :: u32) = of_nat (length (bss ! a))" by (simp add: unsigned_of_nat word_of_nat_eq_iff)
  finally show ?case using Cons_nth_drop_Suc [OF a, symmetric] by (simp add: algebra_simps)
qed

text \<open>The area that \<^verbatim>\<open>exec_elf\<close> reserves for the arguments, behind the last segment.\<close>

definition args_area :: "elf_phead list \<Rightarrow> u8 list list \<Rightarrow> u8 list list \<Rightarrow> elf_phead" where
  "args_area phs args envs = \<lparr>ph_type = 0, ph_offset = 0, ph_va = (ph_va (last phs) + ph_memsz (last phs) + PAGE_SIZE) AND NOT (PAGE_SIZE - 1),
     ph_filesz = 0, ph_memsz = of_nat (args_size args envs + 1)\<rparr>"

text \<open>The length that \<^verbatim>\<open>exec_elf\<close> computes in an \<^verbatim>\<open>int\<close>.\<close>

lemma args_length:
  fixes l :: u32
  assumes "args_size args envs + 1 < 2 ^ 31"
    and l: "l = of_nat (strings_size args) + ucast ((of_nat (length args) + 1) * 8 :: u64) + of_nat (strings_size envs) + ucast ((of_nat (length envs) + 1) * 8 :: u64) + 16 + 1"
  shows "(scast l :: u64) = of_nat (args_size args envs + 1)"
proof -
  have u: "(ucast ((of_nat n + 1) * 8 :: u64) :: u32) = of_nat (8 * (n + 1))" for n :: nat
  proof -
    have "((of_nat n + 1) * 8 :: u64) = of_nat (8 * (n + 1))" by (simp add: algebra_simps)
    then show ?thesis by (simp only: unsigned_of_nat) (simp add: word_of_nat_eq_iff del: of_nat_mult of_nat_add)
  qed
  have "l = of_nat (args_size args envs + 1)" unfolding l u by (simp add: args_size_def algebra_simps)
  moreover have "signed_take_bit 31 (int (args_size args envs + 1)) = int (args_size args envs + 1)"
    using assms(1) by (intro signed_take_bit_int_eq_self) simp_all
  ultimately show ?thesis by (simp only: signed_of_nat) simp
qed

lemma new_thread_attach:
  fixes s :: "'z kernel_scheme"
  assumes "avail s = a # as" "a + TCB_OFFSET \<noteq> 0" "p \<noteq> 0" "procs s p = Some pr"
  obtains t h s1 s2 s3 where "new_thread isr_return entry True s = Inr (a + TCB_OFFSET, s1)" "process_attach p (a + TCB_OFFSET) s1 = Inr s2"
    "upd_thread (a + TCB_OFFSET) (\<lambda>t. t\<lparr>tregs := (tregs t)\<lparr>rsi := x, rdi := y\<rparr>\<rparr>) s2 = Inr s3" "kmem s3 = kmem s"
    "threads s3 (a + TCB_OFFSET) = Some t" "tprocess t = p" "rip (tregs t) = entry" "rdi (tregs t) = y" "rsi (tregs t) = x"
    "procs s3 p = Some (pr\<lparr>pthreads := h\<rparr>)" "ready_queue s3 = ready_queue s" "ready_links s3 = LIST_INIT (a + TCB_OFFSET) (ready_links s)" "init_proc s3 = init_proc s"
  using assms by (auto simp: new_thread_def new_addr_def process_attach_def upd_thread_def obj_def Let_def)

text \<open>What \<^verbatim>\<open>exec_elf\<close> relies on.\<close>

definition exec_ready :: "addr \<Rightarrow> addr \<Rightarrow> process_t \<Rightarrow> addr \<Rightarrow> (addr \<Rightarrow> addr) \<Rightarrow> u8 list list \<Rightarrow> u8 list list \<Rightarrow> 'z kernel_scheme \<Rightarrow> procmm_mmap_t \<Rightarrow> addr list \<Rightarrow> addr list \<Rightarrow> bool" where
  "exec_ready lit p pr img fr args envs s m xs fs \<longleftrightarrow>
     (let phs = load_pheads (kmem s) img; ar = args_area phs args envs in
      memcmp (kmem s) img lit 4 = 0 \<and> load16 (kmem s) (img + 16) = ELF_TYPE_EXECUTABLE \<and> phs \<noteq> []
      \<and> (\<forall>b \<in> header_bytes (kmem s) img. STRIP_FLAGS b \<notin> user_tables s m \<union> set fs)
      \<and> args_size args envs + 1 < 2 ^ 31 \<and> ph_va ar + ph_memsz ar < USERSPACE_TOP
      \<and> load_ready 2 p pr img fr (phs @ [ar]) s m xs fs)"

lemma exec_load_setup:
  fixes s :: "'z kernel_scheme"
  assumes X: "exec_ready lit p pr img fr args envs s m xs fs"
  defines "phs \<equiv> load_pheads (kmem s) img"
  defines "ar \<equiv> args_area phs args envs"
  obtains s1 s2 r m2 a c as xs2 fs2 gs Y where "load_elf lit p img s = Inr (load64 (kmem s) (img + 24), s1)" "procs s1 p = Some pr"
    "procmm_setup (pmmap pr) (of_nat (args_size args envs + 1)) s1 = Inr (r, s2)" "mmap_ok s2 (pmmap pr) m2 xs2 fs2" "mm_P4 m2 = mm_P4 m" "mm_brk m2 = a"
    "map_option area_start (mareas s2 a) = Some (ph_va ar)" "avail s2 = c # as" "c + TCB_OFFSET \<noteq> 0" "a \<noteq> 0" "procs s2 p = Some pr"
    "area_mapped (mm_P4 m) (ph_va ar) (ph_va ar + ph_memsz ar) gs s1 s2"
    "\<And>b. STRIP_FLAGS b \<notin> user_tables s m \<union> set fs \<Longrightarrow> kmem s2 b = kmem s b" "Y \<subseteq> user_tables s m \<union> set fs" "set gs \<subseteq> Y" "user_tables s2 m2 \<union> set fs2 \<subseteq> Y"
    "\<And>g. g \<in> set gs \<Longrightarrow> page_aligned g \<and> g \<noteq> P2V 0 \<and> g \<notin> user_tables s2 m2 \<union> set fs2" "segments_loaded s2 (mm_P4 m) img fr (kmem s) phs Y"
    "procmm.more s2 = procmm.more s" "c \<in> set (avail s)"
proof -
  let ?X = "user_tables s m \<union> set fs" and ?len = "of_nat (args_size args envs + 1) :: u64"
  note X' = X [unfolded exec_ready_def Let_def, folded phs_def, folded ar_def]
  obtain s1 m1 xs1 fs1 where l: "load_elf_loop p img (img + load64 (kmem s) (img + 32)) 0 s = Inr s1" and R: "load_ready 2 p pr img fr [ar] s1 m1 xs1 fs1"
    and P1: "mm_P4 m1 = mm_P4 m" and L1: "segments_loaded s1 (mm_P4 m1) img fr (kmem s) phs (user_tables s1 m1 \<union> set fs1)"
    and out1: "\<forall>b. STRIP_FLAGS b \<notin> ?X \<longrightarrow> kmem s1 b = kmem s b" and Y: "user_tables s1 m1 \<union> set fs1 \<subseteq> ?X"
    and la: "xs1 \<noteq> []" "map_option area_end (mareas s1 (last xs1)) = Some (ph_va (last phs) + ph_memsz (last phs))"
    and mo: "procmm.more s1 = procmm.more s" "set (avail s1) \<subseteq> set (avail s)"
    using load_elf_loop_start [of 2 p pr img fr s "[ar]" m xs fs] X' unfolding phs_def by blast
  have "load64 (kmem s1) (img + of_nat 24) = load64 (kmem s) (img + of_nat 24)" using out1 X' by (intro header_same(1) [where m = "kmem s"]) auto
  then have load: "load_elf lit p img s = Inr (load64 (kmem s) (img + 24), s1)" using l X' by (simp add: load_elf_def)
  note R' = R [unfolded load_ready_def]
  obtain a a2 c as where av: "avail s1 = a # a2 # c # as" using R' by (cases "avail s1"; cases "tl (avail s1)"; cases "tl (tl (avail s1))") auto
  obtain ld where ld: "mareas s1 (last xs1) = Some ld" "area_end ld = ph_va (last phs) + ph_memsz (last phs)" using la(2) by auto
  have ar: "ph_va ar = (area_end ld + PAGE_SIZE) AND NOT (PAGE_SIZE - 1)" "ph_memsz ar = ?len" by (simp_all add: ar_def args_area_def ld(2))
  have fit: "segment_fits ar" and b: "below s1 xs1 (ph_va ar)" and fs: "4 * seg_pages ar \<le> length fs1" "P2V 0 \<notin> set fs1" and ok1: "mmap_ok s1 (pmmap pr) m1 xs1 fs1"
    and d: "a \<noteq> 0" "a \<notin> set xs1" "a2 \<noteq> 0" "a2 \<noteq> a" "a2 \<notin> set xs1" "c + TCB_OFFSET \<noteq> 0" and pr: "procs s1 p = Some pr" using R' by (auto simp: av)
  have e: "ph_va ar + ?len < USERSPACE_TOP" using X' by (simp add: ar(2))
  obtain r s2 m2 gs k where st: "procmm_setup (pmmap pr) ?len s1 = Inr (r, s2)" and ok2: "mmap_ok s2 (pmmap pr) m2 (xs1 @ [a] @ [a2]) (drop k fs1)"
    and P2: "mm_P4 m2 = mm_P4 m1" "mm_brk m2 = a"
    and s2: "mareas s2 a = Some \<lparr>area_start = ph_va ar, area_end = ph_va ar + ?len, area_flags = 0, area_map = pmmap pr\<rparr>" "avail s2 = c # as" "procmm.more s2 = procmm.more s1"
    and am: "area_mapped (mm_P4 m1) (ph_va ar) (ph_va ar + ?len) gs s1 s2" and T2: "user_tables s2 m1 \<union> set (drop k fs1) \<subseteq> user_tables s1 m1 \<union> set fs1"
    and out2: "\<And>b. STRIP_FLAGS b \<notin> user_tables s1 m1 \<union> set fs1 \<Longrightarrow> kmem s2 b = kmem s1 b"
    and g: "\<And>g. g \<in> set gs \<Longrightarrow> page_aligned g \<and> g \<noteq> P2V 0 \<and> g \<notin> user_tables s2 m1 \<union> set (drop k fs1)" "set gs \<subseteq> set fs1"
    by (rule procmm_setup_run [OF ok1 la(1) ld(1) av d(1-5) b ar(1) segment_range(2) [OF fit, unfolded ar(2)] e fs [unfolded ar(2)]]) (rule that)
  have kept: "segments_loaded s2 (mm_P4 m) img fr (kmem s) phs (user_tables s1 m1 \<union> set fs1)"
    unfolding segments_loaded_def
  proof
    fix q assume q: "q \<in> set phs"
    have srt: "segment_fits q" "ph_va q + ph_memsz q < ph_va ar" using X' q by (auto simp: load_ready_def sorted_wrt_append)
    show "segment_loaded s2 (mm_P4 m) (ph_va q) (unat (ph_filesz q)) (unat (ph_memsz q)) (\<lambda>i. kmem s (loc fr (img + ph_offset q + of_nat i))) (user_tables s1 m1 \<union> set fs1)"
      using L1 q am by (intro segment_kept [OF _ order_refl out2 _ srt(1) fit srt(2)]) (auto simp: segments_loaded_def P1 ar(2))
  qed
  have out: "kmem s2 x = kmem s x" if x: "STRIP_FLAGS x \<notin> ?X" for x using out1 out2 [of x] Y x by auto
  have "procs s2 = procs s1" using s2(3) by (cases s1, cases s2) simp
  then show thesis
    using P1 P2 s2(1,2,3) am T2 g d(1,6) pr Y kept out mo av
    by (intro that [OF load pr st ok2, where a = a and c = c and as = as and gs = gs and Y = "user_tables s1 m1 \<union> set fs1"]) (auto simp: ar(2))
qed

lemma exec_args_area:
  fixes s :: "'z kernel_scheme" and s0 :: "'y vmm_scheme"
  assumes ok: "mmap_ok s mp m xs fs" and am: "area_mapped (mm_P4 m) va (va + len) gs s0 s" and al: "page_aligned va"
    and len: "unat (va + len) = unat va + (args_size args envs + 1)" "va + len \<le> USERSPACE_TOP" "args_size args envs < 2 ^ 64"
    and g: "\<And>g. g \<in> set gs \<Longrightarrow> page_aligned g \<and> g \<noteq> P2V 0 \<and> g \<notin> user_tables s m \<union> set fs" and Y: "set gs \<subseteq> Y"
    and vec: "string_vec (kmem s) argv args" "string_vec (kmem s) envp envs"
    and apart: "\<And>b. b \<in> vec_bytes (kmem s) argv args \<union> vec_bytes (kmem s) envp envs \<Longrightarrow> STRIP_FLAGS b \<notin> Y"
    and sl: "segments_loaded s (mm_P4 m) data fr m0 phs Y" "\<And>ph. ph \<in> set phs \<Longrightarrow> segment_fits ph"
  obtains mem where "exec_args (mm_P4 m) argv (length args) envp (length envs) va s = Inr (s\<lparr>kmem := mem\<rparr>)"
    "string_vec (user_mem (mm_P4 m) (s\<lparr>kmem := mem\<rparr>)) va args" "string_vec (user_mem (mm_P4 m) (s\<lparr>kmem := mem\<rparr>)) (va + of_nat (8 * (length args + 1))) envs"
    "segments_loaded (s\<lparr>kmem := mem\<rparr>) (mm_P4 m) data fr m0 phs Y"
proof -
  let ?N = "args_size args envs"
  obtain L where L: "user_range s (mm_P4 m) va (?N + 1) L" "\<And>k. k < ?N + 1 \<Longrightarrow> STRIP_FLAGS (L k) \<in> set gs"
    by (rule area_user_range [OF ok am al len(1,2) g]) (assumption, rule that)
  have LY: "STRIP_FLAGS b \<in> set gs" if "b \<in> L ` {..<?N}" for b using that L(2) by auto
  have "(vec_bytes (kmem s) argv args \<union> vec_bytes (kmem s) envp envs) \<inter> L ` {..<?N} = {}" using apart LY Y by blast
  then obtain mem where mem: "exec_args (mm_P4 m) argv (length args) envp (length envs) va s = Inr (s\<lparr>kmem := mem\<rparr>)"
    "string_vec (user_mem (mm_P4 m) (s\<lparr>kmem := mem\<rparr>)) va args" "string_vec (user_mem (mm_P4 m) (s\<lparr>kmem := mem\<rparr>)) (va + of_nat (8 * (length args + 1))) envs"
    and out: "\<And>b. b \<notin> L ` {..<?N} \<Longrightarrow> mem b = kmem s b"
    using exec_args_layout [OF user_range_less [OF L(1)] len(3) vec] by fastforce
  have same: "mem b = kmem s b" if "STRIP_FLAGS b \<in> user_tables s m \<union> set fs" for b using that g LY by (intro out) blast
  have "segment_loaded (s\<lparr>kmem := mem\<rparr>) (mm_P4 m) (ph_va ph) (unat (ph_filesz ph)) (unat (ph_memsz ph)) (\<lambda>i. m0 (loc fr (data + ph_offset ph + of_nat i))) Y"
    if ph: "ph \<in> set phs" for ph
  proof (rule segment_loaded_frame [OF _ order_refl])
    show "segment_loaded s (mm_P4 m) (ph_va ph) (unat (ph_filesz ph)) (unat (ph_memsz ph)) (\<lambda>i. m0 (loc fr (data + ph_offset ph + of_nat i))) Y"
      using sl(1) ph by (simp add: segments_loaded_def)
    show "kmem (s\<lparr>kmem := mem\<rparr>) b = kmem s b" if "STRIP_FLAGS b \<notin> Y" for b using that LY Y out [of b] by auto
    fix i assume i: "i < unat (ph_memsz ph)"
    note rng = segment_range [OF sl(2) [OF ph]]
    have "unat (ph_va ph + of_nat i) = unat (ph_va ph) + i" using i rng(1,3)
      by (subst unat_add_eq) (auto simp: unat_of_nat_eq word_le_nat_alt USERSPACE_TOP_def)
    then have "ph_va ph + of_nat i < USERSPACE_TOP" using i rng(1,3) by (simp add: word_le_nat_alt word_less_nat_alt)
    then show "vmm_get_page (mm_P4 m) (ph_va ph + of_nat i) (s\<lparr>kmem := mem\<rparr>) = vmm_get_page (mm_P4 m) (ph_va ph + of_nat i) s"
      using mmap_ok_data(3) [OF ok same] by simp
  qed
  then show thesis using that [OF mem] by (simp add: segments_loaded_def)
qed

text \<open>
  A program in memory: its thread \<open>th\<close> starts at \<open>entry\<close> with the arguments, whose vector lies in the memory of the process \<open>p\<close>
  with that of the environment behind it, and every segment holds the bytes of the image in the memory \<open>m0\<close>, or zeros.
\<close>

definition program_started :: "addr \<Rightarrow> addr \<Rightarrow> u8 list list \<Rightarrow> u8 list list \<Rightarrow> addr \<Rightarrow> (addr \<Rightarrow> addr) \<Rightarrow> mem \<Rightarrow> addr \<Rightarrow> addr \<Rightarrow> 'z kernel_scheme \<Rightarrow> bool" where
  "program_started p P4 args envs img fr m0 entry th s \<longleftrightarrow> (\<exists>t. threads s th = Some t \<and> tprocess t = p
    \<and> rip (tregs t) = entry \<and> rdi (tregs t) = of_nat (length args)
    \<and> string_vec (user_mem P4 s) (rsi (tregs t)) args \<and> string_vec (user_mem P4 s) (rsi (tregs t) + of_nat (8 * (length args + 1))) envs
    \<and> (\<forall>ph \<in> set (load_pheads m0 img). \<forall>i < unat (ph_memsz ph).
         user_mem P4 s (ph_va ph + of_nat i) = (if i < unat (ph_filesz ph) then m0 (loc fr (img + ph_offset ph + of_nat i)) else 0)))"

text \<open>The part of \<^verbatim>\<open>exec_elf\<close> up to the new thread.\<close>

lemma exec_memory_run:
  fixes s :: "'z kernel_scheme"
  assumes X: "exec_ready lit p pr img fr args envs s m xs fs"
    and vec: "string_vec (kmem s) argv args" "string_vec (kmem s) envp envs"
    and apart: "\<And>b. b \<in> vec_bytes (kmem s) argv args \<union> vec_bytes (kmem s) envp envs \<Longrightarrow> STRIP_FLAGS b \<notin> user_tables s m \<union> set fs"
  obtains s1 s2 s3 r m2 br c as mem va Y where "load_elf lit p img s = Inr (load64 (kmem s) (img + 24), s1)" "obj (procs s1) p = Inr pr"
    "procmm_setup (pmmap pr) (of_nat (args_size args envs + 1)) s1 = Inr (r, s2)" "obj (mmaps s2) (pmmap pr) = Inr m2" "mm_P4 m2 = mm_P4 m"
    "vmm_set_P4 (mm_P4 m) s2 = s3" "obj (mareas s3) (mm_brk m2) = Inr br" "area_start br = va"
    "exec_args (mm_P4 m) argv (length args) envp (length envs) va s3 = Inr (s3\<lparr>kmem := mem\<rparr>)"
    "string_vec (user_mem (mm_P4 m) (s3\<lparr>kmem := mem\<rparr>)) va args" "string_vec (user_mem (mm_P4 m) (s3\<lparr>kmem := mem\<rparr>)) (va + of_nat (8 * (length args + 1))) envs"
    "segments_loaded (s3\<lparr>kmem := mem\<rparr>) (mm_P4 m) img fr (kmem s) (load_pheads (kmem s) img) Y"
    "avail s3 = c # as" "c \<in> set (avail s)" "c + TCB_OFFSET \<noteq> 0" "procmm.more s3 = procmm.more s"
proof -
  let ?P4 = "mm_P4 m" and ?phs = "load_pheads (kmem s) img" and ?ar = "args_area (load_pheads (kmem s) img) args envs" and ?N = "args_size args envs"
  let ?X = "user_tables s m \<union> set fs"
  note X' = X [unfolded exec_ready_def Let_def]
  have N: "?N + 1 < 2 ^ 31" and fit: "segment_fits ?ar" and P4: "?P4 \<noteq> 0" using X' by (auto simp: load_ready_def mmap_ok_def)
  have sz: "unat (ph_memsz ?ar) = ?N + 1" using N by (simp add: args_area_def unat_of_nat_eq del: of_nat_add of_nat_Suc)
  obtain s1 s2 r m2 a c as xs2 fs2 gs Y where load: "load_elf lit p img s = Inr (load64 (kmem s) (img + 24), s1)" "procs s1 p = Some pr"
    and st: "procmm_setup (pmmap pr) (of_nat (?N + 1)) s1 = Inr (r, s2)" and ok2: "mmap_ok s2 (pmmap pr) m2 xs2 fs2" and P2: "mm_P4 m2 = ?P4" and brk: "mm_brk m2 = a"
    and s2: "map_option area_start (mareas s2 a) = Some (ph_va ?ar)" "avail s2 = c # as" "c + TCB_OFFSET \<noteq> 0" "a \<noteq> 0" "procs s2 p = Some pr"
    and am: "area_mapped ?P4 (ph_va ?ar) (ph_va ?ar + ph_memsz ?ar) gs s1 s2"
    and out: "\<And>b. STRIP_FLAGS b \<notin> ?X \<Longrightarrow> kmem s2 b = kmem s b" and Y: "Y \<subseteq> ?X" "set gs \<subseteq> Y" "user_tables s2 m2 \<union> set fs2 \<subseteq> Y"
    and g: "\<And>g. g \<in> set gs \<Longrightarrow> page_aligned g \<and> g \<noteq> P2V 0 \<and> g \<notin> user_tables s2 m2 \<union> set fs2" and sl: "segments_loaded s2 ?P4 img fr (kmem s) ?phs Y"
    and mo: "procmm.more s2 = procmm.more s" and c: "c \<in> set (avail s)"
    by (rule exec_load_setup [OF X]) (rule that)
  define s3 where "s3 = vmm_set_P4 ?P4 s2"
  have k3: "kmem s3 = kmem s2" "avail s3 = c # as" "procs s3 p = Some pr" using s2 by (simp_all add: s3_def vmm_set_P4_def)
  have ok3: "mmap_ok s3 (pmmap pr) m2 xs2 fs2" using ok2 by (simp add: mmap_ok_def vmm_inv_def pmm_inv_def s3_def vmm_set_P4_def)
  have am3: "area_mapped (mm_P4 m2) (ph_va ?ar) (ph_va ?ar + ph_memsz ?ar) gs s1 s3" using am area_mapped_kmem2 [OF k3(1) P4, of "ph_va ?ar" "ph_va ?ar + ph_memsz ?ar" gs s1] P2 by simp
  have vb: "kmem s3 b = kmem s b" if "b \<in> vec_bytes (kmem s) argv args \<union> vec_bytes (kmem s) envp envs" for b using out apart that by (simp add: k3(1))
  have v3: "string_vec (kmem s3) argv args" "string_vec (kmem s3) envp envs" "vec_bytes (kmem s3) argv args = vec_bytes (kmem s) argv args"
    "vec_bytes (kmem s3) envp envs = vec_bytes (kmem s) envp envs"
    using string_vec_same(1,2) [OF vb vec(1)] string_vec_same(1,2) [OF vb vec(2)] by auto
  have sl3: "segments_loaded s3 (mm_P4 m2) img fr (kmem s) ?phs Y"
    using sl vmm_get_page_kmem [OF k3(1) P4] by (simp add: segments_loaded_def segment_loaded_def P2 k3(1))
  have al: "page_aligned (ph_va ?ar)" and len: "unat (ph_va ?ar + ph_memsz ?ar) = unat (ph_va ?ar) + (?N + 1)" "ph_va ?ar + ph_memsz ?ar \<le> USERSPACE_TOP"
    and N64: "?N < 2 ^ 64" using fit segment_range [OF fit] sz N by (simp_all add: segment_fits_def)
  have fits: "segment_fits ph" if "ph \<in> set ?phs" for ph using X' that by (simp add: load_ready_def)
  have g3: "page_aligned h \<and> h \<noteq> P2V 0 \<and> h \<notin> user_tables s3 m2 \<union> set fs2" if "h \<in> set gs" for h using g [OF that] by (simp add: k3(1))
  have ap3: "STRIP_FLAGS b \<notin> Y" if "b \<in> vec_bytes (kmem s3) argv args \<union> vec_bytes (kmem s3) envp envs" for b using apart that Y(1) unfolding v3(3,4) by blast
  have p: "p \<noteq> 0" using X' by (simp add: load_ready_def)
  obtain mem where ex: "exec_args (mm_P4 m2) argv (length args) envp (length envs) (ph_va ?ar) s3 = Inr (s3\<lparr>kmem := mem\<rparr>)"
    and res: "string_vec (user_mem (mm_P4 m2) (s3\<lparr>kmem := mem\<rparr>)) (ph_va ?ar) args" "string_vec (user_mem (mm_P4 m2) (s3\<lparr>kmem := mem\<rparr>)) (ph_va ?ar + of_nat (8 * (length args + 1))) envs"
    "segments_loaded (s3\<lparr>kmem := mem\<rparr>) (mm_P4 m2) img fr (kmem s) ?phs Y"
    by (rule exec_args_area [OF ok3 am3 al len N64 g3 Y(2) v3(1,2) ap3 sl3 fits]) (assumption | rule that)+
  obtain br where br: "mareas s3 a = Some br" "area_start br = ph_va ?ar" using s2(1) P4 by (auto simp: s3_def vmm_set_P4_def)
  have M: "obj (mmaps s2) (pmmap pr) = Inr m2" "obj (procs s1) p = Inr pr" "obj (mareas s3) (mm_brk m2) = Inr br" "vmm_set_P4 ?P4 s2 = s3" "procmm.more s3 = procmm.more s"
    using ok2 load(2) p br(1) s2(4) brk mo by (simp_all add: mmap_ok_def obj_def s3_def vmm_set_P4_def)
  show thesis by (rule that [OF load(1) M(2) st M(1) P2 M(4,3) br(2) ex [unfolded P2] res [unfolded P2] k3(2) c s2(3) M(5)])
qed

lemma exec_elf_run:
  fixes s :: "'z kernel_scheme"
  assumes X: "exec_ready lit p pr img fr args envs s m xs fs"
    and vec: "string_vec (kmem s) argv args" "string_vec (kmem s) envp envs"
    and nz: "\<And>i. i < length args \<Longrightarrow> load64 (kmem s) (argv + 8 * of_nat i) \<noteq> 0" "\<And>i. i < length envs \<Longrightarrow> load64 (kmem s) (envp + 8 * of_nat i) \<noteq> 0"
    and apart: "\<And>b. b \<in> vec_bytes (kmem s) argv args \<union> vec_bytes (kmem s) envp envs \<Longrightarrow> STRIP_FLAGS b \<notin> user_tables s m \<union> set fs"
  obtains th s' h where "exec_elf lit isr_return p img argv envp s = Inr (th, s')" "program_started p (mm_P4 m) args envs img fr (kmem s) (load64 (kmem s) (img + 24)) th s'"
    "\<exists>c \<in> set (avail s). th = c + TCB_OFFSET" "th \<noteq> 0" "procs s' p = Some (pr\<lparr>pthreads := h\<rparr>)" "ready_queue s' = ready_queue s"
    "ready_links s' = LIST_INIT th (ready_links s)" "init_proc s' = init_proc s"
proof -
  let ?phs = "load_pheads (kmem s) img" and ?N = "args_size args envs"
  note X' = X [unfolded exec_ready_def Let_def]
  have N: "?N + 1 < 2 ^ 31" and P4: "mm_P4 m \<noteq> 0" and p: "p \<noteq> 0" "procs s p = Some pr" using X' by (auto simp: load_ready_def mmap_ok_def)
  obtain s1 s2 s3 r m2 br c as mem va Y where M: "load_elf lit p img s = Inr (load64 (kmem s) (img + 24), s1)" "obj (procs s1) p = Inr pr"
    "procmm_setup (pmmap pr) (of_nat (?N + 1)) s1 = Inr (r, s2)" "obj (mmaps s2) (pmmap pr) = Inr m2" "mm_P4 m2 = mm_P4 m"
    "vmm_set_P4 (mm_P4 m) s2 = s3" "obj (mareas s3) (mm_brk m2) = Inr br" "area_start br = va"
    and ex: "exec_args (mm_P4 m) argv (length args) envp (length envs) va s3 = Inr (s3\<lparr>kmem := mem\<rparr>)"
    and res: "string_vec (user_mem (mm_P4 m) (s3\<lparr>kmem := mem\<rparr>)) va args" "string_vec (user_mem (mm_P4 m) (s3\<lparr>kmem := mem\<rparr>)) (va + of_nat (8 * (length args + 1))) envs"
    "segments_loaded (s3\<lparr>kmem := mem\<rparr>) (mm_P4 m) img fr (kmem s) ?phs Y"
    and av: "avail s3 = c # as" "c \<in> set (avail s)" "c + TCB_OFFSET \<noteq> 0" and mo: "procmm.more s3 = procmm.more s"
    by (rule exec_memory_run [OF X vec apart]) (assumption | rule that)+
  have s3: "procs s3 = procs s" "ready_queue s3 = ready_queue s" "ready_links s3 = ready_links s" "init_proc s3 = init_proc s" using mo by (cases s, cases s3, simp)+
  have h4: "avail (s3\<lparr>kmem := mem\<rparr>) = c # as" "procs (s3\<lparr>kmem := mem\<rparr>) p = Some pr" using av(1) p(2) s3(1) by simp_all
  obtain t h s5 s6 s7 where th: "new_thread isr_return (load64 (kmem s) (img + 24)) True (s3\<lparr>kmem := mem\<rparr>) = Inr (c + TCB_OFFSET, s5)" "process_attach p (c + TCB_OFFSET) s5 = Inr s6"
    "upd_thread (c + TCB_OFFSET) (\<lambda>t. t\<lparr>tregs := (tregs t)\<lparr>rsi := va, rdi := of_nat (length args)\<rparr>\<rparr>) s6 = Inr s7" "kmem s7 = kmem (s3\<lparr>kmem := mem\<rparr>)"
    "threads s7 (c + TCB_OFFSET) = Some t" "tprocess t = p" "rip (tregs t) = load64 (kmem s) (img + 24)" "rdi (tregs t) = of_nat (length args)" "rsi (tregs t) = va"
    and s7: "procs s7 p = Some (pr\<lparr>pthreads := h\<rparr>)" "ready_queue s7 = ready_queue (s3\<lparr>kmem := mem\<rparr>)"
    "ready_links s7 = LIST_INIT (c + TCB_OFFSET) (ready_links (s3\<lparr>kmem := mem\<rparr>))" "init_proc s7 = init_proc (s3\<lparr>kmem := mem\<rparr>)"
    by (rule new_thread_attach [OF h4(1) av(3) p(1) h4(2)]) (rule that)
  define l where "l = (of_nat (strings_size args) + ucast ((of_nat (length args) + 1) * 8 :: u64) :: u32)"
  have cnt: "count_strings (kmem s) argv 0 0 = Some (length args, of_nat (strings_size args))" "count_strings (kmem s) envp 0 l = Some (length envs, l + of_nat (strings_size envs))"
    using count_strings_vec [OF vec(1) nz(1), of 0 0] count_strings_vec [OF vec(2) nz(2), of 0 l] by simp_all
  have ln: "(scast (l + of_nat (strings_size envs) + ucast ((of_nat (length envs) + 1) * 8 :: u64) + 16 + 1) :: u64) = of_nat (?N + 1)"
    using args_length [OF N, of "l + of_nat (strings_size envs) + ucast ((of_nat (length envs) + 1) * 8 :: u64) + 16 + 1"] by (simp only: l_def)
  have ex7: "exec_elf lit isr_return p img argv envp s = Inr (c + TCB_OFFSET, s7)"
    unfolding exec_elf_def cnt(1) of_option_Some bindR.simps Let_def prod.case
    unfolding l_def [symmetric] cnt(2) of_option_Some bindR.simps prod.case M(1,2) ln M(3,4,5,6,7,8) ex th(1,2,3) ..
  have um: "user_mem (mm_P4 m) s7 = user_mem (mm_P4 m) (s3\<lparr>kmem := mem\<rparr>)" by (rule user_mem_kmem [OF th(4) P4])
  have sg: "user_mem (mm_P4 m) (s3\<lparr>kmem := mem\<rparr>) (ph_va ph + of_nat i) = (if i < unat (ph_filesz ph) then kmem s (loc fr (img + ph_offset ph + of_nat i)) else 0)"
    if "ph \<in> set ?phs" "i < unat (ph_memsz ph)" for ph i
    using res(3) that unfolding segments_loaded_def by (intro segment_user_mem) auto
  have "program_started p (mm_P4 m) args envs img fr (kmem s) (load64 (kmem s) (img + 24)) (c + TCB_OFFSET) s7"
    unfolding program_started_def um using th(5-9) res(1,2) sg by auto
  then show thesis using av(2,3) s7 s3 by (intro that [OF ex7, where h = h]) auto
qed


section \<open>An example program\<close>

abbreviation example_args :: elf_phead where
  "example_args \<equiv> \<lparr>ph_type = 0, ph_offset = 0, ph_va = 0x401000, ph_filesz = 0, ph_memsz = 43\<rparr>"

lemma example_args_area: "args_area [example_phead] [[0x61]] [] = example_args"
  by (simp add: args_area_def args_size_def)

lemma example_args_ready:
  "load_ready 2 0x500 (example_process PROC_STATE_READY) (P2V 0xB000) (\<lambda>a. V2P (STRIP_FLAGS a)) ([example_phead] @ [example_args]) example_exec example_mmap [] exec_frames"
proof -
  note R = example_exec_ready [unfolded load_ready_def]
  have av: "length (avail example_exec) = 4" by (simp add: example_exec_def example_loader_def)
  have f: "segment_fits example_args" "seg_pages example_phead = 1" "seg_pages example_args = 1" "length exec_frames = 8"
    "ph_va example_phead + ph_memsz example_phead < ph_va example_args"
    by (simp_all add: segment_fits_def page_aligned_def USERSPACE_TOP_def npages_def exec_frames_def example_frames_def)
  have v: "image_view example_exec (P2V 0xB000) 0 (\<lambda>a. V2P (STRIP_FLAGS a)) (user_tables example_exec example_mmap \<union> set exec_frames)"
    using example_image_view by (simp add: image_view_def)
  show ?thesis unfolding load_ready_def using R f v av by (simp add: below_def)
qed

lemma example_exec_elf_ready:
  "exec_ready (P2V 0xB000 + 512) 0x500 (example_process PROC_STATE_READY) (P2V 0xB000) (\<lambda>a. V2P (STRIP_FLAGS a)) [[0x61]] [] example_exec example_mmap [] exec_frames"
  using example_image_head(1,2,5) example_args_ready unfolding exec_ready_def Let_def example_pheads example_args_area
  by (simp add: args_size_def USERSPACE_TOP_def)

lemma example_vectors:
  "string_vec (kmem example_exec) (P2V 0xB000 + 520) [[0x61]]" "string_vec (kmem example_exec) (P2V 0xB000 + 544) []"
  "load64 (kmem example_exec) (P2V 0xB000 + 520) = P2V 0xB000 + 560"
proof -
  let ?d = "P2V 0xB000" and ?m = "kmem example_exec"
  have w: "load64 ?m (?d + 520) = ?d + 560" "load64 ?m (?d + 528) = 0" "load64 ?m (?d + 544) = 0" "load64 ?m (?d + 560) = 0x61"
    using example_image_words(16-19) by (simp_all add: example_exec_def)
  then show "load64 ?m (?d + 520) = ?d + 560" "string_vec ?m (?d + 544) []" by (simp_all add: string_vec_def)
  have "?m (?d + 560) = 0x61" "?m (?d + 561) = 0"
    using load64_byte [of 0 ?m "?d + 560"] load64_byte [of 1 ?m "?d + 560"] by (simp_all add: w byte_of_def add.assoc)
  then have "cstr ?m (?d + 560) [0x61]" by (auto intro!: cstr_nthI simp: less_Suc_eq le_Suc_eq add.assoc)
  then show "string_vec ?m (?d + 520) [[0x61]]" using w by (simp add: string_vec_def add.assoc)
qed

lemma example_vector_range:
  assumes "b \<in> vec_bytes (kmem example_exec) (P2V 0xB000 + 520) [[0x61]] \<union> vec_bytes (kmem example_exec) (P2V 0xB000 + 544) []"
  shows "\<exists>j < 4096. b = P2V 0xB000 + of_nat j"
  using assms unfolding vec_bytes_def
proof (elim UnE imageE UN_E)
  fix k :: nat assume "b = P2V 0xB000 + 520 + of_nat k" "k \<in> {..<8 * length [[0x61 :: u8]] + 8}"
  then show ?thesis by (intro exI [of _ "520 + k"]) simp
next
  fix i k :: nat assume "b = load64 (kmem example_exec) (P2V 0xB000 + 520 + 8 * of_nat i) + of_nat k" "i \<in> {..<length [[0x61 :: u8]]}" "k \<in> {..length ([[0x61 :: u8]] ! i)}"
  then show ?thesis using example_vectors(3) by (intro exI [of _ "560 + k"]) simp
next
  fix k :: nat assume "b = P2V 0xB000 + 544 + of_nat k" "k \<in> {..<8 * length ([] :: u8 list list) + 8}"
  then show ?thesis by (intro exI [of _ "544 + k"]) simp
qed simp

lemma example_vector_bytes:
  assumes "b \<in> vec_bytes (kmem example_exec) (P2V 0xB000 + 520) [[0x61]] \<union> vec_bytes (kmem example_exec) (P2V 0xB000 + 544) []"
  shows "STRIP_FLAGS b \<notin> user_tables example_exec example_mmap \<union> set exec_frames"
  using example_vector_range [OF assms] example_page_bytes by blast


end
