(* ===== verification/Kmain.thy ===== *)
theory Kmain
  imports Exec Devfs
begin

text \<open>
  The end of \<^verbatim>\<open>kmain\<close> in \<^verbatim>\<open>kernel/boot/kmain.c\<close>: the mount points, and the first process with its program.
  The steps before it (\<^verbatim>\<open>interrupt_init\<close> to \<^verbatim>\<open>pit_init\<close>) are those of the theories \<open>Boot\<close>, \<open>Interrupts\<close> and \<open>Startup\<close>.
\<close>

definition debug_path :: "u8 list" where
  "debug_path = map (of_nat \<circ> of_char) ''/dev/debug''"

text \<open>The mount points; \<open>dbg\<close> is the address of \<^verbatim>\<open>debug_file\<close>.\<close>

definition kmain_mount :: "'d device \<Rightarrow> addr \<Rightarrow> (nat \<Rightarrow> u8) \<Rightarrow> addr \<Rightarrow> ('d, 'z) machine_scheme \<Rightarrow> ('d, 'z) machine_scheme res" where
  "kmain_mount dev base junk dbg s =
     bindR (fs_mount 0 [slash] s) (\<lambda>s.
     bindR (fs_mount dbg debug_path s) (\<lambda>s.
     bindR (ata_fs_init dev base s) (\<lambda>s.
     bindR (fs_write (kernel_drivers dev base junk) dbg (map (of_nat \<circ> of_char) ''TESTING DEBUG FILE'') 18 0 s) (\<lambda>r.
     case r of Returned (_, _, s) \<Rightarrow> Inr s | Waiting (_, _, s) \<Rightarrow> Inr s))))"

text \<open>The first process: \<open>args\<close> and \<open>env\<close> are the addresses of the two vectors, \<open>init\<close> that of the image.\<close>

definition kmain_init :: "(drvref \<Rightarrow> 'z kernel_scheme fs_driver) \<Rightarrow> addr \<Rightarrow> addr \<Rightarrow> addr \<Rightarrow> addr \<Rightarrow> addr \<Rightarrow> 'z kernel_scheme \<Rightarrow> 'z kernel_scheme res" where
  "kmain_init drv lit isr_return init args env s =
     bindR (process_spawn drv 0 s) (\<lambda>(p1, s).
     bindR (fs_namef drv debug_path s) (\<lambda>(file, s).
     bindR (upd_proc p1 (\<lambda>p. p\<lparr>pfp := (pfp p)[1 := (pfp p ! 1)\<lparr>fp_file := file\<rparr>]\<rparr>) s) (\<lambda>s.
     bindR (exec_elf lit isr_return p1 init args env s) (\<lambda>(th, s).
     scheduler_insert th s))))"

section \<open>The mount points\<close>

lemma fs_mount_points: "fs_mount f path s = Inr s' \<Longrightarrow> \<exists>r. mountpoints s' = mountpoints s @ [\<lparr>mp_root = r, path_len = of_nat (length path), mp_path = path\<rparr>] \<and> (f \<noteq> 0 \<longrightarrow> r = f)"
  by (auto simp: fs_mount_def fs_get_def new_addr_def res_simps split: list.splits if_splits)

lemma ata_fs_init_points:
  assumes "ata_fs_init dev base s = Inr s'"
  shows "\<exists>r. mountpoints s' = mountpoints s @ map (\<lambda>i. \<lparr>mp_root = r i, path_len = 8, mp_path = sd_path i\<rparr>) [0..<4]"
proof -
  obtain f s0 where s0: "foldR (ata_fs_mount base f) [0..<4] s0 = Inr s'" "mountpoints s0 = mountpoints s"
    using assms by (cases "avail s") (auto simp: ata_fs_init_def Let_def new_addr_def res_simps)
  have step: "\<exists>r. mountpoints t' = mountpoints t @ [\<lparr>mp_root = r, path_len = 8, mp_path = sd_path i\<rparr>]"
    if "ata_fs_mount base f i t = Inr t'" for i t t' using fs_mount_points that by (fastforce simp: ata_fs_mount_def Let_def sd_path_def)
  have "\<exists>r. mountpoints t' = mountpoints t @ map (\<lambda>i. \<lparr>mp_root = r i, path_len = 8, mp_path = sd_path i\<rparr>) [0..<k]"
    if "foldR (ata_fs_mount base f) [0..<k] t = Inr t'" for k t t'
    using that
  proof (induction k arbitrary: t')
    case (Suc k)
    then obtain t1 where t1: "foldR (ata_fs_mount base f) [0..<k] t = Inr t1" "ata_fs_mount base f k t1 = Inr t'"
      by (auto simp: foldR_append res_simps)
    obtain r where "mountpoints t1 = mountpoints t @ map (\<lambda>i. \<lparr>mp_root = r i, path_len = 8, mp_path = sd_path i\<rparr>) [0..<k]" using Suc.IH t1(1) by blast
    moreover obtain x where "mountpoints t' = mountpoints t1 @ [\<lparr>mp_root = x, path_len = 8, mp_path = sd_path k\<rparr>]" using step t1(2) by blast
    ultimately show ?case by (intro exI [of _ "r(k := x)"]) simp
  qed simp
  from this [OF s0(1)] s0(2) show ?thesis by simp
qed

lemma map_atomic_iff: "map_atomic f r = Returned y \<longleftrightarrow> (\<exists>x. r = Returned x \<and> y = f x)" "map_atomic f r = Waiting y \<longleftrightarrow> (\<exists>x. r = Waiting x \<and> y = f x)"
  by (cases r; auto)+

lemma kernel_write_points:
  assumes "fs_write (kernel_drivers dev base junk) f buf n off s = Inr r" "r = Returned (x, y, s') \<or> r = Waiting (x, y, s')"
  shows "mountpoints s' = mountpoints s"
  using assms
  by (auto simp: fs_write_def driver_entry_def kernel_drivers_def pipe_reader_def pipe_writer_def debug_fs_def ata_fs_def debug_write_def
      ata_write_file_def pipe_write_file_def Let_def map_atomic_iff res_simps split: if_splits drvref.splits option.splits)

text \<open>After the mounts, the longest mount path that begins \<^verbatim>\<open>"/dev/debug"\<close> is that of the debug file.\<close>

lemma closest_mp_shorter: "\<forall>mp \<in> set mps. path_len mp \<le> b \<Longrightarrow> closest_mp_loop path mps b best = best"
  by (induction mps) (auto simp: Let_def)

lemma closest_debug:
  "closest_mp_loop debug_path ([\<lparr>mp_root = r, path_len = 1, mp_path = [slash]\<rparr>, \<lparr>mp_root = dbg, path_len = 10, mp_path = debug_path\<rparr>]
     @ map (\<lambda>i. \<lparr>mp_root = d i, path_len = 8, mp_path = sd_path i\<rparr>) [0..<4]) 0 None = Some \<lparr>mp_root = dbg, path_len = 10, mp_path = debug_path\<rparr>"
proof -
  have "closest_mp_loop debug_path ([\<lparr>mp_root = r, path_len = 1, mp_path = [slash]\<rparr>, \<lparr>mp_root = dbg, path_len = 10, mp_path = debug_path\<rparr>] @ mps) 0 None
      = closest_mp_loop debug_path mps 10 (Some \<lparr>mp_root = dbg, path_len = 10, mp_path = debug_path\<rparr>)" for mps
    by (simp add: debug_path_def strncmp_chars_def)
  then show ?thesis by (simp only:) (rule closest_mp_shorter, simp)
qed

theorem kmain_mount_debug:
  assumes "kmain_mount dev base junk dbg s = Inr s'" and "mountpoints s = []" and "dbg \<noteq> 0"
  shows "fs_closest_mp debug_path s' = Some \<lparr>mp_root = dbg, path_len = 10, mp_path = debug_path\<rparr>"
proof -
  obtain s1 s2 s3 r where s: "fs_mount 0 [slash] s = Inr s1" "fs_mount dbg debug_path s1 = Inr s2" "ata_fs_init dev base s2 = Inr s3"
    "fs_write (kernel_drivers dev base junk) dbg (map (of_nat \<circ> of_char) ''TESTING DEBUG FILE'') 18 0 s3 = Inr r"
    "(case r of Returned (_, _, s) \<Rightarrow> Inr s | Waiting (_, _, s) \<Rightarrow> Inr s) = (Inr s' :: _ res)"
    using assms(1) unfolding kmain_mount_def bindR_Inr_iff by (elim exE conjE) (rule that)
  obtain r1 where "mountpoints s1 = [\<lparr>mp_root = r1, path_len = 1, mp_path = [slash]\<rparr>]" using fs_mount_points [OF s(1)] assms(2) by auto
  moreover have "mountpoints s2 = mountpoints s1 @ [\<lparr>mp_root = dbg, path_len = 10, mp_path = debug_path\<rparr>]"
    using fs_mount_points [OF s(2)] assms(3) by (auto simp: debug_path_def)
  moreover obtain d where "mountpoints s3 = mountpoints s2 @ map (\<lambda>i. \<lparr>mp_root = d i, path_len = 8, mp_path = sd_path i\<rparr>) [0..<4]"
    using ata_fs_init_points [OF s(3)] by blast
  moreover have "mountpoints s' = mountpoints s3" using kernel_write_points [OF s(4)] s(5) by (cases r) auto
  ultimately show ?thesis using closest_debug [of r1 dbg d] by (simp add: fs_closest_mp_def)
qed

section \<open>The first process\<close>

lemma process_spawn_first:
  fixes s :: "'z kernel_scheme"
  assumes av: "avail s = p # q # as" "p \<noteq> 0" "q \<noteq> 0" and pid: "next_pid s = 1"
    and inv: "pmm_inv s (f # fs)" "pmm_running s" "page_aligned (BootP4 s)" "BootP4 s \<notin> set (f # fs)" and f: "f \<noteq> P2V 0"
  obtains s' m where "process_spawn drv 0 s = Inr (p, s')" "mmap_ok s' q m [] fs" "mm_P4 m = V2P f" "user_tables s' m = {f}"
    "procs s' p = Some \<lparr>pid = 1, pstate = PROC_STATE_READY, pstatus = 0, pparent = 0, pmmap = q, pchildren = LIST_HEAD_INIT, pthreads = LIST_HEAD_INIT,
       pfp = replicate PROC_NUMFP \<lparr>fp_file = 0, fp_flags = 0, fp_pos = 0\<rparr>\<rparr>"
    "\<And>b. STRIP_FLAGS b \<noteq> f \<Longrightarrow> kmem s' b = kmem s b" "avail s' = as" "BootP4 s' = BootP4 s" "files s' = files s" "mountpoints s' = mountpoints s"
    "ready_queue s' = ready_queue s" "ready_links s' = ready_links s" "init_proc s' = p"
proof -
  let ?pr = "\<lparr>pid = 1, pstate = PROC_STATE_READY, pstatus = 0, pparent = 0, pmmap = 0, pchildren = LIST_HEAD_INIT, pthreads = LIST_HEAD_INIT,
       pfp = replicate PROC_NUMFP \<lparr>fp_file = 0, fp_flags = 0, fp_pos = 0\<rparr>\<rparr> :: process_t"
  let ?m = "\<lparr>mm_proc = p, mm_P4 = V2P f, mm_areas = LIST_HEAD_INIT, mm_brk = 0, mm_stack = 0\<rparr> :: procmm_mmap_t"
  define s1 where "s1 = s\<lparr>avail := as, procs := (procs s)(p \<mapsto> ?pr), next_pid := 2, siblings := LIST_INIT p (siblings s)\<rparr>"
  have "pmm_inv s1 (f # fs)" "pmm_running s1" "page_aligned (BootP4 s1)" "BootP4 s1 \<notin> set (f # fs)" using inv by (simp_all add: s1_def pmm_inv_def)
  from vmm_new_P4_spec [OF this] obtain s2 where r: "vmm_new_P4 s1 = Inr (V2P f, s2)" and V: "vmm_inv user_dom f s2 fs" and T: "tables user_dom (kmem s2) f = {f}"
    and out: "\<forall>b. STRIP_FLAGS b \<noteq> f \<longrightarrow> kmem s2 b = kmem s1 b" and s2: "s2 = s1\<lparr>kmem := kmem s2, pmm_stack := pmm_stack s2\<rparr>" by blast
  define s' where "s' = s2\<lparr>mmaps := (mmaps s2)(q \<mapsto> ?m), procs := (procs s2)(p \<mapsto> ?pr\<lparr>pmmap := q\<rparr>), init_proc := p\<rparr>"
  have P: "procs s2 p = Some ?pr" by (subst s2) (simp add: s1_def)
  have e: "avail s2 = as" "BootP4 s2 = BootP4 s" "files s2 = files s" "mountpoints s2 = mountpoints s" "ready_queue s2 = ready_queue s" "ready_links s2 = ready_links s"
    by (subst s2, simp add: s1_def)+
  have sp: "s\<lparr>avail := q # as, procs := (procs s)(p \<mapsto> ?pr), next_pid := 2, siblings := LIST_INIT p (siblings s), avail := as\<rparr> = s1" by (simp add: s1_def)
  have "process_spawn drv 0 s = Inr (p, s')"
    using av pid r P sp by (simp add: process_spawn_def new_addr_def procmm_new_map_def upd_proc_def obj_def Let_def s'_def)
  moreover have "V2P f \<noteq> 0" using f P2V_V2P [of f] by metis
  then have "mmap_ok s' q ?m [] fs"
    using V av(3) dlist_empty by (simp add: mmap_ok_def s'_def vmm_inv_def pmm_inv_def)
  ultimately show thesis using T out e by (intro that [of s' ?m]) (simp_all add: s'_def s1_def)
qed

lemma image_headers_same:
  assumes same: "\<And>b. b \<in> header_bytes m data \<Longrightarrow> m' b = m b"
  shows "load_pheads m' data = load_pheads m data" "header_bytes m' data = header_bytes m data" "load16 m' (data + 16) = load16 m (data + 16)"
    "load64 m' (data + 24) = load64 m (data + 24)"
proof -
  have h: "load64 m' (data + of_nat j) = load64 m (data + of_nat j)" if "j \<le> 56" for j by (rule header_same(1) [OF same that])
  have n: "ph_num m' data = ph_num m data" by (rule header_same(2) [OF same])
  have a: "elf_phead_at m' (data + load64 m (data + 32) + 56 * of_nat i) = elf_phead_at m (data + load64 m (data + 32) + 56 * of_nat i)" if "i < ph_num m data" for i
    by (rule header_same(3) [OF same that])
  have l: "load64 m' (data + 16) = load64 m (data + 16)" "load64 m' (data + 24) = load64 m (data + 24)" "load64 m' (data + 32) = load64 m (data + 32)"
    using h [of 16] h [of 24] h [of 32] by simp_all
  then show "load16 m' (data + 16) = load16 m (data + 16)" "load64 m' (data + 24) = load64 m (data + 24)" by (simp_all add: load16_def)
  show "header_bytes m' data = header_bytes m data" using n l(3) by (simp add: header_bytes_def)
  have "map (\<lambda>i. elf_phead_at m' (data + load64 m (data + 32) + 56 * of_nat i)) [0..<ph_num m data] = map (\<lambda>i. elf_phead_at m (data + load64 m (data + 32) + 56 * of_nat i)) [0..<ph_num m data]"
    using a by simp
  then show "load_pheads m' data = load_pheads m data" by (simp only: load_pheads_def pheads_from_def n l(3))
qed

lemma memcmp_same:
  assumes "memcmp m a b n = 0" "\<And>k. k < unat n \<Longrightarrow> m' (a + of_nat k) = m (a + of_nat k)" "\<And>k. k < unat n \<Longrightarrow> m' (b + of_nat k) = m (b + of_nat k)"
  shows "memcmp m' a b n = 0"
  using assms by (simp add: memcmp_def memcmp_loop_zero_iff)

text \<open>
  What the start of the first program relies on: free pages \<open>fs\<close> and objects, an executable image, headers and argument
  strings that lie apart from the free pages, and the mount point of the debug file \<open>dbg\<close>.
\<close>

definition kmain_ready :: "addr \<Rightarrow> addr \<Rightarrow> addr \<Rightarrow> (addr \<Rightarrow> addr) \<Rightarrow> u8 list list \<Rightarrow> u8 list list \<Rightarrow> 'z kernel_scheme \<Rightarrow> addr list \<Rightarrow> addr list \<Rightarrow> bool" where
  "kmain_ready lit dbg img fr args envs s fs ts \<longleftrightarrow>
     (let phs = load_pheads (kmem s) img; ar = args_area phs args envs in
      pmm_inv s fs \<and> pmm_running s \<and> page_aligned (BootP4 s) \<and> BootP4 s \<notin> set fs \<and> P2V 0 \<notin> set fs \<and> 4 * sum_list (map seg_pages (phs @ [ar])) < length fs
      \<and> distinct (avail s) \<and> (\<forall>a \<in> set (avail s). a \<noteq> 0 \<and> a + TCB_OFFSET \<noteq> 0 \<and> a + TCB_OFFSET \<notin> set ts) \<and> length phs + 6 \<le> length (avail s)
      \<and> next_pid s = 1 \<and> dlist (ready_queue s, ready_links s) ts
      \<and> fs_closest_mp debug_path s = Some \<lparr>mp_root = dbg, path_len = 10, mp_path = debug_path\<rparr> \<and> dbg \<noteq> 0 \<and> files s dbg \<noteq> None
      \<and> memcmp (kmem s) img lit 4 = 0 \<and> load16 (kmem s) (img + 16) = ELF_TYPE_EXECUTABLE \<and> phs \<noteq> []
      \<and> (\<forall>b \<in> header_bytes (kmem s) img. STRIP_FLAGS b \<notin> set fs) \<and> (\<forall>k < 4. STRIP_FLAGS (lit + of_nat k) \<notin> set fs)
      \<and> args_size args envs + 1 < 2 ^ 31 \<and> ph_va ar + ph_memsz ar < USERSPACE_TOP
      \<and> sorted_wrt (\<lambda>a b. ph_va a + ph_memsz a < ph_va b) (phs @ [ar])
      \<and> (\<forall>ph \<in> set (phs @ [ar]). segment_fits ph \<and> image_view s (img + ph_offset ph) (unat (ph_filesz ph)) fr (set fs)))"

text \<open>The state when \<^verbatim>\<open>kmain\<close> calls \<^verbatim>\<open>exec_elf\<close>.\<close>

lemma kmain_exec_ready:
  fixes s :: "'z kernel_scheme"
  assumes K: "kmain_ready lit dbg img fr args envs s (f # fs) ts" and nd: "no_dirs drv"
  obtains p q s1 s2 s3 m pr where "process_spawn drv 0 s = Inr (p, s1)" "fs_namef drv debug_path s1 = Inr (dbg, s2)"
    "upd_proc p (\<lambda>p. p\<lparr>pfp := (pfp p)[1 := (pfp p ! 1)\<lparr>fp_file := dbg\<rparr>]\<rparr>) s2 = Inr s3"
    "exec_ready lit p pr img fr args envs s3 m [] fs" "mm_P4 m = V2P f" "user_tables s3 m = {f}"
    "pr = \<lparr>pid = 1, pstate = PROC_STATE_READY, pstatus = 0, pparent = 0, pmmap = q, pchildren = LIST_HEAD_INIT, pthreads = LIST_HEAD_INIT,
       pfp = (replicate PROC_NUMFP \<lparr>fp_file = 0, fp_flags = 0, fp_pos = 0\<rparr>)[1 := \<lparr>fp_file = dbg, fp_flags = 0, fp_pos = 0\<rparr>]\<rparr>"
    "\<And>b. STRIP_FLAGS b \<noteq> f \<Longrightarrow> kmem s3 b = kmem s b" "set (avail s3) \<subseteq> set (avail s)"
    "ready_queue s3 = ready_queue s" "ready_links s3 = ready_links s" "init_proc s3 = p"
proof -
  let ?phs = "load_pheads (kmem s) img" and ?ar = "args_area (load_pheads (kmem s) img) args envs"
  note K' = K [unfolded kmain_ready_def Let_def]
  obtain p q x as where av: "avail s = p # q # x # as" using K' by (cases "avail s"; cases "tl (avail s)"; cases "tl (tl (avail s))") auto
  have d: "p \<noteq> 0" "q \<noteq> 0" "f \<noteq> P2V 0" and inv: "pmm_inv s (f # fs)" "pmm_running s" "page_aligned (BootP4 s)" "BootP4 s \<notin> set (f # fs)" and pid: "next_pid s = 1"
    using K' by (auto simp: av)
  obtain s1 m where s1: "process_spawn drv 0 s = Inr (p, s1)" and ok: "mmap_ok s1 q m [] fs" and P4: "mm_P4 m = V2P f" and T: "user_tables s1 m = {f}"
    and P: "procs s1 p = Some \<lparr>pid = 1, pstate = PROC_STATE_READY, pstatus = 0, pparent = 0, pmmap = q, pchildren = LIST_HEAD_INIT, pthreads = LIST_HEAD_INIT,
       pfp = replicate PROC_NUMFP \<lparr>fp_file = 0, fp_flags = 0, fp_pos = 0\<rparr>\<rparr>" (is "_ = Some ?pr")
    and out: "\<And>b. STRIP_FLAGS b \<noteq> f \<Longrightarrow> kmem s1 b = kmem s b" and e: "avail s1 = x # as" "BootP4 s1 = BootP4 s" "files s1 = files s" "mountpoints s1 = mountpoints s"
    "ready_queue s1 = ready_queue s" "ready_links s1 = ready_links s" "init_proc s1 = p"
    by (rule process_spawn_first [OF av d(1,2) pid inv d(3)]) (assumption | rule that)+
  obtain fl where fl: "files s1 dbg = Some fl" "dbg \<noteq> 0" using K' e(3) by auto
  have c: "fs_closest_mp debug_path s1 = Some \<lparr>mp_root = dbg, path_len = 10, mp_path = debug_path\<rparr>" using K' e(4) by (simp add: fs_closest_mp_def)
  define s2 where "s2 = s1\<lparr>avail := as, files := (files s1)(dbg \<mapsto> fl\<lparr>refs := refs fl + 1\<rparr>)\<rparr>"
  have s2: "fs_namef drv debug_path s1 = Inr (dbg, s2)"
    using fs_namef_no_dirs [OF nd e(1) c _ fl(2,1)] by (simp add: s2_def debug_path_def)
  let ?pr' = "?pr\<lparr>pfp := (pfp ?pr)[1 := (pfp ?pr ! 1)\<lparr>fp_file := dbg\<rparr>]\<rparr>"
  define s3 where "s3 = s2\<lparr>procs := (procs s2)(p \<mapsto> ?pr')\<rparr>"
  have s3: "upd_proc p (\<lambda>p. p\<lparr>pfp := (pfp p)[1 := (pfp p ! 1)\<lparr>fp_file := dbg\<rparr>]\<rparr>) s2 = Inr s3"
    using P d(1) by (simp add: upd_proc_def obj_def s2_def s3_def)
  have k3: "kmem s3 = kmem s1" "avail s3 = as" "BootP4 s3 = BootP4 s" "procs s3 p = Some ?pr'" using e(2) by (simp_all add: s3_def s2_def)
  have sub: "{f} \<union> set fs \<subseteq> set (f # fs)" by simp
  have same: "kmem s3 b = kmem s b" if "b \<in> header_bytes (kmem s) img" for b using out [of b] that K' by (auto simp: k3(1))
  have h: "load_pheads (kmem s3) img = ?phs" "header_bytes (kmem s3) img = header_bytes (kmem s) img" "load16 (kmem s3) (img + 16) = load16 (kmem s) (img + 16)"
    by (rule image_headers_same [OF same], assumption)+
  have lit: "memcmp (kmem s3) img lit 4 = 0"
  proof (rule memcmp_same)
    show "memcmp (kmem s) img lit 4 = 0" using K' by blast
    fix k :: nat assume k: "k < unat (4 :: u64)"
    then have "img + of_nat k \<in> header_bytes (kmem s) img" unfolding header_bytes_def by (intro UnI1 imageI) simp
    then show "kmem s3 (img + of_nat k) = kmem s (img + of_nat k)" by (rule same)
    show "kmem s3 (lit + of_nat k) = kmem s (lit + of_nat k)" using out [of "lit + of_nat k"] K' k by (auto simp: k3(1))
  qed
  have ok3: "mmap_ok s3 q m [] fs" using ok by (simp add: mmap_ok_def vmm_inv_def pmm_inv_def s3_def s2_def)
  have T3: "user_tables s3 m = {f}" using T by (simp add: k3(1))
  have img: "image_view s3 (img + ph_offset ph) (unat (ph_filesz ph)) fr ({f} \<union> set fs)" if "ph \<in> set (?phs @ [?ar])" for ph
    using K' that out by (intro image_view_mono [where X = "set (f # fs)", OF _ sub k3(3)]) (auto simp: k3(1))
  have R: "load_ready 2 p ?pr' img fr (?phs @ [?ar]) s3 m [] fs"
    unfolding load_ready_def T3 using K' img d(1) k3(2,4) ok3 by (auto simp: av below_def)
  have k: "load16 (kmem s) (img + 16) = ELF_TYPE_EXECUTABLE" "?phs \<noteq> []" "\<forall>b \<in> header_bytes (kmem s) img. STRIP_FLAGS b \<notin> {f} \<union> set fs"
    "args_size args envs + 1 < 2 ^ 31" "ph_va ?ar + ph_memsz ?ar < USERSPACE_TOP" using K' by simp_all
  have ex: "exec_ready lit p ?pr' img fr args envs s3 m [] fs"
    unfolding exec_ready_def Let_def h(1,2,3) T3 using k lit R by (intro conjI) simp_all
  show thesis
    by (rule that [OF s1 s2 s3 ex P4 T3, of q]) (use out e(5-7) in \<open>simp_all add: k3(1,2) av s3_def s2_def subset_insertI2\<close>)
qed

lemma scheduler_insert_started:
  fixes s :: "'z kernel_scheme"
  assumes "program_started p P4 args envs img fr m0 entry th s" "th \<noteq> 0" "P4 \<noteq> 0" "dlist (ready_queue s, ready_links s) ts" "th \<notin> set ts"
  obtains s' where "scheduler_insert th s = Inr s'" "program_started p P4 args envs img fr m0 entry th s'" "dlist (ready_queue s', ready_links s') (ts @ [th])"
    "procs s' = procs s" "init_proc s' = init_proc s" "map_option tstate (threads s' th) = Some THREAD_STATE_READY"
proof -
  obtain t where t: "threads s th = Some t" using assms(1) by (auto simp: program_started_def)
  define q where "q = LIST_APPEND (ready_queue s, ready_links s) th"
  define s' where "s' = s\<lparr>ready_queue := fst q, ready_links := snd q, threads := (threads s)(th \<mapsto> t\<lparr>tstate := THREAD_STATE_READY\<rparr>)\<rparr>"
  have "scheduler_insert th s = Inr s'" using assms(2) t by (simp add: scheduler_insert_def upd_thread_def obj_def s'_def q_def Let_def)
  moreover have "user_mem P4 s' = user_mem P4 s" by (rule user_mem_kmem [OF _ assms(3)]) (simp add: s'_def)
  then have "program_started p P4 args envs img fr m0 entry th s'" using assms(1) t unfolding program_started_def by (auto simp: s'_def)
  moreover have "dlist (ready_queue s', ready_links s') (ts @ [th])" using dlist_append [OF assms(4,2,5)] by (simp add: s'_def q_def)
  ultimately show thesis by (rule that) (simp_all add: s'_def)
qed

lemma program_started_same:
  fixes s :: "'z kernel_scheme"
  assumes "program_started p P4 args envs img fr m1 entry th s" "load_pheads m1 img = load_pheads m0 img"
    and "\<And>ph i. ph \<in> set (load_pheads m0 img) \<Longrightarrow> i < unat (ph_filesz ph) \<Longrightarrow> m1 (loc fr (img + ph_offset ph + of_nat i)) = m0 (loc fr (img + ph_offset ph + of_nat i))"
  shows "program_started p P4 args envs img fr m0 entry th s"
  using assms unfolding program_started_def by (simp cong: if_cong)


section \<open>An example boot\<close>

definition kmain_frames :: "addr list" where
  "kmain_frames = P2V 0x11000 # exec_frames"

definition example_kmain :: kernel where
  "example_kmain = (pmm_free 0x11000 example_exec)\<lparr>avail := map (\<lambda>i. KERNEL_HEAP_S + 64 * of_nat i) [1..<8], next_pid := 1,
     ready_queue := LIST_HEAD_INIT, files := [0x700 \<mapsto> debug_file],
     mountpoints := [\<lparr>mp_root = 0x800, path_len = 1, mp_path = [slash]\<rparr>, \<lparr>mp_root = 0x700, path_len = 10, mp_path = debug_path\<rparr>]\<rparr>"

lemma example_kmain_mem: "STRIP_FLAGS b \<noteq> P2V 0x11000 \<Longrightarrow> kmem example_kmain b = kmem example_exec b"
  using pmm_free_outside [of b "0x11000" example_exec] by (simp add: example_kmain_def STRIP_FLAGS_def)

lemma example_kmain_page: "j < 4096 \<Longrightarrow> STRIP_FLAGS (P2V 0xB000 + of_nat j) = P2V 0xB000"
  using STRIP_FLAGS_add_offset [of "P2V 0xB000" "of_nat j"] by (simp add: example_image_aligned unat_of_nat_eq)

lemma example_kmain_inv: "pmm_inv example_kmain kmain_frames" "pmm_running example_kmain" "BootP4 example_kmain = P2V 0x2000"
proof -
  have "pmm_inv example_exec exec_frames" using example_exec_ok(1) by (simp add: mmap_ok_def vmm_inv_def)
  moreover have "P2V 0x11000 \<noteq> 0" "page_aligned (P2V 0x11000)" by (simp_all add: page_aligned_def P2V_def KERNEL_OFFSET_def)
  moreover have "P2V 0x11000 \<notin> set exec_frames" by (simp add: exec_frames_def example_frames_def)
  ultimately have "pmm_inv (pmm_free 0x11000 example_exec) kmain_frames" using pmm.release_push [of example_exec exec_frames "P2V 0x11000"] by (simp add: kmain_frames_def)
  then show "pmm_inv example_kmain kmain_frames" by (simp add: example_kmain_def pmm_inv_def)
  show "pmm_running example_kmain" "BootP4 example_kmain = P2V 0x2000" using example_BootP4 by (simp_all add: example_kmain_def pmm_free_def Let_def)
qed

lemma example_kmain_view: "image_view example_kmain (P2V 0xB000) 4 (\<lambda>a. V2P (STRIP_FLAGS a)) (set kmain_frames)"
proof (rule example_image_walk [OF example_kmain_inv(3)])
  show "set kmain_frames \<inter> P2V ` {0x2000, 0xB000, 0xC000, 0xD000, 0xE000} = {}" by (simp add: kmain_frames_def exec_frames_def example_frames_def)
  fix b assume "STRIP_FLAGS b \<in> P2V ` {0x2000, 0xB000, 0xC000, 0xD000, 0xE000}"
  then show "kmem example_kmain b = example_image b" by (subst example_kmain_mem) (auto simp: example_exec_def)
qed

lemma example_kmain_same: "b = P2V 0xB000 + of_nat j \<Longrightarrow> j < 4096 \<Longrightarrow> kmem example_kmain b = kmem example_exec b"
  "j < 4096 \<Longrightarrow> STRIP_FLAGS (P2V 0xB000 + of_nat j) \<notin> set kmain_frames"
  by (simp_all add: example_kmain_mem example_kmain_page kmain_frames_def exec_frames_def example_frames_def)

lemma example_kmain_headers:
  "load_pheads (kmem example_kmain) (P2V 0xB000) = [example_phead]" "header_bytes (kmem example_kmain) (P2V 0xB000) = header_bytes (kmem example_exec) (P2V 0xB000)"
  "load16 (kmem example_kmain) (P2V 0xB000 + 16) = 2" "load64 (kmem example_kmain) (P2V 0xB000 + 24) = 0x400000"
proof -
  have same: "kmem example_kmain b = kmem example_exec b" if "b \<in> header_bytes (kmem example_exec) (P2V 0xB000)" for b
    using example_header_range [OF that] example_kmain_same(1) by blast
  show "load_pheads (kmem example_kmain) (P2V 0xB000) = [example_phead]" "header_bytes (kmem example_kmain) (P2V 0xB000) = header_bytes (kmem example_exec) (P2V 0xB000)"
    "load16 (kmem example_kmain) (P2V 0xB000 + 16) = 2" "load64 (kmem example_kmain) (P2V 0xB000 + 24) = 0x400000"
    using image_headers_same [OF same] example_pheads example_image_head(2,3) by simp_all
qed

lemma example_kmain_ready:
  "kmain_ready (P2V 0xB000 + 512) 0x700 (P2V 0xB000) (\<lambda>a. V2P (STRIP_FLAGS a)) [[0x61]] [] example_kmain kmain_frames []"
proof -
  let ?d = "P2V 0xB000" and ?fr = "\<lambda>a. V2P (STRIP_FLAGS a)"
  have av: "avail example_kmain = map (\<lambda>i. KERNEL_HEAP_S + 64 * of_nat i) [1..<8]" "next_pid example_kmain = 1" "ready_queue example_kmain = LIST_HEAD_INIT" "files example_kmain 0x700 \<noteq> None"
    by (simp_all add: example_kmain_def)
  have a: "distinct (avail example_kmain)" "\<forall>a \<in> set (avail example_kmain). a \<noteq> 0 \<and> a + TCB_OFFSET \<noteq> 0" "length (avail example_kmain) = 7"
    unfolding av by (simp_all add: KERNEL_HEAP_S_def upt_rec)
  have mp: "fs_closest_mp debug_path example_kmain = Some \<lparr>mp_root = 0x700, path_len = 10, mp_path = debug_path\<rparr>"
    by (simp add: fs_closest_mp_def example_kmain_def debug_path_def strncmp_chars_def)
  have cmp: "memcmp (kmem example_kmain) ?d (?d + 512) 4 = 0"
  proof (rule memcmp_same [OF example_image_head(1)])
    fix k :: nat assume "k < unat (4 :: u64)"
    then show "kmem example_kmain (?d + of_nat k) = kmem example_exec (?d + of_nat k)" "kmem example_kmain (?d + 512 + of_nat k) = kmem example_exec (?d + 512 + of_nat k)"
      using example_kmain_same(1) [of _ k] example_kmain_same(1) [of _ "512 + k"] by (simp_all add: add.assoc)
  qed
  have hdr: "\<forall>b \<in> header_bytes (kmem example_kmain) ?d. STRIP_FLAGS b \<notin> set kmain_frames"
    unfolding example_kmain_headers(2) using example_header_range example_kmain_same(2) by blast
  have lit: "\<forall>k < 4. STRIP_FLAGS (?d + 512 + of_nat k) \<notin> set kmain_frames"
    using example_kmain_same(2) [of "512 + k" for k] by (simp add: add.assoc)
  have f: "segment_fits example_args" "segment_fits example_phead" "seg_pages example_phead = 1" "seg_pages example_args = 1" "length kmain_frames = 9" "P2V 0x2000 \<notin> set kmain_frames"
    "P2V 0 \<notin> set kmain_frames" "ph_va example_phead + ph_memsz example_phead < ph_va example_args"
    by (simp_all add: segment_fits_def page_aligned_def USERSPACE_TOP_def npages_def kmain_frames_def exec_frames_def example_frames_def)
  have v: "image_view example_kmain ?d 0 ?fr (set kmain_frames)" using example_kmain_view by (simp add: image_view_def)
  show ?thesis unfolding kmain_ready_def Let_def example_kmain_headers(1,3) example_args_area example_kmain_inv(3)
    using example_kmain_inv a av mp cmp hdr lit f v example_kmain_view dlist_empty
    by (simp add: args_size_def USERSPACE_TOP_def example_frame_facts)
qed

lemma example_kmain_vectors:
  "string_vec (kmem example_kmain) (P2V 0xB000 + 520) [[0x61]]" "string_vec (kmem example_kmain) (P2V 0xB000 + 544) []"
  "load64 (kmem example_kmain) (P2V 0xB000 + 520) = P2V 0xB000 + 560"
  "b \<in> vec_bytes (kmem example_kmain) (P2V 0xB000 + 520) [[0x61]] \<union> vec_bytes (kmem example_kmain) (P2V 0xB000 + 544) [] \<Longrightarrow> STRIP_FLAGS b \<notin> set kmain_frames"
proof -
  let ?v = "P2V 0xB000 + 520" and ?w = "P2V 0xB000 + 544"
  have same: "\<And>b. b \<in> vec_bytes (kmem example_exec) ?v [[0x61]] \<Longrightarrow> kmem example_kmain b = kmem example_exec b"
    "\<And>b. b \<in> vec_bytes (kmem example_exec) ?w [] \<Longrightarrow> kmem example_kmain b = kmem example_exec b"
    using example_vector_range example_kmain_same(1) by blast+
  note v = string_vec_same [OF same(1) example_vectors(1)] and w = string_vec_same [OF same(2) example_vectors(2)]
  show "string_vec (kmem example_kmain) ?v [[0x61]]" "string_vec (kmem example_kmain) ?w []" using v(1) w(1) by auto
  show "load64 (kmem example_kmain) ?v = P2V 0xB000 + 560" using v(3) [of 0] example_vectors(3) by simp
  assume "b \<in> vec_bytes (kmem example_kmain) ?v [[0x61]] \<union> vec_bytes (kmem example_kmain) ?w []"
  then have "b \<in> vec_bytes (kmem example_exec) ?v [[0x61]] \<union> vec_bytes (kmem example_exec) ?w []" using v(2) w(2) by simp
  then show "STRIP_FLAGS b \<notin> set kmain_frames" using example_vector_range example_kmain_same(2) by blast
qed


end
