(* ===== verification/Libc.thy ===== *)
theory Libc
  imports Startup
begin

text \<open>
  The part of the C library of user programs that calls the kernel: \<^verbatim>\<open>libc/syscalls.c\<close>, \<^verbatim>\<open>file_io.c\<close>,
  \<^verbatim>\<open>mem.c\<close> and \<^verbatim>\<open>thread.c\<close>, with the entry \<^verbatim>\<open>kernel/syscall/syscall_entry.S\<close> that the calls go through.
  The state is the one of the machine behind the \<^verbatim>\<open>syscall\<close> instruction. What comes from the C library proper
  (\<^verbatim>\<open>read\<close>, \<^verbatim>\<open>write\<close>, \<^verbatim>\<open>vsprintf\<close>, the number \<^verbatim>\<open>TIOCGWINSZ\<close>) is a parameter.
\<close>

section \<open>syscall_entry.S\<close>

text \<open>
  The instruction saves the address of the next one in \<^verbatim>\<open>rcx\<close> and the flags in \<^verbatim>\<open>r11\<close>; the entry builds the
  frame of an interrupt from them and goes on as for one.
\<close>

definition syscall_frame :: "registers_t \<Rightarrow> registers_t" where
  "syscall_frame r = r\<lparr>rcx := rip r, r11 := rflags r, int_no := 0x80, err_code := 0, cs := SEG_UCODE, ss := SEG_UDATA\<rparr>"

definition syscall_trap :: "(int_fn \<Rightarrow> registers_t \<Rightarrow> ('d, 'z) platform_scheme \<Rightarrow> (registers_t \<times> ('d, 'z) platform_scheme) res)
    \<Rightarrow> registers_t \<Rightarrow> ('d, 'z) platform_scheme \<Rightarrow> (registers_t \<times> ('d, 'z) platform_scheme) res" where
  "syscall_trap run r s = int_handler run (syscall_frame r) s"

section \<open>syscalls.c\<close>

text \<open>
  What the library runs on: the instruction, the registers before it, what an argument that the caller
  did not pass happens to be, the memory of the process, and the functions of the C library.
\<close>

record 's uenv =
  trap :: "registers_t \<Rightarrow> 's \<Rightarrow> (registers_t \<times> 's) res"
  uregs :: registers_t
  junk :: "nat \<Rightarrow> u64"
  umem :: "'s \<Rightarrow> mem"
  debug_buffer :: addr
  vsprintf :: "string \<Rightarrow> u64 list \<Rightarrow> 's \<Rightarrow> 's"
  libc_read :: "u32 \<Rightarrow> addr \<Rightarrow> u64 \<Rightarrow> 's \<Rightarrow> (u64 \<times> 's) res"
  libc_write :: "u32 \<Rightarrow> addr \<Rightarrow> u64 \<Rightarrow> 's \<Rightarrow> (u64 \<times> 's) res"
  TIOCGWINSZ :: u64

text \<open>
  Variable arguments. All six are read as \<^verbatim>\<open>long\<close>; the upper half of one that was passed as an
  \<^verbatim>\<open>int\<close> is not defined.
\<close>

datatype vararg = VLong u64 | VInt u32

definition va_arg :: "(nat \<Rightarrow> u64) \<Rightarrow> vararg list \<Rightarrow> nat \<Rightarrow> u64" where
  "va_arg jk vs i =
     (if i < length vs then (case vs ! i of VLong w \<Rightarrow> w | VInt w \<Rightarrow> push_bit 32 (jk i) OR ucast w) else jk i)"

definition kernel_syscall :: "'s uenv \<Rightarrow> u32 \<Rightarrow> vararg list \<Rightarrow> 's \<Rightarrow> (u64 \<times> 's) res" where
  "kernel_syscall e num vs s =
     (let a1 = va_arg (junk e) vs 0; a2 = va_arg (junk e) vs 1; a3 = va_arg (junk e) vs 2;
          a4 = va_arg (junk e) vs 3; a5 = va_arg (junk e) vs 4; a6 = va_arg (junk e) vs 5
      in bindR (trap e ((uregs e)\<lparr>rax := ucast num, rdi := a1, rsi := a2, rdx := a3, r10 := a4, r8 := a5, r9 := a6\<rparr>) s) (\<lambda>(r, s). Inr (rax r, s)))"

abbreviation (input) SYS_DEBUG :: u32 where "SYS_DEBUG \<equiv> 0x3FF"
abbreviation (input) SYS_OPEN :: u32 where "SYS_OPEN \<equiv> 1"
abbreviation (input) SYS_CLOSE :: u32 where "SYS_CLOSE \<equiv> 2"
abbreviation (input) SYS_READ :: u32 where "SYS_READ \<equiv> 3"
abbreviation (input) SYS_WRITE :: u32 where "SYS_WRITE \<equiv> 4"
abbreviation (input) SYS_ISATTY :: u32 where "SYS_ISATTY \<equiv> 5"
abbreviation (input) SYS_SEEK :: u32 where "SYS_SEEK \<equiv> 6"
abbreviation (input) SYS_BRK :: u32 where "SYS_BRK \<equiv> 7"
abbreviation (input) SYS_FORK :: u32 where "SYS_FORK \<equiv> 8"
abbreviation (input) SYS_EXIT :: u32 where "SYS_EXIT \<equiv> 9"
abbreviation (input) SYS_WAIT :: u32 where "SYS_WAIT \<equiv> 0xA"
abbreviation (input) SYS_PIPE :: u32 where "SYS_PIPE \<equiv> 0xB"

definition kernel_debug :: "'s uenv \<Rightarrow> string \<Rightarrow> u64 list \<Rightarrow> 's \<Rightarrow> 's res" where
  "kernel_debug e fmt args s =
     (let s = vsprintf e fmt args s
      in bindR (kernel_syscall e SYS_DEBUG [VLong (debug_buffer e)] s) (\<lambda>(_, s). Inr s))"

text \<open>A call that the library does not know prints a message and never returns.\<close>

definition syscall_common :: "'s uenv \<Rightarrow> u64 \<Rightarrow> vararg list \<Rightarrow> 's \<Rightarrow> (u64 \<times> 's) res" where
  "syscall_common e num vs s =
     bindR (kernel_debug e ''==> SYSCALL %ld (%lx, %lx, %lx, %lx, %lx, %lx)'' (num # map (va_arg (junk e) vs) [0..<6]) s) (\<lambda>s. Inl Diverges)"

section \<open>file_io.c\<close>

text \<open>
  The definitions of \<^verbatim>\<open>SYSCALL_DEF\<close> take six arguments of type \<^verbatim>\<open>long\<close>, and \<^verbatim>\<open>SYSCALL_INIT\<close> converts the
  first of them to the types of the call.
\<close>

definition lib_open :: "'s uenv \<Rightarrow> u64 \<Rightarrow> u64 \<Rightarrow> u64 \<Rightarrow> 's \<Rightarrow> (u64 \<times> 's) res" where
  "lib_open e a1 a2 a3 s =
     (let path = a1; flags = ucast a2; mode = ucast a3 in kernel_syscall e SYS_OPEN [VLong path, VInt flags, VInt mode] s)"

definition lib_close :: "'s uenv \<Rightarrow> u64 \<Rightarrow> 's \<Rightarrow> (u64 \<times> 's) res" where
  "lib_close e a1 s = (let fd = ucast a1 in kernel_syscall e SYS_CLOSE [VInt fd] s)"

definition lib_read :: "'s uenv \<Rightarrow> u64 \<Rightarrow> u64 \<Rightarrow> u64 \<Rightarrow> 's \<Rightarrow> (u64 \<times> 's) res" where
  "lib_read e a1 a2 a3 s =
     (let fd = ucast a1; buffer = a2; nbyte = a3 in kernel_syscall e SYS_READ [VInt fd, VLong buffer, VLong nbyte] s)"

definition lib_write :: "'s uenv \<Rightarrow> u64 \<Rightarrow> u64 \<Rightarrow> u64 \<Rightarrow> 's \<Rightarrow> (u64 \<times> 's) res" where
  "lib_write e a1 a2 a3 s =
     (let fd = ucast a1; buffer = a2; nbyte = a3 in kernel_syscall e SYS_WRITE [VInt fd, VLong buffer, VLong nbyte] s)"

definition lib_lseek :: "'s uenv \<Rightarrow> u64 \<Rightarrow> u64 \<Rightarrow> u64 \<Rightarrow> 's \<Rightarrow> (u64 \<times> 's) res" where
  "lib_lseek e a1 a2 a3 s =
     (let fd = ucast a1; off = a2; whence = ucast a3 in kernel_syscall e SYS_SEEK [VInt fd, VLong off, VInt whence] s)"

text \<open>One round of the loops of \<^verbatim>\<open>readv\<close> and \<^verbatim>\<open>writev\<close>; an entry of the vector is an address and a length.\<close>

definition iov_round :: "('s \<Rightarrow> mem) \<Rightarrow> (addr \<Rightarrow> u64 \<Rightarrow> 's \<Rightarrow> (u64 \<times> 's) res) \<Rightarrow> addr \<Rightarrow> nat \<Rightarrow> u64 \<times> 's \<Rightarrow> (u64 \<times> 's) res" where
  "iov_round um io iov i ls =
     (let (len, s) = ls; base = load64 (um s) (iov + 16 * of_nat i); n = load64 (um s) (iov + 16 * of_nat i + 8)
      in bindR (io base n s) (\<lambda>(r, s). Inr (len + r, s)))"

definition lib_readv :: "'s uenv \<Rightarrow> u64 \<Rightarrow> u64 \<Rightarrow> u64 \<Rightarrow> 's \<Rightarrow> (u64 \<times> 's) res" where
  "lib_readv e a1 a2 a3 s =
     (let fd = ucast a1; iov = a2; iovcnt = sint (ucast a3 :: u32)
      in foldR (iov_round (umem e) (libc_read e fd) iov) [0..<nat iovcnt] (0, s))"

definition lib_writev :: "'s uenv \<Rightarrow> u64 \<Rightarrow> u64 \<Rightarrow> u64 \<Rightarrow> 's \<Rightarrow> (u64 \<times> 's) res" where
  "lib_writev e a1 a2 a3 s =
     (let fd = ucast a1; iov = a2; iovcnt = sint (ucast a3 :: u32)
      in foldR (iov_round (umem e) (libc_write e fd) iov) [0..<nat iovcnt] (0, s))"

definition lib_ioctl :: "'s uenv \<Rightarrow> u64 \<Rightarrow> u64 \<Rightarrow> 's \<Rightarrow> (u64 \<times> 's) res" where
  "lib_ioctl e a1 a2 s =
     (let fd = ucast a1; request = a2 in
      if request = TIOCGWINSZ e then bindR (kernel_syscall e SYS_ISATTY [VInt fd] s) (\<lambda>(r, s). Inr (if r = 0 then 1 else 0, s))
      else bindR (kernel_debug e ''==> IOCTL - unsupported request:%lx'' [request] s) (\<lambda>s. Inr (-1, s)))"

definition lib_pipe :: "'s uenv \<Rightarrow> u64 \<Rightarrow> 's \<Rightarrow> (u64 \<times> 's) res" where
  "lib_pipe e a1 s = (let fd = a1 in kernel_syscall e SYS_PIPE [VLong fd] s)"

section \<open>mem.c\<close>

definition lib_brk :: "'s uenv \<Rightarrow> u64 \<Rightarrow> 's \<Rightarrow> (u64 \<times> 's) res" where
  "lib_brk e a1 s = (let brk = a1 in kernel_syscall e SYS_BRK [VLong brk] s)"

section \<open>thread.c\<close>

text \<open>The pointer \<^verbatim>\<open>__pt\<close> is the state of the three functions for thread areas; the other calls without effect return zero.\<close>

definition pthread_self :: "addr \<Rightarrow> addr" where
  "pthread_self pt = pt"

definition lib_set_thread_area :: "u64 \<Rightarrow> addr \<Rightarrow> u64 \<times> addr" where
  "lib_set_thread_area a1 pt = (0, a1)"

definition lib_set_tid_address :: u64 where "lib_set_tid_address = 0"

definition lib_rt_sigprocmask :: "u64 \<Rightarrow> u64 \<Rightarrow> u64 \<Rightarrow> u64" where "lib_rt_sigprocmask a1 a2 a3 = 0"

definition lib_gettid :: u64 where "lib_gettid = 0"

definition lib_fork :: "'s uenv \<Rightarrow> 's \<Rightarrow> (u64 \<times> 's) res" where
  "lib_fork e s = kernel_syscall e SYS_FORK [] s"

definition lib_exit_group :: "'s uenv \<Rightarrow> u64 \<Rightarrow> 's \<Rightarrow> (u64 \<times> 's) res" where
  "lib_exit_group e a1 s = (let result = ucast a1 in kernel_syscall e SYS_EXIT [VInt result] s)"

definition lib_wait4 :: "'s uenv \<Rightarrow> u64 \<Rightarrow> u64 \<Rightarrow> u64 \<Rightarrow> u64 \<Rightarrow> 's \<Rightarrow> (u64 \<times> 's) res" where
  "lib_wait4 e a1 a2 a3 a4 s = (let result = a2 in kernel_syscall e SYS_WAIT [VLong result] s)"

section \<open>From the library to the kernel\<close>

text \<open>What a handler sees of a variable argument.\<close>

fun received :: "vararg \<Rightarrow> u64 \<Rightarrow> bool" where
  "received (VLong w) x \<longleftrightarrow> x = w"
| "received (VInt w) x \<longleftrightarrow> ucast x = w"

lemma va_arg_received: "i < length vs \<Longrightarrow> received (vs ! i) (va_arg jk vs i)"
  by (cases "vs ! i") (auto simp: va_arg_def bit_simps intro!: bit_word_eqI)

text \<open>\<open>reaches h n vs s r\<close>: the call \<open>r\<close> is that of the handler \<open>h\<close> under the number \<open>n\<close> with the arguments \<open>vs\<close>.\<close>

definition reaches :: "'s handler \<Rightarrow> u64 \<Rightarrow> vararg list \<Rightarrow> 's \<Rightarrow> (u64 \<times> 's) res \<Rightarrow> bool" where
  "reaches h n vs s r \<longleftrightarrow> (\<exists>x. (\<forall>i < length vs. received (vs ! i) (x i)) \<and> r = h n (x 0) (x 1) (x 2) (x 3) (x 4) (x 5) s)"

lemma reaches_eqI:
  assumes "reaches h n vs s r" "\<And>x. (\<And>i. i < length vs \<Longrightarrow> received (vs ! i) (x i)) \<Longrightarrow> h n (x 0) (x 1) (x 2) (x 3) (x 4) (x 5) s = r'"
  shows "r = r'"
  using assms unfolding reaches_def by blast

locale kernel_calls =
  fixes e :: "'s uenv" and c :: "'s syscalls" and ready :: "'s \<Rightarrow> bool"
  assumes trap_call: "ready s \<Longrightarrow> map_of (sys_numbers c) (unat (rax r)) = Some h
    \<Longrightarrow> bindR (trap e r s) (\<lambda>(r, s). Inr (rax r, s)) = h (rax r) (rdi r) (rsi r) (rdx r) (r10 r) (r8 r) (r9 r) s"
begin

lemma kernel_syscall_reaches:
  assumes "ready s" "map_of (sys_numbers c) (unat num) = Some h"
  shows "reaches h (ucast num) vs s (kernel_syscall e num vs s)"
proof -
  have "unat num < 2 ^ LENGTH(32)" by (rule unsigned_less)
  then have "unat (ucast num :: u64) = unat num" by (simp add: unsigned_ucast_eq take_bit_nat_eq_self)
  then have "kernel_syscall e num vs s = h (ucast num) (va_arg (junk e) vs 0) (va_arg (junk e) vs 1) (va_arg (junk e) vs 2)
      (va_arg (junk e) vs 3) (va_arg (junk e) vs 4) (va_arg (junk e) vs 5) s"
    using trap_call [OF assms(1), where r = "(uregs e)\<lparr>rax := ucast num, rdi := va_arg (junk e) vs 0, rsi := va_arg (junk e) vs 1,
      rdx := va_arg (junk e) vs 2, r10 := va_arg (junk e) vs 3, r8 := va_arg (junk e) vs 4, r9 := va_arg (junk e) vs 5\<rparr>"] assms(2)
    by (simp add: kernel_syscall_def Let_def)
  then show ?thesis using va_arg_received unfolding reaches_def by blast
qed

lemma library_calls:
  assumes "ready s"
  shows "reaches (sys_open c) 1 [VLong a1, VInt (ucast a2), VInt (ucast a3)] s (lib_open e a1 a2 a3 s)"
    "reaches (sys_close c) 2 [VInt (ucast a1)] s (lib_close e a1 s)"
    "reaches (sys_read c) 3 [VInt (ucast a1), VLong a2, VLong a3] s (lib_read e a1 a2 a3 s)"
    "reaches (sys_write c) 4 [VInt (ucast a1), VLong a2, VLong a3] s (lib_write e a1 a2 a3 s)"
    "reaches (sys_isatty c) 5 [VInt (ucast a1)] s (kernel_syscall e SYS_ISATTY [VInt (ucast a1)] s)"
    "reaches (sys_seek c) 6 [VInt (ucast a1), VLong a2, VInt (ucast a3)] s (lib_lseek e a1 a2 a3 s)"
    "reaches (sys_brk c) 7 [VLong a1] s (lib_brk e a1 s)" "reaches (sys_fork c) 8 [] s (lib_fork e s)"
    "reaches (sys_exit c) 9 [VInt (ucast a1)] s (lib_exit_group e a1 s)" "reaches (sys_wait c) 0xA [VLong a2] s (lib_wait4 e a1 a2 a3 a4 s)"
    "reaches (sys_pipe c) 0xB [VLong a1] s (lib_pipe e a1 s)"
  using kernel_syscall_reaches [OF assms, of 1 "sys_open c"] kernel_syscall_reaches [OF assms, of 2 "sys_close c"]
    kernel_syscall_reaches [OF assms, of 3 "sys_read c"] kernel_syscall_reaches [OF assms, of 4 "sys_write c"]
    kernel_syscall_reaches [OF assms, of 5 "sys_isatty c"] kernel_syscall_reaches [OF assms, of 6 "sys_seek c"]
    kernel_syscall_reaches [OF assms, of 7 "sys_brk c"] kernel_syscall_reaches [OF assms, of 8 "sys_fork c"]
    kernel_syscall_reaches [OF assms, of 9 "sys_exit c"] kernel_syscall_reaches [OF assms, of "0xA" "sys_wait c"]
    kernel_syscall_reaches [OF assms, of "0xB" "sys_pipe c"]
  by (simp_all add: sys_numbers_def lib_open_def lib_close_def lib_read_def lib_write_def lib_lseek_def lib_brk_def lib_fork_def
      lib_exit_group_def lib_wait4_def lib_pipe_def)

end

text \<open>The kernel behind the instruction, once \<^verbatim>\<open>syscall_init\<close> has registered the handler.\<close>

definition syscalls_ready :: "('d, 'z) platform_scheme \<Rightarrow> bool" where
  "syscalls_ready s \<longleftrightarrow> 0x80 < length (int_handlers s) \<and> int_handlers s ! 0x80 = Some Syscall_handler"

abbreviation kernel_env :: "('d, 'z) platform_scheme uenv \<Rightarrow> 'd mmio \<Rightarrow> ('d, 'z) platform_scheme syscalls \<Rightarrow> addr \<Rightarrow> ('d, 'z) platform_scheme uenv" where
  "kernel_env e mm c cr2 \<equiv> e\<lparr>trap := syscall_trap (run_handler mm (syscall_init_handlers c) cr2)\<rparr>"

lemma sys_numbers_below: "map_of (sys_numbers c) n = Some h \<Longrightarrow> n < 1024"
  by (auto simp: sys_numbers_def split: if_splits)

lemma kernel_env_call:
  assumes "syscalls_ready s" and h: "map_of (sys_numbers c) (unat (rax r)) = Some h"
  shows "bindR (trap (kernel_env e mm c cr2) r s) (\<lambda>(r, s). Inr (rax r, s)) = h (rax r) (rdi r) (rsi r) (rdx r) (r10 r) (r8 r) (r9 r) s"
  using assms sys_numbers_below [OF h]
  by (cases "h (rax r) (rdi r) (rsi r) (rdx r) (r10 r) (r8 r) (r9 r) s")
    (auto simp: syscalls_ready_def syscall_trap_def int_handler_def syscall_frame_def run_handler_def syscall_handler_def handlers_nth)

interpretation lib: kernel_calls "kernel_env e mm c cr2" c syscalls_ready for e mm c cr2
  by unfold_locales (rule kernel_env_call)

lemma syscall_init_ready:
  fixes s :: "('d, 'z) startup_scheme"
  assumes "platform_wf s" "\<not> syscall_installed s"
  obtains s' where "syscall_init mm entry s = Inr s'" "syscalls_ready s'"
  using assms by (auto simp: syscall_init_def register_int_handler_def platform_wf_def syscalls_ready_def Let_def)

text \<open>
  The calls whose arguments and results are numbers, with the conversions of \<^verbatim>\<open>SYSCALL_INIT\<close> and of the result.
\<close>

definition scalar_calls :: "(drvref \<Rightarrow> 'z kernel_scheme fs_driver) \<Rightarrow> addr \<Rightarrow> 'z kernel_scheme syscalls \<Rightarrow> 'z kernel_scheme syscalls" where
  "scalar_calls drv isr_ret c = c
     \<lparr>sys_close := (\<lambda>num a1 a2 a3 a4 a5 a6 s. bindR (syscall_close drv (int32 a1) s) (\<lambda>(r, s). Inr (of_int r, s))),
      sys_isatty := (\<lambda>num a1 a2 a3 a4 a5 a6 s. bindR (syscall_isatty (int32 a1) s) (\<lambda>r. Inr (of_int r, s))),
      sys_seek := (\<lambda>num a1 a2 a3 a4 a5 a6 s. syscall_seek (int32 a1) a2 (int32 a3) s),
      sys_brk := (\<lambda>num a1 a2 a3 a4 a5 a6 s. syscall_brk a1 s),
      sys_fork := (\<lambda>num a1 a2 a3 a4 a5 a6 s. syscall_fork drv isr_ret s)\<rparr>"

lemma int32_received: "received (VInt (ucast a)) x \<Longrightarrow> int32 x = int32 a"
  by (simp add: int32_def)

lemma scalar_library_calls:
  assumes "syscalls_ready s"
  shows "lib_close (kernel_env e mm (scalar_calls drv ir c) cr2) a1 s = bindR (syscall_close drv (int32 a1) s) (\<lambda>(r, s). Inr (of_int r, s))"
    "lib_lseek (kernel_env e mm (scalar_calls drv ir c) cr2) a1 a2 a3 s = syscall_seek (int32 a1) a2 (int32 a3) s"
    "lib_brk (kernel_env e mm (scalar_calls drv ir c) cr2) a1 s = syscall_brk a1 s"
    "lib_fork (kernel_env e mm (scalar_calls drv ir c) cr2) s = syscall_fork drv ir s"
    "kernel_syscall (kernel_env e mm (scalar_calls drv ir c) cr2) SYS_ISATTY [VInt (ucast a1)] s = bindR (syscall_isatty (int32 a1) s) (\<lambda>r. Inr (of_int r, s))"
proof -
  note L = lib.library_calls [OF assms, where c = "scalar_calls drv ir c"]
  have "received (VInt (ucast b)) (x i) \<Longrightarrow> int32 (x i) = int32 b" for x and i :: nat and b by (rule int32_received)
  note r = this [where i = 0] this [where i = 2]
  show "lib_close (kernel_env e mm (scalar_calls drv ir c) cr2) a1 s = bindR (syscall_close drv (int32 a1) s) (\<lambda>(r, s). Inr (of_int r, s))"
    by (rule reaches_eqI [OF L(2)]) (use r(1) [of a1] in \<open>force simp: scalar_calls_def\<close>)
  show "lib_lseek (kernel_env e mm (scalar_calls drv ir c) cr2) a1 a2 a3 s = syscall_seek (int32 a1) a2 (int32 a3) s"
  proof (rule reaches_eqI [OF L(6)])
    fix x assume "\<And>i. i < length [VInt (ucast a1), VLong a2, VInt (ucast a3)] \<Longrightarrow> received ([VInt (ucast a1), VLong a2, VInt (ucast a3)] ! i) (x i)"
    from this [of 0] this [of 1] this [of 2] show "sys_seek (scalar_calls drv ir c) 6 (x 0) (x 1) (x 2) (x 3) (x 4) (x 5) s = syscall_seek (int32 a1) a2 (int32 a3) s"
      using r(1) [of a1 x] r(2) [of a3 x] by (simp add: scalar_calls_def numeral_2_eq_2)
  qed
  show "lib_brk (kernel_env e mm (scalar_calls drv ir c) cr2) a1 s = syscall_brk a1 s"
    by (rule reaches_eqI [OF L(7)]) (force simp: scalar_calls_def)
  show "lib_fork (kernel_env e mm (scalar_calls drv ir c) cr2) s = syscall_fork drv ir s"
    by (rule reaches_eqI [OF L(8)]) (simp add: scalar_calls_def)
  show "kernel_syscall (kernel_env e mm (scalar_calls drv ir c) cr2) SYS_ISATTY [VInt (ucast a1)] s = bindR (syscall_isatty (int32 a1) s) (\<lambda>r. Inr (of_int r, s))"
    by (rule reaches_eqI [OF L(5)]) (use r(1) [of a1] in \<open>force simp: scalar_calls_def\<close>)
qed

lemma lib_ioctl_size:
  assumes "syscalls_ready s"
  shows "lib_ioctl (kernel_env e mm (scalar_calls drv ir c) cr2) a1 (TIOCGWINSZ e) s = bindR (syscall_isatty (int32 a1) s) (\<lambda>r. Inr (if r = 0 then 1 else 0, s))"
proof -
  have "r = 0 \<or> r = 1" if "syscall_isatty (int32 a1) s = Inr r" for r using that by (auto simp: syscall_isatty_def bindR_Inr_iff split: if_splits)
  then show ?thesis using scalar_library_calls(5) [OF assms]
    by (cases "syscall_isatty (int32 a1) s") (auto simp: lib_ioctl_def)
qed


definition example_env :: "unit startup uenv" where
  "example_env = \<lparr>trap = (\<lambda>r s. Inr (r, s)), uregs = zero_registers, junk = (\<lambda>i. 0x123456789 * of_nat i + 7), umem = (\<lambda>s. kmem s), debug_buffer = 0,
     vsprintf = (\<lambda>_ _ s. s), libc_read = (\<lambda>_ _ _ s. Inr (0, s)), libc_write = (\<lambda>_ _ _ s. Inr (0, s)), TIOCGWINSZ = 0x5413\<rparr>"

abbreviation example_calls :: "unit startup syscalls" where
  "example_calls \<equiv> (let h = (\<lambda>_ _ _ _ _ _ _ s. Inr (0, s)) in \<lparr>sys_debug = h, sys_open = h, sys_close = h, sys_read = h, sys_write = h, sys_isatty = h,
     sys_seek = h, sys_pipe = h, sys_brk = h, sys_fork = h, sys_exit = h, sys_wait = h\<rparr>)"

definition idle_drivers :: "drvref \<Rightarrow> unit startup fs_driver" where
  "idle_drivers r = \<lparr>open_fn = None, close_fn = None, read_fn = None, write_fn = None, readdir_fn = None\<rparr>"


section \<open>Vectors of buffers\<close>

text \<open>
  When \<^verbatim>\<open>write\<close> appends its bytes to a stream and returns their number, \<^verbatim>\<open>writev\<close> appends the concatenation of the
  buffers, in order, and returns the sum of their lengths.
\<close>

abbreviation iov_bytes :: "mem \<Rightarrow> addr \<Rightarrow> nat \<Rightarrow> u8 list" where
  "iov_bytes m iov i \<equiv> map (\<lambda>j. m (load64 m (iov + 16 * of_nat i) + of_nat j)) [0..<unat (load64 m (iov + 16 * of_nat i + 8))]"

lemma iov_rounds_stream:
  assumes io: "\<And>b n s. P s \<Longrightarrow> \<exists>s'. io b n s = Inr (n, s') \<and> P s' \<and> um s' = um s \<and> out s' = out s @ map (\<lambda>j. um s (b + of_nat j)) [0..<unat n]"
    and "P s"
  shows "\<exists>s'. foldR (iov_round um io iov) [0..<k] (0, s) = Inr (\<Sum>i<k. load64 (um s) (iov + 16 * of_nat i + 8), s')
    \<and> P s' \<and> um s' = um s \<and> out s' = out s @ concat (map (iov_bytes (um s) iov) [0..<k])"
proof (induction k)
  case (Suc k)
  then obtain s' where s': "foldR (iov_round um io iov) [0..<k] (0, s) = Inr (\<Sum>i<k. load64 (um s) (iov + 16 * of_nat i + 8), s')"
    "P s'" "um s' = um s" "out s' = out s @ concat (map (iov_bytes (um s) iov) [0..<k])" by blast
  let ?b = "load64 (um s) (iov + 16 * of_nat k)" and ?n = "load64 (um s) (iov + 16 * of_nat k + 8)"
  obtain t where t: "io ?b ?n s' = Inr (?n, t)" "P t" "um t = um s" "out t = out s' @ map (\<lambda>j. um s (?b + of_nat j)) [0..<unat ?n]"
    using io [OF s'(2)] s'(3) by metis
  have "iov_round um io iov k (l, s') = Inr (l + ?n, t)" for l by (simp add: iov_round_def Let_def s'(3) t(1))
  then show ?case using s' t by (simp add: foldR_append)
qed (simp add: assms(2))

theorem lib_writev_gathers:
  assumes "\<And>b n s. P s \<Longrightarrow> \<exists>s'. libc_write e (ucast a1) b n s = Inr (n, s') \<and> P s' \<and> umem e s' = umem e s
      \<and> out s' = out s @ map (\<lambda>j. umem e s (b + of_nat j)) [0..<unat n]"
    and "P s" and "sint (ucast a3 :: u32) = int k"
  shows "\<exists>s'. lib_writev e a1 iov a3 s = Inr (\<Sum>i<k. load64 (umem e s) (iov + 16 * of_nat i + 8), s')
    \<and> out s' = out s @ concat (map (iov_bytes (umem e s) iov) [0..<k])"
  using iov_rounds_stream [where P = P and s = s and io = "libc_write e (ucast a1)" and um = "umem e" and out = out, OF assms(1,2)] assms(3)
  by (auto simp: lib_writev_def Let_def)

text \<open>A \<^verbatim>\<open>write\<close> that fails adds its \<open>-1\<close> to the total.\<close>

theorem lib_writev_failing:
  assumes "\<And>b n. libc_write e (ucast a1) b n s = Inr (-1, s)" and "sint (ucast a3 :: u32) = int k"
  shows "lib_writev e a1 iov a3 s = Inr (- of_nat k, s)"
proof -
  have "foldR (iov_round (umem e) (libc_write e (ucast a1)) iov) [0..<k] (0, s) = Inr (- of_nat k, s)"
    by (induction k) (auto simp: foldR_append iov_round_def Let_def assms(1))
  then show ?thesis using assms(2) by (simp add: lib_writev_def Let_def)
qed

end
