(* ===== verification/Spec2Isabelle.thy ===== *)
theory Spec2Isabelle
  imports KString KList Pmm Vmm Heap Pipe Vfs Console Procmm Process Scheduler Syscall Ata Devfs Boot Interrupts Startup Kmain Libc
begin

text \<open>
  A verification development for mittos64, a small kernel for x86-64 processors written in C, and for the layer
  of its user library that calls it.

  \<^bold>\<open>The program.\<close> The boot loader enters \<^verbatim>\<open>kmain\<close> (\<^verbatim>\<open>kernel/boot/kmain.c\<close>), which sets up the console, the interrupt table,
  the physical page allocator from the memory map of the boot loader, the processors, the timer and the mount points, makes the
  first process from an executable image and enters the scheduler. From then on the kernel runs on interrupts: page
  faults extend the stack of a process, timer interrupts are acknowledged, and system calls of user programs go
  through one table of handlers to files, memory areas and processes. Everything rests on four allocators on top of each other: pages
  (\<^verbatim>\<open>pmm.c\<close>), page tables (\<^verbatim>\<open>vmm.c\<close>), the heap (\<^verbatim>\<open>heap.c\<close>) for kernel objects, and the areas of a process (\<^verbatim>\<open>procmm.c\<close>).

  \<^bold>\<open>States.\<close> The state of a component is a record that extends the state of the one it calls, and every operation
  is polymorphic in the rest of the record, so a component's lemmas apply unchanged to all states above it:

    \<^item> \<open>pmm\<close> (byte memory \<open>kmem\<close> and the free stack) \<open>\<subseteq>\<close> \<open>vmm\<close> (the boot tables and \<^verbatim>\<open>cr3\<close>);
    \<^item> \<open>vmm\<close> \<open>\<subseteq>\<close> \<open>fsys\<close> (files, pipes, mount points, objects the heap can hand out) \<open>\<subseteq>\<close> \<open>procmm\<close> (maps and areas) \<open>\<subseteq>\<close>
      \<open>kernel\<close> (processes, threads, ready queue, CPU) \<open>\<subseteq>\<close> \<open>machine\<close> (console, ports, drives) \<open>\<subseteq>\<close> \<open>platform\<close> (interrupt
      tables, CPU array) \<open>\<subseteq>\<close> \<open>startup\<close>;
    \<^item> \<open>vmm\<close> \<open>\<subseteq>\<close> \<open>kheap\<close> (the heap) and \<open>vmm\<close> \<open>\<subseteq>\<close> \<open>boot\<close> (boot information), two branches of their own.

  Byte memory maps 64-bit kernel addresses to bytes, and machine integers are words of their width, so all arithmetic wraps as in the
  code. Packed structures of the hardware, of the boot loader and of executables are read at their offsets. Kernel
  objects (files, pipes, areas, maps, processes, threads, chunk headers) are typed stores indexed by address;
  freeing one removes it, so a use after free, a second free, a null dereference, an access outside an array, a panic and a loop
  that does not end are error values of the result type (\<open>kerr\<close> in \<open>Prelude\<close>). Intrusive lists keep their pointers
  as the code has them. A call that blocks returns \<open>Waiting\<close> with the state at that point instead of \<open>Returned\<close>.

  \<^bold>\<open>Theories.\<close>

    \<^item> \<open>Prelude\<close>: types, results, page arithmetic of \<^verbatim>\<open>mem.h\<close>. \<open>KString\<close>: \<^verbatim>\<open>kernel/mem/string.c\<close> on byte memory, with the
      exact condition under which \<^verbatim>\<open>memmove\<close> moves a block. \<open>KList\<close>: \<^verbatim>\<open>include/list.h\<close>; any program of list
      operations refines the operations on a sequence.
    \<^item> \<open>Pmm\<close>, \<open>Vmm\<close>: \<^verbatim>\<open>kernel/mem/pmm.c\<close>, \<^verbatim>\<open>vmm.c\<close>. The free stack as a sequence of frames; page tables as trees of
      distinct frames; set and get of pages, isolation of address spaces, copying across page boundaries.
    \<^item> \<open>Heap\<close>: \<^verbatim>\<open>kernel/mem/heap.c\<close>. Chunks tile the heap and no two free ones are neighbours; \<^verbatim>\<open>kmalloc\<close> is first fit; every program
      that frees what it holds runs without overlap of live blocks.
    \<^item> \<open>Pipe\<close>, \<open>Vfs\<close>: \<^verbatim>\<open>kernel/fs/pipe.c\<close>, \<^verbatim>\<open>vfs.c\<close>. The ring buffer as a FIFO queue under any interleaving; reference
      counts, mount points and path lookup.
    \<^item> \<open>Console\<close>, \<open>Ata\<close>, \<open>Devfs\<close>: \<^verbatim>\<open>kernel/drivers/vga.c\<close>, \<^verbatim>\<open>serial.c\<close>, \<^verbatim>\<open>boot/debug.c\<close>; \<^verbatim>\<open>drivers/ata.c\<close>; \<^verbatim>\<open>fs/ata_fs.c\<close>, \<^verbatim>\<open>debug_fs.c\<close>.
      Formatted output against a renderer of the format, video memory against the printed text, byte access to disks, and the
      whole way from a write call to the sectors and back.
    \<^item> \<open>Procmm\<close>, \<open>Process\<close>, \<open>Scheduler\<close>: \<^verbatim>\<open>kernel/proc/procmm.c\<close>, \<^verbatim>\<open>process.c\<close>, \<^verbatim>\<open>thread.c\<close>, \<^verbatim>\<open>scheduler.c\<close>. Mapping, unmapping and
      resizing areas, inheritance of files, adoption of orphans, round robin.
    \<^item> \<open>Syscall\<close>: \<^verbatim>\<open>kernel/syscall/*.c\<close>. Dispatch, opening and closing files.
    \<^item> \<open>Boot\<close>: \<^verbatim>\<open>kernel/boot/multiboot.c\<close> and \<^verbatim>\<open>pmm_init\<close>. Which tags are found, which pages become free.
    \<^item> \<open>Interrupts\<close>, \<open>Startup\<close>: \<^verbatim>\<open>kernel/arch/gdt.c\<close>, \<^verbatim>\<open>interrupts/*.c\<close>, \<^verbatim>\<open>drivers/pit.c\<close>; \<^verbatim>\<open>arch/acpi.c\<close>, \<^verbatim>\<open>cpu/cpu.c\<close>, \<^verbatim>\<open>cpu/smp.c\<close>. Descriptors and
      gates decode to what is meant; a page fault from the interrupt to the table; the processors of the firmware
      table; an inductive relation of start-up steps and the sizes that each keeps.
    \<^item> \<open>Elf\<close>, \<open>Exec\<close>: \<^verbatim>\<open>kernel/proc/elf.c\<close>, \<^verbatim>\<open>exec_elf.c\<close>. Loading the segments of an executable through two sets of page tables,
      and the arguments and environment that the new program finds in its memory.
    \<^item> \<open>Kmain\<close>: the end of \<^verbatim>\<open>kernel/boot/kmain.c\<close>, from the mount points to the first thread in the ready queue, over the theorems on page
      tables, path lookup, processes, loading and the queue.
    \<^item> \<open>Libc\<close>: \<^verbatim>\<open>libc/*.c\<close> and \<^verbatim>\<open>syscall_entry.S\<close>. The functions of the library are those of the kernel, whatever the
      undefined parts of variable arguments hold.

  \<^bold>\<open>Interfaces.\<close> Contracts between components are locales, each interpreted on the definitions of the model: \<open>intrusive_queue\<close> on the list
  macros, \<open>frame_allocator\<close> on \<^verbatim>\<open>pmm_alloc\<close> and \<^verbatim>\<open>pmm_free\<close>, \<open>allocator\<close> on \<^verbatim>\<open>kmalloc\<close> and \<^verbatim>\<open>kfree\<close>, \<open>kernel_calls\<close> on the
  system call instruction with the kernel behind it. Hardware is a parameter of the definitions (records \<open>device\<close> for ports and
  \<open>mmio\<close> for memory mapped and model specific registers); what a driver relies on is the locale \<open>ata_disk\<close> or
  \<open>ioapic_chip\<close>, interpreted on a simulated disk and a simulated chip. Also parameters: the drivers of the file layer, addresses of
  linker symbols and of string literals, what other processors do while one waits for them, and the functions of the
  C library proper that the user library calls.

  \<^bold>\<open>Loops.\<close> There is no fuel. A loop that always ends is a function with a termination proof. A loop that may not end on some memory
  or device (an unterminated string, a cyclic list, a device that stays busy, a list of tags without end) is a
  partial function into an option type whose \<open>None\<close> becomes the error \<open>Diverges\<close>; the theorems then state that it
  returns, for well-formed inputs, not only what it returns.

  \<^bold>\<open>Theorems with conditions\<close> are applied to a concrete state after them. These states are small but complete: tables and a
  free stack in byte memory, an executable image with its headers, a process with its map.

  \<^bold>\<open>Errors of the code\<close> that the model shows are theorems too: a pipe freed under its last close and a thread under the loop
  that frees it, \<^verbatim>\<open>memmove\<close> on an overlap to the right, an image that is read through pages of 2 MiB, a null
  map end after a rejected image, totals of \<^verbatim>\<open>writev\<close> that count failures.

  \<^bold>\<open>Not modelled.\<close>

    \<^item> Locks (\<^verbatim>\<open>sync.S\<close>): every operation runs alone, except that pipes and waits are split where they block.
    \<^item> Assembly: boot code, interrupt entry, stack switch, start of further processors and the SSE unit. Their effects on the state that
      the C code relies on are part of the definitions (\<^verbatim>\<open>swtch\<close>, \<^verbatim>\<open>syscall_entry\<close>) or parameters.
    \<^item> Single instructions behind C functions (\<^verbatim>\<open>ports.c\<close>, \<^verbatim>\<open>msr.c\<close>), which are the hardware parameters, and \<^verbatim>\<open>cpuid.c\<close> and
      \<^verbatim>\<open>version.c\<close>, whose results are only printed. Messages of other components, and \<^verbatim>\<open>print_registers\<close>.
    \<^item> The heap below the file and process layers: there, \<open>avail\<close> lists the addresses it hands out next; the heap itself is
      theory \<open>Heap\<close>. User buffers of system calls are byte lists there; theory \<open>Exec\<close> has user memory behind page tables.
    \<^item> The first half of \<^verbatim>\<open>kmain\<close> as one sequence: its calls are modelled, on states of different layers. Functions that
      never return (\<^verbatim>\<open>ap_start\<close>, the idle loops) up to the point where they leave the model.
    \<^item> The C library proper (musl, which the build of the tool chain downloads) and the demonstration program \<^verbatim>\<open>init/init.c\<close> above it.
\<close>

end
